(* ===== verification/Prelude.thy ===== *)
theory Prelude
  imports Main "HOL-Library.Word"
begin

text \<open>
  Shared vocabulary of the development: the widths of the machine integers the C++ code uses,
  little- and big-endian byte strings (the code copies integers with \<open>memcpy\<close> and
  \<open>reinterpret_cast\<close> on a little-endian host), signed 64-bit addition, and the generic list,
  option and word lemmas that the component theories share.
\<close>

unbundle bit_operations_syntax

named_theorems size_simps \<open>lengths of encodings\<close>
named_theorems decode_simps \<open>decoding the encoding of a value\<close>

type_synonym byte = "8 word"
type_synonym u16 = "16 word"
type_synonym u32 = "32 word"
type_synonym u64 = "64 word"
type_synonym u160 = "160 word"
type_synonym u256 = "256 word"

text \<open>C++ \<open>int\<close> and \<open>int64\<close> are words read through \<^const>\<open>sint\<close>.\<close>

type_synonym i32 = "32 word"
type_synonym i64 = "64 word"
type_synonym bytes = "byte list"

text \<open>A reader of a \<open>CDataStream\<close>: \<open>None\<close> is the \<open>std::ios_base::failure\<close> exception.\<close>

type_synonym 'a reader = "bytes \<Rightarrow> ('a \<times> bytes) option"

section \<open>Little- and big-endian numbers\<close>

fun le_nat :: "bytes \<Rightarrow> nat" where
  "le_nat [] = 0"
| "le_nat (b # bs) = unat b + 256 * le_nat bs"

fun nat_le :: "nat \<Rightarrow> nat \<Rightarrow> bytes" where
  "nat_le 0 n = []"
| "nat_le (Suc k) n = word_of_nat (n mod 256) # nat_le k (n div 256)"

definition be_nat :: "bytes \<Rightarrow> nat" where
  "be_nat bs = le_nat (rev bs)"

definition nat_be :: "nat \<Rightarrow> nat \<Rightarrow> bytes" where
  "nat_be k n = rev (nat_le k n)"

lemma length_nat_le [simp, size_simps]: "length (nat_le k n) = k"
  by (induction k arbitrary: n) auto

lemma length_nat_be [simp, size_simps]: "length (nat_be k n) = k"
  by (simp add: nat_be_def)

lemma unat_byte_of_nat [simp]: "n < 256 \<Longrightarrow> unat (word_of_nat n :: byte) = n"
  by (simp add: unat_of_nat)

lemma unat_lt_2p: "unat (w :: 'a::len word) < 2 ^ LENGTH('a)"
  by (rule unsigned_less)

lemma unat_of_nat_small: "n < 2 ^ LENGTH('a) \<Longrightarrow> unat (word_of_nat n :: 'a::len word) = n"
  by (simp add: unat_of_nat)

lemma unat_byte_lt [simp]: "unat (b :: byte) < 256"
  using unat_lt_2p [of b] by simp

lemma le_nat_nat_le: "le_nat (nat_le k n) = n mod 256 ^ k"
proof (induction k arbitrary: n)
  case 0
  then show ?case by simp
next
  case (Suc k)
  have "le_nat (nat_le (Suc k) n) = n mod 256 + 256 * (n div 256 mod 256 ^ k)"
    by (simp add: Suc)
  also have "\<dots> = n mod (256 * 256 ^ k)"
    by (metis add.commute mod_mult2_eq)
  finally show ?case by simp
qed

lemma le_nat_bound: "le_nat bs < 256 ^ length bs"
proof (induction bs)
  case Nil
  then show ?case by simp
next
  case (Cons b bs)
  have "unat b + 256 * le_nat bs < 256 * Suc (le_nat bs)" by simp
  also have "\<dots> \<le> 256 * 256 ^ length bs"
    using Cons by (intro mult_le_mono2) (simp add: Suc_le_eq)
  finally show ?case by simp
qed

lemma nat_le_le_nat: "nat_le (length bs) (le_nat bs) = bs"
proof (induction bs)
  case Nil
  then show ?case by simp
next
  case (Cons b bs)
  have "(unat b + 256 * le_nat bs) mod 256 = unat b"
    and "(unat b + 256 * le_nat bs) div 256 = le_nat bs"
    by simp_all
  with Cons show ?case by simp
qed

lemma le_nat_append: "le_nat (xs @ ys) = le_nat xs + 256 ^ length xs * le_nat ys"
  by (induction xs) (auto simp: algebra_simps)

lemma be_nat_Nil [simp]: "be_nat [] = 0"
  by (simp add: be_nat_def)

lemma be_nat_Cons: "be_nat (b # bs) = unat b * 256 ^ length bs + be_nat bs"
  by (simp add: be_nat_def le_nat_append)

lemma be_nat_append: "be_nat (xs @ ys) = be_nat xs * 256 ^ length ys + be_nat ys"
  by (simp add: be_nat_def le_nat_append)

lemma be_nat_bound: "be_nat bs < 256 ^ length bs"
  using le_nat_bound [of "rev bs"] by (simp add: be_nat_def)

lemma be_nat_nat_be: "be_nat (nat_be k n) = n mod 256 ^ k"
  by (simp add: be_nat_def nat_be_def le_nat_nat_le)

lemma nat_be_be_nat: "nat_be (length bs) (be_nat bs) = bs"
  using nat_le_le_nat [of "rev bs"] by (simp add: be_nat_def nat_be_def)

section \<open>Words as bytes\<close>

definition word_le :: "nat \<Rightarrow> 'a::len word \<Rightarrow> bytes" where
  "word_le k w = nat_le k (unat w)"

definition le_word :: "bytes \<Rightarrow> 'a::len word" where
  "le_word bs = word_of_nat (le_nat bs)"

lemma length_word_le [simp, size_simps]: "length (word_le k w) = k"
  by (simp add: word_le_def)

lemma pow256: "(256::nat) ^ k = 2 ^ (8 * k)"
  by (simp add: power_mult)

lemma le_word_word_le:
  fixes w :: "'a::len word"
  assumes "LENGTH('a) = 8 * k"
  shows "le_word (word_le k w) = w"
proof -
  have "unat w < 256 ^ k"
    using unat_lt_2p [of w] assms by (simp add: pow256)
  then show ?thesis by (simp add: le_word_def word_le_def le_nat_nat_le)
qed

lemma word_le_le_word:
  assumes "LENGTH('a::len) = 8 * length bs"
  shows "word_le (length bs) (le_word bs :: 'a word) = bs"
proof -
  have "le_nat bs < 2 ^ LENGTH('a)"
    using le_nat_bound [of bs] assms by (simp add: pow256)
  then have "unat (word_of_nat (le_nat bs) :: 'a word) = le_nat bs"
    by (rule unat_of_nat_small)
  then show ?thesis by (simp add: word_le_def le_word_def nat_le_le_nat)
qed

text \<open>\<open>READDATA\<close> of a k-byte integer.\<close>

definition read_bytes :: "nat \<Rightarrow> bytes reader" where
  "read_bytes k s = (if length s < k then None else Some (take k s, drop k s))"

definition read_word :: "nat \<Rightarrow> ('a::len word) reader" where
  "read_word k s = (case read_bytes k s of None \<Rightarrow> None | Some (b, s') \<Rightarrow> Some (le_word b, s'))"

lemma read_bytes_append [simp]: "length xs = k \<Longrightarrow> read_bytes k (xs @ s) = Some (xs, s)"
  by (auto simp: read_bytes_def)

lemma read_word_append [decode_simps]:
  fixes w :: "'a::len word"
  assumes "LENGTH('a) = 8 * k"
  shows "read_word k (word_le k w @ s) = Some (w, s)"
  by (simp add: read_word_def le_word_word_le assms)

lemma read_bytes_SomeD: "read_bytes k s = Some (b, s') \<Longrightarrow> length b = k \<and> s = b @ s'"
  by (auto simp: read_bytes_def split: if_splits)

lemma read_word_SomeD:
  fixes w :: "'a::len word"
  assumes "read_word k s = Some (w, s')" and "LENGTH('a) = 8 * k"
  shows "s = word_le k w @ s'"
proof -
  obtain b where b: "read_bytes k s = Some (b, s')" and w: "w = le_word b"
    using assms(1) by (auto simp: read_word_def split: option.splits)
  from read_bytes_SomeD [OF b] have len: "length b = k" and s: "s = b @ s'" by auto
  have "word_le (length b) (le_word b :: 'a word) = b"
    by (rule word_le_le_word) (simp add: assms(2) len)
  with s w len show ?thesis by simp
qed

section \<open>Signed 64-bit addition\<close>

lemma sint_add_no_overflow:
  fixes a b :: i64
  assumes "- (2 ^ 63) \<le> sint a + sint b" and "sint a + sint b < 2 ^ 63"
  shows "sint (a + b) = sint a + sint b"
  using assms by (simp add: sint_word_ariths signed_take_bit_int_eq_self)

lemma sint_diff_no_overflow:
  fixes a b :: i64
  assumes "- (2 ^ 63) \<le> sint a - sint b" and "sint a - sint b < 2 ^ 63"
  shows "sint (a - b) = sint a - sint b"
  using assms by (simp add: sint_word_ariths signed_take_bit_int_eq_self)

end
