(* ===== verification/Externals.thy ===== *)
theory Externals
  imports Prelude
begin

text \<open>
  Third-party code the repository calls and does not contain. The OpenSSL primitives are the
  fields of the record \<open>openssl\<close>, an argument of every definition that uses them. What the
  code relies on is stated as locales over that record, from OpenSSL's manual pages:
  \<open>openssl_mpi\<close> (the MPI number format of \<open>BN_mpi2bn\<close> and \<open>BN_bn2mpi\<close>),
  \<open>openssl_bn\<close> (the same with \<open>BN_get_word\<close>) and \<open>openssl_digest\<close> (the output sizes of the hash functions). \<open>openssl_ref\<close> implements
  the MPI format in full and interprets the locales.

  A \<open>BIGNUM\<close> is the integer it represents.
\<close>

record openssl =
  SHA256 :: "bytes \<Rightarrow> bytes"
  RIPEMD160 :: "bytes \<Rightarrow> bytes"
  SHA1 :: "bytes \<Rightarrow> bytes"
  BN_mpi2bn :: "bytes \<Rightarrow> int"
  BN_bn2mpi :: "int \<Rightarrow> bytes"
  BN_get_word :: "int \<Rightarrow> u64"
  o2i_ECPublicKey :: "bytes \<Rightarrow> bool"
  ECDSA_verify :: "bytes \<Rightarrow> bytes \<Rightarrow> bytes \<Rightarrow> bool"

section \<open>The MPI format\<close>

text \<open>The minimal big-endian digits of a number.\<close>

fun mag_be :: "nat \<Rightarrow> bytes" where
  "mag_be n = (if n = 0 then [] else mag_be (n div 256) @ [word_of_nat (n mod 256)])"

declare mag_be.simps [simp del]

definition mpi_body :: "int \<Rightarrow> bytes" where
  "mpi_body z =
     (let m = mag_be (nat \<bar>z\<bar>) in
      if m = [] then []
      else if 0x80 \<le> hd m then (if z < 0 then 0x80 else 0) # m
      else if z < 0 then (hd m + 0x80) # tl m
      else m)"

definition mpi_value :: "bytes \<Rightarrow> int" where
  "mpi_value bs =
     (case bs of [] \<Rightarrow> 0
      | b # r \<Rightarrow>
          if 0x80 \<le> b then - int (be_nat ((b - 0x80) # r)) else int (be_nat (b # r)))"

locale openssl_mpi =
  fixes E :: openssl
  assumes bn2mpi: "length (mpi_body z) < 2 ^ 31 \<Longrightarrow>
      BN_bn2mpi E z = nat_be 4 (length (mpi_body z)) @ mpi_body z"
    and mpi2bn: "length b < 2 ^ 31 \<Longrightarrow> BN_mpi2bn E (nat_be 4 (length b) @ b) = mpi_value b"

locale openssl_bn = openssl_mpi +
  assumes get_word: "BN_get_word E z = (if \<bar>z\<bar> < 2 ^ 64 then word_of_int \<bar>z\<bar> else - 1)"

locale openssl_digest =
  fixes E :: openssl
  assumes length_SHA256: "length (SHA256 E bs) = 32"
    and length_RIPEMD160: "length (RIPEMD160 E bs) = 20"
    and length_SHA1: "length (SHA1 E bs) = 20"

text \<open>A concrete library: the MPI format as documented, and digests that keep a length and a
  byte sum. It only serves to show that the contracts can be met and to evaluate examples.\<close>

definition digest_ref :: "nat \<Rightarrow> bytes \<Rightarrow> bytes" where
  "digest_ref k bs = nat_le k (le_nat (map (\<lambda>b. b + 1) bs) mod (2 ^ 61 - 1))"

definition openssl_ref :: openssl where
  "openssl_ref = \<lparr> SHA256 = digest_ref 32, RIPEMD160 = digest_ref 20, SHA1 = digest_ref 20,
     BN_mpi2bn = (\<lambda>bs. mpi_value (drop 4 bs)),
     BN_bn2mpi = (\<lambda>z. nat_be 4 (length (mpi_body z)) @ mpi_body z),
     BN_get_word = (\<lambda>z. if \<bar>z\<bar> < 2 ^ 64 then word_of_int \<bar>z\<bar> else - 1),
     o2i_ECPublicKey = (\<lambda>k. 0 < length k),
     ECDSA_verify = (\<lambda>k h s. s = k @ h) \<rparr>"

section \<open>Facts about the format\<close>

lemma mag_be_0 [simp]: "mag_be 0 = []"
  by (simp add: mag_be.simps)

lemma mag_be_eq_Nil [simp]: "mag_be n = [] \<longleftrightarrow> n = 0"
  by (subst mag_be.simps) simp

lemma be_nat_mag_be [simp]: "be_nat (mag_be n) = n"
proof (induction n rule: mag_be.induct)
  case (1 n)
  show ?case
  proof (cases "n = 0")
    case False
    with 1 show ?thesis
      by (subst mag_be.simps) (simp add: be_nat_append be_nat_Cons)
  qed simp
qed

lemma hd_mag_be: "n \<noteq> 0 \<Longrightarrow> hd (mag_be n) \<noteq> 0"
proof (induction n rule: mag_be.induct)
  case (1 n)
  show ?case
  proof (cases "n div 256 = 0")
    case True
    then have "n < 256" by simp
    then have "unat (word_of_nat n :: byte) = n" by (rule unat_byte_of_nat)
    with True \<open>n < 256\<close> 1 show ?thesis
      by (subst mag_be.simps) (auto simp: unat_0_iff [symmetric])
  next
    case False
    with 1 have "hd (mag_be (n div 256)) \<noteq> 0" by simp
    with False show ?thesis
      by (subst mag_be.simps) (auto simp: hd_append)
  qed
qed

lemma mag_be_length_bound: "n < 256 ^ k \<Longrightarrow> length (mag_be n) \<le> k"
proof (induction k arbitrary: n)
  case 0
  then show ?case by simp
next
  case (Suc k)
  then have "n div 256 < 256 ^ k"
    by (simp add: less_mult_imp_div_less mult.commute)
  from Suc.IH [OF this] show ?case
    by (subst mag_be.simps) simp
qed

lemma byte_top_bit:
  fixes b :: byte
  assumes "b < 0x80"
  shows "0x80 \<le> b + 0x80" and "b + 0x80 - 0x80 = b"
proof -
  have "unat b < 128" using assms by (simp add: word_less_nat_alt)
  then have "unat (b + 0x80) = unat b + 128"
    by (simp add: unat_word_ariths)
  then show "0x80 \<le> b + 0x80" by (simp add: word_le_nat_alt)
  show "b + 0x80 - 0x80 = b" by simp
qed

lemma mpi_value_mpi_body [simp]: "mpi_value (mpi_body z) = z"
proof (cases "z = 0")
  case True
  then show ?thesis by (simp add: mpi_body_def mpi_value_def)
next
  case False
  define m where "m = mag_be (nat \<bar>z\<bar>)"
  have ne: "m \<noteq> []" using False by (simp add: m_def)
  then obtain b r where m: "m = b # r" by (cases m) auto
  have v: "int (be_nat (b # r)) = \<bar>z\<bar>"
    using be_nat_mag_be [of "nat \<bar>z\<bar>"] by (simp add: m_def [symmetric] m)
  have v0: "be_nat (0 # b # r) = be_nat (b # r)"
    by (simp add: be_nat_Cons)
  show ?thesis
    using False m v v0 byte_top_bit [of b]
    by (auto simp: mpi_body_def mpi_value_def m_def [symmetric] Let_def not_le)
qed

lemma length_mpi_body: "\<bar>z\<bar> < 256 ^ k \<Longrightarrow> length (mpi_body z) \<le> Suc k"
proof -
  assume a: "\<bar>z\<bar> < 256 ^ k"
  have "nat \<bar>z\<bar> < 256 ^ k" using a by (simp add: nat_less_iff)
  then have "length (mag_be (nat \<bar>z\<bar>)) \<le> k" by (rule mag_be_length_bound)
  then show ?thesis by (auto simp: mpi_body_def Let_def)
qed

lemma mpi_body_small: "\<bar>z\<bar> < 256 ^ k \<Longrightarrow> k < 2 ^ 31 - 1 \<Longrightarrow> length (mpi_body z) < 2 ^ 31"
  using length_mpi_body [of z k] by simp

lemma mpi_value_nonneg: "bs = [] \<or> hd bs < 0x80 \<Longrightarrow> mpi_value bs = int (be_nat bs)"
  by (cases bs) (auto simp: mpi_value_def)

lemma mpi_body_nonneg:
  "0 \<le> z \<Longrightarrow> (mpi_body z = [] \<or> hd (mpi_body z) < 0x80) \<and> be_nat (mpi_body z) = nat z"
  by (auto simp: mpi_body_def Let_def not_le be_nat_Cons)

interpretation ref_bn: openssl_bn openssl_ref
  by unfold_locales (auto simp: openssl_ref_def)

interpretation ref_digest: openssl_digest openssl_ref
  by unfold_locales (auto simp: openssl_ref_def digest_ref_def)

end
