(* ===== verification/Bignum.thy ===== *)
theory Bignum
  imports Externals "HOL-Library.Signed_Division"
begin

text \<open>
  \<open>CBigNum\<close> (src/src/bignum.h): conversions between arbitrary-precision integers, machine
  integers, byte vectors and the compact form of a difficulty target. A \<open>CBigNum\<close> is the
  integer it represents; \<open>+\<close>, \<open>-\<close>, \<open>*\<close> and the comparisons are those of
  \<^typ>\<open>int\<close>, and \<open>BN_div\<close> truncates towards zero (\<open>sdiv\<close>).
\<close>

section \<open>Definitions\<close>

definition setvch :: "openssl \<Rightarrow> bytes \<Rightarrow> int" where
  "setvch E vch = BN_mpi2bn E (nat_be 4 (length vch) @ rev vch)"

definition getvch :: "openssl \<Rightarrow> int \<Rightarrow> bytes" where
  "getvch E bn = (let vch = BN_bn2mpi E bn in if length vch \<le> 4 then [] else rev (drop 4 vch))"

definition getint :: "openssl \<Rightarrow> int \<Rightarrow> int" where
  "getint E bn =
     (let n = BN_get_word E bn in
      if \<not> bn < 0 then (if uint n > 2 ^ 31 - 1 then 2 ^ 31 - 1 else uint n)
      else (if uint n > 2 ^ 31 - 1 then - (2 ^ 31) else - uint n))"

text \<open>The bytes the loops of \<open>setint64\<close> and \<open>setuint64\<close> take off the top of \<open>n\<close>,
  and the buffer they write: leading zero bytes are dropped, and the sign is put into the top
  bit, with an extra byte when that bit is taken.\<close>

fun top_bytes :: "nat \<Rightarrow> u64 \<Rightarrow> bytes" where
  "top_bytes 0 n = []"
| "top_bytes (Suc i) n = ucast (drop_bit 56 n AND 0xff) # top_bytes i (push_bit 8 n)"

fun emit :: "bool \<Rightarrow> bytes \<Rightarrow> bytes" where
  "emit fNegative [] = []"
| "emit fNegative (c # cs) =
     (if c = 0 then emit fNegative cs
      else if c AND 0x80 \<noteq> 0 then (if fNegative then 0x80 else 0) # c # cs
      else (if fNegative then c OR 0x80 else c) # cs)"

definition with_size :: "bytes \<Rightarrow> bytes" where
  "with_size p = nat_be 4 (length p) @ p"

definition setint64 :: "openssl \<Rightarrow> i64 \<Rightarrow> int" where
  "setint64 E sn =
     (let fNegative = sint sn < 0;
          n = (if fNegative then - (sn + 1) + 1 else sn)
      in BN_mpi2bn E (with_size (emit fNegative (top_bytes 8 n))))"

definition setuint64 :: "openssl \<Rightarrow> u64 \<Rightarrow> int" where
  "setuint64 E n = BN_mpi2bn E (with_size (emit False (top_bytes 8 n)))"

definition setuint256 :: "openssl \<Rightarrow> u256 \<Rightarrow> int" where
  "setuint256 E n = BN_mpi2bn E (with_size (emit False (rev (word_le 32 n))))"

definition getuint256 :: "openssl \<Rightarrow> int \<Rightarrow> u256" where
  "getuint256 E bn =
     (let vch = BN_bn2mpi E bn in
      if length vch < 4 then 0
      else let vch' = (if length vch > 4 then vch[4 := vch ! 4 AND 0x7f] else vch)
           in le_word (take 32 (rev (drop 4 vch'))))"

definition SetCompact :: "openssl \<Rightarrow> u32 \<Rightarrow> int" where
  "SetCompact E nCompact =
     (let nSize = unat (drop_bit 24 nCompact);
          vch = (replicate (4 + nSize) 0)[3 := word_of_nat nSize];
          vch = (if 1 \<le> nSize then vch[4 := ucast (drop_bit 16 nCompact AND 0xff)] else vch);
          vch = (if 2 \<le> nSize then vch[5 := ucast (drop_bit 8 nCompact AND 0xff)] else vch);
          vch = (if 3 \<le> nSize then vch[6 := ucast (drop_bit 0 nCompact AND 0xff)] else vch)
      in BN_mpi2bn E vch)"

definition GetCompact :: "openssl \<Rightarrow> int \<Rightarrow> u32" where
  "GetCompact E bn =
     (let vch = BN_bn2mpi E bn;
          nSize = length vch - 4;
          nCompact = push_bit 24 (word_of_nat nSize :: u32);
          nCompact = (if 1 \<le> nSize then nCompact OR push_bit 16 (ucast (vch ! 4)) else nCompact);
          nCompact = (if 2 \<le> nSize then nCompact OR push_bit 8 (ucast (vch ! 5)) else nCompact);
          nCompact = (if 3 \<le> nSize then nCompact OR push_bit 0 (ucast (vch ! 6)) else nCompact)
      in nCompact)"

text \<open>\<open>operator>>=\<close>: zero whenever \<open>1 << shift\<close> exceeds the value, so also for every
  negative value; \<open>BN_rshift\<close> otherwise.\<close>

definition bn_shr :: "int \<Rightarrow> nat \<Rightarrow> int" where
  "bn_shr a shift = (if 2 ^ shift > a then 0 else a div 2 ^ shift)"


section \<open>The buffers of the integer conversions\<close>

lemma byte_and_0x80: "(c :: byte) AND 0x80 \<noteq> 0 \<longleftrightarrow> 0x80 \<le> c"
proof -
  have "(0x80 :: byte) = push_bit 7 1" by simp
  then have "c AND 0x80 \<noteq> 0 \<longleftrightarrow> bit c 7"
    by (simp only: bit_iff_and_push_bit_not_eq_0)
  also have "\<dots> \<longleftrightarrow> bit (unat c) 7"
    by (simp add: bit_unsigned_iff)
  also have "\<dots> \<longleftrightarrow> odd (unat c div 2 ^ 7)"
    by (rule bit_iff_odd)
  also have "\<dots> \<longleftrightarrow> 0x80 \<le> c"
  proof -
    have "unat c div 128 < 2" using unat_byte_lt [of c] by linarith
    then show ?thesis
      by (auto simp: word_le_nat_alt odd_iff_mod_2_eq_one)
  qed
  finally show ?thesis .
qed

lemma byte_or_0x80: "(c :: byte) < 0x80 \<Longrightarrow> c OR 0x80 = c + 0x80"
proof -
  assume "c < 0x80"
  then have "\<not> 0x80 \<le> c" by simp
  then have "c AND 0x80 = 0" using byte_and_0x80 [of c] by blast
  then show ?thesis by (simp add: disjunctive_add_eq_or)
qed

lemma mpi_value_emit: "mpi_value (emit neg cs) = (if neg then - int (be_nat cs) else int (be_nat cs))"
proof (induction neg cs rule: emit.induct)
  case (1 neg)
  then show ?case by (simp add: mpi_value_def)
next
  case (2 neg c cs)
  show ?case
  proof (cases "c = 0")
    case True
    with 2 show ?thesis by (simp add: be_nat_Cons)
  next
    case False
    then show ?thesis
      using byte_top_bit [of c]
      by (auto simp: mpi_value_def byte_and_0x80 byte_or_0x80 be_nat_Cons not_le)
  qed
qed

lemma length_emit: "length (emit neg cs) \<le> Suc (length cs)"
  by (induction neg cs rule: emit.induct) auto

lemma length_top_bytes [simp]: "length (top_bytes k n) = k"
  by (induction k arbitrary: n) auto

lemma unat_top_byte: "unat (ucast (drop_bit 56 (n :: u64) AND 0xff) :: byte) = unat n div 2 ^ 56"
proof -
  have lt: "unat n div 2 ^ 56 < 256"
    using unat_lt_2p [of n] by (simp add: less_mult_imp_div_less)
  have "unat (drop_bit 56 n) = unat n div 2 ^ 56"
    by (simp add: drop_bit_eq_div unat_div_distrib)
  moreover have "drop_bit 56 n AND 0xff = take_bit 8 (drop_bit 56 n)"
    by (simp add: take_bit_eq_mask mask_numeral)
  ultimately have "unat (drop_bit 56 n AND 0xff) = unat n div 2 ^ 56"
    using lt by (simp add: unsigned_take_bit_eq take_bit_nat_eq_self)
  with lt show ?thesis
    by (simp add: unsigned_ucast_eq take_bit_nat_eq_self)
qed

lemma be_nat_top_bytes: "k \<le> 8 \<Longrightarrow> be_nat (top_bytes k n) = unat n div 2 ^ (64 - 8 * k)"
proof (induction k arbitrary: n)
  case 0
  then show ?case using unat_lt_2p [of n] by simp
next
  case (Suc i)
  define m where "m = 64 - 8 * Suc i"
  have m: "64 - 8 * i = m + 8" "56 = m + 8 * i" "64 = m + 8 * i + 8"
    using Suc.prems by (auto simp: m_def)
  have push: "unat (push_bit 8 n) = (unat n * 2 ^ 8) mod 2 ^ 64"
    by (simp add: push_bit_eq_mult unat_word_ariths)
  have "be_nat (top_bytes (Suc i) n) =
      unat n div 2 ^ 56 * 256 ^ i + (unat n * 2 ^ 8) mod 2 ^ 64 div 2 ^ (m + 8)"
    using Suc.IH [of "push_bit 8 n"] Suc.prems
    by (simp add: be_nat_Cons unat_top_byte push m(1))
  also have "(unat n * 2 ^ 8) mod 2 ^ 64 div 2 ^ (m + 8) = unat n mod 2 ^ 56 div 2 ^ m"
  proof -
    have "(unat n * 2 ^ 8) mod (2 ^ 56 * 2 ^ 8) = unat n mod 2 ^ 56 * 2 ^ 8"
      by (simp only: mod_mult_mult2)
    then show ?thesis by (simp add: power_add)
  qed
  also have "unat n div 2 ^ 56 * 256 ^ i + unat n mod 2 ^ 56 div 2 ^ m = unat n div 2 ^ m"
  proof -
    have "unat n = 2 ^ m * (256 ^ i * (unat n div 2 ^ 56)) + unat n mod 2 ^ 56"
      using m(2) by (simp add: pow256 flip: mult.assoc power_add)
    then have "unat n div 2 ^ m = 256 ^ i * (unat n div 2 ^ 56) + unat n mod 2 ^ 56 div 2 ^ m"
      by (metis div_mult_self4 power_eq_0_iff zero_neq_numeral)
    then show ?thesis by (simp add: mult.commute)
  qed
  finally show ?case by (simp add: m_def)
qed

section \<open>The compact form\<close>

text \<open>The number a compact form stands for, as an MPI body: three mantissa bytes, cut or
  padded with zero bytes to the size in the top byte.\<close>

definition compact_size :: "u32 \<Rightarrow> nat" where
  "compact_size c = unat (drop_bit 24 c)"

definition compact_body :: "u32 \<Rightarrow> bytes" where
  "compact_body c =
     take (compact_size c)
      ([ucast (drop_bit 16 c AND 0xff), ucast (drop_bit 8 c AND 0xff), ucast (drop_bit 0 c AND 0xff)]
       @ replicate (compact_size c - 3) 0)"

definition pack_compact :: "u32 \<Rightarrow> byte \<Rightarrow> byte \<Rightarrow> byte \<Rightarrow> u32" where
  "pack_compact s a b c = push_bit 24 s OR push_bit 16 (ucast a) OR push_bit 8 (ucast b) OR ucast c"

lemma mask8: "(0xff :: 'a::len word) = mask 8"
  by (simp add: mask_numeral)

lemma pack_compact_parts:
  "ucast (drop_bit 16 (pack_compact s a b c) AND 0xff) = a"
  "ucast (drop_bit 8 (pack_compact s a b c) AND 0xff) = b"
  "ucast (drop_bit 0 (pack_compact s a b c) AND 0xff) = c"
  "drop_bit 24 (pack_compact s a b c) = take_bit 8 s"
  unfolding pack_compact_def mask8
  by (rule bit_word_eqI, auto simp: bit_simps dest: bit_imp_le_length)+

lemma pack_compact_unpack:
  "pack_compact (drop_bit 24 c) (ucast (drop_bit 16 c AND 0xff)) (ucast (drop_bit 8 c AND 0xff))
     (ucast (drop_bit 0 c AND 0xff)) = c"
  unfolding pack_compact_def mask8
proof (rule bit_word_eqI)
  fix n
  assume "n < LENGTH(32)"
  then consider "n < 8" | "8 \<le> n" "n - 8 < 8" | "16 \<le> n" "n - 16 < 8" | "24 \<le> n" "n - 24 < 8"
    by fastforce
  then show "bit (push_bit 24 (drop_bit 24 c) OR push_bit 16 (ucast (ucast (drop_bit 16 c AND mask 8) :: byte))
      OR push_bit 8 (ucast (ucast (drop_bit 8 c AND mask 8) :: byte))
      OR ucast (ucast (drop_bit 0 c AND mask 8) :: byte)) n = bit c n"
    by cases (auto simp: bit_simps dest: bit_imp_le_length)
qed

lemma compact_size_lt: "compact_size c < 256"
proof -
  have "unat c div 2 ^ 24 < 256"
    using unat_lt_2p [of c] by (simp add: less_mult_imp_div_less)
  then show ?thesis
    by (simp add: compact_size_def drop_bit_eq_div unat_div_distrib)
qed

lemma length_compact_body [simp]: "length (compact_body c) = compact_size c"
  by (auto simp: compact_body_def)

lemma nat_be_4_small: "n < 256 \<Longrightarrow> nat_be 4 n = [0, 0, 0, word_of_nat n]"
proof -
  assume "n < 256"
  moreover have "(4 :: nat) = Suc (Suc (Suc (Suc 0)))" by simp
  ultimately show ?thesis by (simp only: nat_be_def nat_le.simps) simp
qed

lemma list_of_size_3: "3 \<le> n \<Longrightarrow> \<exists>k. n = Suc (Suc (Suc k))"
  by (metis Suc_le_D numeral_3_eq_3 Suc_le_mono)

lemma compact_vch:
  fixes n :: nat and x a b c :: byte
  defines "v0 \<equiv> (replicate (4 + n) 0)[3 := x]"
  defines "v1 \<equiv> if 1 \<le> n then v0[4 := a] else v0"
  defines "v2 \<equiv> if 2 \<le> n then v1[5 := b] else v1"
  defines "v3 \<equiv> if 3 \<le> n then v2[6 := c] else v2"
  shows "v3 = [0, 0, 0, x] @ take n ([a, b, c] @ replicate (n - 3) 0)"
proof -
  consider "n = 0" | "n = 1" | "n = 2" | k where "n = Suc (Suc (Suc k))"
    using list_of_size_3 [of n] by force
  then show ?thesis
    by cases (simp_all add: assms numeral_eq_Suc)
qed

lemma SetCompact_body: "SetCompact E c = BN_mpi2bn E (nat_be 4 (compact_size c) @ compact_body c)"
  unfolding SetCompact_def compact_body_def nat_be_4_small [OF compact_size_lt]
    compact_vch [symmetric]
  by (simp add: compact_size_def Let_def)

text \<open>The bytes of an MPI body that \<open>GetCompact\<close> keeps.\<close>

definition nth_or_0 :: "bytes \<Rightarrow> nat \<Rightarrow> byte" where
  "nth_or_0 bs i = (if i < length bs then bs ! i else 0)"

lemma GetCompact_pack:
  assumes "BN_bn2mpi E z = h @ b" and "length h = 4"
  shows "GetCompact E z =
    pack_compact (word_of_nat (length b)) (nth_or_0 b 0) (nth_or_0 b 1) (nth_or_0 b 2)"
  using assms
  by (cases b rule: list.exhaust; cases "tl b" rule: list.exhaust; cases "tl (tl b)" rule: list.exhaust)
    (auto simp: GetCompact_def pack_compact_def nth_or_0_def nth_append Let_def or.assoc)

lemma take_3_pad:
  assumes "length b < 256"
  shows "take (length b) ([nth_or_0 b 0, nth_or_0 b 1, nth_or_0 b 2] @ replicate (length b - 3) 0)
    = take 3 b @ replicate (length b - 3) 0"
  by (cases b rule: list.exhaust; cases "tl b" rule: list.exhaust; cases "tl (tl b)" rule: list.exhaust)
    (auto simp: nth_or_0_def)

lemma compact_body_GetCompact:
  assumes "BN_bn2mpi E z = h @ b" and "length h = 4" and "length b < 256"
  shows "compact_size (GetCompact E z) = length b"
    and "compact_body (GetCompact E z) = take 3 b @ replicate (length b - 3) 0"
proof -
  have "take_bit 8 (word_of_nat (length b) :: u32) = word_of_nat (length b)"
    using assms(3)
    by (intro unsigned_word_eqI [where ?'a = nat]) (simp add: unsigned_take_bit_eq unat_of_nat_small take_bit_nat_eq_self)
  then show s: "compact_size (GetCompact E z) = length b"
    using assms(3)
    by (simp add: compact_size_def GetCompact_pack [OF assms(1,2)] pack_compact_parts
        unat_of_nat_small)
  show "compact_body (GetCompact E z) = take 3 b @ replicate (length b - 3) 0"
    unfolding compact_body_def s
    by (simp only: GetCompact_pack [OF assms(1,2)] pack_compact_parts take_3_pad [OF assms(3)])
qed

lemma be_nat_replicate_0 [simp]: "be_nat (replicate k 0) = 0"
  by (induction k) (auto simp: be_nat_Cons)

lemma mag_be_be_nat: "bs = [] \<or> hd bs \<noteq> 0 \<Longrightarrow> mag_be (be_nat bs) = bs"
proof (induction bs rule: rev_induct)
  case Nil
  then show ?case by simp
next
  case (snoc b bs)
  have v: "be_nat (bs @ [b]) = be_nat bs * 256 + unat b"
    by (simp add: be_nat_append be_nat_Cons)
  have IH: "mag_be (be_nat bs) = bs"
    using snoc by (cases bs) auto
  have nz: "be_nat bs * 256 + unat b \<noteq> 0"
  proof (cases bs)
    case Nil
    with snoc.prems show ?thesis by (auto simp: unat_0_iff)
  next
    case (Cons c cs)
    then have "mag_be (be_nat bs) \<noteq> []" using IH by simp
    then show ?thesis by simp
  qed
  show ?case
    by (subst mag_be.simps) (use nz in \<open>simp add: v IH\<close>)
qed

section \<open>Word facts\<close>

lemma uint_mod_sint: "uint (s :: i64) = sint s mod 2 ^ 64"
  by (simp add: uint_sint take_bit_eq_mod)

lemma uint_neg_i64:
  fixes s :: i64
  assumes "sint s < 0"
  shows "uint (- s) = - sint s"
proof -
  have "uint (- s) = (- uint s) mod 2 ^ 64"
    by (simp add: uint_word_ariths)
  also have "\<dots> = (- sint s) mod 2 ^ 64"
    by (simp only: uint_mod_sint mod_minus_eq)
  also have "\<dots> = - sint s"
    using assms sint_ge [of s] by (intro mod_pos_pos_trivial) simp_all
  finally show ?thesis .
qed

lemma uint_nonneg_i64:
  fixes s :: i64
  assumes "\<not> sint s < 0"
  shows "uint s = sint s"
proof -
  have "sint s < 2 ^ 63" using sint_lt [of s] by simp
  then show ?thesis
    unfolding uint_mod_sint using assms by (intro mod_pos_pos_trivial) simp_all
qed

lemma byte_and_0x7f: "(c :: byte) < 0x80 \<Longrightarrow> c AND 0x7f = c"
proof -
  assume "c < 0x80"
  then have "unat c < 2 ^ 7" by (simp add: word_less_nat_alt)
  then have "take_bit 7 c = c"
    by (intro unsigned_word_eqI [where ?'a = nat]) (simp add: unsigned_take_bit_eq take_bit_nat_eq_self)
  then show ?thesis by (simp add: take_bit_eq_mask mask_numeral)
qed

lemma word_of_nat_cong_take:
  assumes "256 ^ k = (2 ^ LENGTH('a::len) :: nat)"
  shows "(word_of_nat (le_nat (take k bs)) :: 'a word) = word_of_nat (le_nat bs)"
proof (cases "k \<le> length bs")
  case True
  have "le_nat bs = le_nat (take k bs) + 256 ^ k * le_nat (drop k bs)"
    using le_nat_append [of "take k bs" "drop k bs"] True by simp
  then show ?thesis by (simp add: assms)
qed simp

lemma getuint256_body:
  assumes "BN_bn2mpi E z = h @ b" and "length h = 4"
    and "b = [] \<or> (hd b AND 0x7f) # tl b = b"
  shows "getuint256 E z = le_word (take 32 (rev b))"
  using assms
  by (cases b) (auto simp: getuint256_def Let_def nth_append list_update_append)

section \<open>What the conversions compute\<close>

context openssl_mpi
begin

lemma mpi2bn_with_size: "length p < 2 ^ 31 \<Longrightarrow> BN_mpi2bn E (with_size p) = mpi_value p"
  by (simp add: with_size_def mpi2bn)

lemma setvch_value: "length vch < 2 ^ 31 \<Longrightarrow> setvch E vch = mpi_value (rev vch)"
  using mpi2bn [of "rev vch"] by (simp add: setvch_def)

lemma getvch_value: "length (mpi_body z) < 2 ^ 31 \<Longrightarrow> getvch E z = rev (mpi_body z)"
  by (auto simp: getvch_def bn2mpi Let_def)

lemma setvch_getvch: "length (mpi_body z) < 2 ^ 31 \<Longrightarrow> setvch E (getvch E z) = z"
  by (simp add: getvch_value setvch_value)

lemma setint64_eq: "setint64 E sn = sint sn"
proof -
  define n where "n = (if sint sn < 0 then - (sn + 1) + 1 else sn)"
  have "length (emit (sint sn < 0) (top_bytes 8 n)) < 2 ^ 31"
    using length_emit [of "sint sn < 0" "top_bytes 8 n"] by simp
  then have "setint64 E sn = (if sint sn < 0 then - int (unat n) else int (unat n))"
    using be_nat_top_bytes [of 8 n]
    by (simp add: setint64_def n_def [symmetric] Let_def mpi2bn_with_size mpi_value_emit)
  moreover have "n = (if sint sn < 0 then - sn else sn)"
    by (simp add: n_def)
  ultimately show ?thesis
    using uint_neg_i64 [of sn] uint_nonneg_i64 [of sn] by simp
qed

lemma setuint64_eq: "setuint64 E n = uint n"
proof -
  have "length (emit False (top_bytes 8 n)) < 2 ^ 31"
    using length_emit [of False "top_bytes 8 n"] by simp
  then show ?thesis
    using be_nat_top_bytes [of 8 n]
    by (simp add: setuint64_def mpi2bn_with_size mpi_value_emit)
qed

lemma setuint256_eq: "setuint256 E n = uint n"
proof -
  have "length (emit False (rev (word_le 32 n))) < 2 ^ 31"
    using length_emit [of False "rev (word_le 32 n)"] by simp
  moreover have "unat n < 256 ^ 32" using unat_lt_2p [of n] by simp
  ultimately show ?thesis
    by (simp add: setuint256_def mpi2bn_with_size mpi_value_emit be_nat_def word_le_def
        le_nat_nat_le)
qed

lemma getuint256_eq:
  assumes "0 \<le> z" and "z < 2 ^ 256"
  shows "getuint256 E z = word_of_int z"
proof -
  have small: "\<bar>z\<bar> < 256 ^ 32" using assms by simp
  then have len: "length (mpi_body z) \<le> 33" using length_mpi_body [of z 32] by simp
  have mpi: "BN_bn2mpi E z = nat_be 4 (length (mpi_body z)) @ mpi_body z"
    using len by (intro bn2mpi) simp
  from mpi_body_nonneg [OF assms(1)]
  have hd: "mpi_body z = [] \<or> hd (mpi_body z) < 0x80" and v: "be_nat (mpi_body z) = nat z" by auto
  have body: "mpi_body z = [] \<or> (hd (mpi_body z) AND 0x7f) # tl (mpi_body z) = mpi_body z"
    using hd byte_and_0x7f by (cases "mpi_body z") auto
  have "getuint256 E z = le_word (take 32 (rev (mpi_body z)))"
    by (rule getuint256_body [OF mpi length_nat_be body])
  also have "\<dots> = (word_of_nat (le_nat (rev (mpi_body z))) :: u256)"
    unfolding le_word_def
  proof (rule word_of_nat_cong_take)
    show "(256 ^ 32 :: nat) = 2 ^ LENGTH(256)" by simp
  qed
  also have "le_nat (rev (mpi_body z)) = nat z"
    using v by (simp add: be_nat_def)
  also have "(word_of_nat (nat z) :: u256) = word_of_int z"
    using assms(1) by (simp add: of_nat_nat)
  finally show ?thesis .
qed

lemma SetCompact_eq: "SetCompact E c = mpi_value (compact_body c)"
  using compact_size_lt [of c] mpi2bn [of "compact_body c"] by (simp add: SetCompact_body)

end

section \<open>Rounding of the compact form\<close>

lemma mpi_body_top_bits:
  assumes "0 \<le> z" and "3 \<le> length (mpi_body z)"
  shows "2 ^ 15 \<le> be_nat (take 3 (mpi_body z))"
proof -
  obtain a b c r where body: "mpi_body z = a # b # c # r"
    using assms(2) list_of_size_3 [of "length (mpi_body z)"] by (metis length_Suc_conv)
  have "unat a \<noteq> 0 \<or> 128 \<le> unat b"
    using body assms hd_mag_be [of "nat \<bar>z\<bar>"]
    by (cases "mag_be (nat \<bar>z\<bar>)")
      (auto simp: mpi_body_def Let_def word_le_nat_alt unat_0_iff split: if_splits)
  then show ?thesis by (auto simp: body be_nat_Cons)
qed

lemma unat_byte_at: "unat (ucast (drop_bit k (c :: u32) AND 0xff) :: byte) = unat c div 2 ^ k mod 256"
proof -
  have "drop_bit k c AND 0xff = take_bit 8 (drop_bit k c)"
    by (simp add: take_bit_eq_mask mask_numeral)
  then have "unat (drop_bit k c AND 0xff) = take_bit 8 (drop_bit k (unat c))"
    by (simp only: unsigned_take_bit_eq unat_drop_bit_eq)
  also have "\<dots> = unat c div 2 ^ k mod 256"
    by (simp add: drop_bit_eq_div take_bit_eq_mod)
  finally have "unat (drop_bit k c AND 0xff) = unat c div 2 ^ k mod 256" .
  then show ?thesis
    by (simp add: unsigned_ucast_eq take_bit_eq_mod)
qed

lemma mod_pow_div: "(x::nat) mod 2 ^ n div 2 ^ m = x div 2 ^ m mod 2 ^ (n - m)"
  by (metis drop_bit_take_bit drop_bit_eq_div take_bit_eq_mod)

definition canonical_body :: "bytes \<Rightarrow> bool" where
  "canonical_body bs \<longleftrightarrow>
     (\<exists>a b r. bs = a # b # r \<and> a < 0x80 \<and> (a \<noteq> 0 \<or> 0x80 \<le> b))"

lemma compact_body_canonical:
  assumes "3 \<le> compact_size c" and "0x8000 \<le> unat c mod 2 ^ 24" and "unat c mod 2 ^ 24 < 0x800000"
  shows "canonical_body (compact_body c)"
proof -
  obtain k where k: "compact_size c = Suc (Suc (Suc k))"
    using list_of_size_3 [OF assms(1)] by auto
  define m where "m = unat c mod 2 ^ 24"
  let ?a = "ucast (drop_bit 16 c AND 0xff) :: byte" and ?b = "ucast (drop_bit 8 c AND 0xff) :: byte"
  have "unat ?a = m div 2 ^ 16 mod 256" "unat ?b = m div 2 ^ 8 mod 256"
    using mod_pow_div [of "unat c" 24 16] mod_pow_div [of "unat c" 24 8]
    by (simp_all add: unat_byte_at m_def mod_mod_cancel)
  moreover have m: "0x8000 \<le> m" "m < 0x800000" using assms by (simp_all add: m_def)
  moreover have "m div 2 ^ 16 mod 256 \<noteq> 0 \<or> 128 \<le> m div 2 ^ 8 mod 256"
  proof (cases "m < 65536")
    case True
    then have "m div 256 < 256" by (simp add: less_mult_imp_div_less)
    then show ?thesis using m by simp
  next
    case False
    then have "0 < m div 65536" by (simp add: div_greater_zero_iff)
    moreover have "m div 65536 < 256" using m by (simp add: less_mult_imp_div_less)
    ultimately show ?thesis by simp
  qed
  moreover have "m div 2 ^ 16 mod 256 < 128" using m by (simp add: less_mult_imp_div_less)
  ultimately have "unat ?a < 128" "unat ?a \<noteq> 0 \<or> 128 \<le> unat ?b" by simp_all
  then show ?thesis
    by (auto simp: canonical_body_def compact_body_def k word_less_nat_alt word_le_nat_alt
        unat_0_iff [symmetric])
qed

lemma mpi_body_be_nat:
  assumes "canonical_body bs"
  shows "mpi_body (int (be_nat bs)) = bs"
proof -
  obtain a b r where bs: "bs = a # b # r" and a: "a < 0x80" and ab: "a \<noteq> 0 \<or> 0x80 \<le> b"
    using assms by (auto simp: canonical_body_def)
  show ?thesis
  proof (cases "a = 0")
    case True
    then have "be_nat bs = be_nat (b # r)" by (simp add: bs be_nat_Cons)
    moreover have "b \<noteq> 0" using ab True by auto
    ultimately have "mag_be (be_nat bs) = b # r" by (simp add: mag_be_be_nat)
    then show ?thesis using True ab by (simp add: mpi_body_def bs)
  next
    case False
    then have "mag_be (be_nat bs) = bs" by (simp add: bs mag_be_be_nat)
    then show ?thesis using a by (simp add: mpi_body_def bs Let_def not_le)
  qed
qed

lemma canonical_body_nonneg: "canonical_body bs \<Longrightarrow> bs \<noteq> [] \<and> hd bs < 0x80"
  by (auto simp: canonical_body_def)

context openssl_mpi
begin

lemma compact_of_body:
  assumes "length (mpi_body z) < 256"
  shows "compact_size (GetCompact E z) = length (mpi_body z)"
    and "compact_body (GetCompact E z) =
      take 3 (mpi_body z) @ replicate (length (mpi_body z) - 3) 0"
  using compact_body_GetCompact [OF bn2mpi length_nat_be, of z] assms by auto

lemma GetCompact_floor:
  assumes "0 \<le> z" and "length (mpi_body z) < 256"
  defines "S \<equiv> SetCompact E (GetCompact E z)" and "k \<equiv> length (mpi_body z) - 3"
  shows "S = int (be_nat (take 3 (mpi_body z))) * 256 ^ k"
    and "z = S + int (be_nat (drop 3 (mpi_body z)))"
    and "be_nat (drop 3 (mpi_body z)) < 256 ^ k"
proof -
  let ?b = "mpi_body z"
  from mpi_body_nonneg [OF assms(1)]
  have hd: "?b = [] \<or> hd ?b < 0x80" and v: "be_nat ?b = nat z" by auto
  have "take 3 ?b @ replicate k 0 = [] \<or> hd (take 3 ?b @ replicate k 0) < 0x80"
    using hd by (cases ?b) (auto simp: k_def)
  then show S: "S = int (be_nat (take 3 ?b)) * 256 ^ k"
    using compact_of_body(2) [OF assms(2)]
    by (simp add: S_def k_def SetCompact_eq mpi_value_nonneg be_nat_append)
  have "be_nat ?b = be_nat (take 3 ?b) * 256 ^ k + be_nat (drop 3 ?b)"
    using be_nat_append [of "take 3 ?b" "drop 3 ?b"] by (simp add: k_def)
  then have "int (nat z) = int (be_nat (take 3 ?b) * 256 ^ k + be_nat (drop 3 ?b))"
    using v by simp
  then show "z = S + int (be_nat (drop 3 ?b))"
    using assms(1) by (simp add: S)
  show "be_nat (drop 3 ?b) < 256 ^ k"
    using be_nat_bound [of "drop 3 ?b"] by (simp add: k_def)
qed

lemma GetCompact_error:
  assumes "0 \<le> z" and "length (mpi_body z) < 256"
  defines "S \<equiv> SetCompact E (GetCompact E z)"
  shows "S \<le> z" and "(z - S) * 2 ^ 15 \<le> z" and "0 \<le> S"
proof -
  note f = GetCompact_floor [OF assms(1,2), folded S_def]
  let ?k = "length (mpi_body z) - 3" and ?d = "be_nat (drop 3 (mpi_body z))"
  show le: "S \<le> z" using f(2) by simp
  show "0 \<le> S" by (simp add: f(1))
  show "(z - S) * 2 ^ 15 \<le> z"
  proof (cases "3 \<le> length (mpi_body z)")
    case True
    have "int ?d \<le> 256 ^ ?k"
      using f(3) by (metis less_imp_le of_nat_le_iff of_nat_numeral of_nat_power)
    then have "int ?d * 2 ^ 15 \<le> 256 ^ ?k * 2 ^ 15" by simp
    also have "\<dots> \<le> 256 ^ ?k * int (be_nat (take 3 (mpi_body z)))"
      using mpi_body_top_bits [OF assms(1) True] by (intro mult_left_mono) simp_all
    also have "\<dots> = S" by (simp add: f(1))
    also have "S \<le> z" by (rule le)
    finally show ?thesis using f(2) by simp
  next
    case False
    then have "?d = 0" using f(3) by simp
    then show ?thesis using f(2) assms(1) by simp
  qed
qed

lemma SetCompact_canonical:
  assumes "3 \<le> compact_size c" and "0x8000 \<le> unat c mod 2 ^ 24" and "unat c mod 2 ^ 24 < 0x800000"
  shows "mpi_body (SetCompact E c) = compact_body c"
  using mpi_body_be_nat [OF compact_body_canonical [OF assms]] canonical_body_nonneg [OF compact_body_canonical [OF assms]]
  by (simp add: SetCompact_eq mpi_value_nonneg)

lemma GetCompact_SetCompact:
  assumes "3 \<le> compact_size c" and "0x8000 \<le> unat c mod 2 ^ 24" and "unat c mod 2 ^ 24 < 0x800000"
  shows "GetCompact E (SetCompact E c) = c"
proof -
  let ?z = "SetCompact E c"
  have b: "mpi_body ?z = compact_body c" by (rule SetCompact_canonical [OF assms])
  have len: "length (mpi_body ?z) = compact_size c" by (simp add: b)
  have mpi: "BN_bn2mpi E ?z = nat_be 4 (compact_size c) @ compact_body c"
    using bn2mpi [of ?z] compact_size_lt [of c] by (simp add: b)
  obtain k where k: "compact_size c = Suc (Suc (Suc k))"
    using list_of_size_3 [OF assms(1)] by auto
  have parts: "nth_or_0 (compact_body c) 0 = ucast (drop_bit 16 c AND 0xff)"
    "nth_or_0 (compact_body c) 1 = ucast (drop_bit 8 c AND 0xff)"
    "nth_or_0 (compact_body c) 2 = ucast (drop_bit 0 c AND 0xff)"
    by (simp_all add: nth_or_0_def compact_body_def k)
  have "word_of_nat (compact_size c) = drop_bit 24 c"
    by (simp add: compact_size_def)
  then show ?thesis
    using GetCompact_pack [OF mpi length_nat_be] pack_compact_unpack [of c]
    by (simp only: parts length_compact_body)
qed

end

text \<open>
  Writing a target in compact form and reading it back never makes the target easier: for
  every target below \<open>2^256\<close> the result is non-negative, at most the target, and smaller by
  at most one part in \<open>2^15\<close>.
\<close>

theorem GetCompact_rounds_down:
  assumes "openssl_mpi E" and "0 \<le> z" and "z < 2 ^ 256"
  shows "0 \<le> SetCompact E (GetCompact E z) \<and> SetCompact E (GetCompact E z) \<le> z
    \<and> (z - SetCompact E (GetCompact E z)) * 2 ^ 15 \<le> z"
proof -
  have "length (mpi_body z) < 256"
    using length_mpi_body [of z 32] assms(2,3) by simp
  from openssl_mpi.GetCompact_error [OF assms(1,2) this] show ?thesis by simp
qed

theorem GetCompact_rounds_down_witness:
  "openssl_mpi openssl_ref \<and> (0::int) \<le> 0x123456789 \<and> (0x123456789::int) < 2 ^ 256
   \<and> SetCompact openssl_ref (GetCompact openssl_ref 0x123456789) \<le> 0x123456789"
  using GetCompact_rounds_down [OF ref_bn.openssl_mpi_axioms, of "0x123456789"]
    ref_bn.openssl_mpi_axioms by simp

text \<open>
  A compact form with at least three size bytes and a normalised positive mantissa survives
  \<open>SetCompact\<close> followed by \<open>GetCompact\<close>.
\<close>

theorem SetCompact_GetCompact:
  assumes "openssl_mpi E" and "3 \<le> unat (drop_bit 24 c)"
    and "0x8000 \<le> unat c mod 2 ^ 24" and "unat c mod 2 ^ 24 < 0x800000"
  shows "GetCompact E (SetCompact E c) = c"
  using openssl_mpi.GetCompact_SetCompact [OF assms(1)] assms(2-4) by (simp add: compact_size_def)

theorem SetCompact_GetCompact_witness:
  "openssl_mpi openssl_ref \<and> 3 \<le> unat (drop_bit 24 (0x1e0fffff :: u32))
   \<and> GetCompact openssl_ref (SetCompact openssl_ref 0x1e0fffff) = 0x1e0fffff"
  using SetCompact_GetCompact [OF ref_bn.openssl_mpi_axioms, of "0x1e0fffff"]
    ref_bn.openssl_mpi_axioms by (simp add: drop_bit_eq_div)

end
