(* ===== verification/Uint256.thy ===== *)
theory Uint256
  imports Prelude
begin

text \<open>
  \<open>base_uint<BITS>\<close> of src/src/uint256.h: fixed-width unsigned integers kept as an array
  \<open>pn\<close> of 32-bit limbs, least significant first. The loops over the limbs are modelled one
  by one and shown to compute on the number \<open>uval pn\<close> modulo \<open>2^BITS\<close>, which is what lets
  the rest of the development treat a \<open>uint256\<close> as a \<^typ>\<open>u256\<close>. \<open>uint160\<close> and
  \<open>uint256\<close> are the instances with 5 and 8 limbs.
\<close>

section \<open>Definitions\<close>

type_synonym limbs = "u32 list"

fun uval :: "limbs \<Rightarrow> nat" where
  "uval [] = 0"
| "uval (x # xs) = unat x + 2 ^ 32 * uval xs"

definition is_zero :: "limbs \<Rightarrow> bool" where
  "is_zero pn = list_all (\<lambda>x. x = 0) pn"

definition base_not :: "limbs \<Rightarrow> limbs" where
  "base_not pn = map (\<lambda>x. NOT x) pn"

definition assign64 :: "nat \<Rightarrow> u64 \<Rightarrow> limbs" where
  "assign64 WIDTH b = ucast b # ucast (drop_bit 32 b) # replicate (WIDTH - 2) 0"

definition base_xor :: "limbs \<Rightarrow> limbs \<Rightarrow> limbs" where
  "base_xor pn b = map2 (XOR) pn b"

definition base_and :: "limbs \<Rightarrow> limbs \<Rightarrow> limbs" where
  "base_and pn b = map2 (AND) pn b"

definition base_or :: "limbs \<Rightarrow> limbs \<Rightarrow> limbs" where
  "base_or pn b = map2 (OR) pn b"

definition xor64 :: "limbs \<Rightarrow> u64 \<Rightarrow> limbs" where
  "xor64 pn b = pn[0 := pn ! 0 XOR ucast b, 1 := pn ! 1 XOR ucast (drop_bit 32 b)]"

definition or64 :: "limbs \<Rightarrow> u64 \<Rightarrow> limbs" where
  "or64 pn b = pn[0 := pn ! 0 OR ucast b, 1 := pn ! 1 OR ucast (drop_bit 32 b)]"

text \<open>\<open>operator<<=\<close>: limb \<open>i\<close> of the old value goes to limbs \<open>i+k\<close> and \<open>i+k+1\<close>.\<close>

definition shl_step :: "limbs \<Rightarrow> nat \<Rightarrow> nat \<Rightarrow> limbs \<Rightarrow> nat \<Rightarrow> limbs" where
  "shl_step a k shift pn i =
     (let pn = (if i + k + 1 < length a \<and> shift \<noteq> 0
                then pn[i + k + 1 := pn ! (i + k + 1) OR drop_bit (32 - shift) (a ! i)] else pn)
      in if i + k < length a then pn[i + k := pn ! (i + k) OR push_bit shift (a ! i)] else pn)"

definition base_shl :: "limbs \<Rightarrow> nat \<Rightarrow> limbs" where
  "base_shl a shift =
     foldl (shl_step a (shift div 32) (shift mod 32)) (replicate (length a) 0) [0..<length a]"

definition shr_step :: "limbs \<Rightarrow> nat \<Rightarrow> nat \<Rightarrow> limbs \<Rightarrow> nat \<Rightarrow> limbs" where
  "shr_step a k shift pn i =
     (let pn = (if k + 1 \<le> i \<and> shift \<noteq> 0
                then pn[i - k - 1 := pn ! (i - k - 1) OR push_bit (32 - shift) (a ! i)] else pn)
      in if k \<le> i then pn[i - k := pn ! (i - k) OR drop_bit shift (a ! i)] else pn)"

definition base_shr :: "limbs \<Rightarrow> nat \<Rightarrow> limbs" where
  "base_shr a shift =
     foldl (shr_step a (shift div 32) (shift mod 32)) (replicate (length a) 0) [0..<length a]"

fun add_loop :: "u64 \<Rightarrow> limbs \<Rightarrow> limbs \<Rightarrow> limbs" where
  "add_loop carry (p # ps) (b # bs) =
     (let n = carry + ucast p + ucast b
      in ucast (n AND 0xffffffff) # add_loop (drop_bit 32 n) ps bs)"
| "add_loop carry _ _ = []"

definition base_add :: "limbs \<Rightarrow> limbs \<Rightarrow> limbs" where
  "base_add pn b = add_loop 0 pn b"

fun base_inc :: "limbs \<Rightarrow> limbs" where
  "base_inc [] = []"
| "base_inc (p # ps) = (if p + 1 = 0 then (p + 1) # base_inc ps else (p + 1) # ps)"

fun base_dec :: "limbs \<Rightarrow> limbs" where
  "base_dec [] = []"
| "base_dec (p # ps) = (if p - 1 = - 1 then (p - 1) # base_dec ps else (p - 1) # ps)"

definition base_neg :: "limbs \<Rightarrow> limbs" where
  "base_neg pn = base_inc (map (\<lambda>x. NOT x) pn)"

definition base_sub :: "limbs \<Rightarrow> limbs \<Rightarrow> limbs" where
  "base_sub pn b = base_add pn (base_neg b)"

definition add64 :: "limbs \<Rightarrow> u64 \<Rightarrow> limbs" where
  "add64 pn b64 = base_add pn (assign64 (length pn) b64)"

definition sub64 :: "limbs \<Rightarrow> u64 \<Rightarrow> limbs" where
  "sub64 pn b64 = base_add pn (base_neg (assign64 (length pn) b64))"

text \<open>The comparison loops run from the most significant limb down.\<close>

fun lt_down :: "bool \<Rightarrow> limbs \<Rightarrow> limbs \<Rightarrow> bool" where
  "lt_down r (a # as) (b # bs) = (if a < b then True else if b < a then False else lt_down r as bs)"
| "lt_down r _ _ = r"

definition base_lt :: "limbs \<Rightarrow> limbs \<Rightarrow> bool" where
  "base_lt a b = lt_down False (rev a) (rev b)"

definition base_le :: "limbs \<Rightarrow> limbs \<Rightarrow> bool" where
  "base_le a b = lt_down True (rev a) (rev b)"

definition base_gt :: "limbs \<Rightarrow> limbs \<Rightarrow> bool" where
  "base_gt a b = lt_down False (rev b) (rev a)"

definition base_ge :: "limbs \<Rightarrow> limbs \<Rightarrow> bool" where
  "base_ge a b = lt_down True (rev b) (rev a)"

definition base_eq :: "limbs \<Rightarrow> limbs \<Rightarrow> bool" where
  "base_eq a b = list_all2 (=) a b"

definition eq64 :: "limbs \<Rightarrow> u64 \<Rightarrow> bool" where
  "eq64 a b \<longleftrightarrow> a ! 0 = ucast b \<and> a ! 1 = ucast (drop_bit 32 b) \<and> list_all (\<lambda>x. x = 0) (drop 2 a)"

definition Get64 :: "limbs \<Rightarrow> nat \<Rightarrow> u64" where
  "Get64 pn n = ucast (pn ! (2 * n)) OR push_bit 32 (ucast (pn ! (2 * n + 1)))"

text \<open>The bytes of \<open>pn\<close> in memory (little-endian limbs).\<close>

definition limb_bytes :: "limbs \<Rightarrow> bytes" where
  "limb_bytes pn = concat (map (word_le 4) pn)"

fun bytes_limbs :: "nat \<Rightarrow> bytes \<Rightarrow> limbs" where
  "bytes_limbs 0 bs = []"
| "bytes_limbs (Suc k) bs = le_word (take 4 bs) # bytes_limbs k (drop 4 bs)"

text \<open>Constructor from a byte vector: the bytes if the size fits, otherwise zero.\<close>

definition from_vch :: "nat \<Rightarrow> bytes \<Rightarrow> limbs" where
  "from_vch WIDTH vch =
     (if length vch = 4 * WIDTH then bytes_limbs WIDTH vch else replicate WIDTH 0)"

section \<open>Hexadecimal text\<close>

definition hexdigits :: string where
  "hexdigits = ''0123456789abcdef''"

text \<open>\<open>sprintf("%02x")\<close>.\<close>

definition hex2 :: "byte \<Rightarrow> string" where
  "hex2 b = [hexdigits ! (unat b div 16), hexdigits ! (unat b mod 16)]"

definition GetHex :: "limbs \<Rightarrow> string" where
  "GetHex pn = concat (map hex2 (rev (limb_bytes pn)))"

text \<open>The table \<open>phexdigit\<close>.\<close>

definition phexdigit :: "char \<Rightarrow> nat" where
  "phexdigit c =
     (let n = of_char c :: nat in
      if 48 \<le> n \<and> n \<le> 57 then n - 48
      else if 65 \<le> n \<and> n \<le> 70 then n - 55
      else if 97 \<le> n \<and> n \<le> 102 then n - 87 else 0)"

definition is_space :: "char \<Rightarrow> bool" where
  "is_space c \<longleftrightarrow> c = CHR '' '' \<or> (9 \<le> (of_char c :: nat) \<and> (of_char c :: nat) \<le> 13)"

text \<open>\<open>SetHex\<close> reads the digits from the last one back, two per byte, until either the digits
  or the bytes run out.\<close>

fun fill_bytes :: "nat \<Rightarrow> nat list \<Rightarrow> bytes" where
  "fill_bytes 0 ds = []"
| "fill_bytes (Suc k) [] = replicate (Suc k) 0"
| "fill_bytes (Suc k) [d] = word_of_nat d # replicate k 0"
| "fill_bytes (Suc k) (d # e # ds) = (word_of_nat d OR push_bit 4 (word_of_nat e)) # fill_bytes k ds"

definition skip_0x :: "string \<Rightarrow> string" where
  "skip_0x psz =
     (case psz of c # d # r \<Rightarrow>
        if c = CHR ''0'' \<and> (d = CHR ''x'' \<or> d = CHR ''X'') then r else psz
      | _ \<Rightarrow> psz)"

definition SetHex :: "nat \<Rightarrow> string \<Rightarrow> limbs" where
  "SetHex WIDTH str =
     (let psz = skip_0x (dropWhile is_space str);
          digits = takeWhile (\<lambda>c. phexdigit c \<noteq> 0 \<or> c = CHR ''0'') psz
      in bytes_limbs WIDTH (fill_bytes (4 * WIDTH) (rev (map phexdigit digits))))"

section \<open>The number an array of limbs stands for\<close>

lemma unat_u32_lt: "unat (x :: u32) < 2 ^ 32"
  using unat_lt_2p [of x] by simp

lemma uval_bound: "uval xs < 2 ^ (32 * length xs)"
proof (induction xs)
  case Nil
  then show ?case by simp
next
  case (Cons x xs)
  have "unat x + 2 ^ 32 * uval xs < 2 ^ 32 * Suc (uval xs)"
    using unat_u32_lt [of x] by simp
  also have "\<dots> \<le> 2 ^ 32 * 2 ^ (32 * length xs)"
    using Cons by (intro mult_le_mono2) (simp add: Suc_le_eq)
  finally show ?case by (simp add: power_add)
qed

lemma uval_append: "uval (xs @ ys) = uval xs + 2 ^ (32 * length xs) * uval ys"
  by (induction xs) (auto simp: power_add algebra_simps)

lemma uval_inj: "length xs = length ys \<Longrightarrow> uval xs = uval ys \<Longrightarrow> xs = ys"
proof (induction xs ys rule: list_induct2)
  case (Cons x xs y ys)
  have "unat x = (unat x + 2 ^ 32 * uval xs) mod 2 ^ 32"
    and "unat y = (unat y + 2 ^ 32 * uval ys) mod 2 ^ 32"
    using unat_u32_lt [of x] unat_u32_lt [of y] by simp_all
  with Cons.prems have "unat x = unat y" by simp
  with Cons show ?case by (simp add: word_unat_eq_iff)
qed simp

lemma mod_split_base: "0 < B \<Longrightarrow> (x + B * y) mod (B * M) = x mod B + B * ((x div B + y) mod M)"
  for x y B M :: nat
  by (simp add: mod_mult2_eq add.commute)

lemma mod_split: "(x + 2 ^ 32 * y) mod 2 ^ (32 * Suc k) =
    (x mod 2 ^ 32) + 2 ^ 32 * ((x div 2 ^ 32 + y) mod 2 ^ (32 * k))" for x y k :: nat
  using mod_split_base [of "2 ^ 32" x y "2 ^ (32 * k)"] by (simp add: power_add)

lemma u64_sum3:
  fixes c :: u64 and p b :: u32
  assumes "unat c \<le> 1"
  defines "n \<equiv> c + ucast p + ucast b"
  shows "unat n = unat c + unat p + unat b"
    and "unat (ucast (n AND 0xffffffff) :: u32) = unat n mod 2 ^ 32"
    and "unat (drop_bit 32 n) = unat n div 2 ^ 32"
    and "unat (drop_bit 32 n) \<le> 1"
proof -
  have pb: "unat (ucast p :: u64) = unat p" "unat (ucast b :: u64) = unat b"
    using unat_u32_lt [of p] unat_u32_lt [of b]
    by (simp_all add: unsigned_ucast_eq take_bit_nat_eq_self)
  have lt: "unat c + unat p + unat b < 2 ^ 33"
    using unat_u32_lt [of p] unat_u32_lt [of b] assms(1) by simp
  show n: "unat n = unat c + unat p + unat b"
    using lt by (simp add: n_def unat_word_ariths pb)
  have "n AND 0xffffffff = take_bit 32 n"
    by (simp add: take_bit_eq_mask mask_numeral)
  then show "unat (ucast (n AND 0xffffffff) :: u32) = unat n mod 2 ^ 32"
    by (simp only: unsigned_ucast_eq unsigned_take_bit_eq) (simp add: take_bit_eq_mod)
  show d: "unat (drop_bit 32 n) = unat n div 2 ^ 32"
    by (simp only: unat_drop_bit_eq) (simp add: drop_bit_eq_div)
  show "unat (drop_bit 32 n) \<le> 1"
    unfolding d n using lt by (simp add: less_Suc_eq_le [symmetric] less_mult_imp_div_less)
qed

lemma length_add_loop [simp]: "length ps = length bs \<Longrightarrow> length (add_loop c ps bs) = length ps"
  by (induction ps bs arbitrary: c rule: list_induct2) (auto simp: Let_def)

lemma uval_add_loop:
  "length ps = length bs \<Longrightarrow> unat c \<le> 1 \<Longrightarrow>
   uval (add_loop c ps bs) = (unat c + uval ps + uval bs) mod 2 ^ (32 * length ps)"
proof (induction ps bs arbitrary: c rule: list_induct2)
  case Nil
  then show ?case by simp
next
  case (Cons p ps b bs)
  define n where "n = c + ucast p + ucast b"
  note n = u64_sum3 [OF Cons.prems, of p b, folded n_def]
  have "uval (add_loop c (p # ps) (b # bs)) =
      unat n mod 2 ^ 32 + 2 ^ 32 * ((unat n div 2 ^ 32 + uval ps + uval bs) mod 2 ^ (32 * length ps))"
    using Cons.IH [OF n(4)] n(2,3) by (simp add: n_def [symmetric] Let_def)
  also have "\<dots> = (unat n + 2 ^ 32 * (uval ps + uval bs)) mod 2 ^ (32 * Suc (length ps))"
    by (simp only: mod_split add.assoc)
  finally show ?case by (simp add: n(1) algebra_simps)
qed

lemma length_base_inc [simp]: "length (base_inc ps) = length ps"
  by (induction ps) auto

lemma length_base_dec [simp]: "length (base_dec ps) = length ps"
  by (induction ps) auto

lemma uval_base_inc: "uval (base_inc ps) = (uval ps + 1) mod 2 ^ (32 * length ps)"
proof (induction ps)
  case Nil
  then show ?case by simp
next
  case (Cons p ps)
  show ?case
  proof (cases "p + 1 = 0")
    case True
    then have "p = - 1" by (simp add: eq_neg_iff_add_eq_0)
    then have p: "unat p = 2 ^ 32 - 1" by (simp add: unsigned_minus_1_eq_mask mask_eq_exp_minus_1)
    have "uval (base_inc (p # ps)) = 2 ^ 32 * ((1 + uval ps) mod 2 ^ (32 * length ps))"
      using True Cons by simp
    also have "\<dots> = (2 ^ 32 + 2 ^ 32 * uval ps) mod 2 ^ (32 * Suc (length ps))"
      by (simp only: mod_split) simp
    finally show ?thesis by (simp add: p)
  next
    case False
    then have "unat (p + 1) = unat p + 1"
      by (metis add.commute plus_1_eq_Suc unatSuc Suc_eq_plus1)
    then have "uval (base_inc (p # ps)) = uval (p # ps) + 1"
      using False by simp
    moreover have "uval (base_inc (p # ps)) < 2 ^ (32 * length (p # ps))"
      using uval_bound [of "base_inc (p # ps)"] by (simp only: length_base_inc)
    ultimately show ?thesis by simp
  qed
qed

lemma uval_not: "uval (map (\<lambda>x. NOT x) ps) + uval ps + 1 = 2 ^ (32 * length ps)"
proof (induction ps)
  case Nil
  then show ?case by simp
next
  case (Cons p ps)
  have "unat (NOT p) = unat (- 1 :: u32) - unat p"
    by (simp only: not_eq_complement unat_sub word_n1_ge minus_diff_commute [of p 1])
  moreover have "unat (- 1 :: u32) = 2 ^ 32 - 1"
    by (simp add: unsigned_minus_1_eq_mask mask_eq_exp_minus_1)
  ultimately have "unat (NOT p) + unat p + 1 = 2 ^ 32"
    using unat_u32_lt [of p] by simp
  with Cons show ?case by (simp add: power_add algebra_simps)
qed

lemma uval_base_neg: "uval (base_neg ps) = (2 ^ (32 * length ps) - uval ps) mod 2 ^ (32 * length ps)"
proof -
  have "uval (map (\<lambda>x. NOT x) ps) + 1 = 2 ^ (32 * length ps) - uval ps"
    using uval_not [of ps] by linarith
  then show ?thesis by (simp add: base_neg_def uval_base_inc)
qed

lemma uval_base_dec: "(uval (base_dec ps) + 1) mod 2 ^ (32 * length ps) = uval ps"
proof (induction ps)
  case Nil
  then show ?case by simp
next
  case (Cons p ps)
  show ?case
  proof (cases "p - 1 = - 1")
    case True
    then have p: "p = 0" by simp
    have m: "unat (- 1 :: u32) + 1 = 2 ^ 32"
      by (simp add: unsigned_minus_1_eq_mask mask_eq_exp_minus_1)
    have "uval (base_dec (p # ps)) + 1 = 2 ^ 32 + 2 ^ 32 * uval (base_dec ps)"
      using m by (simp add: p)
    then have "(uval (base_dec (p # ps)) + 1) mod 2 ^ (32 * Suc (length ps)) =
        2 ^ 32 * ((uval (base_dec ps) + 1) mod 2 ^ (32 * length ps))"
      by (simp only: mod_split) simp
    then show ?thesis using Cons by (simp add: p)
  next
    case False
    then have "p \<noteq> 0" by auto
    then have "unat p = unat (p - 1) + 1"
      using unat_minus_one [of p] unat_gt_0 [of p] by simp
    then have "uval (base_dec (p # ps)) + 1 = uval (p # ps)"
      using False by simp
    then show ?thesis using uval_bound [of "p # ps"] by simp
  qed
qed

text \<open>The word of a given width that the limbs stand for.\<close>

definition limbs_word :: "limbs \<Rightarrow> 'a::len word" where
  "limbs_word ps = word_of_nat (uval ps)"

lemma word_of_nat_mod: "(word_of_nat (n mod 2 ^ LENGTH('a)) :: 'a::len word) = word_of_nat n"
  by (rule unsigned_word_eqI [where ?'a = nat]) (simp add: unat_of_nat)

lemma unat_limbs_word: "LENGTH('a::len) = 32 * length ps \<Longrightarrow> unat (limbs_word ps :: 'a word) = uval ps"
  using uval_bound [of ps] by (simp add: limbs_word_def unat_of_nat)

lemma length_base_neg [simp]: "length (base_neg b) = length b"
  by (simp add: base_neg_def)

lemma limbs_word_neg:
  assumes "LENGTH('a::len) = 32 * length b"
  shows "(limbs_word (base_neg b) :: 'a word) = - limbs_word b"
proof -
  have le: "uval b \<le> 2 ^ LENGTH('a)" using uval_bound [of b] assms by simp
  have "(limbs_word (base_neg b) :: 'a word) = word_of_nat (2 ^ LENGTH('a) - uval b)"
    using word_of_nat_mod [of "2 ^ LENGTH('a) - uval b", where 'a = 'a]
    by (simp add: limbs_word_def uval_base_neg assms)
  also have "\<dots> = word_of_nat (2 ^ LENGTH('a)) - word_of_nat (uval b)"
    using le by (rule of_nat_diff)
  also have "(word_of_nat (2 ^ LENGTH('a)) :: 'a word) = 0"
    using word_of_nat_mod [of "2 ^ LENGTH('a)", where 'a = 'a] by simp
  finally show ?thesis by (simp add: limbs_word_def)
qed

lemma limbs_word_add:
  assumes "LENGTH('a::len) = 32 * length a" and "length b = length a"
  shows "(limbs_word (base_add a b) :: 'a word) = limbs_word a + limbs_word b"
  using word_of_nat_mod [of "uval a + uval b", where 'a = 'a] assms
  by (simp add: limbs_word_def base_add_def uval_add_loop)

lemma limbs_word_not:
  assumes "LENGTH('a::len) = 32 * length a"
  shows "(limbs_word (base_not a) :: 'a word) = NOT (limbs_word a)"
proof -
  have "(word_of_nat (uval (base_not a) + uval a + 1) :: 'a word) = word_of_nat (2 ^ LENGTH('a))"
    using uval_not [of a] assms by (simp add: base_not_def)
  also have "\<dots> = 0"
    using word_of_nat_mod [of "2 ^ LENGTH('a)", where 'a = 'a] by simp
  finally have "(limbs_word (base_not a) :: 'a word) + (limbs_word a + 1) = 0"
    by (simp add: limbs_word_def ac_simps)
  then have "(limbs_word (base_not a) :: 'a word) = - (limbs_word a + 1)"
    by (rule eq_neg_iff_add_eq_0 [THEN iffD2])
  then show ?thesis by (simp add: not_eq_complement)
qed

lemma limbs_word_inc:
  assumes "LENGTH('a::len) = 32 * length a"
  shows "(limbs_word (base_inc a) :: 'a word) = limbs_word a + 1"
  using word_of_nat_mod [of "uval a + 1", where 'a = 'a] assms
  by (simp add: limbs_word_def uval_base_inc add.commute)

lemma limbs_word_dec:
  assumes "LENGTH('a::len) = 32 * length a"
  shows "(limbs_word (base_dec a) :: 'a word) = limbs_word a - 1"
proof -
  have "(limbs_word a :: 'a word) = word_of_nat (uval (base_dec a) + 1)"
    using word_of_nat_mod [of "uval (base_dec a) + 1", where 'a = 'a] uval_base_dec [of a] assms
    by (simp add: limbs_word_def)
  then show ?thesis by (simp add: limbs_word_def)
qed

lemma lt_down_eq:
  "length as = length bs \<Longrightarrow>
   lt_down r as bs \<longleftrightarrow> uval (rev as) < uval (rev bs) \<or> (r \<and> uval (rev as) = uval (rev bs))"
proof (induction as bs rule: list_induct2)
  case Nil
  then show ?case by simp
next
  case (Cons a as b bs)
  let ?x = "uval (rev as)" and ?y = "uval (rev bs)" and ?P = "2 ^ (32 * length bs) :: nat"
  have x: "?x < ?P" and y: "?y < ?P"
    using uval_bound [of "rev as"] uval_bound [of "rev bs"] Cons.hyps by simp_all
  have step: "m < n \<Longrightarrow> ?x + ?P * m < ?y + ?P * n \<and> ?y + ?P * m < ?x + ?P * n" for m n :: nat
  proof -
    assume "m < n"
    then have "?P * m + ?P \<le> ?P * n"
      by (metis Suc_leI mult_Suc_right mult_le_mono2 add.commute)
    then show ?thesis using x y by linarith
  qed
  show ?case
  proof (cases "unat a" "unat b" rule: linorder_cases)
    case less
    with step [of "unat a" "unat b"] Cons show ?thesis
      by (simp add: uval_append word_less_nat_alt)
  next
    case equal
    with Cons show ?thesis by (simp add: uval_append word_less_nat_alt)
  next
    case greater
    with step [of "unat b" "unat a"] Cons show ?thesis
      by (simp add: uval_append word_less_nat_alt)
  qed
qed

section \<open>Shifts, bit by bit\<close>

lemma bit_uval: "bit (uval xs) n \<longleftrightarrow> n div 32 < length xs \<and> bit (xs ! (n div 32)) (n mod 32)"
proof (induction xs arbitrary: n)
  case Nil
  then show ?case by simp
next
  case (Cons x xs)
  show ?case
  proof (cases "n < 32")
    case True
    define d where "d = 32 - Suc n"
    have d: "(2::nat) ^ 32 = 2 ^ n * (2 * 2 ^ d)"
      using True by (simp add: d_def flip: power_add power_Suc)
    have "uval (x # xs) div 2 ^ n = unat x div 2 ^ n + 2 * (2 ^ d * uval xs)"
      by (simp only: uval.simps d) (simp add: mult.assoc)
    then have "bit (uval (x # xs)) n = bit (unat x) n"
      by (simp add: bit_iff_odd)
    with True show ?thesis by (simp add: bit_unsigned_iff)
  next
    case False
    define m where "m = n - 32"
    have n: "n = 32 + m" using False by (simp add: m_def)
    have "uval (x # xs) div 2 ^ n = uval xs div 2 ^ m"
      using unat_u32_lt [of x] by (simp add: n power_add div_mult2_eq)
    then have "bit (uval (x # xs)) n = bit (uval xs) m"
      by (simp add: bit_iff_odd)
    moreover have "(32 + m) div 32 = Suc (m div 32)" by simp
    ultimately show ?thesis using Cons [of m] by (simp add: n del: uval.simps)
  qed
qed

definition shl_limb :: "limbs \<Rightarrow> nat \<Rightarrow> nat \<Rightarrow> nat \<Rightarrow> nat \<Rightarrow> u32" where
  "shl_limb a k s m j =
     (if k \<le> j \<and> j - k < m then push_bit s (a ! (j - k)) else 0) OR
     (if k + 1 \<le> j \<and> s \<noteq> 0 \<and> j - k - 1 < m then drop_bit (32 - s) (a ! (j - k - 1)) else 0)"

definition shr_limb :: "limbs \<Rightarrow> nat \<Rightarrow> nat \<Rightarrow> nat \<Rightarrow> nat \<Rightarrow> u32" where
  "shr_limb a k s m j =
     (if j + k < m then drop_bit s (a ! (j + k)) else 0) OR
     (if s \<noteq> 0 \<and> j + k + 1 < m then push_bit (32 - s) (a ! (j + k + 1)) else 0)"

lemma length_foldl_shl: "length (foldl (shl_step a k s) pn is) = length pn"
  by (induction "is" arbitrary: pn) (auto simp: shl_step_def Let_def)

lemma length_foldl_shr: "length (foldl (shr_step a k s) pn is) = length pn"
  by (induction "is" arbitrary: pn) (auto simp: shr_step_def Let_def)

lemma foldl_shl_nth:
  assumes "m \<le> length a" and "j < length a"
  shows "foldl (shl_step a k s) (replicate (length a) 0) [0..<m] ! j = shl_limb a k s m j"
  using assms
proof (induction m)
  case 0
  then show ?case by (simp add: shl_limb_def)
next
  case (Suc m)
  let ?f = "foldl (shl_step a k s) (replicate (length a) 0) [0..<m]"
  have len: "length ?f = length a" by (simp add: length_foldl_shl)
  have IH: "?f ! j = shl_limb a k s m j" using Suc by simp
  have "foldl (shl_step a k s) (replicate (length a) 0) [0..<Suc m] ! j = shl_step a k s ?f m ! j"
    by simp
  also have "\<dots> = shl_limb a k s (Suc m) j"
    using Suc.prems len IH
    by (auto simp: shl_step_def shl_limb_def Let_def nth_list_update less_Suc_eq or.commute or.assoc)
  finally show ?case .
qed

lemma foldl_shr_nth:
  assumes "m \<le> length a" and "j < length a"
  shows "foldl (shr_step a k s) (replicate (length a) 0) [0..<m] ! j = shr_limb a k s m j"
  using assms
proof (induction m)
  case 0
  then show ?case by (simp add: shr_limb_def)
next
  case (Suc m)
  let ?f = "foldl (shr_step a k s) (replicate (length a) 0) [0..<m]"
  have len: "length ?f = length a" by (simp add: length_foldl_shr)
  have IH: "?f ! j = shr_limb a k s m j" using Suc by simp
  have "foldl (shr_step a k s) (replicate (length a) 0) [0..<Suc m] ! j = shr_step a k s ?f m ! j"
    by simp
  also have "\<dots> = shr_limb a k s (Suc m) j"
    using Suc.prems len IH
    by (auto simp: shr_step_def shr_limb_def Let_def nth_list_update less_Suc_eq or.commute or.assoc)
  finally show ?case .
qed

lemma length_base_shl [simp]: "length (base_shl a n) = length a"
  by (simp add: base_shl_def length_foldl_shl)

lemma length_base_shr [simp]: "length (base_shr a n) = length a"
  by (simp add: base_shr_def length_foldl_shr)

lemma div_mod_sub_ge:
  fixes n k s :: nat
  assumes "32 * k + s \<le> n" and "s < 32" and "s \<le> n mod 32"
  shows "(n - (32 * k + s)) div 32 = n div 32 - k" and "(n - (32 * k + s)) mod 32 = n mod 32 - s"
proof -
  have "k \<le> n div 32" using assms by simp
  then have "n - (32 * k + s) = 32 * (n div 32 - k) + (n mod 32 - s)"
    using assms by (simp add: diff_mult_distrib2)
  then show "(n - (32 * k + s)) div 32 = n div 32 - k" "(n - (32 * k + s)) mod 32 = n mod 32 - s"
    by (simp_all add: less_imp_diff_less)
qed

lemma div_mod_sub_lt:
  fixes n k s :: nat
  assumes "32 * k + s \<le> n" and "s < 32" and "n mod 32 < s"
  shows "(n - (32 * k + s)) div 32 = n div 32 - k - 1" and "(n - (32 * k + s)) mod 32 = n mod 32 + 32 - s"
    and "k + 1 \<le> n div 32"
proof -
  define j t where "j = n div 32" and "t = n mod 32"
  have n: "n = 32 * j + t" by (simp add: j_def t_def)
  have "t < s" using assms(3) by (simp add: t_def)
  moreover have "32 * k + s \<le> 32 * j + t" using assms(1) n by simp
  ultimately have "k < j" by simp
  then show "k + 1 \<le> n div 32" by (simp add: j_def)
  obtain i where i: "j = k + 1 + i" using \<open>k < j\<close> by (metis Suc_eq_plus1 less_iff_Suc_add add_Suc)
  have "n - (32 * k + s) = 32 * i + (t + 32 - s)"
    using assms(2) by (simp add: n i)
  then have "n - (32 * k + s) = 32 * (n div 32 - k - 1) + (n mod 32 + 32 - s)"
    by (simp add: j_def [symmetric] t_def [symmetric] i)
  moreover have "n mod 32 + 32 - s < 32" using assms by simp
  ultimately show "(n - (32 * k + s)) div 32 = n div 32 - k - 1"
    "(n - (32 * k + s)) mod 32 = n mod 32 + 32 - s"
    by simp_all
qed

lemma bit_base_shl:
  assumes "n < 32 * length a"
  shows "bit (uval (base_shl a sh)) n \<longleftrightarrow> sh \<le> n \<and> bit (uval a) (n - sh)"
proof -
  define k s j t where kst: "k = sh div 32" "s = sh mod 32" "j = n div 32" "t = n mod 32"
  have sh: "sh = 32 * k + s" and s: "s < 32" and t: "t < 32" and n: "n = 32 * j + t"
    by (simp_all add: kst)
  have j: "j < length a" using assms by (simp add: n)
  have "bit (uval (base_shl a sh)) n = bit (shl_limb a k s (length a) j) t"
    using foldl_shl_nth [of "length a" a j k s] j
    by (simp add: bit_uval base_shl_def length_foldl_shl kst)
  also have "\<dots> \<longleftrightarrow> (k \<le> j \<and> s \<le> t \<and> bit (a ! (j - k)) (t - s))
      \<or> (k + 1 \<le> j \<and> t < s \<and> bit (a ! (j - k - 1)) (t + 32 - s))"
    using s t j
    by (auto simp: shl_limb_def bit_simps add.commute dest: bit_imp_le_length)
  also have "\<dots> \<longleftrightarrow> sh \<le> n \<and> bit (uval a) (n - sh)"
  proof (cases "sh \<le> n")
    case True
    then have le: "32 * k + s \<le> n" by (simp add: sh)
    show ?thesis
    proof (cases "s \<le> t")
      case True
      then show ?thesis
        using div_mod_sub_ge [OF le s] le s t j by (simp add: bit_uval sh n less_imp_diff_less)
    next
      case False
      then show ?thesis
        using div_mod_sub_lt [OF le s] le s t j by (simp add: bit_uval sh n less_imp_diff_less)
    qed
  next
    case False
    then show ?thesis using s by (auto simp: sh n)
  qed
  finally show ?thesis .
qed

lemma div_mod_32: "r < 32 \<Longrightarrow> (32 * q + r) div 32 = q \<and> (32 * q + r) mod 32 = r" for q r :: nat
  by simp

lemma bit_base_shr:
  assumes "n < 32 * length a"
  shows "bit (uval (base_shr a sh)) n \<longleftrightarrow> bit (uval a) (n + sh)"
proof -
  define k s j t where kst: "k = sh div 32" "s = sh mod 32" "j = n div 32" "t = n mod 32"
  have sh: "sh = 32 * k + s" and s: "s < 32" and t: "t < 32" and n: "n = 32 * j + t"
    by (simp_all add: kst)
  have j: "j < length a" using assms by (simp add: n)
  have "bit (uval (base_shr a sh)) n = bit (shr_limb a k s (length a) j) t"
    using foldl_shr_nth [of "length a" a j k s] j
    by (simp add: bit_uval base_shr_def length_foldl_shr kst)
  also have "\<dots> \<longleftrightarrow> (j + k < length a \<and> t + s < 32 \<and> bit (a ! (j + k)) (t + s))
      \<or> (j + k + 1 < length a \<and> 32 \<le> t + s \<and> bit (a ! (j + k + 1)) (t + s - 32))"
    using s t j
    by (auto simp: shr_limb_def bit_simps add.commute dest: bit_imp_le_length)
  also have "\<dots> \<longleftrightarrow> bit (uval a) (n + sh)"
  proof (cases "t + s < 32")
    case True
    have "n + sh = 32 * (j + k) + (t + s)" by (simp add: sh n)
    then have "(n + sh) div 32 = j + k" "(n + sh) mod 32 = t + s"
      using div_mod_32 [OF True, of "j + k"] by presburger+
    with True show ?thesis by (simp add: bit_uval)
  next
    case False
    have "n + sh = 32 * (j + k + 1) + (t + s - 32)" using False by (simp add: sh n)
    moreover have "t + s - 32 < 32" using s t by simp
    ultimately have "(n + sh) div 32 = j + k + 1" "(n + sh) mod 32 = t + s - 32"
      using div_mod_32 [of "t + s - 32" "j + k + 1"] by presburger+
    with False show ?thesis by (simp add: bit_uval)
  qed
  finally show ?thesis .
qed

lemma bit_limbs_word:
  assumes "LENGTH('a::len) = 32 * length ps"
  shows "bit (limbs_word ps :: 'a word) n \<longleftrightarrow> bit (uval ps) n"
proof -
  have "bit (limbs_word ps :: 'a word) n = bit (unat (limbs_word ps :: 'a word)) n"
    by (simp add: bit_unsigned_iff)
  then show ?thesis by (simp only: unat_limbs_word [OF assms])
qed

lemma limbs_word_shl:
  assumes "LENGTH('a::len) = 32 * length a"
  shows "(limbs_word (base_shl a sh) :: 'a word) = push_bit sh (limbs_word a)"
  by (rule bit_word_eqI) (auto simp: bit_limbs_word assms bit_base_shl bit_push_bit_iff)

lemma limbs_word_shr:
  assumes "LENGTH('a::len) = 32 * length a"
  shows "(limbs_word (base_shr a sh) :: 'a word) = drop_bit sh (limbs_word a)"
  by (rule bit_word_eqI) (auto simp: bit_limbs_word assms bit_base_shr bit_drop_bit_eq add.commute)

text \<open>
  The limb loops of \<open>base_uint\<close> are arithmetic modulo \<open>2^BITS\<close>: addition with carry,
  complement, negation, subtraction, increment and decrement.
\<close>

theorem base_uint_arith:
  assumes "LENGTH('a::len) = 32 * length a" and "length b = length a"
  shows "(limbs_word (base_add a b) :: 'a word) = limbs_word a + limbs_word b
    \<and> (limbs_word (base_sub a b) :: 'a word) = limbs_word a - limbs_word b
    \<and> (limbs_word (base_neg a) :: 'a word) = - limbs_word a
    \<and> (limbs_word (base_not a) :: 'a word) = NOT (limbs_word a)
    \<and> (limbs_word (base_inc a) :: 'a word) = limbs_word a + 1
    \<and> (limbs_word (base_dec a) :: 'a word) = limbs_word a - 1"
  using assms
  by (simp add: limbs_word_add limbs_word_neg limbs_word_not limbs_word_inc limbs_word_dec
      base_sub_def)

theorem base_uint_arith_witness:
  "LENGTH(64) = 32 * length [5 :: u32, 0] \<and>
   (limbs_word (base_sub [5, 0] [6, 0]) :: u64) = limbs_word [5, 0] - limbs_word [6, 0]"
  using base_uint_arith [where 'a = 64, of "[5, 0]" "[6, 0]"] by simp

text \<open>
  The comparison loops, which run from the most significant limb down, order the arrays by
  their numbers.
\<close>

theorem base_uint_order:
  assumes "LENGTH('a::len) = 32 * length a" and "length b = length a"
  shows "(base_lt a b \<longleftrightarrow> (limbs_word a :: 'a word) < limbs_word b)
    \<and> (base_le a b \<longleftrightarrow> (limbs_word a :: 'a word) \<le> limbs_word b)
    \<and> (base_gt a b \<longleftrightarrow> (limbs_word a :: 'a word) > limbs_word b)
    \<and> (base_ge a b \<longleftrightarrow> (limbs_word a :: 'a word) \<ge> limbs_word b)
    \<and> (base_eq a b \<longleftrightarrow> (limbs_word a :: 'a word) = limbs_word b)"
proof -
  have w: "unat (limbs_word a :: 'a word) = uval a" "unat (limbs_word b :: 'a word) = uval b"
    using assms by (simp_all add: unat_limbs_word)
  have "base_eq a b \<longleftrightarrow> uval a = uval b"
    using uval_inj [of a b] assms by (auto simp: base_eq_def list.rel_eq)
  moreover have "base_lt a b \<longleftrightarrow> uval a < uval b" "base_le a b \<longleftrightarrow> uval a \<le> uval b"
    "base_gt a b \<longleftrightarrow> uval b < uval a" "base_ge a b \<longleftrightarrow> uval b \<le> uval a"
    using assms by (auto simp: base_lt_def base_le_def base_gt_def base_ge_def lt_down_eq)
  ultimately show ?thesis
    by (simp only: word_less_nat_alt word_le_nat_alt word_unat_eq_iff w simp_thms)
qed

theorem base_uint_order_witness:
  "LENGTH(64) = 32 * length [7 :: u32, 1]
   \<and> base_lt [9, 1] [7, 2] = ((limbs_word [9, 1] :: u64) < limbs_word [7, 2])
   \<and> base_lt [9, 1] [7, 2]"
  using base_uint_order [where 'a = 64, of "[9, 1]" "[7, 2]"] by (simp add: base_lt_def)

text \<open>
  The two shift loops, which scatter each limb over two neighbours, are the shifts of the
  whole number, for every shift amount.
\<close>

theorem base_uint_shift:
  assumes "LENGTH('a::len) = 32 * length a"
  shows "(limbs_word (base_shl a sh) :: 'a word) = push_bit sh (limbs_word a)
    \<and> (limbs_word (base_shr a sh) :: 'a word) = drop_bit sh (limbs_word a)"
  using assms by (simp add: limbs_word_shl limbs_word_shr)

theorem base_uint_shift_witness:
  "LENGTH(64) = 32 * length [7 :: u32, 1]
   \<and> (limbs_word (base_shl [7, 1] 33) :: u64) = push_bit 33 (limbs_word [7, 1])"
  using base_uint_shift [where 'a = 64, of "[7, 1]" 33] by simp

section \<open>Hexadecimal round trip\<close>

definition hex_ok :: "nat \<Rightarrow> bool" where
  "hex_ok k \<longleftrightarrow> phexdigit (hexdigits ! k) = k \<and> \<not> is_space (hexdigits ! k)
     \<and> hexdigits ! k \<noteq> CHR ''x'' \<and> hexdigits ! k \<noteq> CHR ''X''
     \<and> (k \<noteq> 0 \<or> hexdigits ! k = CHR ''0'')"

lemma hex_ok_all: "list_all hex_ok [0..<16]"
  by code_simp

lemma hex_digit: "k < 16 \<Longrightarrow> hex_ok k"
  using hex_ok_all by (simp add: list_all_iff)

lemma hex2_digits:
  "\<exists>c d. hex2 b = [c, d] \<and> phexdigit c = unat b div 16 \<and> phexdigit d = unat b mod 16
     \<and> \<not> is_space c \<and> d \<noteq> CHR ''x'' \<and> d \<noteq> CHR ''X''
     \<and> (phexdigit c \<noteq> 0 \<or> c = CHR ''0'') \<and> (phexdigit d \<noteq> 0 \<or> d = CHR ''0'')"
proof -
  have "unat b div 16 < 16" by (simp add: less_mult_imp_div_less)
  moreover have "unat b mod 16 < 16" by simp
  ultimately show ?thesis
    using hex_digit [of "unat b div 16"] hex_digit [of "unat b mod 16"]
    by (auto simp: hex2_def hex_ok_def)
qed

lemma nibbles_or: "word_of_nat (unat b mod 16) OR push_bit 4 (word_of_nat (unat b div 16)) = (b :: byte)"
proof -
  have "word_of_nat (unat b mod 16) = take_bit 4 b"
    by (rule unsigned_word_eqI [where ?'a = nat])
      (simp only: unsigned_take_bit_eq, simp add: take_bit_eq_mod unat_of_nat)
  moreover have "word_of_nat (unat b div 16) = drop_bit 4 b"
    by (rule unsigned_word_eqI [where ?'a = nat])
      (simp only: unat_drop_bit_eq, simp add: drop_bit_eq_div unat_of_nat less_imp_diff_less
        order_le_less_trans [OF div_le_dividend unat_byte_lt])
  moreover have "take_bit 4 b OR push_bit 4 (drop_bit 4 b) = b"
  proof (rule bit_word_eqI)
    fix n
    show "bit (take_bit 4 b OR push_bit 4 (drop_bit 4 b)) n = bit b n"
      by (cases "n < 4") (auto simp: bit_simps dest: bit_imp_le_length)
  qed
  ultimately show ?thesis by simp
qed

lemma fill_bytes_hex:
  "fill_bytes (length bs) (concat (map (\<lambda>b. rev (map phexdigit (hex2 b))) bs)) = bs"
proof (induction bs)
  case Nil
  then show ?case by simp
next
  case (Cons b bs)
  obtain c d where "hex2 b = [c, d]" "phexdigit c = unat b div 16" "phexdigit d = unat b mod 16"
    using hex2_digits [of b] by blast
  with Cons show ?case by (simp add: nibbles_or)
qed

lemma rev_concat_map: "rev (concat (map f (rev xs))) = concat (map (\<lambda>x. rev (f x)) xs)"
  by (induction xs) auto

lemma length_limb_bytes [simp, size_simps]: "length (limb_bytes pn) = 4 * length pn"
  by (induction pn) (auto simp: limb_bytes_def)

lemma bytes_limbs_limb_bytes: "bytes_limbs (length pn) (limb_bytes pn) = pn"
proof (induction pn)
  case Nil
  then show ?case by simp
next
  case (Cons p pn)
  have "limb_bytes (p # pn) = word_le 4 p @ limb_bytes pn" by (simp add: limb_bytes_def)
  with Cons show ?case by (simp add: le_word_word_le)
qed

lemma GetHex_digits:
  "\<forall>c \<in> set (GetHex pn). phexdigit c \<noteq> 0 \<or> c = CHR ''0''"
proof
  fix c
  assume "c \<in> set (GetHex pn)"
  then obtain b where b: "c \<in> set (hex2 b)" by (auto simp: GetHex_def)
  obtain x y where "hex2 b = [x, y]" "phexdigit x \<noteq> 0 \<or> x = CHR ''0''" "phexdigit y \<noteq> 0 \<or> y = CHR ''0''"
    using hex2_digits [of b] by blast
  with b show "phexdigit c \<noteq> 0 \<or> c = CHR ''0''" by auto
qed

lemma skip_prefix_GetHex: "skip_0x (dropWhile is_space (GetHex pn)) = GetHex pn"
proof (cases "limb_bytes pn" rule: rev_cases)
  case Nil
  then show ?thesis by (simp add: GetHex_def skip_0x_def)
next
  case (snoc bs b)
  obtain c d where "hex2 b = [c, d]" "\<not> is_space c" "d \<noteq> CHR ''x''" "d \<noteq> CHR ''X''"
    using hex2_digits [of b] by blast
  with snoc show ?thesis by (simp add: GetHex_def skip_0x_def)
qed

text \<open>
  Reading back the hexadecimal text of a number gives the number, for every width.
\<close>

theorem SetHex_GetHex: "SetHex (length pn) (GetHex pn) = pn"
proof -
  have "takeWhile (\<lambda>c. phexdigit c \<noteq> 0 \<or> c = CHR ''0'') (GetHex pn) = GetHex pn"
    using GetHex_digits [of pn] by (simp add: takeWhile_eq_all_conv)
  moreover have "rev (map phexdigit (GetHex pn)) =
      concat (map (\<lambda>b. rev (map phexdigit (hex2 b))) (limb_bytes pn))"
    using rev_concat_map [of "\<lambda>b. map phexdigit (hex2 b)" "limb_bytes pn"]
    by (simp add: GetHex_def map_concat comp_def)
  moreover have "fill_bytes (4 * length pn)
      (concat (map (\<lambda>b. rev (map phexdigit (hex2 b))) (limb_bytes pn))) = limb_bytes pn"
    using fill_bytes_hex [of "limb_bytes pn"] by simp
  ultimately show ?thesis
    unfolding SetHex_def Let_def skip_prefix_GetHex by (simp only: bytes_limbs_limb_bytes)
qed

end
