(* ===== verification/Serialize.thy ===== *)
theory Serialize
  imports Prelude
begin

text \<open>
  The wire format of src/src/serialize.h: compact sizes, byte vectors and vectors of objects.
  A writer is a function to bytes and a reader is a function on the rest of the stream, with
  \<open>None\<close> for the exception thrown at the end of the data or by an oversized length. The
  locale \<open>codec\<close> is the contract between a type's writer and reader; what holds of vectors is
  proved from it once.
\<close>

section \<open>Definitions\<close>

definition MAX_SIZE :: nat where
  "MAX_SIZE = 0x02000000"

definition GetSizeOfCompactSize :: "nat \<Rightarrow> nat" where
  "GetSizeOfCompactSize nSize =
     (if nSize < 253 then 1
      else if nSize \<le> 0xffff then 1 + 2
      else if nSize \<le> 0xffffffff then 1 + 4
      else 1 + 8)"

definition WriteCompactSize :: "nat \<Rightarrow> bytes" where
  "WriteCompactSize nSize =
     (if nSize < 253 then nat_le 1 nSize
      else if nSize \<le> 0xffff then 253 # nat_le 2 nSize
      else if nSize \<le> 0xffffffff then 254 # nat_le 4 nSize
      else 255 # nat_le 8 nSize)"

definition read_nat :: "nat \<Rightarrow> nat reader" where
  "read_nat k s = (case read_bytes k s of None \<Rightarrow> None | Some (b, s') \<Rightarrow> Some (le_nat b, s'))"

definition ReadCompactSize :: "nat reader" where
  "ReadCompactSize is =
     (case read_nat 1 is of None \<Rightarrow> None
      | Some (chSize, is') \<Rightarrow>
         (case (if chSize < 253 then Some (chSize, is')
                else if chSize = 253 then read_nat 2 is'
                else if chSize = 254 then read_nat 4 is'
                else read_nat 8 is') of
            None \<Rightarrow> None
          | Some (nSizeRet, is'') \<Rightarrow> if nSizeRet > MAX_SIZE then None else Some (nSizeRet, is'')))"

text \<open>Byte vectors (also \<open>std::string\<close> and \<open>CScript\<close>): the reader takes blocks of at
  most five million bytes, so that a bogus length cannot exhaust memory.\<close>

definition Serialize_bytes :: "bytes \<Rightarrow> bytes" where
  "Serialize_bytes v = WriteCompactSize (length v) @ v"

definition GetSerializeSize_bytes :: "bytes \<Rightarrow> nat" where
  "GetSerializeSize_bytes v = GetSizeOfCompactSize (length v) + length v"

function read_blocks :: "nat \<Rightarrow> nat \<Rightarrow> bytes reader" where
  "read_blocks i nSize is =
     (if i < nSize then
        (let blk = min (nSize - i) (1 + 4999999) in
         case read_bytes blk is of None \<Rightarrow> None
         | Some (b, is') \<Rightarrow>
             (case read_blocks (i + blk) nSize is' of None \<Rightarrow> None
              | Some (bs, is'') \<Rightarrow> Some (b @ bs, is'')))
      else Some ([], is))"
  by pat_completeness auto
termination
  by (relation "measure (\<lambda>(i, nSize, _). nSize - i)") auto

declare read_blocks.simps [simp del]

definition Unserialize_bytes :: "bytes reader" where
  "Unserialize_bytes is =
     (case ReadCompactSize is of None \<Rightarrow> None
      | Some (nSize, is') \<Rightarrow> read_blocks 0 nSize is')"

text \<open>\<open>READWRITE\<close> of one member after another: the failure of a member is the failure of
  the whole.\<close>

definition rbind :: "'a reader \<Rightarrow> ('a \<Rightarrow> 'b reader) \<Rightarrow> 'b reader" where
  "rbind f g is = (case f is of None \<Rightarrow> None | Some (x, is') \<Rightarrow> g x is')"

definition rret :: "'a \<Rightarrow> 'a reader" where
  "rret x is = Some (x, is)"

text \<open>Vectors of objects.\<close>

definition Serialize_vec :: "('a \<Rightarrow> bytes) \<Rightarrow> 'a list \<Rightarrow> bytes" where
  "Serialize_vec ser v = WriteCompactSize (length v) @ concat (map ser v)"

definition GetSerializeSize_vec :: "('a \<Rightarrow> nat) \<Rightarrow> 'a list \<Rightarrow> nat" where
  "GetSerializeSize_vec sz v = GetSizeOfCompactSize (length v) + sum_list (map sz v)"

fun read_elems :: "'a reader \<Rightarrow> nat \<Rightarrow> 'a list reader" where
  "read_elems unser 0 is = Some ([], is)"
| "read_elems unser (Suc n) is =
     (case unser is of None \<Rightarrow> None
      | Some (x, is') \<Rightarrow>
          (case read_elems unser n is' of None \<Rightarrow> None
           | Some (xs, is'') \<Rightarrow> Some (x # xs, is'')))"

definition Unserialize_vec :: "'a reader \<Rightarrow> 'a list reader" where
  "Unserialize_vec unser is =
     (case ReadCompactSize is of None \<Rightarrow> None
      | Some (nSize, is') \<Rightarrow> read_elems unser nSize is')"

section \<open>Compact sizes\<close>

lemma rbind_Some [decode_simps]: "f s = Some (x, s') \<Longrightarrow> rbind f g s = g x s'"
  by (simp add: rbind_def)

lemma rbind_SomeE:
  assumes "rbind f g s = Some (y, t)"
  obtains x s' where "f s = Some (x, s')" "g x s' = Some (y, t)"
  using assms by (auto simp: rbind_def split: option.splits)

lemma rret_iff [simp]: "rret x s = Some (y, t) \<longleftrightarrow> x = y \<and> s = t"
  by (simp add: rret_def)

lemma length_WriteCompactSize [simp, size_simps]:
  "length (WriteCompactSize n) = GetSizeOfCompactSize n"
  by (simp add: WriteCompactSize_def GetSizeOfCompactSize_def)

lemma read_nat_append: "n < 256 ^ k \<Longrightarrow> read_nat k (nat_le k n @ s) = Some (n, s)"
  by (simp add: read_nat_def le_nat_nat_le)

lemma read_nat_1_Cons: "read_nat (Suc 0) (b # s) = Some (unat b, s)"
  by (simp add: read_nat_def read_bytes_def)

lemma ReadCompactSize_Write:
  assumes "n \<le> MAX_SIZE"
  shows "ReadCompactSize (WriteCompactSize n @ s) = Some (n, s)"
proof -
  have n: "n \<le> 0x02000000" using assms by (simp add: MAX_SIZE_def)
  consider "n < 253" | "253 \<le> n" "n \<le> 0xffff" | "0xffff < n" by linarith
  then show ?thesis
  proof cases
    case 1
    then show ?thesis
      using read_nat_append [of n 1 s] assms
      by (simp add: ReadCompactSize_def WriteCompactSize_def)
  next
    case 2
    then show ?thesis
      using read_nat_append [of n 2 s] assms
      by (simp add: ReadCompactSize_def WriteCompactSize_def read_nat_1_Cons)
  next
    case 3
    then show ?thesis
      using read_nat_append [of n 4 s] assms n
      by (simp add: ReadCompactSize_def WriteCompactSize_def read_nat_1_Cons)
  qed
qed

lemma ReadCompactSize_bound: "ReadCompactSize s = Some (n, s') \<Longrightarrow> n \<le> MAX_SIZE"
  by (auto simp: ReadCompactSize_def split: option.splits if_splits)

section \<open>Vectors\<close>

lemma read_bytes_split:
  assumes "k \<le> n"
  shows "read_bytes n s =
    (case read_bytes k s of None \<Rightarrow> None
     | Some (b, s') \<Rightarrow>
         (case read_bytes (n - k) s' of None \<Rightarrow> None | Some (bs, s'') \<Rightarrow> Some (b @ bs, s'')))"
proof -
  have "take n s = take k s @ take (n - k) (drop k s)" and "drop n s = drop (n - k) (drop k s)"
    using assms by (metis le_add_diff_inverse take_add) (simp add: assms)
  then show ?thesis using assms by (auto simp: read_bytes_def)
qed

lemma read_blocks_eq: "i \<le> nSize \<Longrightarrow> read_blocks i nSize s = read_bytes (nSize - i) s"
proof (induction i nSize s rule: read_blocks.induct)
  case (1 i nSize s)
  show ?case
  proof (cases "i < nSize")
    case True
    define blk where "blk = min (nSize - i) (1 + 4999999)"
    have blk: "blk \<le> nSize - i" by (simp add: blk_def)
    have IH: "read_blocks (i + blk) nSize s' = read_bytes (nSize - i - blk) s'"
      if "read_bytes blk s = Some (b, s')" for b s'
      using 1(1) [OF True blk_def] that blk True by simp
    have "read_blocks i nSize s =
      (case read_bytes blk s of None \<Rightarrow> None
       | Some (b, s') \<Rightarrow>
           (case read_blocks (i + blk) nSize s' of None \<Rightarrow> None
            | Some (bs, s'') \<Rightarrow> Some (b @ bs, s'')))"
      using True by (subst read_blocks.simps) (simp only: if_True Let_def blk_def)
    also have "\<dots> = read_bytes (nSize - i) s"
      unfolding read_bytes_split [OF blk, of s] using IH by (auto split: option.splits)
    finally show ?thesis .
  next
    case False
    with 1(2) show ?thesis by (subst read_blocks.simps) (simp add: read_bytes_def)
  qed
qed

lemma Unserialize_bytes_Serialize [decode_simps]:
  "length v \<le> MAX_SIZE \<Longrightarrow> Unserialize_bytes (Serialize_bytes v @ s) = Some (v, s)"
  by (simp add: Unserialize_bytes_def Serialize_bytes_def ReadCompactSize_Write read_blocks_eq)

lemma length_Serialize_bytes [simp, size_simps]:
  "length (Serialize_bytes v) = GetSerializeSize_bytes v"
  by (simp add: Serialize_bytes_def GetSerializeSize_bytes_def)

text \<open>The contract of a writer and a reader of one type: on the values the format can carry
  (\<open>ok\<close>), the reader takes exactly what was written and leaves the rest.\<close>

locale codec =
  fixes ser :: "'a \<Rightarrow> bytes" and unser :: "'a reader" and sz :: "'a \<Rightarrow> nat"
    and ok :: "'a \<Rightarrow> bool"
  assumes unser_ser: "ok x \<Longrightarrow> unser (ser x @ s) = Some (x, s)"
    and length_ser: "length (ser x) = sz x"
begin

lemma read_elems_concat:
  "list_all ok xs \<Longrightarrow> read_elems unser (length xs) (concat (map ser xs) @ s) = Some (xs, s)"
  by (induction xs) (auto simp: unser_ser)

lemma unser_vec:
  "list_all ok xs \<Longrightarrow> length xs \<le> MAX_SIZE \<Longrightarrow>
   Unserialize_vec unser (Serialize_vec ser xs @ s) = Some (xs, s)"
  by (simp add: Unserialize_vec_def Serialize_vec_def ReadCompactSize_Write read_elems_concat)

lemma length_vec: "length (Serialize_vec ser xs) = GetSerializeSize_vec sz xs"
  by (simp add: Serialize_vec_def GetSerializeSize_vec_def length_concat comp_def length_ser)

lemma ser_inj: "ok x \<Longrightarrow> ok y \<Longrightarrow> ser x @ s = ser y @ t \<Longrightarrow> x = y \<and> s = t"
  by (metis unser_ser option.inject prod.inject)

end

text \<open>A reader whose results the format can carry again.\<close>

locale codec_ok = codec +
  assumes unser_ok: "unser s = Some (x, s') \<Longrightarrow> ok x"
begin

lemma read_elems_ok:
  "read_elems unser n s = Some (xs, s') \<Longrightarrow> list_all ok xs \<and> length xs = n"
proof (induction n arbitrary: s xs)
  case (Suc n)
  then show ?case by (auto split: option.splits simp: unser_ok)
qed simp

lemma unser_vec_ok:
  "Unserialize_vec unser s = Some (xs, s') \<Longrightarrow> list_all ok xs \<and> length xs \<le> MAX_SIZE"
  by (auto simp: Unserialize_vec_def split: option.splits
      dest!: read_elems_ok ReadCompactSize_bound)

end

text \<open>The codec of a vector, from the codec of its elements.\<close>

lemma codec_vec:
  assumes "codec ser unser sz ok"
  shows "codec (Serialize_vec ser) (Unserialize_vec unser) (GetSerializeSize_vec sz)
    (\<lambda>xs. list_all ok xs \<and> length xs \<le> MAX_SIZE)"
  using codec.unser_vec [OF assms] codec.length_vec [OF assms] by unfold_locales auto

lemma codec_ok_vec:
  assumes "codec_ok ser unser sz ok"
  shows "codec_ok (Serialize_vec ser) (Unserialize_vec unser) (GetSerializeSize_vec sz)
    (\<lambda>xs. list_all ok xs \<and> length xs \<le> MAX_SIZE)"
proof -
  have c: "codec ser unser sz ok" using assms by (rule codec_ok.axioms)
  show ?thesis
    using codec_vec [OF c] codec_ok.unser_vec_ok [OF assms]
    by (auto simp: codec_ok_def codec_ok_axioms_def)
qed

lemma Unserialize_bytes_ok: "Unserialize_bytes s = Some (v, s') \<Longrightarrow> length v \<le> MAX_SIZE"
  by (auto simp: Unserialize_bytes_def read_blocks_eq split: option.splits
      dest!: ReadCompactSize_bound read_bytes_SomeD)

interpretation bytes_codec: codec_ok Serialize_bytes Unserialize_bytes GetSerializeSize_bytes
    "\<lambda>v. length v \<le> MAX_SIZE"
  by unfold_locales (auto simp: Unserialize_bytes_Serialize dest: Unserialize_bytes_ok)

interpretation u256_codec: codec_ok "word_le 32 :: u256 \<Rightarrow> bytes" "read_word 32" "\<lambda>_. 32" "\<lambda>_. True"
  by unfold_locales (auto simp: read_word_append)

text \<open>
  Compact sizes: the writer uses as many bytes as announced; a size up to \<open>MAX_SIZE\<close> is
  read back and the rest of the stream is left alone; a larger size of at most 32 bits is
  refused by the reader.
\<close>

theorem CompactSize_roundtrip:
  "length (WriteCompactSize n) = GetSizeOfCompactSize n
   \<and> (n \<le> MAX_SIZE \<longrightarrow> ReadCompactSize (WriteCompactSize n @ s) = Some (n, s))
   \<and> (MAX_SIZE < n \<and> n < 2 ^ 32 \<longrightarrow> ReadCompactSize (WriteCompactSize n @ s) = None)"
proof (intro conjI impI)
  show "length (WriteCompactSize n) = GetSizeOfCompactSize n" by simp
  show "ReadCompactSize (WriteCompactSize n @ s) = Some (n, s)" if "n \<le> MAX_SIZE"
    using that by (rule ReadCompactSize_Write)
  assume n: "MAX_SIZE < n \<and> n < 2 ^ 32"
  then show "ReadCompactSize (WriteCompactSize n @ s) = None"
    using read_nat_append [of n 4 s]
    by (simp add: ReadCompactSize_def WriteCompactSize_def read_nat_1_Cons MAX_SIZE_def)
qed

theorem CompactSize_roundtrip_witness:
  "(300::nat) \<le> MAX_SIZE \<and> ReadCompactSize (WriteCompactSize 300 @ [7]) = Some (300, [7])"
  using CompactSize_roundtrip [of 300 "[7]"] by (simp add: MAX_SIZE_def)

end
