(* ===== verification/Tx.thy ===== *)
theory Tx
  imports Serialize Externals
begin

text \<open>
  Transactions (src/src/main.h): outpoints, inputs, outputs and \<open>CTransaction\<close>, their wire
  format, their hashes, and the checks and fee rules that depend on a transaction alone.
  Amounts are signed 64-bit words; C++ code that adds before it checks is modelled with the
  addition of words.
\<close>

section \<open>Data\<close>

definition COIN :: i64 where "COIN = 100000000"
definition MAX_BLOCK_SIZE :: nat where "MAX_BLOCK_SIZE = 1000000"
definition MAX_BLOCK_SIZE_GEN :: nat where "MAX_BLOCK_SIZE_GEN = MAX_BLOCK_SIZE div 2"
definition MAX_BLOCK_SIGOPS :: nat where "MAX_BLOCK_SIGOPS = MAX_BLOCK_SIZE div 50"
definition MAX_ORPHAN_TRANSACTIONS :: nat where "MAX_ORPHAN_TRANSACTIONS = MAX_BLOCK_SIZE div 100"
definition MIN_TX_FEE :: i64 where "MIN_TX_FEE = 100000000"
definition MIN_RELAY_TX_FEE :: i64 where "MIN_RELAY_TX_FEE = MIN_TX_FEE"
definition MAX_MONEY :: i64 where "MAX_MONEY = 10000000000 * COIN"
definition COINBASE_MATURITY :: int where "COINBASE_MATURITY = 30"
definition LOCKTIME_THRESHOLD :: u32 where "LOCKTIME_THRESHOLD = 500000000"

definition MoneyRange :: "i64 \<Rightarrow> bool" where
  "MoneyRange nValue \<longleftrightarrow> 0 \<le>s nValue \<and> nValue \<le>s MAX_MONEY"

record COutPoint =
  op_hash :: u256
  op_n :: u32

record CTxIn =
  prevout :: COutPoint
  scriptSig :: bytes
  nSequence :: u32

record CTxOut =
  nValue :: i64
  scriptPubKey :: bytes

record CTransaction =
  nVersion :: i32
  vin :: "CTxIn list"
  vout :: "CTxOut list"
  nLockTime :: u32

definition COutPoint_SetNull :: COutPoint where
  "COutPoint_SetNull = \<lparr> op_hash = 0, op_n = - 1 \<rparr>"

definition COutPoint_IsNull :: "COutPoint \<Rightarrow> bool" where
  "COutPoint_IsNull p \<longleftrightarrow> op_hash p = 0 \<and> op_n p = - 1"

definition COutPoint_less :: "COutPoint \<Rightarrow> COutPoint \<Rightarrow> bool" where
  "COutPoint_less a b \<longleftrightarrow> op_hash a < op_hash b \<or> (op_hash a = op_hash b \<and> op_n a < op_n b)"

definition CTxIn_IsFinal :: "CTxIn \<Rightarrow> bool" where
  "CTxIn_IsFinal i \<longleftrightarrow> nSequence i = 0xffffffff"

definition CTxOut_SetNull :: CTxOut where
  "CTxOut_SetNull = \<lparr> nValue = - 1, scriptPubKey = [] \<rparr>"

definition CTxOut_IsNull :: "CTxOut \<Rightarrow> bool" where
  "CTxOut_IsNull out \<longleftrightarrow> nValue out = - 1"

definition CURRENT_VERSION :: i32 where "CURRENT_VERSION = 1"

definition CTransaction_SetNull :: CTransaction where
  "CTransaction_SetNull = \<lparr> nVersion = CURRENT_VERSION, vin = [], vout = [], nLockTime = 0 \<rparr>"

definition CTransaction_IsNull :: "CTransaction \<Rightarrow> bool" where
  "CTransaction_IsNull tx \<longleftrightarrow> vin tx = [] \<and> vout tx = []"

section \<open>Wire format\<close>

definition Serialize_COutPoint :: "COutPoint \<Rightarrow> bytes" where
  "Serialize_COutPoint p = word_le 32 (op_hash p) @ word_le 4 (op_n p)"

definition Unserialize_COutPoint :: "COutPoint reader" where
  "Unserialize_COutPoint =
     rbind (read_word 32) (\<lambda>h. rbind (read_word 4) (\<lambda>k. rret \<lparr> op_hash = h, op_n = k \<rparr>))"

definition Serialize_CTxIn :: "CTxIn \<Rightarrow> bytes" where
  "Serialize_CTxIn i =
     Serialize_COutPoint (prevout i) @ Serialize_bytes (scriptSig i) @ word_le 4 (nSequence i)"

definition GetSerializeSize_CTxIn :: "CTxIn \<Rightarrow> nat" where
  "GetSerializeSize_CTxIn i = 36 + GetSerializeSize_bytes (scriptSig i) + 4"

definition Unserialize_CTxIn :: "CTxIn reader" where
  "Unserialize_CTxIn =
     rbind Unserialize_COutPoint (\<lambda>p. rbind Unserialize_bytes (\<lambda>sg. rbind (read_word 4) (\<lambda>q.
       rret \<lparr> prevout = p, scriptSig = sg, nSequence = q \<rparr>)))"

definition Serialize_CTxOut :: "CTxOut \<Rightarrow> bytes" where
  "Serialize_CTxOut out = word_le 8 (nValue out) @ Serialize_bytes (scriptPubKey out)"

definition GetSerializeSize_CTxOut :: "CTxOut \<Rightarrow> nat" where
  "GetSerializeSize_CTxOut out = 8 + GetSerializeSize_bytes (scriptPubKey out)"

definition Unserialize_CTxOut :: "CTxOut reader" where
  "Unserialize_CTxOut =
     rbind (read_word 8) (\<lambda>v. rbind Unserialize_bytes (\<lambda>pk. rret \<lparr> nValue = v, scriptPubKey = pk \<rparr>))"

definition Serialize_CTransaction :: "CTransaction \<Rightarrow> bytes" where
  "Serialize_CTransaction tx =
     word_le 4 (nVersion tx) @ Serialize_vec Serialize_CTxIn (vin tx)
     @ Serialize_vec Serialize_CTxOut (vout tx) @ word_le 4 (nLockTime tx)"

definition GetSerializeSize_CTransaction :: "CTransaction \<Rightarrow> nat" where
  "GetSerializeSize_CTransaction tx =
     4 + GetSerializeSize_vec GetSerializeSize_CTxIn (vin tx)
     + GetSerializeSize_vec GetSerializeSize_CTxOut (vout tx) + 4"

definition Unserialize_CTransaction :: "CTransaction reader" where
  "Unserialize_CTransaction =
     rbind (read_word 4) (\<lambda>v. rbind (Unserialize_vec Unserialize_CTxIn) (\<lambda>ins.
     rbind (Unserialize_vec Unserialize_CTxOut) (\<lambda>outs. rbind (read_word 4) (\<lambda>t.
       rret \<lparr> nVersion = v, vin = ins, vout = outs, nLockTime = t \<rparr>))))"

section \<open>Hashes\<close>

definition Hash :: "openssl \<Rightarrow> bytes \<Rightarrow> u256" where
  "Hash E b = (let hash1 = SHA256 E b; hash2 = SHA256 E hash1 in le_word hash2)"

definition Hash2 :: "openssl \<Rightarrow> bytes \<Rightarrow> bytes \<Rightarrow> u256" where
  "Hash2 E p1 p2 = (let hash1 = SHA256 E (p1 @ p2); hash2 = SHA256 E hash1 in le_word hash2)"

definition Hash160 :: "openssl \<Rightarrow> bytes \<Rightarrow> u160" where
  "Hash160 E vch = (let hash1 = SHA256 E vch; hash2 = RIPEMD160 E hash1 in le_word hash2)"

definition SerializeHash :: "openssl \<Rightarrow> ('a \<Rightarrow> bytes) \<Rightarrow> 'a \<Rightarrow> u256" where
  "SerializeHash E ser obj = Hash E (ser obj)"

definition CTransaction_GetHash :: "openssl \<Rightarrow> CTransaction \<Rightarrow> u256" where
  "CTransaction_GetHash E tx = SerializeHash E Serialize_CTransaction tx"

definition CTxOut_GetHash :: "openssl \<Rightarrow> CTxOut \<Rightarrow> u256" where
  "CTxOut_GetHash E out = SerializeHash E Serialize_CTxOut out"

section \<open>Context-free rules\<close>

text \<open>A check either accepts or returns \<open>false\<close> after adding a penalty to \<open>nDoS\<close>.\<close>

datatype verdict = Accept | Reject nat

text \<open>\<open>nBestHeight\<close> and \<open>GetAdjustedTime()\<close> stand in for arguments that are zero.\<close>

definition IsFinal :: "int \<Rightarrow> int \<Rightarrow> CTransaction \<Rightarrow> int \<Rightarrow> int \<Rightarrow> bool" where
  "IsFinal nBestHeight adjustedTime tx nBlockHeight nBlockTime =
     (if nLockTime tx = 0 then True
      else let nBlockHeight = (if nBlockHeight = 0 then nBestHeight else nBlockHeight);
               nBlockTime = (if nBlockTime = 0 then adjustedTime else nBlockTime) in
        if uint (nLockTime tx)
             < (if nLockTime tx < LOCKTIME_THRESHOLD then nBlockHeight else nBlockTime) then True
        else list_all CTxIn_IsFinal (vin tx))"

fun newer_loop :: "(CTxIn \<times> CTxIn) list \<Rightarrow> bool \<Rightarrow> u32 \<Rightarrow> bool" where
  "newer_loop [] fNewer nLowest = fNewer"
| "newer_loop ((a, b) # r) fNewer nLowest =
     (if nSequence a \<noteq> nSequence b then
        let (fNewer, nLowest) = (if nSequence a \<le> nLowest then (False, nSequence a) else (fNewer, nLowest));
            (fNewer, nLowest) = (if nSequence b < nLowest then (True, nSequence b) else (fNewer, nLowest))
        in newer_loop r fNewer nLowest
      else newer_loop r fNewer nLowest)"

definition IsNewerThan :: "CTransaction \<Rightarrow> CTransaction \<Rightarrow> bool" where
  "IsNewerThan tx old =
     (if length (vin tx) \<noteq> length (vin old) then False
      else if \<not> list_all2 (\<lambda>a b. prevout a = prevout b) (vin tx) (vin old) then False
      else newer_loop (zip (vin tx) (vin old)) False 0xffffffff)"

definition IsCoinBase :: "CTransaction \<Rightarrow> bool" where
  "IsCoinBase tx \<longleftrightarrow> length (vin tx) = 1 \<and> COutPoint_IsNull (prevout (vin tx ! 0))"

text \<open>\<open>None\<close> is the \<open>std::runtime_error\<close>.\<close>

fun value_out_loop :: "i64 \<Rightarrow> CTxOut list \<Rightarrow> i64 option" where
  "value_out_loop nValueOut [] = Some nValueOut"
| "value_out_loop nValueOut (txout # r) =
     (let nValueOut = nValueOut + nValue txout in
      if \<not> MoneyRange (nValue txout) \<or> \<not> MoneyRange nValueOut then None
      else value_out_loop nValueOut r)"

definition GetValueOut :: "CTransaction \<Rightarrow> i64 option" where
  "GetValueOut tx = value_out_loop 0 (vout tx)"

datatype GetMinFee_mode = GMF_BLOCK | GMF_RELAY | GMF_SEND

definition dust_fee :: "i64 \<Rightarrow> CTxOut list \<Rightarrow> i64 \<Rightarrow> i64" where
  "dust_fee nBaseFee outs nMinFee =
     foldl (\<lambda>fee txout. if nValue txout <s COIN then fee + nBaseFee else fee) nMinFee outs"

definition GetMinFee :: "CTransaction \<Rightarrow> u32 \<Rightarrow> bool \<Rightarrow> GetMinFee_mode \<Rightarrow> i64" where
  "GetMinFee tx nBlockSize fAllowFree mode =
     (let nBaseFee = (if mode = GMF_RELAY then MIN_RELAY_TX_FEE else MIN_TX_FEE);
          nBytes = (word_of_nat (GetSerializeSize_CTransaction tx) :: u32);
          nNewBlockSize = nBlockSize + nBytes;
          nMinFee = (1 + ucast nBytes div 1000) * nBaseFee;
          nMinFee = (if fAllowFree then
                       (if nBlockSize = 1 then (if nBytes < 10000 then 0 else nMinFee)
                        else (if nNewBlockSize < 27000 then 0 else nMinFee))
                     else nMinFee);
          nMinFee = dust_fee nBaseFee (vout tx) nMinFee;
          clamp = (\<lambda>fee. if \<not> MoneyRange fee then MAX_MONEY else fee) in
      if nBlockSize \<noteq> 1 \<and> nNewBlockSize \<ge> word_of_nat (MAX_BLOCK_SIZE_GEN div 2) then
        (if nNewBlockSize \<ge> word_of_nat MAX_BLOCK_SIZE_GEN then MAX_MONEY
         else clamp (nMinFee * ucast ((word_of_nat MAX_BLOCK_SIZE_GEN :: u32)
                       div (word_of_nat MAX_BLOCK_SIZE_GEN - nNewBlockSize))))
      else clamp nMinFee)"

fun check_outputs :: "i64 \<Rightarrow> CTxOut list \<Rightarrow> verdict" where
  "check_outputs nValueOut [] = Accept"
| "check_outputs nValueOut (txout # r) =
     (if nValue txout <s 0 then Reject 100
      else if MAX_MONEY <s nValue txout then Reject 100
      else let nValueOut = nValueOut + nValue txout in
        if \<not> MoneyRange nValueOut then Reject 100 else check_outputs nValueOut r)"

fun check_duplicates :: "COutPoint set \<Rightarrow> CTxIn list \<Rightarrow> bool" where
  "check_duplicates vInOutPoints [] = True"
| "check_duplicates vInOutPoints (txin # r) =
     (if prevout txin \<in> vInOutPoints then False
      else check_duplicates (insert (prevout txin) vInOutPoints) r)"

definition CheckTransaction :: "CTransaction \<Rightarrow> verdict" where
  "CheckTransaction tx =
     (if vin tx = [] then Reject 10
      else if vout tx = [] then Reject 10
      else if GetSerializeSize_CTransaction tx > MAX_BLOCK_SIZE then Reject 100
      else case check_outputs 0 (vout tx) of Reject d \<Rightarrow> Reject d
      | Accept \<Rightarrow>
          if \<not> check_duplicates {} (vin tx) then Reject 0
          else if IsCoinBase tx then
            (let len = length (scriptSig (vin tx ! 0)) in
             if len < 2 \<or> len > 100 then Reject 100 else Accept)
          else if list_ex (\<lambda>txin. COutPoint_IsNull (prevout txin)) (vin tx) then Reject 10
          else Accept)"

section \<open>Codecs\<close>

lemma COutPoint_codec: "codec_ok Serialize_COutPoint Unserialize_COutPoint (\<lambda>_. 36) (\<lambda>_. True)"
  by unfold_locales
    (simp_all add: Serialize_COutPoint_def Unserialize_COutPoint_def rbind_Some read_word_append
      rret_def)

interpretation outpoint: codec_ok Serialize_COutPoint Unserialize_COutPoint "\<lambda>_. 36" "\<lambda>_. True"
  by (rule COutPoint_codec)

definition txin_ok :: "CTxIn \<Rightarrow> bool" where
  "txin_ok i \<longleftrightarrow> length (scriptSig i) \<le> MAX_SIZE"

definition txout_ok :: "CTxOut \<Rightarrow> bool" where
  "txout_ok out \<longleftrightarrow> length (scriptPubKey out) \<le> MAX_SIZE"

definition tx_ok :: "CTransaction \<Rightarrow> bool" where
  "tx_ok tx \<longleftrightarrow> (list_all txin_ok (vin tx) \<and> length (vin tx) \<le> MAX_SIZE)
     \<and> (list_all txout_ok (vout tx) \<and> length (vout tx) \<le> MAX_SIZE)"

interpretation txin: codec_ok Serialize_CTxIn Unserialize_CTxIn GetSerializeSize_CTxIn txin_ok
proof
  fix x :: CTxIn and s s' :: bytes
  show "Unserialize_CTxIn (Serialize_CTxIn x @ s) = Some (x, s)" if "txin_ok x"
    using that unfolding txin_ok_def
    by (simp add: Serialize_CTxIn_def Unserialize_CTxIn_def rbind_Some outpoint.unser_ser
        Unserialize_bytes_Serialize read_word_append rret_def)
  show "length (Serialize_CTxIn x) = GetSerializeSize_CTxIn x"
    by (simp add: Serialize_CTxIn_def GetSerializeSize_CTxIn_def outpoint.length_ser)
  show "txin_ok x" if "Unserialize_CTxIn s = Some (x, s')"
    using that unfolding Unserialize_CTxIn_def txin_ok_def
    by (auto elim!: rbind_SomeE dest!: Unserialize_bytes_ok)
qed

interpretation txout: codec_ok Serialize_CTxOut Unserialize_CTxOut GetSerializeSize_CTxOut txout_ok
proof
  fix x :: CTxOut and s s' :: bytes
  show "Unserialize_CTxOut (Serialize_CTxOut x @ s) = Some (x, s)" if "txout_ok x"
    using that unfolding txout_ok_def
    by (simp add: Serialize_CTxOut_def Unserialize_CTxOut_def rbind_Some
        Unserialize_bytes_Serialize read_word_append rret_def)
  show "length (Serialize_CTxOut x) = GetSerializeSize_CTxOut x"
    by (simp add: Serialize_CTxOut_def GetSerializeSize_CTxOut_def)
  show "txout_ok x" if "Unserialize_CTxOut s = Some (x, s')"
    using that unfolding Unserialize_CTxOut_def txout_ok_def
    by (auto elim!: rbind_SomeE dest!: Unserialize_bytes_ok)
qed

interpretation tx: codec_ok Serialize_CTransaction Unserialize_CTransaction
    GetSerializeSize_CTransaction tx_ok
proof
  fix x :: CTransaction and s s' :: bytes
  show "Unserialize_CTransaction (Serialize_CTransaction x @ s) = Some (x, s)" if "tx_ok x"
    using that unfolding tx_ok_def
    by (simp add: Serialize_CTransaction_def Unserialize_CTransaction_def rbind_Some
        txin.unser_vec txout.unser_vec read_word_append rret_def)
  show "length (Serialize_CTransaction x) = GetSerializeSize_CTransaction x"
    by (simp add: Serialize_CTransaction_def GetSerializeSize_CTransaction_def
        txin.length_vec txout.length_vec)
  show "tx_ok x" if "Unserialize_CTransaction s = Some (x, s')"
    using that unfolding Unserialize_CTransaction_def tx_ok_def
    by (auto elim!: rbind_SomeE dest!: txin.unser_vec_ok txout.unser_vec_ok)
qed

section \<open>Amounts\<close>

lemma sint_COIN [simp]: "sint COIN = 100000000"
  by (simp add: COIN_def)

lemma sint_MAX_MONEY [simp]: "sint MAX_MONEY = 1000000000000000000"
  by (simp add: MAX_MONEY_def COIN_def)

lemma sint_eq_sint: "sint (a :: i64) = sint b \<longleftrightarrow> a = b"
  by (metis of_int_sint scast_id)

lemma MoneyRange_sint: "MoneyRange v \<longleftrightarrow> 0 \<le> sint v \<and> sint v \<le> sint MAX_MONEY"
  by (simp add: MoneyRange_def word_sle_eq)

definition out_values :: "CTxOut list \<Rightarrow> int list" where
  "out_values outs = map (\<lambda>out. sint (nValue out)) outs"

definition values_ok :: "int \<Rightarrow> CTxOut list \<Rightarrow> bool" where
  "values_ok v outs \<longleftrightarrow> list_all (\<lambda>x. 0 \<le> x) (out_values outs)
     \<and> v + sum_list (out_values outs) \<le> sint MAX_MONEY"

lemma values_ok_Nil [simp]: "values_ok v [] \<longleftrightarrow> v \<le> sint MAX_MONEY"
  by (simp add: values_ok_def out_values_def)

lemma sum_list_nonneg_int: "list_all (\<lambda>x::int. 0 \<le> x) xs \<Longrightarrow> 0 \<le> sum_list xs"
  by (induction xs) auto

lemma values_ok_Cons:
  "values_ok v (out # outs) \<longleftrightarrow>
     0 \<le> sint (nValue out) \<and> v + sint (nValue out) \<le> sint MAX_MONEY
     \<and> values_ok (v + sint (nValue out)) outs"
  using sum_list_nonneg_int [of "out_values outs"]
  by (auto simp: values_ok_def out_values_def)

lemma MoneyRange_step:
  assumes "MoneyRange v"
  shows "MoneyRange x \<and> MoneyRange (v + x) \<longleftrightarrow> 0 \<le> sint x \<and> sint v + sint x \<le> sint MAX_MONEY"
    and "0 \<le> sint x \<Longrightarrow> sint v + sint x \<le> sint MAX_MONEY \<Longrightarrow> sint (v + x) = sint v + sint x"
proof -
  have v: "0 \<le> sint v" "sint v \<le> 1000000000000000000"
    using assms by (simp_all add: MoneyRange_sint)
  have s: "sint (v + x) = sint v + sint x" if "0 \<le> sint x" "sint x \<le> sint MAX_MONEY"
    by (rule sint_add_no_overflow) (use that v in auto)
  show "MoneyRange x \<and> MoneyRange (v + x) \<longleftrightarrow> 0 \<le> sint x \<and> sint v + sint x \<le> sint MAX_MONEY"
    using s v by (auto simp: MoneyRange_sint)
  show "0 \<le> sint x \<Longrightarrow> sint v + sint x \<le> sint MAX_MONEY \<Longrightarrow> sint (v + x) = sint v + sint x"
    using s v by auto
qed

lemma value_out_loop_iff:
  "MoneyRange v \<Longrightarrow>
   value_out_loop v outs = Some r \<longleftrightarrow>
     values_ok (sint v) outs \<and> sint r = sint v + sum_list (out_values outs)"
proof (induction outs arbitrary: v)
  case Nil
  then show ?case by (auto simp: MoneyRange_sint out_values_def sint_eq_sint)
next
  case (Cons out outs)
  show ?case
  proof (cases "MoneyRange (nValue out) \<and> MoneyRange (v + nValue out)")
    case True
    then have le: "0 \<le> sint (nValue out)" "sint v + sint (nValue out) \<le> sint MAX_MONEY"
      using MoneyRange_step(1) [OF Cons.prems] by auto
    have "sint (v + nValue out) = sint v + sint (nValue out)"
      using MoneyRange_step(2) [OF Cons.prems le] .
    with True le Cons.IH [of "v + nValue out"] show ?thesis
      by (simp add: values_ok_Cons out_values_def algebra_simps)
  next
    case False
    then have "\<not> (0 \<le> sint (nValue out) \<and> sint v + sint (nValue out) \<le> sint MAX_MONEY)"
      using MoneyRange_step(1) [OF Cons.prems] by blast
    with False show ?thesis by (auto simp: values_ok_Cons)
  qed
qed

lemma check_outputs_eq:
  "MoneyRange v \<Longrightarrow> check_outputs v outs = (if values_ok (sint v) outs then Accept else Reject 100)"
proof (induction outs arbitrary: v)
  case Nil
  then show ?case by (simp add: MoneyRange_sint)
next
  case (Cons out outs)
  show ?case
  proof (cases "MoneyRange (nValue out) \<and> MoneyRange (v + nValue out)")
    case True
    then have le: "0 \<le> sint (nValue out)" "sint v + sint (nValue out) \<le> sint MAX_MONEY"
      using MoneyRange_step(1) [OF Cons.prems] by auto
    have "sint (v + nValue out) = sint v + sint (nValue out)"
      using MoneyRange_step(2) [OF Cons.prems le] .
    with True le Cons.IH [of "v + nValue out"] show ?thesis
      by (simp add: values_ok_Cons word_sless_alt MoneyRange_sint)
  next
    case False
    then have "\<not> (0 \<le> sint (nValue out) \<and> sint v + sint (nValue out) \<le> sint MAX_MONEY)"
      using MoneyRange_step(1) [OF Cons.prems] by blast
    with False show ?thesis
      by (auto simp: values_ok_Cons word_sless_alt MoneyRange_sint)
  qed
qed

lemma check_duplicates_iff:
  "check_duplicates S ins \<longleftrightarrow> distinct (map prevout ins) \<and> S \<inter> prevout ` set ins = {}"
  by (induction S ins rule: check_duplicates.induct) auto

section \<open>Fees\<close>

definition min_fee_int :: "nat \<Rightarrow> nat \<Rightarrow> bool \<Rightarrow> nat \<Rightarrow> int" where
  "min_fee_int nBytes nBlockSize fAllowFree dust =
     (let free = fAllowFree \<and> (if nBlockSize = 1 then nBytes < 10000 else nBlockSize + nBytes < 27000) in
      100000000 * (int dust + (if free then 0 else 1 + int (nBytes div 1000))))"

definition dust_count :: "CTransaction \<Rightarrow> nat" where
  "dust_count tx = length (filter (\<lambda>out. sint (nValue out) < sint COIN) (vout tx))"

definition fee_spec :: "CTransaction \<Rightarrow> nat \<Rightarrow> bool \<Rightarrow> int" where
  "fee_spec tx nBlockSize fAllowFree =
     (let nBytes = GetSerializeSize_CTransaction tx;
          nNew = nBlockSize + nBytes;
          fee = min_fee_int nBytes nBlockSize fAllowFree (dust_count tx) in
      if nBlockSize = 1 \<or> nNew < 250000 then min (sint MAX_MONEY) fee
      else if 500000 \<le> nNew then sint MAX_MONEY
      else min (sint MAX_MONEY) (fee * int (500000 div (500000 - nNew))))"

lemma dust_fee_eq:
  "dust_fee b outs m = m + of_nat (length (filter (\<lambda>out. sint (nValue out) < sint COIN) outs)) * b"
  unfolding dust_fee_def
  by (induction outs arbitrary: m) (auto simp: word_sless_alt algebra_simps)

lemma sint_of_int_small: "- (2 ^ 63) \<le> z \<Longrightarrow> z < 2 ^ 63 \<Longrightarrow> sint (word_of_int z :: i64) = z"
  by (simp add: sint_sbintrunc' signed_take_bit_int_eq_self)

lemma unat_eqD: "unat x = k \<Longrightarrow> x = word_of_nat k"
  by auto

lemma unat_ucast32: "unat (ucast (w :: u32) :: i64) = unat w"
  by (simp add: unsigned_ucast_eq unsigned_take_bit_eq take_bit_eq_mod)
    (use unat_lt_2p [of w] in simp)

lemma filter_dust_bound: "9 * length (filter P (vout tx)) + 8 \<le> GetSerializeSize_CTransaction tx"
proof -
  have "9 * length (filter P outs) \<le> sum_list (map GetSerializeSize_CTxOut outs)" for outs
    by (induction outs)
      (auto simp: GetSerializeSize_CTxOut_def GetSerializeSize_bytes_def GetSizeOfCompactSize_def)
  then show ?thesis
    by (simp add: GetSerializeSize_CTransaction_def GetSerializeSize_vec_def add_increasing)
qed

lemma min_fee_int_bound:
  assumes "GetSerializeSize_CTransaction tx \<le> MAX_BLOCK_SIZE"
  shows "0 \<le> min_fee_int (GetSerializeSize_CTransaction tx) k fr (dust_count tx)"
    and "min_fee_int (GetSerializeSize_CTransaction tx) k fr (dust_count tx) \<le> 100000000 * 112112"
proof -
  have "9 * dust_count tx \<le> 1000000"
    using filter_dust_bound [of "\<lambda>out. sint (nValue out) < sint COIN" tx] assms
    by (simp add: dust_count_def MAX_BLOCK_SIZE_def del: sint_COIN)
  then have "int (dust_count tx) \<le> 111111" by linarith
  moreover have "GetSerializeSize_CTransaction tx div 1000 \<le> 1000"
    using assms by (simp add: MAX_BLOCK_SIZE_def)
  ultimately show "min_fee_int (GetSerializeSize_CTransaction tx) k fr (dust_count tx) \<le> 100000000 * 112112"
    by (simp add: min_fee_int_def Let_def)
  show "0 \<le> min_fee_int (GetSerializeSize_CTransaction tx) k fr (dust_count tx)"
    by (simp add: min_fee_int_def Let_def)
qed

lemma clamp_eq:
  assumes "0 \<le> z" and "z < 2 ^ 63"
  shows "sint (if \<not> MoneyRange (word_of_int z) then MAX_MONEY else word_of_int z :: i64) = min (sint MAX_MONEY) z"
  using assms sint_of_int_small [of z] by (auto simp: MoneyRange_sint min_def)

lemma raise_bound:
  assumes "0 \<le> fee" and "fee \<le> 100000000 * 112112"
  shows "fee * int (500000 div d) < 2 ^ 63"
proof -
  have "500000 div d \<le> 500000" by simp
  then have "int (500000 div d) \<le> 500000" by linarith
  then have "fee * int (500000 div d) \<le> (100000000 * 112112) * 500000"
    using assms by (intro mult_mono) auto
  then show ?thesis by simp
qed

lemma GetMinFee_eq:
  assumes size: "GetSerializeSize_CTransaction tx \<le> MAX_BLOCK_SIZE"
    and fits: "unat nBlockSize + GetSerializeSize_CTransaction tx < 2 ^ 32"
  shows "sint (GetMinFee tx nBlockSize fAllowFree mode) = fee_spec tx (unat nBlockSize) fAllowFree"
proof -
  define n where "n = GetSerializeSize_CTransaction tx"
  define w where "w = (word_of_nat n :: u32)"
  define new where "new = nBlockSize + w"
  define fee where "fee = min_fee_int n (unat nBlockSize) fAllowFree (dust_count tx)"
  have n: "n \<le> 1000000" using size by (simp add: n_def MAX_BLOCK_SIZE_def)
  then have w: "unat w = n" unfolding w_def by (intro unat_of_nat_small) simp
  have new: "unat new = unat nBlockSize + n"
    using fits by (simp add: new_def w unat_word_ariths n_def)
  have one: "nBlockSize = 1 \<longleftrightarrow> unat nBlockSize = 1"
    by (metis unat_1 unsigned_word_eqI)
  have cmp: "w < 10000 \<longleftrightarrow> n < 10000" "new < 27000 \<longleftrightarrow> unat nBlockSize + n < 27000"
    "word_of_nat (MAX_BLOCK_SIZE_GEN div 2) \<le> new \<longleftrightarrow> 250000 \<le> unat nBlockSize + n"
    "word_of_nat MAX_BLOCK_SIZE_GEN \<le> new \<longleftrightarrow> 500000 \<le> unat nBlockSize + n"
    by (simp_all add: word_less_nat_alt word_le_nat_alt w new MAX_BLOCK_SIZE_GEN_def MAX_BLOCK_SIZE_def)
  have kb: "(ucast w :: i64) div 1000 = word_of_int (int (n div 1000))"
  proof -
    have "unat ((ucast w :: i64) div 1000) = n div 1000"
      by (simp add: unat_div unat_ucast32 w)
    from unat_eqD [OF this] show ?thesis by simp
  qed
  have base: "(if mode = GMF_RELAY then MIN_RELAY_TX_FEE else MIN_TX_FEE) = 100000000"
    by (simp add: MIN_RELAY_TX_FEE_def MIN_TX_FEE_def)
  have fee_w: "dust_fee 100000000 (vout tx)
      (if fAllowFree then
         (if nBlockSize = 1 then (if w < 10000 then 0 else (1 + ucast w div 1000) * 100000000)
          else (if new < 27000 then 0 else (1 + ucast w div 1000) * 100000000))
       else (1 + ucast w div 1000) * 100000000) = word_of_int fee"
    unfolding dust_fee_eq dust_count_def [symmetric] fee_def min_fee_int_def Let_def kb cmp one
    by (simp add: algebra_simps)
  have mult: "(word_of_int fee :: i64)
      * ucast ((word_of_nat MAX_BLOCK_SIZE_GEN :: u32) div (word_of_nat MAX_BLOCK_SIZE_GEN - new))
      = word_of_int (fee * int (500000 div (500000 - (unat nBlockSize + n))))"
    if "unat nBlockSize + n < 500000"
  proof -
    have "unat ((500000 :: u32) - new) = 500000 - (unat nBlockSize + n)"
      using that by (subst unat_sub) (simp_all add: word_le_nat_alt new)
    then have "unat (ucast ((500000 :: u32) div (500000 - new)) :: i64)
        = 500000 div (500000 - (unat nBlockSize + n))"
      by (simp add: unat_ucast32 unat_div)
    then have "(ucast ((500000 :: u32) div (500000 - new)) :: i64)
        = word_of_nat (500000 div (500000 - (unat nBlockSize + n)))" by (rule unat_eqD)
    then show ?thesis by (simp add: MAX_BLOCK_SIZE_GEN_def MAX_BLOCK_SIZE_def)
  qed
  have fee: "0 \<le> fee" "fee \<le> 100000000 * 112112"
    using min_fee_int_bound [OF size] by (simp_all add: fee_def n_def)
  have fee63: "fee < 2 ^ 63" using fee by simp
  have raised: "0 \<le> fee * int (500000 div (500000 - (unat nBlockSize + n)))"
    using fee(1) by simp
  have G: "GetMinFee tx nBlockSize fAllowFree mode =
    (if unat nBlockSize \<noteq> 1 \<and> 250000 \<le> unat nBlockSize + n then
       (if 500000 \<le> unat nBlockSize + n then MAX_MONEY
        else (if \<not> MoneyRange (word_of_int fee * ucast ((word_of_nat MAX_BLOCK_SIZE_GEN :: u32)
                div (word_of_nat MAX_BLOCK_SIZE_GEN - new))) then MAX_MONEY
              else word_of_int fee * ucast ((word_of_nat MAX_BLOCK_SIZE_GEN :: u32)
                div (word_of_nat MAX_BLOCK_SIZE_GEN - new))))
     else (if \<not> MoneyRange (word_of_int fee) then MAX_MONEY else word_of_int fee))"
    unfolding GetMinFee_def Let_def base n_def [symmetric] w_def [symmetric] new_def [symmetric]
    unfolding fee_w unfolding cmp by (simp only: one)
  have S: "fee_spec tx (unat nBlockSize) fAllowFree =
    (if unat nBlockSize = 1 \<or> unat nBlockSize + n < 250000 then min (sint MAX_MONEY) fee
     else if 500000 \<le> unat nBlockSize + n then sint MAX_MONEY
     else min (sint MAX_MONEY) (fee * int (500000 div (500000 - (unat nBlockSize + n)))))"
    unfolding fee_spec_def Let_def n_def [symmetric] fee_def [symmetric] ..
  consider "unat nBlockSize = 1 \<or> unat nBlockSize + n < 250000"
    | "\<not> (unat nBlockSize = 1 \<or> unat nBlockSize + n < 250000)" "500000 \<le> unat nBlockSize + n"
    | "\<not> (unat nBlockSize = 1 \<or> unat nBlockSize + n < 250000)" "unat nBlockSize + n < 500000"
    by linarith
  then show ?thesis
  proof cases
    case 1
    then have "\<not> (unat nBlockSize \<noteq> 1 \<and> 250000 \<le> unat nBlockSize + n)" by linarith
    with 1 show ?thesis unfolding G S by (simp only: if_True if_False clamp_eq [OF fee(1) fee63])
  next
    case 2
    then have "unat nBlockSize \<noteq> 1 \<and> 250000 \<le> unat nBlockSize + n" by linarith
    with 2 show ?thesis unfolding G S by simp
  next
    case 3
    then have "unat nBlockSize \<noteq> 1 \<and> 250000 \<le> unat nBlockSize + n"
      "\<not> 500000 \<le> unat nBlockSize + n" by linarith+
    with 3 show ?thesis
      unfolding G S
      by (simp only: simp_thms if_True if_False mult clamp_eq [OF raised raise_bound [OF fee]])
  qed
qed

section \<open>Replacement\<close>

definition diffs :: "(CTxIn \<times> CTxIn) list \<Rightarrow> (u32 \<times> u32) set" where
  "diffs ps = {(nSequence a, nSequence b) | a b. (a, b) \<in> set ps \<and> nSequence a \<noteq> nSequence b}"

lemma diffs_Nil [simp]: "diffs [] = {}"
  by (simp add: diffs_def)

lemma diffs_Cons:
  "diffs ((a, b) # ps) =
     (if nSequence a = nSequence b then diffs ps else insert (nSequence a, nSequence b) (diffs ps))"
  by (auto simp: diffs_def)

lemma newer_step:
  fixes x y low :: "'a::linorder"
  assumes "x \<noteq> y"
    and l1: "l1 = (if x \<le> low then x else low)" and f1: "f1 = (if x \<le> low then False else f)"
    and l2: "l2 = (if y < l1 then y else l1)" and f2: "f2 = (if y < l1 then True else f1)"
  shows "(\<exists>v\<in>B. v < l2 \<and> (\<forall>u\<in>A. v < u)) \<or> (f2 \<and> (\<forall>u\<in>A. l2 < u)) \<longleftrightarrow>
    (\<exists>v\<in>insert y B. v < low \<and> (\<forall>u\<in>insert x A. v < u)) \<or> (f \<and> (\<forall>u\<in>insert x A. low < u))"
    (is "?L \<longleftrightarrow> ?R")
proof -
  consider "x \<le> low" "y < x" | "x \<le> low" "x < y" | "low < x" "y < low" | "low < x" "low \<le> y"
    using \<open>x \<noteq> y\<close> by (meson linorder_cases not_le)
  then show ?thesis
  proof cases
    case 1
    then have "l2 = y" "f2" by (simp_all add: l1 l2 f2)
    with 1 show ?thesis by (simp add: bex_simps) (meson less_le_trans less_trans not_le le_less_trans)
  next
    case 2
    then have "l2 = x" "\<not> f2" by (auto simp: l1 l2 f2 f1)
    with 2 show ?thesis by (simp add: bex_simps) (meson less_le_trans less_trans not_le le_less_trans less_asym)
  next
    case 3
    then have "l2 = y" "f2" by (auto simp: l1 l2 f2)
    with 3 show ?thesis by (simp add: bex_simps) (meson less_le_trans less_trans not_le le_less_trans)
  next
    case 4
    then have "l2 = low" "f2 = f" by (auto simp: l1 l2 f2 f1)
    with 4 show ?thesis by (simp add: bex_simps) (meson less_le_trans less_trans not_le le_less_trans less_asym)
  qed
qed

lemma newer_loop_eq:
  "newer_loop ps fNewer low \<longleftrightarrow>
     (\<exists>b \<in> snd ` diffs ps. b < low \<and> (\<forall>a \<in> fst ` diffs ps. b < a))
     \<or> (fNewer \<and> (\<forall>a \<in> fst ` diffs ps. low < a))"
proof (induction ps fNewer low rule: newer_loop.induct)
  case (2 a b r fNewer low)
  show ?case
  proof (cases "nSequence a = nSequence b")
    case True
    with 2(2) show ?thesis by (simp add: diffs_Cons)
  next
    case False
    obtain l1 f1 l2 f2 where
      l1: "l1 = (if nSequence a \<le> low then nSequence a else low)"
      and f1: "f1 = (if nSequence a \<le> low then False else fNewer)"
      and l2: "l2 = (if nSequence b < l1 then nSequence b else l1)"
      and f2: "f2 = (if nSequence b < l1 then True else f1)" by blast
    have "newer_loop ((a, b) # r) fNewer low = newer_loop r f2 l2"
      using False by (simp add: f1 l1 f2 l2 Let_def)
    also have "\<dots> \<longleftrightarrow> (\<exists>y \<in> snd ` diffs r. y < l2 \<and> (\<forall>x \<in> fst ` diffs r. y < x))
        \<or> (f2 \<and> (\<forall>x \<in> fst ` diffs r. l2 < x))"
      using 2(1) [OF False, of "(f1, l1)" f1 l1 "(f2, l2)" f2 l2] by (simp add: f1 l1 f2 l2)
    also note newer_step [OF False l1 f1 l2 f2]
    finally show ?thesis using False by (simp add: diffs_Cons)
  qed
qed auto

section \<open>Properties\<close>

text \<open>
  Transactions survive the wire: what \<open>operator<<\<close> writes has the length that
  \<open>GetSerializeSize\<close> announces and is read back unchanged with the rest of the stream left in
  place; and whatever the reader returns can be written and read again.
\<close>

theorem CTransaction_roundtrip:
  "length (Serialize_CTransaction x) = GetSerializeSize_CTransaction x
   \<and> (tx_ok x \<longrightarrow> Unserialize_CTransaction (Serialize_CTransaction x @ s) = Some (x, s))
   \<and> (Unserialize_CTransaction s = Some (y, s') \<longrightarrow>
        Unserialize_CTransaction (Serialize_CTransaction y @ s') = Some (y, s'))"
  using tx.length_ser [of x] tx.unser_ser [of x s] tx.unser_ser [of y s'] tx.unser_ok [of s y s']
  by blast

definition example_tx :: CTransaction where
  "example_tx = \<lparr> nVersion = 1,
     vin = [\<lparr> prevout = \<lparr> op_hash = 77, op_n = 0 \<rparr>, scriptSig = [1, 2], nSequence = 5 \<rparr>],
     vout = [\<lparr> nValue = 30000000000, scriptPubKey = [0x51] \<rparr>, \<lparr> nValue = 99, scriptPubKey = [] \<rparr>],
     nLockTime = 0 \<rparr>"

lemma example_tx_ok: "tx_ok example_tx"
  by (simp add: tx_ok_def txin_ok_def txout_ok_def example_tx_def MAX_SIZE_def)

theorem CTransaction_roundtrip_witness:
  "tx_ok example_tx
   \<and> Unserialize_CTransaction (Serialize_CTransaction example_tx @ [1]) = Some (example_tx, [1])"
  using CTransaction_roundtrip [of example_tx "[1]"] example_tx_ok by blast

text \<open>
  C33. \<open>CheckTransaction\<close> accepts exactly the transactions that have inputs and outputs, fit a
  block, have non-negative outputs whose total is at most \<open>MAX_MONEY\<close>, spend no outpoint
  twice, and either are a coinbase with a script of 2 to 100 bytes or have no null input; for
  these \<open>GetValueOut\<close> does not throw and returns the sum, with no wrap-around.
\<close>

theorem CheckTransaction_iff:
  "(CheckTransaction t = Accept \<longleftrightarrow>
      vin t \<noteq> [] \<and> vout t \<noteq> [] \<and> length (Serialize_CTransaction t) \<le> MAX_BLOCK_SIZE
      \<and> (\<forall>out \<in> set (vout t). 0 \<le> sint (nValue out))
      \<and> (\<Sum>out\<leftarrow>vout t. sint (nValue out)) \<le> sint MAX_MONEY
      \<and> distinct (map prevout (vin t))
      \<and> (if IsCoinBase t then length (scriptSig (hd (vin t))) \<in> {2..100}
         else \<forall>i \<in> set (vin t). \<not> COutPoint_IsNull (prevout i)))
   \<and> (CheckTransaction t = Accept \<longrightarrow>
      (\<exists>v. GetValueOut t = Some v \<and> sint v = (\<Sum>out\<leftarrow>vout t. sint (nValue out))))"
proof -
  have mr: "MoneyRange 0" by (simp add: MoneyRange_sint)
  have vals: "values_ok 0 (vout t) \<longleftrightarrow> (\<forall>out \<in> set (vout t). 0 \<le> sint (nValue out))
      \<and> (\<Sum>out\<leftarrow>vout t. sint (nValue out)) \<le> sint MAX_MONEY"
    by (simp add: values_ok_def out_values_def list_all_iff)
  have acc: "CheckTransaction t = Accept \<longleftrightarrow>
      vin t \<noteq> [] \<and> vout t \<noteq> [] \<and> length (Serialize_CTransaction t) \<le> MAX_BLOCK_SIZE
      \<and> values_ok 0 (vout t) \<and> distinct (map prevout (vin t))
      \<and> (if IsCoinBase t then length (scriptSig (hd (vin t))) \<in> {2..100}
         else \<forall>i \<in> set (vin t). \<not> COutPoint_IsNull (prevout i))"
    unfolding CheckTransaction_def tx.length_ser check_outputs_eq [OF mr] check_duplicates_iff Let_def
    by (cases "vin t") (auto simp: not_less list_ex_iff)
  have val: "\<exists>v. GetValueOut t = Some v \<and> sint v = (\<Sum>out\<leftarrow>vout t. sint (nValue out))"
    if ok: "values_ok 0 (vout t)"
  proof -
    have "0 \<le> (\<Sum>out\<leftarrow>vout t. sint (nValue out))"
      using ok by (intro sum_list_nonneg) (auto simp: vals)
    then have s: "sint (word_of_int (\<Sum>out\<leftarrow>vout t. sint (nValue out)) :: i64)
        = (\<Sum>out\<leftarrow>vout t. sint (nValue out))"
      using ok by (intro sint_of_int_small) (auto simp: vals)
    with ok show ?thesis
      by (intro exI [of _ "word_of_int (\<Sum>out\<leftarrow>vout t. sint (nValue out))"])
        (simp add: GetValueOut_def value_out_loop_iff [OF mr] out_values_def)
  qed
  show ?thesis using acc val vals by blast
qed

theorem CheckTransaction_iff_witness:
  "CheckTransaction example_tx = Accept
   \<and> (\<exists>v. GetValueOut example_tx = Some v \<and> sint v = 30000000099)"
proof -
  have "CheckTransaction example_tx = Accept"
    by (subst CheckTransaction_iff [THEN conjunct1])
      (simp add: example_tx_def IsCoinBase_def COutPoint_IsNull_def tx.length_ser
        GetSerializeSize_CTransaction_def GetSerializeSize_vec_def GetSerializeSize_CTxIn_def
        GetSerializeSize_CTxOut_def GetSerializeSize_bytes_def GetSizeOfCompactSize_def
        MAX_BLOCK_SIZE_def)
  then show ?thesis using CheckTransaction_iff [of example_tx] by (auto simp: example_tx_def)
qed

text \<open>
  The minimum fee of a transaction that fits a block is computed without overflow: one
  \<open>MIN_TX_FEE\<close> per started kilobyte (waived where free transactions are allowed) and one per
  output below \<open>COIN\<close>, multiplied when the block is more than half full, and never more than
  \<open>MAX_MONEY\<close>.
\<close>

theorem GetMinFee_no_overflow:
  assumes "GetSerializeSize_CTransaction t \<le> MAX_BLOCK_SIZE"
    and "unat nBlockSize + GetSerializeSize_CTransaction t < 2 ^ 32"
  shows "sint (GetMinFee t nBlockSize fAllowFree mode) = fee_spec t (unat nBlockSize) fAllowFree
    \<and> MoneyRange (GetMinFee t nBlockSize fAllowFree mode)"
proof
  show eq: "sint (GetMinFee t nBlockSize fAllowFree mode) = fee_spec t (unat nBlockSize) fAllowFree"
    by (rule GetMinFee_eq [OF assms])
  have "0 \<le> fee_spec t k fr \<and> fee_spec t k fr \<le> sint MAX_MONEY" for k fr
    using min_fee_int_bound(1) [OF assms(1), of k fr]
    by (simp add: fee_spec_def Let_def)
  then show "MoneyRange (GetMinFee t nBlockSize fAllowFree mode)"
    by (simp only: MoneyRange_sint eq)
qed

theorem GetMinFee_no_overflow_witness:
  "sint (GetMinFee example_tx 1000 False GMF_RELAY) = 200000000"
proof -
  have n: "GetSerializeSize_CTransaction example_tx = 72"
    by (simp add: example_tx_def GetSerializeSize_CTransaction_def GetSerializeSize_vec_def
        GetSerializeSize_CTxIn_def GetSerializeSize_CTxOut_def GetSerializeSize_bytes_def
        GetSizeOfCompactSize_def)
  have d: "dust_count example_tx = 1" by (simp add: dust_count_def example_tx_def)
  show ?thesis
    using GetMinFee_no_overflow [of example_tx 1000 False GMF_RELAY]
    by (simp add: n d fee_spec_def min_fee_int_def MAX_BLOCK_SIZE_def)
qed

text \<open>
  A transaction replaces an older version of itself exactly when it spends the same
  outpoints in the same order and, among the inputs whose sequence numbers differ, some old
  number is below every new one; so no two versions replace each other.
\<close>

theorem IsNewerThan_iff:
  "(IsNewerThan t old \<longleftrightarrow>
      map prevout (vin t) = map prevout (vin old)
      \<and> (\<exists>b \<in> snd ` diffs (zip (vin t) (vin old)). \<forall>a \<in> fst ` diffs (zip (vin t) (vin old)). b < a))
   \<and> \<not> (IsNewerThan t old \<and> IsNewerThan old t)"
proof -
  have eq: "IsNewerThan t old \<longleftrightarrow>
      map prevout (vin t) = map prevout (vin old)
      \<and> (\<exists>b \<in> snd ` diffs (zip (vin t) (vin old)). \<forall>a \<in> fst ` diffs (zip (vin t) (vin old)). b < a)"
    for t old
  proof -
    have l: "b < 0xffffffff" if "b \<in> snd ` diffs ps" "\<forall>a \<in> fst ` diffs ps. b < a" for b ps
    proof -
      from that obtain a where "b < a" by (metis imageE image_eqI)
      moreover have "a \<le> 0xffffffff" for a :: u32
        using unat_lt_2p [of a] by (simp add: word_le_nat_alt)
      ultimately show ?thesis by (rule less_le_trans)
    qed
    have p: "list_all2 (\<lambda>a b. prevout a = prevout b) (vin t) (vin old)
        \<longleftrightarrow> map prevout (vin t) = map prevout (vin old)"
      by (auto simp: list_eq_iff_nth_eq list_all2_conv_all_nth)
    show ?thesis
    proof (cases "map prevout (vin t) = map prevout (vin old)")
      case True
      from map_eq_imp_length_eq [OF this] True l show ?thesis
        unfolding IsNewerThan_def p newer_loop_eq by auto
    qed (simp add: IsNewerThan_def p)
  qed
  have swap: "diffs (zip ys xs) = (\<lambda>(a, b). (b, a)) ` diffs (zip xs ys)" for xs ys
    by (force simp: diffs_def set_zip image_iff)
  have "\<not> (IsNewerThan t old \<and> IsNewerThan old t)"
    unfolding eq [of t old] eq [of old t] swap [of "vin old" "vin t"] image_image
    by (auto simp: case_prod_unfold) (metis fst_conv snd_conv less_asym)
  with eq show ?thesis by blast
qed

theorem IsNewerThan_iff_witness:
  "IsNewerThan example_tx (example_tx \<lparr> vin := [hd (vin example_tx) \<lparr> nSequence := 3 \<rparr>] \<rparr>)"
  by (subst IsNewerThan_iff [THEN conjunct1]) (auto simp: example_tx_def diffs_def)

end
