(* ===== verification/Script.thy ===== *)
theory Script
  imports Tx Bignum
begin

text \<open>
  Scripts (src/src/script.h and the parts of src/src/script.cpp that do not execute them): the
  opcodes, building a script with \<open>operator<<\<close>, reading it with \<open>GetOp\<close>, deleting a pattern,
  counting signature operations, and recognising the standard forms with \<open>Solver\<close>. A script is
  a byte list; a \<open>const_iterator\<close> is the suffix it points to.
\<close>

section \<open>Opcodes\<close>

type_synonym opcodetype = byte


abbreviation (input) OP_0 :: opcodetype where "OP_0 \<equiv> 0x00"
abbreviation (input) OP_FALSE :: opcodetype where "OP_FALSE \<equiv> OP_0"
abbreviation (input) OP_PUSHDATA1 :: opcodetype where "OP_PUSHDATA1 \<equiv> 0x4c"
abbreviation (input) OP_PUSHDATA2 :: opcodetype where "OP_PUSHDATA2 \<equiv> 0x4d"
abbreviation (input) OP_PUSHDATA4 :: opcodetype where "OP_PUSHDATA4 \<equiv> 0x4e"
abbreviation (input) OP_1NEGATE :: opcodetype where "OP_1NEGATE \<equiv> 0x4f"
abbreviation (input) OP_RESERVED :: opcodetype where "OP_RESERVED \<equiv> 0x50"
abbreviation (input) OP_1 :: opcodetype where "OP_1 \<equiv> 0x51"
abbreviation (input) OP_TRUE :: opcodetype where "OP_TRUE \<equiv> OP_1"
abbreviation (input) OP_2 :: opcodetype where "OP_2 \<equiv> 0x52"
abbreviation (input) OP_3 :: opcodetype where "OP_3 \<equiv> 0x53"
abbreviation (input) OP_4 :: opcodetype where "OP_4 \<equiv> 0x54"
abbreviation (input) OP_5 :: opcodetype where "OP_5 \<equiv> 0x55"
abbreviation (input) OP_6 :: opcodetype where "OP_6 \<equiv> 0x56"
abbreviation (input) OP_7 :: opcodetype where "OP_7 \<equiv> 0x57"
abbreviation (input) OP_8 :: opcodetype where "OP_8 \<equiv> 0x58"
abbreviation (input) OP_9 :: opcodetype where "OP_9 \<equiv> 0x59"
abbreviation (input) OP_10 :: opcodetype where "OP_10 \<equiv> 0x5a"
abbreviation (input) OP_11 :: opcodetype where "OP_11 \<equiv> 0x5b"
abbreviation (input) OP_12 :: opcodetype where "OP_12 \<equiv> 0x5c"
abbreviation (input) OP_13 :: opcodetype where "OP_13 \<equiv> 0x5d"
abbreviation (input) OP_14 :: opcodetype where "OP_14 \<equiv> 0x5e"
abbreviation (input) OP_15 :: opcodetype where "OP_15 \<equiv> 0x5f"
abbreviation (input) OP_16 :: opcodetype where "OP_16 \<equiv> 0x60"

abbreviation (input) OP_NOP :: opcodetype where "OP_NOP \<equiv> 0x61"
abbreviation (input) OP_VER :: opcodetype where "OP_VER \<equiv> 0x62"
abbreviation (input) OP_IF :: opcodetype where "OP_IF \<equiv> 0x63"
abbreviation (input) OP_NOTIF :: opcodetype where "OP_NOTIF \<equiv> 0x64"
abbreviation (input) OP_VERIF :: opcodetype where "OP_VERIF \<equiv> 0x65"
abbreviation (input) OP_VERNOTIF :: opcodetype where "OP_VERNOTIF \<equiv> 0x66"
abbreviation (input) OP_ELSE :: opcodetype where "OP_ELSE \<equiv> 0x67"
abbreviation (input) OP_ENDIF :: opcodetype where "OP_ENDIF \<equiv> 0x68"
abbreviation (input) OP_VERIFY :: opcodetype where "OP_VERIFY \<equiv> 0x69"
abbreviation (input) OP_RETURN :: opcodetype where "OP_RETURN \<equiv> 0x6a"

abbreviation (input) OP_TOALTSTACK :: opcodetype where "OP_TOALTSTACK \<equiv> 0x6b"
abbreviation (input) OP_FROMALTSTACK :: opcodetype where "OP_FROMALTSTACK \<equiv> 0x6c"
abbreviation (input) OP_2DROP :: opcodetype where "OP_2DROP \<equiv> 0x6d"
abbreviation (input) OP_2DUP :: opcodetype where "OP_2DUP \<equiv> 0x6e"
abbreviation (input) OP_3DUP :: opcodetype where "OP_3DUP \<equiv> 0x6f"
abbreviation (input) OP_2OVER :: opcodetype where "OP_2OVER \<equiv> 0x70"
abbreviation (input) OP_2ROT :: opcodetype where "OP_2ROT \<equiv> 0x71"
abbreviation (input) OP_2SWAP :: opcodetype where "OP_2SWAP \<equiv> 0x72"
abbreviation (input) OP_IFDUP :: opcodetype where "OP_IFDUP \<equiv> 0x73"
abbreviation (input) OP_DEPTH :: opcodetype where "OP_DEPTH \<equiv> 0x74"
abbreviation (input) OP_DROP :: opcodetype where "OP_DROP \<equiv> 0x75"
abbreviation (input) OP_DUP :: opcodetype where "OP_DUP \<equiv> 0x76"
abbreviation (input) OP_NIP :: opcodetype where "OP_NIP \<equiv> 0x77"
abbreviation (input) OP_OVER :: opcodetype where "OP_OVER \<equiv> 0x78"
abbreviation (input) OP_PICK :: opcodetype where "OP_PICK \<equiv> 0x79"
abbreviation (input) OP_ROLL :: opcodetype where "OP_ROLL \<equiv> 0x7a"
abbreviation (input) OP_ROT :: opcodetype where "OP_ROT \<equiv> 0x7b"
abbreviation (input) OP_SWAP :: opcodetype where "OP_SWAP \<equiv> 0x7c"
abbreviation (input) OP_TUCK :: opcodetype where "OP_TUCK \<equiv> 0x7d"

abbreviation (input) OP_CAT :: opcodetype where "OP_CAT \<equiv> 0x7e"
abbreviation (input) OP_SUBSTR :: opcodetype where "OP_SUBSTR \<equiv> 0x7f"
abbreviation (input) OP_LEFT :: opcodetype where "OP_LEFT \<equiv> 0x80"
abbreviation (input) OP_RIGHT :: opcodetype where "OP_RIGHT \<equiv> 0x81"
abbreviation (input) OP_SIZE :: opcodetype where "OP_SIZE \<equiv> 0x82"

abbreviation (input) OP_INVERT :: opcodetype where "OP_INVERT \<equiv> 0x83"
abbreviation (input) OP_AND :: opcodetype where "OP_AND \<equiv> 0x84"
abbreviation (input) OP_OR :: opcodetype where "OP_OR \<equiv> 0x85"
abbreviation (input) OP_XOR :: opcodetype where "OP_XOR \<equiv> 0x86"
abbreviation (input) OP_EQUAL :: opcodetype where "OP_EQUAL \<equiv> 0x87"
abbreviation (input) OP_EQUALVERIFY :: opcodetype where "OP_EQUALVERIFY \<equiv> 0x88"
abbreviation (input) OP_RESERVED1 :: opcodetype where "OP_RESERVED1 \<equiv> 0x89"
abbreviation (input) OP_RESERVED2 :: opcodetype where "OP_RESERVED2 \<equiv> 0x8a"

abbreviation (input) OP_1ADD :: opcodetype where "OP_1ADD \<equiv> 0x8b"
abbreviation (input) OP_1SUB :: opcodetype where "OP_1SUB \<equiv> 0x8c"
abbreviation (input) OP_2MUL :: opcodetype where "OP_2MUL \<equiv> 0x8d"
abbreviation (input) OP_2DIV :: opcodetype where "OP_2DIV \<equiv> 0x8e"
abbreviation (input) OP_NEGATE :: opcodetype where "OP_NEGATE \<equiv> 0x8f"
abbreviation (input) OP_ABS :: opcodetype where "OP_ABS \<equiv> 0x90"
abbreviation (input) OP_NOT :: opcodetype where "OP_NOT \<equiv> 0x91"
abbreviation (input) OP_0NOTEQUAL :: opcodetype where "OP_0NOTEQUAL \<equiv> 0x92"
abbreviation (input) OP_ADD :: opcodetype where "OP_ADD \<equiv> 0x93"
abbreviation (input) OP_SUB :: opcodetype where "OP_SUB \<equiv> 0x94"
abbreviation (input) OP_MUL :: opcodetype where "OP_MUL \<equiv> 0x95"
abbreviation (input) OP_DIV :: opcodetype where "OP_DIV \<equiv> 0x96"
abbreviation (input) OP_MOD :: opcodetype where "OP_MOD \<equiv> 0x97"
abbreviation (input) OP_LSHIFT :: opcodetype where "OP_LSHIFT \<equiv> 0x98"
abbreviation (input) OP_RSHIFT :: opcodetype where "OP_RSHIFT \<equiv> 0x99"
abbreviation (input) OP_BOOLAND :: opcodetype where "OP_BOOLAND \<equiv> 0x9a"
abbreviation (input) OP_BOOLOR :: opcodetype where "OP_BOOLOR \<equiv> 0x9b"
abbreviation (input) OP_NUMEQUAL :: opcodetype where "OP_NUMEQUAL \<equiv> 0x9c"
abbreviation (input) OP_NUMEQUALVERIFY :: opcodetype where "OP_NUMEQUALVERIFY \<equiv> 0x9d"
abbreviation (input) OP_NUMNOTEQUAL :: opcodetype where "OP_NUMNOTEQUAL \<equiv> 0x9e"
abbreviation (input) OP_LESSTHAN :: opcodetype where "OP_LESSTHAN \<equiv> 0x9f"
abbreviation (input) OP_GREATERTHAN :: opcodetype where "OP_GREATERTHAN \<equiv> 0xa0"
abbreviation (input) OP_LESSTHANOREQUAL :: opcodetype where "OP_LESSTHANOREQUAL \<equiv> 0xa1"
abbreviation (input) OP_GREATERTHANOREQUAL :: opcodetype where "OP_GREATERTHANOREQUAL \<equiv> 0xa2"
abbreviation (input) OP_MIN :: opcodetype where "OP_MIN \<equiv> 0xa3"
abbreviation (input) OP_MAX :: opcodetype where "OP_MAX \<equiv> 0xa4"
abbreviation (input) OP_WITHIN :: opcodetype where "OP_WITHIN \<equiv> 0xa5"

abbreviation (input) OP_RIPEMD160 :: opcodetype where "OP_RIPEMD160 \<equiv> 0xa6"
abbreviation (input) OP_SHA1 :: opcodetype where "OP_SHA1 \<equiv> 0xa7"
abbreviation (input) OP_SHA256 :: opcodetype where "OP_SHA256 \<equiv> 0xa8"
abbreviation (input) OP_HASH160 :: opcodetype where "OP_HASH160 \<equiv> 0xa9"
abbreviation (input) OP_HASH256 :: opcodetype where "OP_HASH256 \<equiv> 0xaa"
abbreviation (input) OP_CODESEPARATOR :: opcodetype where "OP_CODESEPARATOR \<equiv> 0xab"
abbreviation (input) OP_CHECKSIG :: opcodetype where "OP_CHECKSIG \<equiv> 0xac"
abbreviation (input) OP_CHECKSIGVERIFY :: opcodetype where "OP_CHECKSIGVERIFY \<equiv> 0xad"
abbreviation (input) OP_CHECKMULTISIG :: opcodetype where "OP_CHECKMULTISIG \<equiv> 0xae"
abbreviation (input) OP_CHECKMULTISIGVERIFY :: opcodetype where "OP_CHECKMULTISIGVERIFY \<equiv> 0xaf"

abbreviation (input) OP_NOP1 :: opcodetype where "OP_NOP1 \<equiv> 0xb0"
abbreviation (input) OP_NOP2 :: opcodetype where "OP_NOP2 \<equiv> 0xb1"
abbreviation (input) OP_NOP3 :: opcodetype where "OP_NOP3 \<equiv> 0xb2"
abbreviation (input) OP_NOP4 :: opcodetype where "OP_NOP4 \<equiv> 0xb3"
abbreviation (input) OP_NOP5 :: opcodetype where "OP_NOP5 \<equiv> 0xb4"
abbreviation (input) OP_NOP6 :: opcodetype where "OP_NOP6 \<equiv> 0xb5"
abbreviation (input) OP_NOP7 :: opcodetype where "OP_NOP7 \<equiv> 0xb6"
abbreviation (input) OP_NOP8 :: opcodetype where "OP_NOP8 \<equiv> 0xb7"
abbreviation (input) OP_NOP9 :: opcodetype where "OP_NOP9 \<equiv> 0xb8"
abbreviation (input) OP_NOP10 :: opcodetype where "OP_NOP10 \<equiv> 0xb9"

abbreviation (input) OP_SMALLINTEGER :: opcodetype where "OP_SMALLINTEGER \<equiv> 0xfa"
abbreviation (input) OP_PUBKEYS :: opcodetype where "OP_PUBKEYS \<equiv> 0xfb"
abbreviation (input) OP_PUBKEYHASH :: opcodetype where "OP_PUBKEYHASH \<equiv> 0xfd"
abbreviation (input) OP_PUBKEY :: opcodetype where "OP_PUBKEY \<equiv> 0xfe"
abbreviation (input) OP_INVALIDOPCODE :: opcodetype where "OP_INVALIDOPCODE \<equiv> 0xff"

definition op_names :: "(opcodetype \<times> string) list" where
  "op_names = [
     (OP_0, ''0''),
     (OP_PUSHDATA1, ''OP_PUSHDATA1''),
     (OP_PUSHDATA2, ''OP_PUSHDATA2''),
     (OP_PUSHDATA4, ''OP_PUSHDATA4''),
     (OP_1NEGATE, ''-1''),
     (OP_RESERVED, ''OP_RESERVED''),
     (OP_1, ''1''),
     (OP_2, ''2''),
     (OP_3, ''3''),
     (OP_4, ''4''),
     (OP_5, ''5''),
     (OP_6, ''6''),
     (OP_7, ''7''),
     (OP_8, ''8''),
     (OP_9, ''9''),
     (OP_10, ''10''),
     (OP_11, ''11''),
     (OP_12, ''12''),
     (OP_13, ''13''),
     (OP_14, ''14''),
     (OP_15, ''15''),
     (OP_16, ''16''),
     (OP_NOP, ''OP_NOP''),
     (OP_VER, ''OP_VER''),
     (OP_IF, ''OP_IF''),
     (OP_NOTIF, ''OP_NOTIF''),
     (OP_VERIF, ''OP_VERIF''),
     (OP_VERNOTIF, ''OP_VERNOTIF''),
     (OP_ELSE, ''OP_ELSE''),
     (OP_ENDIF, ''OP_ENDIF''),
     (OP_VERIFY, ''OP_VERIFY''),
     (OP_RETURN, ''OP_RETURN''),
     (OP_TOALTSTACK, ''OP_TOALTSTACK''),
     (OP_FROMALTSTACK, ''OP_FROMALTSTACK''),
     (OP_2DROP, ''OP_2DROP''),
     (OP_2DUP, ''OP_2DUP''),
     (OP_3DUP, ''OP_3DUP''),
     (OP_2OVER, ''OP_2OVER''),
     (OP_2ROT, ''OP_2ROT''),
     (OP_2SWAP, ''OP_2SWAP''),
     (OP_IFDUP, ''OP_IFDUP''),
     (OP_DEPTH, ''OP_DEPTH''),
     (OP_DROP, ''OP_DROP''),
     (OP_DUP, ''OP_DUP''),
     (OP_NIP, ''OP_NIP''),
     (OP_OVER, ''OP_OVER''),
     (OP_PICK, ''OP_PICK''),
     (OP_ROLL, ''OP_ROLL''),
     (OP_ROT, ''OP_ROT''),
     (OP_SWAP, ''OP_SWAP''),
     (OP_TUCK, ''OP_TUCK''),
     (OP_CAT, ''OP_CAT''),
     (OP_SUBSTR, ''OP_SUBSTR''),
     (OP_LEFT, ''OP_LEFT''),
     (OP_RIGHT, ''OP_RIGHT''),
     (OP_SIZE, ''OP_SIZE''),
     (OP_INVERT, ''OP_INVERT''),
     (OP_AND, ''OP_AND''),
     (OP_OR, ''OP_OR''),
     (OP_XOR, ''OP_XOR''),
     (OP_EQUAL, ''OP_EQUAL''),
     (OP_EQUALVERIFY, ''OP_EQUALVERIFY''),
     (OP_RESERVED1, ''OP_RESERVED1''),
     (OP_RESERVED2, ''OP_RESERVED2''),
     (OP_1ADD, ''OP_1ADD''),
     (OP_1SUB, ''OP_1SUB''),
     (OP_2MUL, ''OP_2MUL''),
     (OP_2DIV, ''OP_2DIV''),
     (OP_NEGATE, ''OP_NEGATE''),
     (OP_ABS, ''OP_ABS''),
     (OP_NOT, ''OP_NOT''),
     (OP_0NOTEQUAL, ''OP_0NOTEQUAL''),
     (OP_ADD, ''OP_ADD''),
     (OP_SUB, ''OP_SUB''),
     (OP_MUL, ''OP_MUL''),
     (OP_DIV, ''OP_DIV''),
     (OP_MOD, ''OP_MOD''),
     (OP_LSHIFT, ''OP_LSHIFT''),
     (OP_RSHIFT, ''OP_RSHIFT''),
     (OP_BOOLAND, ''OP_BOOLAND''),
     (OP_BOOLOR, ''OP_BOOLOR''),
     (OP_NUMEQUAL, ''OP_NUMEQUAL''),
     (OP_NUMEQUALVERIFY, ''OP_NUMEQUALVERIFY''),
     (OP_NUMNOTEQUAL, ''OP_NUMNOTEQUAL''),
     (OP_LESSTHAN, ''OP_LESSTHAN''),
     (OP_GREATERTHAN, ''OP_GREATERTHAN''),
     (OP_LESSTHANOREQUAL, ''OP_LESSTHANOREQUAL''),
     (OP_GREATERTHANOREQUAL, ''OP_GREATERTHANOREQUAL''),
     (OP_MIN, ''OP_MIN''),
     (OP_MAX, ''OP_MAX''),
     (OP_WITHIN, ''OP_WITHIN''),
     (OP_RIPEMD160, ''OP_RIPEMD160''),
     (OP_SHA1, ''OP_SHA1''),
     (OP_SHA256, ''OP_SHA256''),
     (OP_HASH160, ''OP_HASH160''),
     (OP_HASH256, ''OP_HASH256''),
     (OP_CODESEPARATOR, ''OP_CODESEPARATOR''),
     (OP_CHECKSIG, ''OP_CHECKSIG''),
     (OP_CHECKSIGVERIFY, ''OP_CHECKSIGVERIFY''),
     (OP_CHECKMULTISIG, ''OP_CHECKMULTISIG''),
     (OP_CHECKMULTISIGVERIFY, ''OP_CHECKMULTISIGVERIFY''),
     (OP_NOP1, ''OP_NOP1''),
     (OP_NOP2, ''OP_NOP2''),
     (OP_NOP3, ''OP_NOP3''),
     (OP_NOP4, ''OP_NOP4''),
     (OP_NOP5, ''OP_NOP5''),
     (OP_NOP6, ''OP_NOP6''),
     (OP_NOP7, ''OP_NOP7''),
     (OP_NOP8, ''OP_NOP8''),
     (OP_NOP9, ''OP_NOP9''),
     (OP_NOP10, ''OP_NOP10''),
     (OP_PUBKEYHASH, ''OP_PUBKEYHASH''),
     (OP_PUBKEY, ''OP_PUBKEY''),
     (OP_INVALIDOPCODE, ''OP_INVALIDOPCODE'')]"

definition GetOpName :: "opcodetype \<Rightarrow> string" where
  "GetOpName opcode = (case map_of op_names opcode of Some s \<Rightarrow> s | None \<Rightarrow> ''OP_UNKNOWN'')"

datatype txnouttype =
  TX_NONSTANDARD | TX_PUBKEY | TX_PUBKEYHASH | TX_SCRIPTHASH | TX_MULTISIG | TX_NULL_DATA

fun GetTxnOutputType :: "txnouttype \<Rightarrow> string" where
  "GetTxnOutputType TX_NONSTANDARD = ''nonstandard''"
| "GetTxnOutputType TX_PUBKEY = ''pubkey''"
| "GetTxnOutputType TX_PUBKEYHASH = ''pubkeyhash''"
| "GetTxnOutputType TX_SCRIPTHASH = ''scripthash''"
| "GetTxnOutputType TX_MULTISIG = ''multisig''"
| "GetTxnOutputType TX_NULL_DATA = ''nulldata''"

type_synonym CKeyID = u160
type_synonym CScriptID = u160

datatype CTxDestination = CNoDestination | KeyID CKeyID | ScriptID CScriptID

section \<open>Building scripts\<close>

text \<open>What \<open>operator<<\<close> appends to the script, for each type of operand.\<close>

definition push_data :: "bytes \<Rightarrow> bytes" where
  "push_data b =
     (if length b < unat OP_PUSHDATA1 then word_of_nat (length b) # b
      else if length b \<le> 0xff then OP_PUSHDATA1 # word_of_nat (length b) # b
      else if length b \<le> 0xffff then OP_PUSHDATA2 # nat_le 2 (length b) @ b
      else OP_PUSHDATA4 # nat_le 4 (length b) @ b)"

definition push_int64 :: "openssl \<Rightarrow> int \<Rightarrow> bytes" where
  "push_int64 E n =
     (if n = - 1 \<or> (1 \<le> n \<and> n \<le> 16) then [word_of_int (n + (uint OP_1 - 1))]
      else push_data (getvch E n))"

definition push_uint64 :: "openssl \<Rightarrow> nat \<Rightarrow> bytes" where
  "push_uint64 E n =
     (if 1 \<le> n \<and> n \<le> 16 then [word_of_nat (n + (unat OP_1 - 1))]
      else push_data (getvch E (int n)))"

definition push_uint160 :: "u160 \<Rightarrow> bytes" where
  "push_uint160 b = 20 # word_le 20 b"

definition push_uint256 :: "u256 \<Rightarrow> bytes" where
  "push_uint256 b = 32 # word_le 32 b"

section \<open>Reading scripts\<close>

text \<open>\<open>GetOp2\<close> returns the opcode, the immediate operand and the suffix after it, or
  \<open>None\<close> where it returns \<open>false\<close>. The length of the rest is compared as an \<open>unsigned int\<close>.\<close>

definition take_operand :: "opcodetype \<Rightarrow> nat \<Rightarrow> bytes \<Rightarrow> (opcodetype \<times> bytes \<times> bytes) option" where
  "take_operand opcode nSize pc =
     (if length pc mod 2 ^ 32 < nSize then None
      else Some (opcode, take nSize pc, drop nSize pc))"

fun GetOp2 :: "bytes \<Rightarrow> (opcodetype \<times> bytes \<times> bytes) option" where
  "GetOp2 [] = None"
| "GetOp2 (opcode # pc) =
     (if opcode \<le> OP_PUSHDATA4 then
        (if opcode < OP_PUSHDATA1 then take_operand opcode (unat opcode) pc
         else if opcode = OP_PUSHDATA1 then
           (if length pc < 1 then None else take_operand opcode (unat (hd pc)) (drop 1 pc))
         else if opcode = OP_PUSHDATA2 then
           (if length pc < 2 then None else take_operand opcode (le_nat (take 2 pc)) (drop 2 pc))
         else
           (if length pc < 4 then None else take_operand opcode (le_nat (take 4 pc)) (drop 4 pc)))
      else Some (opcode, [], pc))"

lemma take_operand_SomeD:
  "take_operand opcode k pc = Some (opc, v, r) \<Longrightarrow>
     opc = opcode \<and> pc = v @ r \<and> length v = k \<and> length r \<le> length pc"
proof -
  have "length pc mod 2 ^ 32 \<le> length pc" by simp
  then show "take_operand opcode k pc = Some (opc, v, r) \<Longrightarrow>
     opc = opcode \<and> pc = v @ r \<and> length v = k \<and> length r \<le> length pc"
    by (auto simp: take_operand_def split: if_splits)
qed

lemma take_operand_drop:
  "take_operand opcode k (drop j pc) = Some (opc, v, r) \<Longrightarrow>
     opc = opcode \<and> pc = take j pc @ v @ r \<and> length v = k"
  using take_operand_SomeD [of opcode k "drop j pc" opc v r] append_take_drop_id [of j pc]
  by metis

lemma GetOp2_SomeD: "GetOp2 pc = Some (opc, v, r) \<Longrightarrow> \<exists>hdr. pc = opc # hdr @ v @ r"
proof (cases pc)
  case (Cons opcode pc')
  assume "GetOp2 pc = Some (opc, v, r)"
  then have "(\<exists>j k. take_operand opcode k (drop j pc') = Some (opc, v, r))
      \<or> (opc, v, r) = (opcode, [], pc')"
    unfolding Cons GetOp2.simps by (metis drop_0 option.distinct(1) option.inject)
  then show ?thesis
  proof (elim disjE exE)
    fix j k
    assume "take_operand opcode k (drop j pc') = Some (opc, v, r)"
    from take_operand_drop [OF this] Cons show ?thesis by (intro exI [of _ "take j pc'"]) simp
  qed (simp add: Cons)
qed simp

lemma GetOp2_shorter: "GetOp2 pc = Some (opc, v, r) \<Longrightarrow> length r < length pc"
  by (auto dest!: GetOp2_SomeD)

definition DecodeOP_N :: "opcodetype \<Rightarrow> int option" where
  "DecodeOP_N opcode =
     (if opcode = OP_0 then Some 0
      else if OP_1 \<le> opcode \<and> opcode \<le> OP_16 then Some (uint opcode - (uint OP_1 - 1))
      else None)"

definition EncodeOP_N :: "int \<Rightarrow> opcodetype option" where
  "EncodeOP_N n =
     (if \<not> (0 \<le> n \<and> n \<le> 16) then None
      else if n = 0 then Some OP_0
      else Some (word_of_int (uint OP_1 + n - 1)))"

text \<open>The inner loop of \<open>FindAndDelete\<close> erases occurrences at the current position, the outer
  one steps over an instruction; the result is the new script and the number of deletions.\<close>

function erase_here :: "bytes \<Rightarrow> bytes \<Rightarrow> bytes \<times> nat" where
  "erase_here b pc =
     (if b \<noteq> [] \<and> length b \<le> length pc \<and> take (length b) pc = b then
        (let (r, k) = erase_here b (drop (length b) pc) in (r, Suc k))
      else (pc, 0))"
  by pat_completeness auto
termination
proof (relation "measure (\<lambda>(b, pc). length pc)", goal_cases)
  case (2 b pc)
  then have "0 < length b" by simp
  with 2 show ?case by (simp only: in_measure prod.case length_drop) linarith
qed simp

declare erase_here.simps [simp del]

lemma erase_here_le: "erase_here b pc = (r, k) \<Longrightarrow> length r \<le> length pc"
proof (induction b pc arbitrary: r k rule: erase_here.induct)
  case (1 b pc)
  show ?case
  proof (cases "b \<noteq> [] \<and> length b \<le> length pc \<and> take (length b) pc = b")
    case True
    obtain r' k' where "erase_here b (drop (length b) pc) = (r', k')" by fastforce
    with True 1 show ?thesis by (subst (asm) (2) erase_here.simps) fastforce
  next
    case False
    with 1(2) show ?thesis by (subst (asm) erase_here.simps) auto
  qed
qed

function fad_loop :: "bytes \<Rightarrow> bytes \<Rightarrow> bytes \<times> nat" where
  "fad_loop b pc =
     (let (pc', k) = erase_here b pc in
      case GetOp2 pc' of None \<Rightarrow> (pc', k)
      | Some (opcode, v, r) \<Rightarrow>
          (let (rest, k') = fad_loop b r in (take (length pc' - length r) pc' @ rest, k + k')))"
  by pat_completeness auto
termination
proof (relation "measure (\<lambda>(b, pc). length pc)", goal_cases)
  case (2 b pc x pc' k y z w v r)
  then show ?case using erase_here_le [of b pc pc' k] GetOp2_shorter [of pc'] by fastforce
qed simp

declare fad_loop.simps [simp del]

definition FindAndDelete :: "bytes \<Rightarrow> bytes \<Rightarrow> bytes \<times> nat" where
  "FindAndDelete script b = (if b = [] then (script, 0) else fad_loop b script)"


section \<open>Counting and classifying\<close>

function Find_loop :: "opcodetype \<Rightarrow> bytes \<Rightarrow> nat" where
  "Find_loop opc pc =
     (if pc = [] then 0
      else case GetOp2 pc of None \<Rightarrow> 0
      | Some (opcode, v, r) \<Rightarrow> (if opcode = opc then Suc (Find_loop opc r) else Find_loop opc r))"
  by pat_completeness auto
termination
  by (relation "measure (\<lambda>(opc, pc). length pc)") (auto dest: GetOp2_shorter)

declare Find_loop.simps [simp del]

definition Find :: "bytes \<Rightarrow> opcodetype \<Rightarrow> nat" where
  "Find script opc = Find_loop opc script"

definition sigops_of :: "bool \<Rightarrow> opcodetype \<Rightarrow> opcodetype \<Rightarrow> u32" where
  "sigops_of fAccurate lastOpcode opcode =
     (if opcode = OP_CHECKSIG \<or> opcode = OP_CHECKSIGVERIFY then 1
      else if opcode = OP_CHECKMULTISIG \<or> opcode = OP_CHECKMULTISIGVERIFY then
        (if fAccurate \<and> OP_1 \<le> lastOpcode \<and> lastOpcode \<le> OP_16
         then word_of_int (the (DecodeOP_N lastOpcode)) else 20)
      else 0)"

function sigops_loop :: "bool \<Rightarrow> opcodetype \<Rightarrow> u32 \<Rightarrow> bytes \<Rightarrow> u32" where
  "sigops_loop fAccurate lastOpcode n pc =
     (case GetOp2 pc of None \<Rightarrow> n
      | Some (opcode, v, r) \<Rightarrow>
          sigops_loop fAccurate opcode (n + sigops_of fAccurate lastOpcode opcode) r)"
  by pat_completeness auto
termination
  by (relation "measure (\<lambda>(a, l, n, pc). length pc)") (auto dest: GetOp2_shorter)

declare sigops_loop.simps [simp del]

definition GetSigOpCount :: "bytes \<Rightarrow> bool \<Rightarrow> u32" where
  "GetSigOpCount script fAccurate = sigops_loop fAccurate OP_INVALIDOPCODE 0 script"

definition IsPayToScriptHash :: "bytes \<Rightarrow> bool" where
  "IsPayToScriptHash script \<longleftrightarrow>
     length script = 23 \<and> script ! 0 = OP_HASH160 \<and> script ! 1 = 0x14 \<and> script ! 22 = OP_EQUAL"

text \<open>The loop over the pushes of a \<open>scriptSig\<close>: \<open>None\<close> is the early \<open>return 0\<close>.\<close>

function last_push :: "bytes \<Rightarrow> bytes \<Rightarrow> bytes option" where
  "last_push data pc =
     (if pc = [] then Some data
      else case GetOp2 pc of None \<Rightarrow> None
      | Some (opcode, v, r) \<Rightarrow> (if OP_16 < opcode then None else last_push v r))"
  by pat_completeness auto
termination
  by (relation "measure (\<lambda>(d, pc). length pc)") (auto dest: GetOp2_shorter)

declare last_push.simps [simp del]

definition GetSigOpCount_P2SH :: "bytes \<Rightarrow> bytes \<Rightarrow> u32" where
  "GetSigOpCount_P2SH script sig =
     (if \<not> IsPayToScriptHash script then GetSigOpCount script True
      else case last_push [] sig of None \<Rightarrow> 0 | Some subscript \<Rightarrow> GetSigOpCount subscript True)"

function IsPushOnly :: "bytes \<Rightarrow> bool" where
  "IsPushOnly pc =
     (if pc = [] then True
      else case GetOp2 pc of None \<Rightarrow> False
      | Some (opcode, v, r) \<Rightarrow> (if OP_16 < opcode then False else IsPushOnly r))"
  by pat_completeness auto
termination
  by (relation "measure length") (auto dest: GetOp2_shorter)

declare IsPushOnly.simps [simp del]

section \<open>Standard forms\<close>

definition mTemplates :: "(txnouttype \<times> bytes) list" where
  "mTemplates =
     [(TX_PUBKEY, [OP_PUBKEY, OP_CHECKSIG]),
      (TX_PUBKEYHASH, [OP_DUP, OP_HASH160, OP_PUBKEYHASH, OP_EQUALVERIFY, OP_CHECKSIG]),
      (TX_MULTISIG, [OP_SMALLINTEGER, OP_PUBKEYS, OP_SMALLINTEGER, OP_CHECKMULTISIG])]"

function pubkeys_loop :: "opcodetype \<Rightarrow> bytes \<Rightarrow> bytes \<Rightarrow> bytes list
    \<Rightarrow> opcodetype \<times> bytes \<times> bytes \<times> bytes list" where
  "pubkeys_loop opcode1 vch1 pc1 vSolutionsRet =
     (if 33 \<le> length vch1 \<and> length vch1 \<le> 120 then
        (case GetOp2 pc1 of None \<Rightarrow> (OP_INVALIDOPCODE, [], [], vSolutionsRet @ [vch1])
         | Some (opcode, v, r) \<Rightarrow> pubkeys_loop opcode v r (vSolutionsRet @ [vch1]))
      else (opcode1, vch1, pc1, vSolutionsRet))"
  by pat_completeness auto
termination
  by (relation "measure (\<lambda>(opc, v, pc, s). length pc)") (auto dest: GetOp2_shorter)

declare pubkeys_loop.simps [simp del]

text \<open>The comparison of one instruction pair after \<open>OP_PUBKEYS\<close> has been dealt with: the new
  solutions, or \<open>None\<close> for a \<open>break\<close>.\<close>

definition match_op :: "opcodetype \<Rightarrow> bytes \<Rightarrow> opcodetype \<Rightarrow> bytes \<Rightarrow> bytes list \<Rightarrow> bytes list option" where
  "match_op opcode1 vch1 opcode2 vch2 vSolutionsRet =
     (if opcode2 = OP_PUBKEY then
        (if length vch1 < 33 \<or> length vch1 > 120 then None else Some (vSolutionsRet @ [vch1]))
      else if opcode2 = OP_PUBKEYHASH then
        (if length vch1 \<noteq> 20 then None else Some (vSolutionsRet @ [vch1]))
      else if opcode2 = OP_SMALLINTEGER then
        (if opcode1 = OP_0 \<or> (OP_1 \<le> opcode1 \<and> opcode1 \<le> OP_16)
         then Some (vSolutionsRet @ [[word_of_int (the (DecodeOP_N opcode1))]])
         else None)
      else if opcode1 \<noteq> opcode2 \<or> vch1 \<noteq> vch2 then None
      else Some vSolutionsRet)"

lemma pubkeys_loop_le:
  "pubkeys_loop opc v pc sols = (opc', v', pc', sols') \<Longrightarrow> length pc' \<le> length pc"
proof (induction opc v pc sols arbitrary: opc' v' pc' sols' rule: pubkeys_loop.induct)
  case (1 opc v pc sols)
  show ?case
  proof (cases "(33 \<le> length v \<and> length v \<le> 120) \<and> GetOp2 pc \<noteq> None")
    case True
    then obtain q w r where g: "GetOp2 pc = Some (q, w, r)" by auto
    have "pubkeys_loop q w r (sols @ [v]) = (opc', v', pc', sols')"
      using 1(2) True g by (subst (asm) pubkeys_loop.simps) simp
    then have "length pc' \<le> length r" using True g 1(1) by simp
    with GetOp2_shorter [OF g] show ?thesis by simp
  next
    case False
    with 1(2) show ?thesis by (subst (asm) pubkeys_loop.simps) (auto split: if_splits option.splits)
  qed
qed

function match_loop :: "bytes \<Rightarrow> bytes \<Rightarrow> bytes list \<Rightarrow> bytes list option" where
  "match_loop pc1 pc2 vSolutionsRet =
     (if pc1 = [] \<and> pc2 = [] then Some vSolutionsRet
      else case GetOp2 pc1 of None \<Rightarrow> None
      | Some (opcode1, vch1, r1) \<Rightarrow>
         (case GetOp2 pc2 of None \<Rightarrow> None
          | Some (opcode2, vch2, r2) \<Rightarrow>
              if opcode2 = OP_PUBKEYS then
                (let (opcode1, vch1, r1, sols) = pubkeys_loop opcode1 vch1 r1 vSolutionsRet in
                 case GetOp2 r2 of None \<Rightarrow> None
                 | Some (opcode2, vch2, r2) \<Rightarrow>
                     (case match_op opcode1 vch1 opcode2 vch2 sols of None \<Rightarrow> None
                      | Some sols \<Rightarrow> match_loop r1 r2 sols))
              else
                (case match_op opcode1 vch1 opcode2 vch2 vSolutionsRet of None \<Rightarrow> None
                 | Some sols \<Rightarrow> match_loop r1 r2 sols)))"
  by pat_completeness auto
termination
proof (relation "measure (\<lambda>(pc1, pc2, s). length pc1)", goal_cases)
  case 1
  then show ?case by simp
next
  case 2
  then show ?case
    by (auto dest!: GetOp2_shorter pubkeys_loop_le [OF sym])
next
  case 3
  then show ?case by (auto dest: GetOp2_shorter)
qed

declare match_loop.simps [simp del]

fun scan_templates :: "bytes \<Rightarrow> (txnouttype \<times> bytes) list \<Rightarrow> bool \<times> txnouttype \<times> bytes list" where
  "scan_templates script [] = (False, TX_NONSTANDARD, [])"
| "scan_templates script ((t, script2) # ts) =
     (case match_loop script script2 [] of None \<Rightarrow> scan_templates script ts
      | Some sols \<Rightarrow>
          if t = TX_MULTISIG then
            (let m = hd (hd sols); n = hd (last sols) in
             if m < 1 \<or> n < 1 \<or> m > n \<or> length sols - 2 \<noteq> unat n then (False, t, sols)
             else (True, t, sols))
          else (True, t, sols))"

definition Solver :: "bytes \<Rightarrow> bool \<times> txnouttype \<times> bytes list" where
  "Solver script =
     (if length script \<ge> 1 \<and> script ! 0 = OP_RETURN \<and> length script \<le> 83
      then (True, TX_NULL_DATA, [])
      else if IsPayToScriptHash script
      then (True, TX_SCRIPTHASH, [take 20 (drop 2 script)])
      else scan_templates script mTemplates)"

definition ScriptSigArgsExpected :: "txnouttype \<Rightarrow> bytes list \<Rightarrow> int" where
  "ScriptSigArgsExpected t vSolutions =
     (case t of TX_NONSTANDARD \<Rightarrow> - 1
      | TX_PUBKEY \<Rightarrow> 1
      | TX_PUBKEYHASH \<Rightarrow> 2
      | TX_MULTISIG \<Rightarrow>
          (if length vSolutions < 1 \<or> length (vSolutions ! 0) < 1 then - 1
           else uint (vSolutions ! 0 ! 0) + 1)
      | TX_SCRIPTHASH \<Rightarrow> 1
      | TX_NULL_DATA \<Rightarrow> 0)"

definition IsStandard :: "bytes \<Rightarrow> bool" where
  "IsStandard script =
     (let (ok, whichType, vSolutions) = Solver script in
      if \<not> ok then False
      else if whichType = TX_MULTISIG \<and>
          (let m = hd (hd vSolutions); n = hd (last vSolutions) in n < 1 \<or> n > 3 \<or> m < 1 \<or> m > n)
      then False
      else whichType \<noteq> TX_NONSTANDARD)"

definition CPubKey_GetID :: "openssl \<Rightarrow> bytes \<Rightarrow> CKeyID" where
  "CPubKey_GetID E vchPubKey = Hash160 E vchPubKey"

definition CScript_GetID :: "openssl \<Rightarrow> bytes \<Rightarrow> CScriptID" where
  "CScript_GetID E script = Hash160 E script"

definition ExtractDestination :: "openssl \<Rightarrow> bytes \<Rightarrow> CTxDestination option" where
  "ExtractDestination E script =
     (let (ok, whichType, vSolutions) = Solver script in
      if \<not> ok then None
      else if whichType = TX_PUBKEY then Some (KeyID (CPubKey_GetID E (vSolutions ! 0)))
      else if whichType = TX_PUBKEYHASH then Some (KeyID (le_word (vSolutions ! 0)))
      else if whichType = TX_SCRIPTHASH then Some (ScriptID (le_word (vSolutions ! 0)))
      else None)"

definition ExtractDestinations :: "openssl \<Rightarrow> bytes \<Rightarrow> (txnouttype \<times> CTxDestination list \<times> int) option" where
  "ExtractDestinations E script =
     (let (ok, typeRet, vSolutions) = Solver script in
      if \<not> ok then None
      else if typeRet = TX_MULTISIG then
        Some (typeRet, map (\<lambda>k. KeyID (CPubKey_GetID E k)) (butlast (tl vSolutions)),
              uint (hd (hd vSolutions)))
      else case ExtractDestination E script of None \<Rightarrow> None
      | Some address \<Rightarrow> Some (typeRet, [address], 1))"

fun SetDestination :: "CTxDestination \<Rightarrow> bytes" where
  "SetDestination CNoDestination = []"
| "SetDestination (KeyID keyID) =
     [OP_DUP] @ [OP_HASH160] @ push_uint160 keyID @ [OP_EQUALVERIFY] @ [OP_CHECKSIG]"
| "SetDestination (ScriptID scriptID) = [OP_HASH160] @ push_uint160 scriptID @ [OP_EQUAL]"

definition SetMultisig :: "int \<Rightarrow> bytes list \<Rightarrow> bytes option" where
  "SetMultisig nRequired pubkeys =
     (case (EncodeOP_N nRequired, EncodeOP_N (int (length pubkeys))) of
        (Some m, Some n) \<Rightarrow> Some ([m] @ concat (map push_data pubkeys) @ [n] @ [OP_CHECKMULTISIG])
      | _ \<Rightarrow> None)"

declare GetOp2.simps(2) [simp del]

section \<open>Reading what was pushed\<close>

lemma take_operand_append:
  "length (b @ r) < 2 ^ 32 \<Longrightarrow> take_operand opc (length b) (b @ r) = Some (opc, b, r)"
  by (simp add: take_operand_def)

lemma byte_of_nat_less: "n < 256 \<Longrightarrow> k < 256 \<Longrightarrow> (word_of_nat n :: byte) < word_of_nat k \<longleftrightarrow> n < k"
  by (simp add: word_less_nat_alt)

lemma push_data_GetOp2:
  assumes "length (b @ r) < 2 ^ 32"
  shows "\<exists>opc \<le> OP_PUSHDATA4. GetOp2 (push_data b @ r) = Some (opc, b, r)"
proof -
  consider "length b < 76" | "76 \<le> length b" "length b \<le> 0xff" | "0xff < length b" "length b \<le> 0xffff"
    | "0xffff < length b" by linarith
  then show ?thesis
  proof cases
    case 1
    then have "(word_of_nat (length b) :: byte) < 76"
      by (simp add: word_less_nat_alt)
    moreover from this have "(word_of_nat (length b) :: byte) \<le> 78"
      by (simp add: word_less_nat_alt word_le_nat_alt)
    ultimately show ?thesis
      using 1 assms by (simp add: push_data_def take_operand_append GetOp2.simps)
  next
    case 2
    then show ?thesis using assms by (simp add: push_data_def take_operand_append GetOp2.simps)
  next
    case 3
    then have "le_nat (nat_le 2 (length b)) = length b" by (simp add: le_nat_nat_le)
    with 3 show ?thesis using assms by (simp add: push_data_def take_operand_append GetOp2.simps)
  next
    case 4
    then have "le_nat (nat_le 4 (length b)) = length b" using assms by (simp add: le_nat_nat_le)
    with 4 show ?thesis using assms by (simp add: push_data_def take_operand_append GetOp2.simps)
  qed
qed

lemma length_push_data: "length b < length (push_data b) \<and> length (push_data b) \<le> length b + 5"
  by (auto simp: push_data_def)

lemma GetOp2_op [simp]: "OP_PUSHDATA4 < opc \<Longrightarrow> GetOp2 (opc # r) = Some (opc, [], r)"
  by (simp only: GetOp2.simps linorder_not_less [symmetric] simp_thms if_False)

lemma push_uint160_eq: "push_uint160 h = push_data (word_le 20 h)"
  by (simp add: push_uint160_def push_data_def)

lemma push_data_not_Nil [simp]: "push_data b \<noteq> []"
  by (simp add: push_data_def)

lemma small_push_GetOp2 [simp]:
  assumes "length b < 76" and "length (b @ r) < 2 ^ 32"
  shows "GetOp2 (push_data b @ r) = Some (word_of_nat (length b), b, r)"
proof -
  have "push_data b = word_of_nat (length b) # b" using assms by (simp add: push_data_def)
  moreover from push_data_GetOp2 [OF assms(2)] obtain opc where "GetOp2 (push_data b @ r) = Some (opc, b, r)" by blast
  ultimately show ?thesis using GetOp2_SomeD by fastforce
qed


lemma IsPushOnly_Nil [simp]: "IsPushOnly []"
  by (simp add: IsPushOnly.simps)

lemma IsPushOnly_step:
  "GetOp2 pc = Some (opc, v, r) \<Longrightarrow> IsPushOnly pc \<longleftrightarrow> opc \<le> OP_16 \<and> IsPushOnly r"
  by (subst IsPushOnly.simps) (auto simp: not_le)

lemma IsPushOnly_pushes: "length (concat (map push_data vs)) < 2 ^ 32 \<Longrightarrow> IsPushOnly (concat (map push_data vs))"
proof (induction vs)
  case (Cons v vs)
  then obtain opc where "GetOp2 (push_data v @ concat (map push_data vs)) = Some (opc, v, concat (map push_data vs))"
    and opc: "opc \<le> 78"
    using push_data_GetOp2 [of v "concat (map push_data vs)"] length_push_data [of v] by fastforce
  moreover have "opc \<le> 96" using opc by (rule order_trans) simp
  ultimately show ?case using Cons by (simp add: IsPushOnly_step)
qed simp

section \<open>Matching templates\<close>

lemma match_loop_Nil [simp]: "match_loop [] [] sols = Some sols"
  by (simp add: match_loop.simps)

lemma match_loop_step:
  assumes "GetOp2 pc1 = Some (opc1, v1, r1)" and "GetOp2 pc2 = Some (opc2, v2, r2)"
    and "opc2 \<noteq> OP_PUBKEYS"
  shows "match_loop pc1 pc2 sols =
    (case match_op opc1 v1 opc2 v2 sols of None \<Rightarrow> None | Some s \<Rightarrow> match_loop r1 r2 s)"
  using assms by (subst match_loop.simps) auto

lemma match_loop_pubkeys:
  assumes "GetOp2 pc1 = Some (opc1, v1, r1)"
    and "pubkeys_loop opc1 v1 r1 sols = (opc1', v1', r1', sols')"
  shows "match_loop pc1 (OP_PUBKEYS # OP_SMALLINTEGER # r2) sols =
    (case match_op opc1' v1' OP_SMALLINTEGER [] sols' of None \<Rightarrow> None | Some s \<Rightarrow> match_loop r1' r2 s)"
  using assms by (subst match_loop.simps) auto

lemma P2PKH_script:
  "SetDestination (KeyID k) =
     OP_DUP # OP_HASH160 # push_data (word_le 20 k) @ [OP_EQUALVERIFY, OP_CHECKSIG]"
  by (simp add: push_uint160_eq)

lemma Solver_P2PKH: "Solver (SetDestination (KeyID k)) = (True, TX_PUBKEYHASH, [word_le 20 k])"
proof -
  let ?s = "SetDestination (KeyID k)"
  have len: "length ?s = 25" by (simp add: push_uint160_def)
  have 1: "match_loop ?s [OP_PUBKEY, OP_CHECKSIG] [] = None"
    unfolding P2PKH_script by (simp add: match_loop_step match_op_def)
  have 2: "match_loop ?s [OP_DUP, OP_HASH160, OP_PUBKEYHASH, OP_EQUALVERIFY, OP_CHECKSIG] []
      = Some [word_le 20 k]"
    unfolding P2PKH_script by (simp add: match_loop_step match_op_def)
  show ?thesis
    unfolding Solver_def using len 1 2
    by (simp add: IsPayToScriptHash_def mTemplates_def)
qed

lemma P2SH_IsPayToScriptHash: "IsPayToScriptHash (SetDestination (ScriptID k))"
proof -
  have "(word_le 20 k @ [135]) ! 20 = (135 :: byte)" by (simp add: nth_append)
  then show ?thesis by (simp add: IsPayToScriptHash_def push_uint160_def)
qed

lemma Solver_P2SH: "Solver (SetDestination (ScriptID k)) = (True, TX_SCRIPTHASH, [word_le 20 k])"
  unfolding Solver_def using P2SH_IsPayToScriptHash [of k] by (simp add: push_uint160_def)

lemma Solver_P2PK:
  assumes "33 \<le> length key" and "length key \<le> 120"
  shows "Solver (push_data key @ [OP_CHECKSIG]) = (True, TX_PUBKEY, [key])"
proof -
  obtain opc where g: "GetOp2 (push_data key @ [OP_CHECKSIG]) = Some (opc, key, [OP_CHECKSIG])"
    and opc: "opc \<le> 78"
    using push_data_GetOp2 [of key "[OP_CHECKSIG]"] assms by auto
  obtain x xs where p: "push_data key = x # xs" by (cases "push_data key") auto
  with GetOp2_SomeD [OF g] have "x = opc" by auto
  then have nr: "(push_data key @ [OP_CHECKSIG]) ! 0 \<noteq> OP_RETURN"
    "(push_data key @ [OP_CHECKSIG]) ! 0 \<noteq> OP_HASH160" using opc p by auto
  have "match_loop (push_data key @ [OP_CHECKSIG]) [OP_PUBKEY, OP_CHECKSIG] [] = Some [key]"
    using assms by (simp add: match_loop_step [OF g] match_op_def match_loop_step)
  then show ?thesis
    unfolding Solver_def using nr by (simp add: IsPayToScriptHash_def mTemplates_def)
qed


lemma pubkeys_loop_keys:
  assumes "list_all (\<lambda>k. 33 \<le> length k \<and> length k \<le> 120) (k # ks)"
    and "OP_PUSHDATA4 < n" and "length (concat (map push_data ks)) + length r < 2 ^ 31"
  shows "pubkeys_loop opc k (concat (map push_data ks) @ n # r) sols = (n, [], r, sols @ k # ks)"
  using assms
proof (induction ks arbitrary: opc k sols)
  case Nil
  have "pubkeys_loop opc k (n # r) sols = pubkeys_loop n [] r (sols @ [k])"
    using Nil by (subst pubkeys_loop.simps) simp
  also have "\<dots> = (n, [], r, sols @ [k])"
    by (subst pubkeys_loop.simps) simp
  finally show ?case by simp
next
  case (Cons k' ks)
  have "length (k' @ concat (map push_data ks) @ n # r) < 2 ^ 32"
    using Cons.prems(3) length_push_data [of k'] by simp
  from push_data_GetOp2 [OF this] obtain opc' where
    g: "GetOp2 (push_data k' @ concat (map push_data ks) @ n # r)
        = Some (opc', k', concat (map push_data ks) @ n # r)" by blast
  have "pubkeys_loop opc k (concat (map push_data (k' # ks)) @ n # r) sols
      = pubkeys_loop opc' k' (concat (map push_data ks) @ n # r) (sols @ [k])"
    using Cons.prems g by (subst pubkeys_loop.simps) simp
  also have "\<dots> = (n, [], r, (sols @ [k]) @ k' # ks)"
    by (rule Cons.IH) (use Cons.prems in auto)
  finally show ?case by simp
qed

lemma EncodeOP_N_pos:
  assumes "1 \<le> n" and "n \<le> 16"
  shows "EncodeOP_N n = Some (word_of_int (80 + n))" and "uint (word_of_int (80 + n) :: byte) = 80 + n"
    and "OP_1 \<le> (word_of_int (80 + n) :: byte)" and "(word_of_int (80 + n) :: byte) \<le> OP_16"
    and "DecodeOP_N (word_of_int (80 + n)) = Some n"
proof -
  show u: "uint (word_of_int (80 + n) :: byte) = 80 + n"
    using assms by (simp only: uint_word_of_int) simp
  show "EncodeOP_N n = Some (word_of_int (80 + n))"
    using assms by (simp add: EncodeOP_N_def)
  show ge: "OP_1 \<le> (word_of_int (80 + n) :: byte)" and le: "(word_of_int (80 + n) :: byte) \<le> OP_16"
    using assms unfolding Word.word_le_def u by simp_all
  moreover have "(word_of_int (80 + n) :: byte) \<noteq> 0" using u assms by (auto simp: word_uint_eq_iff)
  ultimately show "DecodeOP_N (word_of_int (80 + n)) = Some n"
    unfolding DecodeOP_N_def u by (simp only: simp_thms if_True if_False) simp
qed

lemma concat_push_bound:
  "list_all (\<lambda>k. length k \<le> 120) ks \<Longrightarrow> length (concat (map push_data ks)) \<le> 125 * length ks"
proof (induction ks)
  case (Cons k ks)
  then show ?case using length_push_data [of k] by auto
qed simp

lemma Solver_multisig:
  assumes m: "1 \<le> m" "m \<le> int (length keys)" and n: "length keys \<le> 16"
    and keys: "list_all (\<lambda>k. 33 \<le> length k \<and> length k \<le> 120) keys"
  shows "\<exists>script. SetMultisig m keys = Some script
    \<and> Solver script = (True, TX_MULTISIG, [word_of_int m] # keys @ [[word_of_int (int (length keys))]])"
proof -
  define M where "M = (word_of_int (80 + m) :: byte)"
  define N where "N = (word_of_int (80 + int (length keys)) :: byte)"
  have m': "1 \<le> m" "m \<le> 16" and n': "1 \<le> int (length keys)" "int (length keys) \<le> 16"
    using assms by auto
  note M = EncodeOP_N_pos [OF m', folded M_def] and N = EncodeOP_N_pos [OF n', folded N_def]
  have M78: "OP_PUSHDATA4 < M" and N78: "OP_PUSHDATA4 < N"
    using less_le_trans [of 78 81 M] less_le_trans [of 78 81 N] M(3) N(3) by simp_all
  obtain k ks where ks: "keys = k # ks" using n' by (cases keys) auto
  let ?rest = "concat (map push_data ks) @ N # [OP_CHECKMULTISIG]"
  define script where "script = [M] @ concat (map push_data keys) @ [N] @ [OP_CHECKMULTISIG]"
  have set: "SetMultisig m keys = Some script"
    by (simp add: SetMultisig_def M N script_def)
  have "length (concat (map push_data ks)) \<le> 125 * length ks"
    using keys by (intro concat_push_bound) (auto simp: ks list_all_iff)
  then have len: "length (concat (map push_data ks)) \<le> 2000" using n by (simp add: ks)
  have script: "script = M # push_data k @ ?rest" by (simp add: script_def ks)
  have "length (k @ ?rest) < 2 ^ 32" using len keys by (simp add: ks)
  from push_data_GetOp2 [OF this] obtain opc where
    gk: "GetOp2 (push_data k @ ?rest) = Some (opc, k, ?rest)" by blast
  have loop: "pubkeys_loop opc k ?rest [[word_of_int m]] = (N, [], [OP_CHECKMULTISIG], [[word_of_int m]] @ k # ks)"
    by (rule pubkeys_loop_keys) (use keys ks N78 len in auto)
  have g: "GetOp2 script = Some (M, [], push_data k @ ?rest)" using M78 by (simp add: script)
  have M0: "M \<noteq> 0" "M \<noteq> OP_RETURN" "M \<noteq> OP_HASH160" "M \<noteq> OP_DUP"
    using M(3,4) by auto
  have match: "match_loop script [OP_SMALLINTEGER, OP_PUBKEYS, OP_SMALLINTEGER, OP_CHECKMULTISIG] []
      = Some ([word_of_int m] # keys @ [[word_of_int (int (length keys))]])"
    using M N by (simp add: match_loop_step [OF g] match_op_def match_loop_pubkeys [OF gk loop]
        match_loop_step ks)
  have no: "match_loop script [OP_PUBKEY, OP_CHECKSIG] [] = None"
    "match_loop script [OP_DUP, OP_HASH160, OP_PUBKEYHASH, OP_EQUALVERIFY, OP_CHECKSIG] [] = None"
    using M0 by (simp_all add: match_loop_step [OF g] match_op_def)
  have um: "uint (word_of_int m :: byte) = m" "uint (word_of_int (int (length keys)) :: byte) = int (length keys)"
    using m' n' by (simp_all only: uint_word_of_int) simp_all
  then have un: "unat (word_of_int (int (length keys)) :: byte) = length keys" by (simp add: unat_eq_nat_uint)
  have sc: "scan_templates script mTemplates
      = (True, TX_MULTISIG, [word_of_int m] # keys @ [[word_of_int (int (length keys))]])"
    using m n' um un by (simp add: mTemplates_def no match word_less_def Word.word_le_def Let_def not_less ks)
  have hd: "script ! 0 = M" by (simp add: script)
  have "Solver script = (True, TX_MULTISIG, [word_of_int m] # keys @ [[word_of_int (int (length keys))]])"
    unfolding Solver_def IsPayToScriptHash_def hd using M0 sc by simp
  with set show ?thesis by blast
qed


section \<open>Deleting and counting\<close>

text \<open>\<open>deleted b s r k\<close>: r is s without k disjoint occurrences of b.\<close>

inductive deleted :: "bytes \<Rightarrow> bytes \<Rightarrow> bytes \<Rightarrow> nat \<Rightarrow> bool" where
  deleted_Nil: "deleted b [] [] 0"
| deleted_keep: "deleted b s r k \<Longrightarrow> deleted b (x # s) (x # r) k"
| deleted_drop: "deleted b s r k \<Longrightarrow> deleted b (b @ s) r (Suc k)"

lemma deleted_keeps: "deleted b s r k \<Longrightarrow> deleted b (xs @ s) (xs @ r) k"
  by (induction xs) (auto intro: deleted_keep)

lemma deleted_refl: "deleted b s s 0"
  using deleted_keeps [OF deleted_Nil, of b s] by simp

lemma deleted_length: "deleted b s r k \<Longrightarrow> length s = length r + k * length b"
  by (induction rule: deleted.induct) auto

lemma deleted_none: "deleted b s r k \<Longrightarrow> k = 0 \<Longrightarrow> r = s"
  by (induction rule: deleted.induct) auto

lemma erase_here_deleted:
  "erase_here b pc = (r, k) \<Longrightarrow> deleted b r r' k' \<Longrightarrow> deleted b pc r' (k + k')"
proof (induction b pc arbitrary: r k rule: erase_here.induct)
  case (1 b pc)
  show ?case
  proof (cases "b \<noteq> [] \<and> length b \<le> length pc \<and> take (length b) pc = b")
    case True
    obtain r1 k1 where e: "erase_here b (drop (length b) pc) = (r1, k1)" by fastforce
    have rk: "r = r1" "k = Suc k1" using 1(2) True e by (subst (asm) erase_here.simps, simp)+
    have "deleted b (drop (length b) pc) r' (k1 + k')" using 1(1) [OF True e] 1(3) rk by simp
    from deleted_drop [OF this] show ?thesis
      using True rk append_take_drop_id [of "length b" pc] by simp
  next
    case False
    with 1(2,3) show ?thesis by (subst (asm) erase_here.simps) auto
  qed
qed

lemma fad_loop_deleted: "fad_loop b pc = (r, k) \<Longrightarrow> deleted b pc r k"
proof (induction b pc arbitrary: r k rule: fad_loop.induct)
  case (1 b pc)
  obtain pc' k' where e: "erase_here b pc = (pc', k')" by fastforce
  show ?case
  proof (cases "GetOp2 pc'")
    case None
    with e 1(2) have "pc' = r" "k' = k" by (subst (asm) fad_loop.simps, simp)+
    then show ?thesis using erase_here_deleted [OF e deleted_refl] by simp
  next
    case (Some x)
    obtain opc v s where x: "x = (opc, v, s)" by (cases x)
    obtain r'' k'' where f: "fad_loop b s = (r'', k'')" by fastforce
    have r: "r = take (length pc' - length s) pc' @ r''" and k: "k = k' + k''"
      using 1(2) e Some x f by (subst (asm) fad_loop.simps, simp)+
    have "deleted b s r'' k''"
      by (rule 1(1) [OF e [symmetric] refl Some x [symmetric] refl f])
    moreover obtain hdr where "pc' = opc # hdr @ v @ s" using GetOp2_SomeD [of pc'] Some x by blast
    then have "pc' = (opc # hdr @ v) @ s" by simp
    then have "pc' = take (length pc' - length s) pc' @ s"
      by (metis append_eq_conv_conj diff_add_inverse2 length_append)
    ultimately have "deleted b pc' r k''" using r deleted_keeps by metis
    from erase_here_deleted [OF e this] show ?thesis by (simp add: k)
  qed
qed

lemma sigops_of_le: "unat (sigops_of a l opc) \<le> 20"
proof -
  have "word_of_int (uint l - 80) \<le> (20 :: u32)" if "81 \<le> l" "l \<le> 96"
  proof -
    have "81 \<le> uint l" "uint l \<le> 96" using that by (simp_all add: Word.word_le_def)
    then show ?thesis by (simp only: Word.word_le_def uint_word_of_int) simp
  qed
  moreover have "l \<noteq> 0" if "81 \<le> l" for l :: byte using that by auto
  ultimately have "sigops_of a l opc \<le> 20"
    by (auto simp: sigops_of_def DecodeOP_N_def)
  then show ?thesis by (simp add: word_le_nat_alt)
qed

lemma sigops_loop_bound:
  "unat n + 20 * length pc < 2 ^ 32 \<Longrightarrow> unat (sigops_loop a l n pc) \<le> unat n + 20 * length pc"
proof (induction a l n pc rule: sigops_loop.induct)
  case (1 a l n pc)
  show ?case
  proof (cases "GetOp2 pc")
    case None
    then show ?thesis by (subst sigops_loop.simps) simp
  next
    case (Some x)
    obtain opc v r where x: "x = (opc, v, r)" by (cases x)
    have len: "length r < length pc" using GetOp2_shorter Some x by blast
    have u: "unat (n + sigops_of a l opc) = unat n + unat (sigops_of a l opc)"
      using 1(2) sigops_of_le [of a l opc] len by (intro unat_add_lem [THEN iffD1]) simp
    have "unat (sigops_loop a opc (n + sigops_of a l opc) r) \<le> unat (n + sigops_of a l opc) + 20 * length r"
      using 1(1) [OF Some x [symmetric] refl] 1(2) u sigops_of_le [of a l opc] len by simp
    then show ?thesis using Some x u sigops_of_le [of a l opc] len
      by (subst sigops_loop.simps) simp
  qed
qed


section \<open>Properties\<close>

text \<open>
  Addresses and output scripts correspond: the script that pays a destination is a standard
  script from which \<open>ExtractDestination\<close> recovers exactly that destination, so two
  destinations never share a script.
\<close>

theorem SetDestination_ExtractDestination:
  "ExtractDestination E (SetDestination (KeyID k)) = Some (KeyID k)
   \<and> ExtractDestination E (SetDestination (ScriptID h)) = Some (ScriptID h)
   \<and> IsStandard (SetDestination (KeyID k)) \<and> IsStandard (SetDestination (ScriptID h))
   \<and> ExtractDestination E (SetDestination CNoDestination) = None"
proof -
  have l: "le_word (word_le 20 w) = (w :: u160)" for w by (rule le_word_word_le) simp
  have n: "Solver [] = (False, TX_NONSTANDARD, [])"
    by (simp add: Solver_def IsPayToScriptHash_def mTemplates_def match_loop.simps)
  show ?thesis
    unfolding ExtractDestination_def IsStandard_def Solver_P2PKH Solver_P2SH
    by (simp add: l n)
qed

text \<open>
  The m-of-n script that \<open>SetMultisig\<close> builds is recognised: \<open>Solver\<close> returns m, the
  public keys in order and n, \<open>ExtractDestinations\<close> the key identifiers and m, and the script
  is standard exactly up to three keys.
\<close>

theorem SetMultisig_Solver:
  assumes "1 \<le> m" and "m \<le> int (length keys)" and "length keys \<le> 16"
    and "\<forall>k \<in> set keys. 33 \<le> length k \<and> length k \<le> 120"
  shows "\<exists>script. SetMultisig m keys = Some script
    \<and> Solver script = (True, TX_MULTISIG, [word_of_int m] # keys @ [[word_of_nat (length keys)]])
    \<and> ExtractDestinations E script = Some (TX_MULTISIG, map (\<lambda>k. KeyID (CPubKey_GetID E k)) keys, m)
    \<and> (IsStandard script \<longleftrightarrow> length keys \<le> 3)"
proof -
  have "list_all (\<lambda>k. 33 \<le> length k \<and> length k \<le> 120) keys"
    using assms(4) by (simp add: list_all_iff)
  from Solver_multisig [OF assms(1-3) this] obtain script where
    s: "SetMultisig m keys = Some script"
      "Solver script = (True, TX_MULTISIG, [word_of_int m] # keys @ [[word_of_nat (length keys)]])"
    by auto
  have um: "uint (word_of_int m :: byte) = m"
    using assms by (simp only: uint_word_of_int) simp
  have un: "uint (word_of_nat (length keys) :: byte) = int (length keys)"
    using assms by (simp add: uint_nat del: unat_of_nat)
  have "ExtractDestinations E script = Some (TX_MULTISIG, map (\<lambda>k. KeyID (CPubKey_GetID E k)) keys, m)"
    by (simp add: ExtractDestinations_def s um)
  moreover have "IsStandard script \<longleftrightarrow> length keys \<le> 3"
    using assms(1,2) by (simp add: IsStandard_def s Let_def word_less_def um un) auto
  ultimately show ?thesis using s by blast
qed

theorem SetMultisig_Solver_witness:
  "\<exists>script. SetMultisig 1 [replicate 33 2, replicate 33 3] = Some script \<and> IsStandard script"
  using SetMultisig_Solver [of 1 "[replicate 33 2, replicate 33 3]" openssl_ref] by auto

text \<open>
  \<open>GetOp\<close> reads back what \<open>operator<<\<close> pushed, whatever push form the length selects, and
  a script built from pushes alone is push-only.
\<close>

theorem push_GetOp:
  "(length (b @ r) < 2 ^ 32 \<longrightarrow>
      (\<exists>opc \<le> OP_PUSHDATA4. GetOp2 (push_data b @ r) = Some (opc, b, r)))
   \<and> (length (concat (map push_data vs)) < 2 ^ 32 \<longrightarrow> IsPushOnly (concat (map push_data vs)))"
  using push_data_GetOp2 IsPushOnly_pushes by blast

theorem push_GetOp_witness:
  "\<exists>opc \<le> OP_PUSHDATA4. GetOp2 (push_data (replicate 300 7) @ [OP_DUP]) = Some (opc, replicate 300 7, [OP_DUP])"
  using push_GetOp [of "replicate 300 7" "[OP_DUP]" "[]"] by simp

text \<open>
  \<open>FindAndDelete\<close> removes as many disjoint copies of the pattern as it reports and keeps
  every other byte in order; so the length drops by the count times the pattern's length, and a
  script without a reported match is unchanged.
\<close>

theorem FindAndDelete_count:
  "FindAndDelete script b = (r, k) \<Longrightarrow>
     deleted b script r k \<and> length script = length r + k * length b \<and> (k = 0 \<longrightarrow> r = script)"
  using fad_loop_deleted [of b script r k] deleted_length [of b script r k]
    deleted_none [of b script r k] deleted_refl
  by (auto simp: FindAndDelete_def split: if_splits)

theorem FindAndDelete_count_witness:
  "FindAndDelete [OP_DUP, OP_CODESEPARATOR, OP_CODESEPARATOR, OP_DROP] [OP_CODESEPARATOR] = ([OP_DUP, OP_DROP], 2)
   \<and> length [OP_DUP, OP_CODESEPARATOR, OP_CODESEPARATOR, OP_DROP] = length [OP_DUP, OP_DROP] + 2 * length [OP_CODESEPARATOR]"
proof -
  have "FindAndDelete [OP_DUP, OP_CODESEPARATOR, OP_CODESEPARATOR, OP_DROP] [OP_CODESEPARATOR] = ([OP_DUP, OP_DROP], 2)"
    by (simp add: FindAndDelete_def fad_loop.simps erase_here.simps)
  with FindAndDelete_count [OF this] show ?thesis by blast
qed

text \<open>
  The legacy count of signature operations is at most twenty per byte of script and does
  not wrap around for a script that a transaction can carry; for scripts that are not
  pay-to-script-hash the count of inputs is the accurate count of the script.
\<close>

theorem GetSigOpCount_bound:
  "length script \<le> MAX_SIZE \<Longrightarrow>
     unat (GetSigOpCount script fAccurate) \<le> 20 * length script
     \<and> (\<not> IsPayToScriptHash script \<longrightarrow> GetSigOpCount_P2SH script sig = GetSigOpCount script True)"
  using sigops_loop_bound [of 0 script fAccurate 255]
  by (simp add: GetSigOpCount_def GetSigOpCount_P2SH_def MAX_SIZE_def)

theorem GetSigOpCount_bound_witness:
  "unat (GetSigOpCount [OP_1, OP_CHECKMULTISIG] True) \<le> 40 \<and> GetSigOpCount [OP_1, OP_CHECKMULTISIG] True = 1"
  using GetSigOpCount_bound [of "[OP_1, OP_CHECKMULTISIG]" True]
  by (simp add: MAX_SIZE_def GetSigOpCount_def sigops_loop.simps sigops_of_def DecodeOP_N_def)

end
