(* ===== verification/Sighash.thy ===== *)
theory Sighash
  imports Script "HOL-Library.List_Lexorder" "HOL-Library.Product_Lexorder"
begin

text \<open>
  The hash a signature commits to, the cache of verified signatures and \<open>CheckSig\<close>
  (src/src/script.cpp), with \<open>CKey::SetPubKey\<close> and \<open>CKey::Verify\<close> (src/src/key.cpp). The
  cache is a \<open>std::set\<close> of (hash, signature, public key): a list in increasing order. The
  random hashes that select the entry to evict are a list that the caller supplies. What each hash
  type covers is \<open>signed_view\<close>, and the hash commits to exactly that.
\<close>

section \<open>Signature hashes\<close>

definition SIGHASH_ALL :: int where "SIGHASH_ALL = 1"
definition SIGHASH_NONE :: int where "SIGHASH_NONE = 2"
definition SIGHASH_SINGLE :: int where "SIGHASH_SINGLE = 3"
definition SIGHASH_ANYONECANPAY :: int where "SIGHASH_ANYONECANPAY = 0x80"

text \<open>Setting \<open>nSequence\<close> of every input but one to zero.\<close>

definition blank_sequences :: "nat \<Rightarrow> CTxIn list \<Rightarrow> CTxIn list" where
  "blank_sequences nIn ins =
     map (\<lambda>i. if i \<noteq> nIn then (ins ! i)\<lparr> nSequence := 0 \<rparr> else ins ! i) [0..<length ins]"

definition SignatureHash :: "openssl \<Rightarrow> bytes \<Rightarrow> CTransaction \<Rightarrow> nat \<Rightarrow> int \<Rightarrow> u256" where
  "SignatureHash E scriptCode txTo nIn nHashType =
     (if nIn \<ge> length (vin txTo) then 1
      else
        (let scriptCode = fst (FindAndDelete scriptCode [OP_CODESEPARATOR]);
             ins = map (\<lambda>i. i\<lparr> scriptSig := [] \<rparr>) (vin txTo);
             ins = ins[nIn := (ins ! nIn)\<lparr> scriptSig := scriptCode \<rparr>];
             txTmp = txTo\<lparr> vin := ins \<rparr>;
             anyone = (\<lambda>t. if nHashType AND SIGHASH_ANYONECANPAY \<noteq> 0
                           then t\<lparr> vin := [vin t ! nIn] \<rparr> else t);
             finish = (\<lambda>t. Hash E (Serialize_CTransaction t @ word_le 4 (word_of_int nHashType :: i32)))
         in
          if nHashType AND 0x1f = SIGHASH_NONE then
            finish (anyone (txTmp\<lparr> vout := [], vin := blank_sequences nIn ins \<rparr>))
          else if nHashType AND 0x1f = SIGHASH_SINGLE then
            (if nIn \<ge> length (vout txTmp) then 1
             else finish (anyone (txTmp\<lparr>
                    vout := replicate nIn CTxOut_SetNull @ [vout txTmp ! nIn],
                    vin := blank_sequences nIn ins \<rparr>)))
          else finish (anyone txTmp)))"

section \<open>The signature cache\<close>

type_synonym sigdata_type = "u256 \<times> bytes \<times> bytes"

record CSignatureCache =
  setValid :: "sigdata_type list"
  maxsigcachesize :: int
  rand :: "u256 list"

definition cache_Get :: "CSignatureCache \<Rightarrow> u256 \<Rightarrow> bytes \<Rightarrow> bytes \<Rightarrow> bool" where
  "cache_Get c hash vchSig pubKey \<longleftrightarrow> (hash, vchSig, pubKey) \<in> set (setValid c)"

definition next_rand :: "u256 list \<Rightarrow> u256 \<times> u256 list" where
  "next_rand rs = (case rs of [] \<Rightarrow> (0, []) | r # rs' \<Rightarrow> (r, rs'))"

text \<open>\<open>lower_bound\<close> of a key that is not past the end, else the first element.\<close>

definition evict_at :: "'a::linorder \<Rightarrow> 'a list \<Rightarrow> 'a" where
  "evict_at k xs = (case dropWhile (\<lambda>x. x < k) xs of [] \<Rightarrow> hd xs | y # _ \<Rightarrow> y)"

function evict_loop :: "nat \<Rightarrow> u256 list \<Rightarrow> sigdata_type list \<Rightarrow> sigdata_type list \<times> u256 list" where
  "evict_loop limit rs xs =
     (if length xs > limit then
        (let (randomHash, rs') = next_rand rs in
         evict_loop limit rs' (remove1 (evict_at (randomHash, [], []) xs) xs))
      else (xs, rs))"
  by pat_completeness auto

lemma evict_at_in: "xs \<noteq> [] \<Longrightarrow> evict_at k xs \<in> set xs"
  unfolding evict_at_def
  by (auto split: list.splits) (metis set_dropWhileD list.set_intros(1))

termination evict_loop
proof (relation "measure (\<lambda>(limit, rs, xs). length xs)", goal_cases)
  case (2 limit rs xs x h rs')
  then have "xs \<noteq> []" by auto
  then have "evict_at (h, [], []) xs \<in> set xs" by (rule evict_at_in)
  then show ?case using 2 by (simp add: length_remove1)
qed simp

declare evict_loop.simps [simp del]

definition cache_Set :: "CSignatureCache \<Rightarrow> u256 \<Rightarrow> bytes \<Rightarrow> bytes \<Rightarrow> CSignatureCache" where
  "cache_Set c hash vchSig pubKey =
     (if maxsigcachesize c \<le> 0 then c
      else let (xs, rs) = evict_loop (nat (maxsigcachesize c)) (rand c) (setValid c) in
        c\<lparr> setValid := (if (hash, vchSig, pubKey) \<in> set xs then xs
                        else insort (hash, vchSig, pubKey) xs), rand := rs \<rparr>)"

section \<open>Checking a signature\<close>

definition SetPubKey :: "openssl \<Rightarrow> bytes \<Rightarrow> bool" where
  "SetPubKey E vchPubKey \<longleftrightarrow> vchPubKey \<noteq> [] \<and> o2i_ECPublicKey E vchPubKey"

definition Verify :: "openssl \<Rightarrow> bytes \<Rightarrow> u256 \<Rightarrow> bytes \<Rightarrow> bool" where
  "Verify E pubkey hash vchSig \<longleftrightarrow> vchSig \<noteq> [] \<and> ECDSA_verify E pubkey (word_le 32 hash) vchSig"

definition CheckSig :: "openssl \<Rightarrow> CSignatureCache \<Rightarrow> bytes \<Rightarrow> bytes \<Rightarrow> bytes \<Rightarrow> CTransaction
    \<Rightarrow> nat \<Rightarrow> int \<Rightarrow> bool \<times> CSignatureCache" where
  "CheckSig E c vchSig vchPubKey scriptCode txTo nIn nHashType =
     (if vchSig = [] then (False, c)
      else if nHashType \<noteq> 0 \<and> nHashType \<noteq> uint (last vchSig) then (False, c)
      else
        (let nHashType = (if nHashType = 0 then uint (last vchSig) else nHashType);
             vchSig = butlast vchSig;
             sighash = SignatureHash E scriptCode txTo nIn nHashType in
         if cache_Get c sighash vchSig vchPubKey then (True, c)
         else if \<not> SetPubKey E vchPubKey then (False, c)
         else if \<not> Verify E vchPubKey sighash vchSig then (False, c)
         else (True, cache_Set c sighash vchSig vchPubKey)))"


section \<open>The cache is transparent\<close>

text \<open>A cache is sound when every entry is a signature that verifies.\<close>

definition cache_ok :: "openssl \<Rightarrow> CSignatureCache \<Rightarrow> bool" where
  "cache_ok E c \<longleftrightarrow>
     (\<forall>(hash, vchSig, pubKey) \<in> set (setValid c). SetPubKey E pubKey \<and> Verify E pubKey hash vchSig)"

definition empty_cache :: CSignatureCache where
  "empty_cache = \<lparr> setValid = [], maxsigcachesize = 50000, rand = [] \<rparr>"

text \<open>The check without a cache.\<close>

definition sig_valid :: "openssl \<Rightarrow> bytes \<Rightarrow> bytes \<Rightarrow> bytes \<Rightarrow> CTransaction \<Rightarrow> nat \<Rightarrow> int \<Rightarrow> bool" where
  "sig_valid E vchSig vchPubKey scriptCode txTo nIn nHashType \<longleftrightarrow>
     vchSig \<noteq> [] \<and> (nHashType = 0 \<or> nHashType = uint (last vchSig)) \<and> SetPubKey E vchPubKey
     \<and> Verify E vchPubKey (SignatureHash E scriptCode txTo nIn (uint (last vchSig))) (butlast vchSig)"

lemma cache_ok_empty [simp]: "cache_ok E empty_cache"
  by (simp add: cache_ok_def empty_cache_def)

lemma set_remove1_subset': "set (remove1 x xs) \<subseteq> set xs"
  by (rule set_remove1_subset)

lemma evict_loop_props:
  "evict_loop limit rs xs = (ys, rs') \<Longrightarrow>
     set ys \<subseteq> set xs \<and> (sorted xs \<longrightarrow> sorted ys) \<and> (distinct xs \<longrightarrow> distinct ys)
     \<and> length ys = min (length xs) limit"
proof (induction limit rs xs arbitrary: ys rs' rule: evict_loop.induct)
  case (1 limit rs xs)
  show ?case
  proof (cases "length xs > limit")
    case True
    obtain h rs1 where n: "next_rand rs = (h, rs1)" by fastforce
    define e where "e = evict_at (h, [], []) xs"
    have e: "e \<in> set xs" unfolding e_def using True by (intro evict_at_in) auto
    have "evict_loop limit rs1 (remove1 e xs) = (ys, rs')"
      using 1(2) True n by (subst (asm) evict_loop.simps) (simp add: e_def)
    from 1(1) [OF True n [symmetric] refl, folded e_def, OF this]
    show ?thesis using True e set_remove1_subset' [of e xs] sorted_remove1 distinct_remove1
      by (auto simp: length_remove1)
  next
    case False
    with 1(2) show ?thesis by (subst (asm) evict_loop.simps) simp
  qed
qed

lemma cache_Set_setValid:
  "set (setValid (cache_Set c h s p)) \<subseteq> insert (h, s, p) (set (setValid c))"
proof (cases "evict_loop (nat (maxsigcachesize c)) (rand c) (setValid c)")
  case (Pair xs rs)
  then show ?thesis using evict_loop_props [OF Pair] by (auto simp: cache_Set_def set_insort_key)
qed

lemma cache_ok_Set:
  "cache_ok E c \<Longrightarrow> SetPubKey E p \<Longrightarrow> Verify E p h s \<Longrightarrow> cache_ok E (cache_Set c h s p)"
  using cache_Set_setValid [of c h s p] by (fastforce simp: cache_ok_def)

lemma CheckSig_result:
  assumes "cache_ok E c"
  shows "fst (CheckSig E c vchSig vchPubKey scriptCode txTo nIn nHashType)
      \<longleftrightarrow> sig_valid E vchSig vchPubKey scriptCode txTo nIn nHashType"
    and "cache_ok E (snd (CheckSig E c vchSig vchPubKey scriptCode txTo nIn nHashType))"
proof -
  define t where "t = uint (last vchSig)"
  define h where "h = SignatureHash E scriptCode txTo nIn t"
  have get: "cache_Get c h (butlast vchSig) vchPubKey \<Longrightarrow>
      SetPubKey E vchPubKey \<and> Verify E vchPubKey h (butlast vchSig)"
    using assms by (auto simp: cache_Get_def cache_ok_def)
  have eq: "CheckSig E c vchSig vchPubKey scriptCode txTo nIn nHashType =
    (if vchSig = [] \<or> (nHashType \<noteq> 0 \<and> nHashType \<noteq> t) then (False, c)
     else if cache_Get c h (butlast vchSig) vchPubKey then (True, c)
     else if SetPubKey E vchPubKey \<and> Verify E vchPubKey h (butlast vchSig)
     then (True, cache_Set c h (butlast vchSig) vchPubKey) else (False, c))"
    unfolding CheckSig_def Let_def t_def h_def by auto
  show "fst (CheckSig E c vchSig vchPubKey scriptCode txTo nIn nHashType)
      \<longleftrightarrow> sig_valid E vchSig vchPubKey scriptCode txTo nIn nHashType"
    unfolding eq sig_valid_def t_def [symmetric] h_def [symmetric] using get by auto
  show "cache_ok E (snd (CheckSig E c vchSig vchPubKey scriptCode txTo nIn nHashType))"
    unfolding eq using assms cache_ok_Set by auto
qed

section \<open>What a signature commits to\<close>

text \<open>Replacing the input scripts.\<close>

definition with_sigs :: "CTransaction \<Rightarrow> bytes list \<Rightarrow> CTransaction" where
  "with_sigs t sigs = t\<lparr> vin := map2 (\<lambda>i s. i\<lparr> scriptSig := s \<rparr>) (vin t) sigs \<rparr>"

lemma SignatureHash_with_sigs:
  assumes "length sigs = length (vin t)"
  shows "SignatureHash E code (with_sigs t sigs) nIn ht = SignatureHash E code t nIn ht"
proof -
  have "map (\<lambda>i. i\<lparr> scriptSig := [] \<rparr>) (map2 (\<lambda>i s. i\<lparr> scriptSig := s \<rparr>) (vin t) sigs)
      = map (\<lambda>i. i\<lparr> scriptSig := [] \<rparr>) (vin t)"
    using assms by (auto simp: list_eq_iff_nth_eq)
  moreover have "length (vin (with_sigs t sigs)) = length (vin t)" using assms by (simp add: with_sigs_def)
  ultimately show ?thesis
    unfolding SignatureHash_def Let_def by (simp add: with_sigs_def)
qed

text \<open>The transaction that is serialized for \<open>SIGHASH_ALL\<close>.\<close>

definition all_preimage :: "bytes \<Rightarrow> CTransaction \<Rightarrow> nat \<Rightarrow> CTransaction" where
  "all_preimage code t nIn =
     with_sigs t ((replicate (length (vin t)) [])[nIn := fst (FindAndDelete code [OP_CODESEPARATOR])])"

lemma SignatureHash_ALL:
  assumes "nIn < length (vin t)"
  shows "SignatureHash E code t nIn SIGHASH_ALL =
    Hash E (Serialize_CTransaction (all_preimage code t nIn) @ word_le 4 (1 :: i32))"
proof -
  have "(map (\<lambda>i. i\<lparr> scriptSig := [] \<rparr>) (vin t))[nIn := (map (\<lambda>i. i\<lparr> scriptSig := [] \<rparr>) (vin t) ! nIn)
        \<lparr> scriptSig := fst (FindAndDelete code [OP_CODESEPARATOR]) \<rparr>]
      = map2 (\<lambda>i s. i\<lparr> scriptSig := s \<rparr>) (vin t)
          ((replicate (length (vin t)) [])[nIn := fst (FindAndDelete code [OP_CODESEPARATOR])])"
    using assms by (auto simp: list_eq_iff_nth_eq nth_list_update)
  with assms show ?thesis
    by (simp add: SignatureHash_def SIGHASH_ALL_def SIGHASH_NONE_def SIGHASH_SINGLE_def
        SIGHASH_ANYONECANPAY_def all_preimage_def with_sigs_def Let_def)
qed

text \<open>
  What a signature with a hash type covers, said once for all hash types: the signed input alone or
  with the others, the sequence numbers of the others only when all outputs are signed, and all
  outputs, none, or the one at the position of the input.
\<close>

definition hash_none :: "int \<Rightarrow> bool" where
  "hash_none ht \<longleftrightarrow> ht AND 0x1f = SIGHASH_NONE"

definition hash_single :: "int \<Rightarrow> bool" where
  "hash_single ht \<longleftrightarrow> ht AND 0x1f = SIGHASH_SINGLE"

definition hash_anyone :: "int \<Rightarrow> bool" where
  "hash_anyone ht \<longleftrightarrow> ht AND SIGHASH_ANYONECANPAY \<noteq> 0"

definition signed_code :: "bytes \<Rightarrow> bytes" where
  "signed_code code = fst (FindAndDelete code [OP_CODESEPARATOR])"

definition signed_in :: "bytes \<Rightarrow> CTransaction \<Rightarrow> nat \<Rightarrow> int \<Rightarrow> nat \<Rightarrow> CTxIn" where
  "signed_in code t n ht j = \<lparr> prevout = prevout (vin t ! j), scriptSig = (if j = n then signed_code code else []),
     nSequence = (if j \<noteq> n \<and> (hash_none ht \<or> hash_single ht) then 0 else nSequence (vin t ! j)) \<rparr>"

definition signed_view :: "bytes \<Rightarrow> CTransaction \<Rightarrow> nat \<Rightarrow> int \<Rightarrow> CTransaction" where
  "signed_view code t n ht = \<lparr> nVersion = nVersion t,
     vin = map (signed_in code t n ht) (if hash_anyone ht then [n] else [0..<length (vin t)]),
     vout = (if hash_none ht then [] else if hash_single ht then replicate n CTxOut_SetNull @ [vout t ! n] else vout t),
     nLockTime = nLockTime t \<rparr>"

definition signed_bytes :: "bytes \<Rightarrow> CTransaction \<Rightarrow> nat \<Rightarrow> int \<Rightarrow> bytes" where
  "signed_bytes code t n ht = Serialize_CTransaction (signed_view code t n ht) @ word_le 4 (word_of_int ht :: i32)"

text \<open>There is something to sign: the input, and for \<open>SIGHASH_SINGLE\<close> the output at its position.\<close>

definition signable :: "CTransaction \<Rightarrow> nat \<Rightarrow> int \<Rightarrow> bool" where
  "signable t n ht \<longleftrightarrow> n < length (vin t) \<and> (hash_single ht \<longrightarrow> n < length (vout t))"

text \<open>Two spends that one signature covers.\<close>

definition same_signed :: "int \<Rightarrow> bytes \<Rightarrow> CTransaction \<Rightarrow> nat \<Rightarrow> bytes \<Rightarrow> CTransaction \<Rightarrow> nat \<Rightarrow> bool" where
  "same_signed ht code t n code' t' n' \<longleftrightarrow>
     nVersion t = nVersion t' \<and> nLockTime t = nLockTime t' \<and> signed_code code = signed_code code'
     \<and> prevout (vin t ! n) = prevout (vin t' ! n') \<and> nSequence (vin t ! n) = nSequence (vin t' ! n')
     \<and> (\<not> hash_anyone ht \<longrightarrow> n = n' \<and> map prevout (vin t) = map prevout (vin t'))
     \<and> (\<not> hash_anyone ht \<and> \<not> hash_none ht \<and> \<not> hash_single ht \<longrightarrow> map nSequence (vin t) = map nSequence (vin t'))
     \<and> (hash_single ht \<longrightarrow> n = n' \<and> vout t ! n = vout t' ! n)
     \<and> (\<not> hash_none ht \<and> \<not> hash_single ht \<longrightarrow> vout t = vout t')"

lemma SignatureHash_undefined: "\<not> signable t n ht \<Longrightarrow> SignatureHash E code t n ht = 1"
  by (auto simp: SignatureHash_def signable_def hash_single_def Let_def SIGHASH_NONE_def SIGHASH_SINGLE_def)

lemma SignatureHash_view:
  assumes "signable t n ht"
  shows "SignatureHash E code t n ht = Hash E (signed_bytes code t n ht)"
proof -
  let ?blank = "map (\<lambda>i. i\<lparr> scriptSig := [] \<rparr>) (vin t)"
  let ?ins = "?blank[n := (?blank ! n)\<lparr> scriptSig := signed_code code \<rparr>]"
  have n: "n < length (vin t)" using assms by (simp add: signable_def)
  have keep: "?ins = map (signed_in code t n ht) [0..<length (vin t)]" if "\<not> hash_none ht" "\<not> hash_single ht"
    using that n by (intro nth_equalityI) (auto simp: nth_list_update signed_in_def)
  have blank: "blank_sequences n ?ins = map (signed_in code t n ht) [0..<length (vin t)]" if "hash_none ht \<or> hash_single ht"
    using that n by (intro nth_equalityI) (auto simp: nth_list_update signed_in_def blank_sequences_def)
  consider "hash_none ht" | "hash_single ht" "\<not> hash_none ht" | "\<not> hash_none ht" "\<not> hash_single ht" by blast
  then show ?thesis
  proof cases
    case 1
    then show ?thesis
      using n blank by (simp add: SignatureHash_def signed_bytes_def Serialize_CTransaction_def signed_view_def Let_def hash_none_def [symmetric]
          hash_anyone_def [symmetric] signed_code_def [symmetric])
  next
    case 2
    then show ?thesis
      using n blank assms by (simp add: SignatureHash_def signed_bytes_def Serialize_CTransaction_def signed_view_def Let_def hash_none_def [symmetric]
          hash_single_def [symmetric] hash_anyone_def [symmetric] signed_code_def [symmetric] signable_def)
  next
    case 3
    then show ?thesis
      using n keep by (simp add: SignatureHash_def signed_bytes_def Serialize_CTransaction_def signed_view_def Let_def hash_none_def [symmetric]
          hash_single_def [symmetric] hash_anyone_def [symmetric] signed_code_def [symmetric])
  qed
qed

lemma signed_code_le: "length (signed_code code) \<le> length code"
proof -
  obtain r k where rk: "fad_loop [OP_CODESEPARATOR] code = (r, k)" by fastforce
  from deleted_length [OF fad_loop_deleted [OF rk]] show ?thesis
    by (simp add: signed_code_def FindAndDelete_def rk)
qed

lemma signed_view_ok:
  assumes "signable t n ht" and "tx_ok t" and "length code \<le> MAX_SIZE"
  shows "tx_ok (signed_view code t n ht)"
proof -
  have "length (signed_code code) \<le> MAX_SIZE" using signed_code_le [of code] assms(3) by simp
  moreover have "0 < MAX_SIZE" by (simp add: MAX_SIZE_def)
  ultimately show ?thesis
    using assms(1,2) unfolding tx_ok_def signable_def signed_view_def
    by (auto simp: list_all_length txin_ok_def txout_ok_def signed_in_def CTxOut_SetNull_def nth_append not_less_eq less_Suc_eq_le)
qed

lemma hash_type_inj:
  assumes "- (2 ^ 31) \<le> ht" "ht < 2 ^ 31" "- (2 ^ 31) \<le> ht'" "ht' < 2 ^ 31"
    and "word_le 4 (word_of_int ht :: i32) = word_le 4 (word_of_int ht' :: i32)"
  shows "ht = ht'"
proof -
  have inv: "le_word (word_le 4 z) = z" for z :: i32 by (rule le_word_word_le) simp
  have "(word_of_int ht :: i32) = word_of_int ht'"
    using inv [of "word_of_int ht"] inv [of "word_of_int ht'"] assms(5) by argo
  then have "sint (word_of_int ht :: i32) = sint (word_of_int ht' :: i32)" by simp
  moreover have "sint (word_of_int x :: i32) = x" if "- (2 ^ 31) \<le> x" "x < 2 ^ 31" for x
    using that by (simp add: sint_sbintrunc' signed_take_bit_int_eq_self)
  ultimately show ?thesis using assms(1-4) by simp
qed

lemma signed_bytes_eq:
  assumes "signable t n ht" "tx_ok t" "length code \<le> MAX_SIZE" "- (2 ^ 31) \<le> ht" "ht < 2 ^ 31"
    and "signable t' n' ht'" "tx_ok t'" "length code' \<le> MAX_SIZE" "- (2 ^ 31) \<le> ht'" "ht' < 2 ^ 31"
  shows "signed_bytes code t n ht = signed_bytes code' t' n' ht' \<longleftrightarrow>
    ht = ht' \<and> signed_view code t n ht = signed_view code' t' n' ht'"
proof
  assume "signed_bytes code t n ht = signed_bytes code' t' n' ht'"
  from tx.ser_inj [OF signed_view_ok [OF assms(1-3)] signed_view_ok [OF assms(6-8)] this [unfolded signed_bytes_def]]
  show "ht = ht' \<and> signed_view code t n ht = signed_view code' t' n' ht'"
    using hash_type_inj [OF assms(4,5,9,10)] by blast
qed (auto simp: signed_bytes_def)

text \<open>The inputs of the two views agree when the inputs of the transactions do, as far as they are signed.\<close>

lemma signed_ins_eq:
  assumes "n < length (vin t)" and "n' < length (vin t')" and "signed_code code \<noteq> []"
  shows "map (signed_in code t n ht) [0..<length (vin t)] = map (signed_in code' t' n' ht) [0..<length (vin t')] \<longleftrightarrow>
    n = n' \<and> signed_code code = signed_code code' \<and> map prevout (vin t) = map prevout (vin t')
    \<and> nSequence (vin t ! n) = nSequence (vin t' ! n')
    \<and> (\<not> hash_none ht \<and> \<not> hash_single ht \<longrightarrow> map nSequence (vin t) = map nSequence (vin t'))"
    (is "?l = ?r \<longleftrightarrow> ?same")
proof
  assume eq: "?l = ?r"
  then have "length ?l = length ?r" by (rule arg_cong)
  then have len: "length (vin t) = length (vin t')" by simp
  have nth: "signed_in code t n ht j = signed_in code' t' n' ht j" if "j < length (vin t)" for j
    using arg_cong [OF eq, of "\<lambda>xs. xs ! j"] that len by simp
  have "scriptSig (signed_in code t n ht n) = scriptSig (signed_in code' t' n' ht n)" using nth [OF assms(1)] by simp
  then have code: "n = n'" "signed_code code = signed_code code'"
    using assms(3) by (auto simp: signed_in_def split: if_splits)
  have fields: "prevout (vin t ! j) = prevout (vin t' ! j)"
    "j = n \<or> \<not> hash_none ht \<and> \<not> hash_single ht \<Longrightarrow> nSequence (vin t ! j) = nSequence (vin t' ! j)"
    if "j < length (vin t)" for j
    using nth [OF that] code by (auto simp: signed_in_def split: if_splits)
  have "map prevout (vin t) = map prevout (vin t')"
    using len fields(1) by (intro nth_equalityI) simp_all
  moreover have "map nSequence (vin t) = map nSequence (vin t')" if "\<not> hash_none ht \<and> \<not> hash_single ht"
    using len fields(2) that by (intro nth_equalityI) simp_all
  ultimately show ?same using code fields(2) [OF assms(1)] by simp
next
  assume same: ?same
  then have "map prevout (vin t) = map prevout (vin t')" by blast
  from map_eq_imp_length_eq [OF this] have len: "length (vin t) = length (vin t')" .
  have nth: "prevout (vin t ! j) = prevout (vin t' ! j)"
    "\<not> hash_none ht \<and> \<not> hash_single ht \<Longrightarrow> nSequence (vin t ! j) = nSequence (vin t' ! j)"
    if "j < length (vin t)" for j
    using same that len by (metis nth_map)+
  show "?l = ?r"
    using same len nth by (intro nth_equalityI) (auto simp: signed_in_def)
qed

lemma signed_view_eq:
  assumes "signable t n ht" and "signable t' n' ht" and "signed_code code \<noteq> []"
  shows "signed_view code t n ht = signed_view code' t' n' ht \<longleftrightarrow> same_signed ht code t n code' t' n'"
proof -
  have n: "n < length (vin t)" "n' < length (vin t')" using assms(1,2) by (simp_all add: signable_def)
  have outs: "replicate n (x :: CTxOut) @ [y] = replicate n' x @ [z] \<longleftrightarrow> n = n' \<and> y = z" for x y z
  proof
    assume eq: "replicate n x @ [y] = replicate n' x @ [z]"
    from arg_cong [OF this, of length] show "n = n' \<and> y = z" using eq by simp
  qed simp
  have one: "signed_in code t n ht n = signed_in code' t' n' ht n' \<longleftrightarrow>
      signed_code code = signed_code code' \<and> prevout (vin t ! n) = prevout (vin t' ! n')
      \<and> nSequence (vin t ! n) = nSequence (vin t' ! n')" by (auto simp: signed_in_def)
  have all: "map prevout (vin t) = map prevout (vin t') \<Longrightarrow> n = n' \<Longrightarrow> prevout (vin t ! n) = prevout (vin t' ! n')"
    using n by (metis nth_map)
  have not_both: "\<not> (hash_none ht \<and> hash_single ht)"
    by (auto simp: hash_none_def hash_single_def SIGHASH_NONE_def SIGHASH_SINGLE_def)
  show ?thesis
    using outs not_both all unfolding signed_view_def same_signed_def
    by (cases "hash_anyone ht") (auto simp: one signed_ins_eq [OF n assms(3)])
qed

section \<open>Properties\<close>

text \<open>
  C34. The signature cache never changes an outcome: from a sound cache, \<open>CheckSig\<close> answers
  exactly as a check without cache would, leaves the cache sound, ordered and free of
  duplicates, and keeps at most one entry more than \<open>-maxsigcachesize\<close>.
\<close>

theorem CheckSig_cache:
  assumes "cache_ok E c" and "sorted (setValid c)" and "distinct (setValid c)"
    and "int (length (setValid c)) \<le> maxsigcachesize c + 1" and "0 < maxsigcachesize c"
    and "CheckSig E c vchSig vchPubKey scriptCode txTo nIn nHashType = (b, c')"
  shows "b = sig_valid E vchSig vchPubKey scriptCode txTo nIn nHashType
    \<and> cache_ok E c' \<and> sorted (setValid c') \<and> distinct (setValid c')
    \<and> maxsigcachesize c' = maxsigcachesize c
    \<and> int (length (setValid c')) \<le> maxsigcachesize c + 1"
proof -
  note res = CheckSig_result [OF assms(1), of vchSig vchPubKey scriptCode txTo nIn nHashType]
  have step: "sorted (setValid (cache_Set c h s p)) \<and> distinct (setValid (cache_Set c h s p))
      \<and> maxsigcachesize (cache_Set c h s p) = maxsigcachesize c
      \<and> int (length (setValid (cache_Set c h s p))) \<le> maxsigcachesize c + 1" for h s p
  proof (cases "evict_loop (nat (maxsigcachesize c)) (rand c) (setValid c)")
    case (Pair xs rs)
    from evict_loop_props [OF Pair] assms(2-5) show ?thesis
      by (auto simp: cache_Set_def Pair sorted_insort distinct_insort)
  qed
  have "c' = c \<or> (\<exists>h s p. c' = cache_Set c h s p)"
    using assms(6) by (auto simp: CheckSig_def Let_def split: if_splits)
  then show ?thesis using res assms step by auto
qed

theorem CheckSig_cache_witness:
  "fst (CheckSig openssl_ref empty_cache [5, 1] [3] [] example_tx 0 0)
   = sig_valid openssl_ref [5, 1] [3] [] example_tx 0 0"
  using CheckSig_cache [of openssl_ref empty_cache "[5, 1]" "[3]" "[]" example_tx 0 0]
  by (cases "CheckSig openssl_ref empty_cache [5, 1] [3] [] example_tx 0 0")
    (simp add: empty_cache_def cache_ok_def)

text \<open>
  C35. What a signature commits to, for every hash type. Where there is nothing to sign (the input
  does not exist, or \<open>SIGHASH_SINGLE\<close> has no output at its position) the hash is the number 1.
  Otherwise two spends have the same hash exactly when they have the same hash type and
  agree on what it covers (\<open>same_signed\<close>): version, lock time, the script code without separators, the
  outpoint and sequence number of the signed input; unless \<open>SIGHASH_ANYONECANPAY\<close>, the position of the
  input and the outpoints of all inputs, and with \<open>SIGHASH_ALL\<close> their sequence numbers; all outputs, or
  for \<open>SIGHASH_SINGLE\<close> only the one at the position of the input, which is then fixed too, or for
  \<open>SIGHASH_NONE\<close> no output. No input script is covered. The script code is not empty, and the two
  strings that are hashed do not collide.
\<close>

theorem SignatureHash_commits:
  assumes "tx_ok t" and "length code \<le> MAX_SIZE" and "- (2 ^ 31) \<le> ht" and "ht < 2 ^ 31"
    and "tx_ok t'" and "length code' \<le> MAX_SIZE" and "- (2 ^ 31) \<le> ht'" and "ht' < 2 ^ 31"
    and "signed_code code \<noteq> []"
    and "inj_on (Hash E) {signed_bytes code t n ht, signed_bytes code' t' n' ht'}"
  shows "(\<not> signable t n ht \<longrightarrow> SignatureHash E code t n ht = 1)
    \<and> (signable t n ht \<and> signable t' n' ht' \<longrightarrow>
        (SignatureHash E code t n ht = SignatureHash E code' t' n' ht' \<longleftrightarrow>
          ht = ht' \<and> same_signed ht code t n code' t' n'))"
proof (intro conjI impI)
  show "SignatureHash E code t n ht = 1" if "\<not> signable t n ht" by (rule SignatureHash_undefined [OF that])
next
  assume s: "signable t n ht \<and> signable t' n' ht'"
  then have "SignatureHash E code t n ht = SignatureHash E code' t' n' ht' \<longleftrightarrow>
      signed_bytes code t n ht = signed_bytes code' t' n' ht'"
    using inj_on_eq_iff [OF assms(10)] by (simp add: SignatureHash_view)
  also have "\<dots> \<longleftrightarrow> ht = ht' \<and> signed_view code t n ht = signed_view code' t' n' ht'"
    using s assms(1-8) by (intro signed_bytes_eq) simp_all
  also have "\<dots> \<longleftrightarrow> ht = ht' \<and> same_signed ht code t n code' t' n'"
    using s signed_view_eq [of t n ht t' n' code code'] assms(9) by auto
  finally show "SignatureHash E code t n ht = SignatureHash E code' t' n' ht' \<longleftrightarrow>
          ht = ht' \<and> same_signed ht code t n code' t' n'" .
qed

theorem SignatureHash_commits_witness:
  "SignatureHash openssl_ref [OP_DUP] example_tx 0 SIGHASH_SINGLE
   = SignatureHash openssl_ref [OP_CODESEPARATOR, OP_DUP] (example_tx\<lparr> vout := [vout example_tx ! 0] \<rparr>) 0 SIGHASH_SINGLE
   \<and> SignatureHash openssl_ref [OP_DUP] example_tx 1 SIGHASH_SINGLE = 1"
proof -
  let ?t = "example_tx\<lparr> vout := [vout example_tx ! 0] \<rparr>"
  have code: "signed_code [OP_DUP] = [OP_DUP]" "signed_code [OP_CODESEPARATOR, OP_DUP] = [OP_DUP]"
    by (simp_all add: signed_code_def FindAndDelete_def fad_loop.simps erase_here.simps)
  have single: "hash_single 3" "\<not> hash_none 3" "\<not> hash_anyone 3"
    by (simp_all add: hash_single_def hash_none_def hash_anyone_def SIGHASH_NONE_def SIGHASH_SINGLE_def SIGHASH_ANYONECANPAY_def)
  have ok: "tx_ok ?t" using example_tx_ok by (simp add: tx_ok_def example_tx_def)
  have same: "same_signed 3 [OP_DUP] example_tx 0 [OP_CODESEPARATOR, OP_DUP] ?t 0"
    by (simp add: same_signed_def single code)
  have sg: "signable example_tx 0 3" "signable ?t 0 3" "\<not> signable example_tx 1 3"
    by (simp_all add: signable_def single example_tx_def)
  have "signed_view [OP_DUP] example_tx 0 3 = signed_view [OP_CODESEPARATOR, OP_DUP] ?t 0 3"
    using signed_view_eq [OF sg(1,2)] same code by simp
  then have "signed_bytes [OP_DUP] example_tx 0 3 = signed_bytes [OP_CODESEPARATOR, OP_DUP] ?t 0 3"
    by (simp add: signed_bytes_def)
  then have "inj_on (Hash openssl_ref) {signed_bytes [OP_DUP] example_tx 0 3, signed_bytes [OP_CODESEPARATOR, OP_DUP] ?t 0 3}"
    by simp
  from SignatureHash_commits [OF example_tx_ok _ _ _ ok _ _ _ _ this]
  have "SignatureHash openssl_ref [OP_DUP] example_tx 0 3 = SignatureHash openssl_ref [OP_CODESEPARATOR, OP_DUP] ?t 0 3"
    using sg same code by (simp add: MAX_SIZE_def)
  moreover have "SignatureHash openssl_ref [OP_DUP] example_tx 1 3 = 1"
    using SignatureHash_commits [of example_tx "[OP_DUP]" 3 example_tx "[OP_DUP]" 3 openssl_ref 1 1] example_tx_ok sg(3) code
    by (simp add: MAX_SIZE_def)
  ultimately show ?thesis by (simp add: SIGHASH_SINGLE_def)
qed

end
