(* ===== verification/Interp.thy ===== *)
theory Interp
  imports Sighash
begin

text \<open>
  The script interpreter (\<open>EvalScript\<close> and \<open>VerifyScript\<close> of src/src/script.cpp). The main
  and the alternative stack are lists with the top first (\<open>stacktop(-i)\<close> is element
  \<open>i - 1\<close>), the condition stack has the innermost \<open>OP_IF\<close> first, and \<open>pbegincodehash\<close> is
  the suffix of the script it points to. An opcode ends in \<open>Done\<close>, or in \<open>Failed\<close> where the
  code returns \<open>false\<close> or an exception is caught; both carry the state, because a caller can
  look at the stack that a failed script leaves and the signature cache is shared.
\<close>

section \<open>Values\<close>

definition nMaxNumSize :: nat where "nMaxNumSize = 4"

definition CastToBigNum :: "openssl \<Rightarrow> bytes \<Rightarrow> int option" where
  "CastToBigNum E vch =
     (if length vch > nMaxNumSize then None else Some (setvch E (getvch E (setvch E vch))))"

fun CastToBool :: "bytes \<Rightarrow> bool" where
  "CastToBool [] = False"
| "CastToBool (b # r) = (if b \<noteq> 0 then \<not> (r = [] \<and> b = 0x80) else CastToBool r)"

definition MakeSameSize :: "bytes \<Rightarrow> bytes \<Rightarrow> bytes \<times> bytes" where
  "MakeSameSize v1 v2 =
     (v1 @ replicate (length v2 - length v1) 0, v2 @ replicate (length v1 - length v2) 0)"

definition vchFalse :: bytes where "vchFalse = []"
definition vchTrue :: bytes where "vchTrue = [1]"

definition vch_bool :: "bool \<Rightarrow> bytes" where
  "vch_bool b = (if b then vchTrue else vchFalse)"

section \<open>State\<close>

record eval_state =
  stack :: "bytes list"
  altstack :: "bytes list"
  vfExec :: "bool list"
  nOpCount :: int
  pbegincodehash :: bytes
  signatureCache :: CSignatureCache

datatype outcome = Done eval_state | Failed eval_state

definition push :: "bytes \<Rightarrow> eval_state \<Rightarrow> eval_state" where
  "push v st = st\<lparr> stack := v # stack st \<rparr>"

definition set_stack :: "bytes list \<Rightarrow> eval_state \<Rightarrow> eval_state" where
  "set_stack s st = st\<lparr> stack := s \<rparr>"

section \<open>Opcodes by group\<close>

definition op_control :: "opcodetype \<Rightarrow> bool \<Rightarrow> eval_state \<Rightarrow> outcome" where
  "op_control opcode fExec st =
     (if opcode = OP_IF \<or> opcode = OP_NOTIF then
        (if fExec then
           (case stack st of [] \<Rightarrow> Failed st
            | vch # r \<Rightarrow>
                let fValue = CastToBool vch;
                    fValue = (if opcode = OP_NOTIF then \<not> fValue else fValue) in
                Done (st\<lparr> stack := r, vfExec := fValue # vfExec st \<rparr>))
         else Done (st\<lparr> vfExec := False # vfExec st \<rparr>))
      else if opcode = OP_ELSE then
        (case vfExec st of [] \<Rightarrow> Failed st | f # r \<Rightarrow> Done (st\<lparr> vfExec := (\<not> f) # r \<rparr>))
      else if opcode = OP_ENDIF then
        (case vfExec st of [] \<Rightarrow> Failed st | f # r \<Rightarrow> Done (st\<lparr> vfExec := r \<rparr>))
      else if opcode = OP_VERIFY then
        (case stack st of [] \<Rightarrow> Failed st
         | vch # r \<Rightarrow> if CastToBool vch then Done (set_stack r st) else Failed st)
      else if opcode = OP_RETURN then Failed st
      else Done st)"

definition op_pick :: "openssl \<Rightarrow> opcodetype \<Rightarrow> eval_state \<Rightarrow> outcome" where
  "op_pick E opcode st =
     (case stack st of
        vn # s # r \<Rightarrow>
          (case CastToBigNum E vn of None \<Rightarrow> Failed st
           | Some bn \<Rightarrow>
               let n = getint E bn; st = set_stack (s # r) st in
               if n < 0 \<or> n \<ge> int (length (stack st)) then Failed st
               else let vch = stack st ! nat n;
                        rest = (if opcode = OP_ROLL
                                then take (nat n) (stack st) @ drop (Suc (nat n)) (stack st)
                                else stack st) in
                 Done (set_stack (vch # rest) st))
      | _ \<Rightarrow> Failed st)"

definition op_stack :: "openssl \<Rightarrow> opcodetype \<Rightarrow> eval_state \<Rightarrow> outcome" where
  "op_stack E opcode st =
     (if opcode = OP_TOALTSTACK then
        (case stack st of v # r \<Rightarrow> Done (st\<lparr> stack := r, altstack := v # altstack st \<rparr>)
         | _ \<Rightarrow> Failed st)
      else if opcode = OP_FROMALTSTACK then
        (case altstack st of v # r \<Rightarrow> Done (st\<lparr> stack := v # stack st, altstack := r \<rparr>)
         | _ \<Rightarrow> Failed st)
      else if opcode = OP_2DROP then
        (case stack st of _ # _ # r \<Rightarrow> Done (set_stack r st) | _ \<Rightarrow> Failed st)
      else if opcode = OP_2DUP then
        (case stack st of x2 # x1 # r \<Rightarrow> Done (set_stack (x2 # x1 # x2 # x1 # r) st) | _ \<Rightarrow> Failed st)
      else if opcode = OP_3DUP then
        (case stack st of x3 # x2 # x1 # r \<Rightarrow>
           Done (set_stack (x3 # x2 # x1 # x3 # x2 # x1 # r) st) | _ \<Rightarrow> Failed st)
      else if opcode = OP_2OVER then
        (case stack st of x4 # x3 # x2 # x1 # r \<Rightarrow>
           Done (set_stack (x2 # x1 # x4 # x3 # x2 # x1 # r) st) | _ \<Rightarrow> Failed st)
      else if opcode = OP_2ROT then
        (case stack st of x6 # x5 # x4 # x3 # x2 # x1 # r \<Rightarrow>
           Done (set_stack (x2 # x1 # x6 # x5 # x4 # x3 # r) st) | _ \<Rightarrow> Failed st)
      else if opcode = OP_2SWAP then
        (case stack st of x4 # x3 # x2 # x1 # r \<Rightarrow>
           Done (set_stack (x2 # x1 # x4 # x3 # r) st) | _ \<Rightarrow> Failed st)
      else if opcode = OP_IFDUP then
        (case stack st of v # r \<Rightarrow> Done (if CastToBool v then push v st else st) | _ \<Rightarrow> Failed st)
      else if opcode = OP_DEPTH then Done (push (getvch E (int (length (stack st)))) st)
      else if opcode = OP_DROP then
        (case stack st of _ # r \<Rightarrow> Done (set_stack r st) | _ \<Rightarrow> Failed st)
      else if opcode = OP_DUP then
        (case stack st of v # r \<Rightarrow> Done (push v st) | _ \<Rightarrow> Failed st)
      else if opcode = OP_NIP then
        (case stack st of x2 # x1 # r \<Rightarrow> Done (set_stack (x2 # r) st) | _ \<Rightarrow> Failed st)
      else if opcode = OP_OVER then
        (case stack st of x2 # x1 # r \<Rightarrow> Done (push x1 st) | _ \<Rightarrow> Failed st)
      else if opcode = OP_PICK \<or> opcode = OP_ROLL then op_pick E opcode st
      else if opcode = OP_ROT then
        (case stack st of x3 # x2 # x1 # r \<Rightarrow> Done (set_stack (x1 # x3 # x2 # r) st) | _ \<Rightarrow> Failed st)
      else if opcode = OP_SWAP then
        (case stack st of x2 # x1 # r \<Rightarrow> Done (set_stack (x1 # x2 # r) st) | _ \<Rightarrow> Failed st)
      else \<comment> \<open>\<open>OP_TUCK\<close>\<close>
        (case stack st of x2 # x1 # r \<Rightarrow> Done (set_stack (x2 # x1 # x2 # r) st) | _ \<Rightarrow> Failed st))"

text \<open>The splice and bitwise opcodes other than \<open>OP_SIZE\<close>, \<open>OP_EQUAL\<close> and
  \<open>OP_EQUALVERIFY\<close> are disabled before the \<open>switch\<close>; their cases are translated all the same.\<close>

definition op_splice :: "openssl \<Rightarrow> opcodetype \<Rightarrow> eval_state \<Rightarrow> outcome" where
  "op_splice E opcode st =
     (if opcode = OP_CAT then
        (case stack st of v2 # v1 # r \<Rightarrow>
           let st = set_stack ((v1 @ v2) # r) st in
           if length (v1 @ v2) > 520 then Failed st else Done st
         | _ \<Rightarrow> Failed st)
      else if opcode = OP_SUBSTR then
        (case stack st of vs # vb # v # r \<Rightarrow>
           (case (CastToBigNum E vb, CastToBigNum E vs) of
              (Some b, Some s) \<Rightarrow>
                (let nBegin = getint E b; nEnd = nBegin + getint E s in
                 if nBegin < 0 \<or> nEnd < nBegin then Failed st
                 else Done (set_stack (drop (nat nBegin) (take (nat nEnd) v) # r) st))
            | _ \<Rightarrow> Failed st)
         | _ \<Rightarrow> Failed st)
      else if opcode = OP_LEFT \<or> opcode = OP_RIGHT then
        (case stack st of vs # v # r \<Rightarrow>
           (case CastToBigNum E vs of None \<Rightarrow> Failed st
            | Some s \<Rightarrow>
                (let nSize = getint E s in
                 if nSize < 0 then Failed st
                 else let k = min (nat nSize) (length v);
                          v' = (if opcode = OP_LEFT then take k v else drop (length v - k) v) in
                   Done (set_stack (v' # r) st)))
         | _ \<Rightarrow> Failed st)
      else \<comment> \<open>\<open>OP_SIZE\<close>\<close>
        (case stack st of v # r \<Rightarrow> Done (push (getvch E (int (length v))) st) | _ \<Rightarrow> Failed st))"

definition op_bitlogic :: "opcodetype \<Rightarrow> eval_state \<Rightarrow> outcome" where
  "op_bitlogic opcode st =
     (if opcode = OP_INVERT then
        (case stack st of v # r \<Rightarrow> Done (set_stack (map (\<lambda>b. NOT b) v # r) st) | _ \<Rightarrow> Failed st)
      else if opcode = OP_AND \<or> opcode = OP_OR \<or> opcode = OP_XOR then
        (case stack st of v2 # v1 # r \<Rightarrow>
           let (a, b) = MakeSameSize v1 v2 in
           Done (set_stack (map2 (\<lambda>x y. if opcode = OP_AND then x AND y
                                        else if opcode = OP_OR then x OR y else x XOR y) a b # r) st)
         | _ \<Rightarrow> Failed st)
      else \<comment> \<open>\<open>OP_EQUAL\<close>, \<open>OP_EQUALVERIFY\<close>\<close>
        (case stack st of v2 # v1 # r \<Rightarrow>
           let fEqual = (v1 = v2); st' = set_stack (vch_bool fEqual # r) st in
           if opcode = OP_EQUALVERIFY then (if fEqual then Done (set_stack r st) else Failed st')
           else Done st'
         | _ \<Rightarrow> Failed st))"

definition num_unary :: "opcodetype \<Rightarrow> int \<Rightarrow> int" where
  "num_unary opcode bn =
     (if opcode = OP_1ADD then bn + 1
      else if opcode = OP_1SUB then bn - 1
      else if opcode = OP_2MUL then 2 * bn
      else if opcode = OP_2DIV then bn_shr bn 1
      else if opcode = OP_NEGATE then - bn
      else if opcode = OP_ABS then (if bn < 0 then - bn else bn)
      else if opcode = OP_NOT then of_bool (bn = 0)
      else of_bool (bn \<noteq> 0))"

definition op_unary :: "openssl \<Rightarrow> opcodetype \<Rightarrow> eval_state \<Rightarrow> outcome" where
  "op_unary E opcode st =
     (case stack st of v # r \<Rightarrow>
        (case CastToBigNum E v of None \<Rightarrow> Failed st
         | Some bn \<Rightarrow> Done (set_stack (getvch E (num_unary opcode bn) # r) st))
      | _ \<Rightarrow> Failed st)"

text \<open>\<open>None\<close>: the operation itself fails.\<close>

definition num_binary :: "openssl \<Rightarrow> opcodetype \<Rightarrow> int \<Rightarrow> int \<Rightarrow> int option" where
  "num_binary E opcode bn1 bn2 =
     (if opcode = OP_ADD then Some (bn1 + bn2)
      else if opcode = OP_SUB then Some (bn1 - bn2)
      else if opcode = OP_MUL then Some (bn1 * bn2)
      else if opcode = OP_DIV then
        (if bn2 = 0 then None else Some (sgn bn1 * sgn bn2 * (\<bar>bn1\<bar> div \<bar>bn2\<bar>)))
      else if opcode = OP_MOD then
        (if bn2 = 0 then None else Some (sgn bn1 * (\<bar>bn1\<bar> mod \<bar>bn2\<bar>)))
      else if opcode = OP_LSHIFT then
        (if bn2 < 0 \<or> bn2 > 2048 then None else Some (bn1 * 2 ^ unat (BN_get_word E bn2)))
      else if opcode = OP_RSHIFT then
        (if bn2 < 0 \<or> bn2 > 2048 then None else Some (bn_shr bn1 (unat (BN_get_word E bn2))))
      else if opcode = OP_BOOLAND then Some (of_bool (bn1 \<noteq> 0 \<and> bn2 \<noteq> 0))
      else if opcode = OP_BOOLOR then Some (of_bool (bn1 \<noteq> 0 \<or> bn2 \<noteq> 0))
      else if opcode = OP_NUMEQUAL then Some (of_bool (bn1 = bn2))
      else if opcode = OP_NUMEQUALVERIFY then Some (of_bool (bn1 = bn2))
      else if opcode = OP_NUMNOTEQUAL then Some (of_bool (bn1 \<noteq> bn2))
      else if opcode = OP_LESSTHAN then Some (of_bool (bn1 < bn2))
      else if opcode = OP_GREATERTHAN then Some (of_bool (bn1 > bn2))
      else if opcode = OP_LESSTHANOREQUAL then Some (of_bool (bn1 \<le> bn2))
      else if opcode = OP_GREATERTHANOREQUAL then Some (of_bool (bn1 \<ge> bn2))
      else if opcode = OP_MIN then Some (if bn1 < bn2 then bn1 else bn2)
      else Some (if bn1 > bn2 then bn1 else bn2))"

definition op_binary :: "openssl \<Rightarrow> opcodetype \<Rightarrow> eval_state \<Rightarrow> outcome" where
  "op_binary E opcode st =
     (case stack st of v2 # v1 # r \<Rightarrow>
        (case (CastToBigNum E v1, CastToBigNum E v2) of
           (Some bn1, Some bn2) \<Rightarrow>
             (case num_binary E opcode bn1 bn2 of None \<Rightarrow> Failed st
              | Some bn \<Rightarrow>
                  let res = getvch E bn; st' = set_stack (res # r) st in
                  if opcode = OP_NUMEQUALVERIFY
                  then (if CastToBool res then Done (set_stack r st) else Failed st')
                  else Done st')
         | _ \<Rightarrow> Failed st)
      | _ \<Rightarrow> Failed st)"

definition op_within :: "openssl \<Rightarrow> eval_state \<Rightarrow> outcome" where
  "op_within E st =
     (case stack st of v3 # v2 # v1 # r \<Rightarrow>
        (case (CastToBigNum E v1, CastToBigNum E v2, CastToBigNum E v3) of
           (Some bn1, Some bn2, Some bn3) \<Rightarrow>
             Done (set_stack (vch_bool (bn2 \<le> bn1 \<and> bn1 < bn3) # r) st)
         | _ \<Rightarrow> Failed st)
      | _ \<Rightarrow> Failed st)"

definition op_hashing :: "openssl \<Rightarrow> opcodetype \<Rightarrow> eval_state \<Rightarrow> outcome" where
  "op_hashing E opcode st =
     (case stack st of vch # r \<Rightarrow>
        let vchHash =
          (if opcode = OP_RIPEMD160 then RIPEMD160 E vch
           else if opcode = OP_SHA1 then SHA1 E vch
           else if opcode = OP_SHA256 then SHA256 E vch
           else if opcode = OP_HASH160 then word_le 20 (Hash160 E vch)
           else word_le 32 (Hash E vch)) in
        Done (set_stack (vchHash # r) st)
      | _ \<Rightarrow> Failed st)"

definition op_checksig :: "openssl \<Rightarrow> CTransaction \<Rightarrow> nat \<Rightarrow> int \<Rightarrow> opcodetype \<Rightarrow> eval_state \<Rightarrow> outcome" where
  "op_checksig E txTo nIn nHashType opcode st =
     (case stack st of vchPubKey # vchSig # r \<Rightarrow>
        let scriptCode = fst (FindAndDelete (pbegincodehash st) (push_data vchSig));
            (fSuccess, c) = CheckSig E (signatureCache st) vchSig vchPubKey scriptCode txTo nIn nHashType;
            st = st\<lparr> signatureCache := c \<rparr>;
            st' = set_stack (vch_bool fSuccess # r) st in
        if opcode = OP_CHECKSIGVERIFY then (if fSuccess then Done (set_stack r st) else Failed st')
        else Done st'
      | _ \<Rightarrow> Failed st)"

text \<open>The loop of \<open>OP_CHECKMULTISIG\<close> over the signatures and keys that are left.\<close>

fun multisig_loop :: "(CSignatureCache \<Rightarrow> bytes \<Rightarrow> bytes \<Rightarrow> bool \<times> CSignatureCache)
    \<Rightarrow> bytes list \<Rightarrow> bytes list \<Rightarrow> CSignatureCache \<Rightarrow> bool \<times> CSignatureCache" where
  "multisig_loop check [] ks c = (True, c)"
| "multisig_loop check (s # ss) [] c = (False, c)"
| "multisig_loop check (s # ss) (k # ks) c =
     (let (b, c') = check c s k; sigs = (if b then ss else s # ss) in
      if length sigs > length ks then (False, c') else multisig_loop check sigs ks c')"

definition op_checkmultisig ::
  "openssl \<Rightarrow> CTransaction \<Rightarrow> nat \<Rightarrow> int \<Rightarrow> opcodetype \<Rightarrow> eval_state \<Rightarrow> outcome" where
  "op_checkmultisig E txTo nIn nHashType opcode st =
     (if length (stack st) < 1 then Failed st
      else case CastToBigNum E (stack st ! 0) of None \<Rightarrow> Failed st
      | Some bnKeys \<Rightarrow>
        let nKeysCount = getint E bnKeys in
        if nKeysCount < 0 \<or> nKeysCount > 20 then Failed st
        else let st = st\<lparr> nOpCount := nOpCount st + nKeysCount \<rparr>; nKeys = nat nKeysCount in
        if nOpCount st > 201 then Failed st
        else if length (stack st) < 2 + nKeys then Failed st
        else case CastToBigNum E (stack st ! (1 + nKeys)) of None \<Rightarrow> Failed st
        | Some bnSigs \<Rightarrow>
          let nSigsCount = getint E bnSigs in
          if nSigsCount < 0 \<or> nSigsCount > nKeysCount then Failed st
          else let nSigs = nat nSigsCount in
          if length (stack st) < 3 + nKeys + nSigs then Failed st
          else
            let keys = take nKeys (drop 1 (stack st));
                sigs = take nSigs (drop (2 + nKeys) (stack st));
                scriptCode = foldl (\<lambda>code vchSig. fst (FindAndDelete code (push_data vchSig)))
                               (pbegincodehash st) sigs;
                (fSuccess, c) = multisig_loop
                  (\<lambda>c s k. CheckSig E c s k scriptCode txTo nIn nHashType) sigs keys (signatureCache st);
                r = drop (3 + nKeys + nSigs) (stack st);
                st = st\<lparr> signatureCache := c \<rparr>;
                st' = set_stack (vch_bool fSuccess # r) st in
            if opcode = OP_CHECKMULTISIGVERIFY
            then (if fSuccess then Done (set_stack r st) else Failed st')
            else Done st')"

section \<open>The interpreter\<close>

definition between :: "opcodetype \<Rightarrow> opcodetype \<Rightarrow> opcodetype \<Rightarrow> bool" where
  "between lo opcode hi \<longleftrightarrow> lo \<le> opcode \<and> opcode \<le> hi"

text \<open>The \<open>switch\<close>; \<open>pc\<close> is the position after the instruction.\<close>

definition exec_op :: "openssl \<Rightarrow> CTransaction \<Rightarrow> nat \<Rightarrow> int \<Rightarrow> bytes \<Rightarrow> bool \<Rightarrow> opcodetype
    \<Rightarrow> eval_state \<Rightarrow> outcome" where
  "exec_op E txTo nIn nHashType pc fExec opcode st =
     (if opcode = OP_1NEGATE \<or> between OP_1 opcode OP_16 then
        Done (push (getvch E (uint opcode - (uint OP_1 - 1))) st)
      else if opcode = OP_NOP \<or> between OP_NOP1 opcode OP_NOP10 then Done st
      else if opcode \<in> {OP_IF, OP_NOTIF, OP_ELSE, OP_ENDIF, OP_VERIFY, OP_RETURN} then
        op_control opcode fExec st
      else if between OP_TOALTSTACK opcode OP_TUCK then op_stack E opcode st
      else if between OP_CAT opcode OP_SIZE then op_splice E opcode st
      else if between OP_INVERT opcode OP_EQUALVERIFY then op_bitlogic opcode st
      else if between OP_1ADD opcode OP_0NOTEQUAL then op_unary E opcode st
      else if between OP_ADD opcode OP_MAX then op_binary E opcode st
      else if opcode = OP_WITHIN then op_within E st
      else if between OP_RIPEMD160 opcode OP_HASH256 then op_hashing E opcode st
      else if opcode = OP_CODESEPARATOR then Done (st\<lparr> pbegincodehash := pc \<rparr>)
      else if opcode = OP_CHECKSIG \<or> opcode = OP_CHECKSIGVERIFY then
        op_checksig E txTo nIn nHashType opcode st
      else if opcode = OP_CHECKMULTISIG \<or> opcode = OP_CHECKMULTISIGVERIFY then
        op_checkmultisig E txTo nIn nHashType opcode st
      else Failed st)"

definition disabled_ops :: "opcodetype list" where
  "disabled_ops = [OP_CAT, OP_SUBSTR, OP_LEFT, OP_RIGHT, OP_INVERT, OP_AND, OP_OR, OP_XOR,
     OP_2MUL, OP_2DIV, OP_MUL, OP_DIV, OP_MOD, OP_LSHIFT, OP_RSHIFT]"

text \<open>One turn of the \<open>while\<close> loop, for the instruction that was read.\<close>

definition eval_step :: "openssl \<Rightarrow> CTransaction \<Rightarrow> nat \<Rightarrow> int \<Rightarrow> bytes \<Rightarrow> opcodetype \<Rightarrow> bytes
    \<Rightarrow> eval_state \<Rightarrow> outcome" where
  "eval_step E txTo nIn nHashType pc opcode vchPushValue st =
     (let fExec = (False \<notin> set (vfExec st)) in
      if length vchPushValue > 520 then Failed st
      else let st = (if OP_16 < opcode then st\<lparr> nOpCount := nOpCount st + 1 \<rparr> else st) in
      if OP_16 < opcode \<and> nOpCount st > 201 then Failed st
      else if opcode \<in> set disabled_ops then Failed st
      else
        (case (if fExec \<and> opcode \<le> OP_PUSHDATA4 then Done (push vchPushValue st)
               else if fExec \<or> between OP_IF opcode OP_ENDIF
               then exec_op E txTo nIn nHashType pc fExec opcode st
               else Done st) of
           Failed st \<Rightarrow> Failed st
         | Done st \<Rightarrow> if length (stack st) + length (altstack st) > 1000 then Failed st else Done st))"

function eval_loop :: "openssl \<Rightarrow> CTransaction \<Rightarrow> nat \<Rightarrow> int \<Rightarrow> bytes \<Rightarrow> eval_state \<Rightarrow> outcome" where
  "eval_loop E txTo nIn nHashType pc st =
     (if pc = [] then Done st
      else case GetOp2 pc of None \<Rightarrow> Failed st
      | Some (opcode, vchPushValue, r) \<Rightarrow>
          (case eval_step E txTo nIn nHashType r opcode vchPushValue st of
             Failed st \<Rightarrow> Failed st
           | Done st \<Rightarrow> eval_loop E txTo nIn nHashType r st))"
  by pat_completeness auto
termination
  by (relation "measure (\<lambda>(E, t, n, h, pc, st). length pc)") (auto dest: GetOp2_shorter)

declare eval_loop.simps [simp del]

text \<open>The result is the return value, the stack and the cache.\<close>

definition EvalScript :: "openssl \<Rightarrow> CSignatureCache \<Rightarrow> bytes list \<Rightarrow> bytes \<Rightarrow> CTransaction \<Rightarrow> nat
    \<Rightarrow> int \<Rightarrow> bool \<times> bytes list \<times> CSignatureCache" where
  "EvalScript E c stk script txTo nIn nHashType =
     (if length script > 10000 then (False, stk, c)
      else case eval_loop E txTo nIn nHashType script
          \<lparr> stack = stk, altstack = [], vfExec = [], nOpCount = 0, pbegincodehash = script,
            signatureCache = c \<rparr> of
        Failed st \<Rightarrow> (False, stack st, signatureCache st)
      | Done st \<Rightarrow> (vfExec st = [], stack st, signatureCache st))"

definition VerifyScript :: "openssl \<Rightarrow> CSignatureCache \<Rightarrow> bytes \<Rightarrow> bytes \<Rightarrow> CTransaction \<Rightarrow> nat
    \<Rightarrow> bool \<Rightarrow> int \<Rightarrow> bool \<times> CSignatureCache" where
  "VerifyScript E c sig pubkey txTo nIn fValidatePayToScriptHash nHashType =
     (let (ok, stk, c) = EvalScript E c [] sig txTo nIn nHashType in
      if \<not> ok then (False, c)
      else let stackCopy = stk;
               (ok, stk, c) = EvalScript E c stk pubkey txTo nIn nHashType in
      if \<not> ok then (False, c)
      else if stk = [] then (False, c)
      else if \<not> CastToBool (hd stk) then (False, c)
      else if fValidatePayToScriptHash \<and> IsPayToScriptHash pubkey then
        (if \<not> IsPushOnly sig then (False, c)
         else let pubKey2 = hd stackCopy;
                  (ok, stk, c) = EvalScript E c (tl stackCopy) pubKey2 txTo nIn nHashType in
           if \<not> ok then (False, c)
           else if stk = [] then (False, c)
           else (CastToBool (hd stk), c))
      else (True, c))"

text \<open>\<open>None\<close>: the assertion on \<open>nIn\<close> fails.\<close>

definition VerifySignature :: "openssl \<Rightarrow> CSignatureCache \<Rightarrow> CTransaction \<Rightarrow> CTransaction \<Rightarrow> nat
    \<Rightarrow> bool \<Rightarrow> int \<Rightarrow> (bool \<times> CSignatureCache) option" where
  "VerifySignature E c txFrom txTo nIn fValidatePayToScriptHash nHashType =
     (if \<not> nIn < length (vin txTo) then None
      else let txin = vin txTo ! nIn in
      if unat (op_n (prevout txin)) \<ge> length (vout txFrom) then Some (False, c)
      else let txout = vout txFrom ! unat (op_n (prevout txin)) in
      if op_hash (prevout txin) \<noteq> CTransaction_GetHash E txFrom then Some (False, c)
      else Some (VerifyScript E c (scriptSig txin) (scriptPubKey txout) txTo nIn
                   fValidatePayToScriptHash nHashType))"

end
