(* ===== verification/Interp_Facts.thy ===== *)
theory Interp_Facts
  imports Interp "HOL-Library.Sublist"
begin

text \<open>
  Facts about the interpreter: the signature cache is transparent, \<open>OP_CHECKMULTISIG\<close> finds an
  assignment of signatures to keys whenever there is one, the standard scripts do what their
  names say, and the limits on stacks, elements and operations hold in every state that the loop
  reaches between two instructions.
\<close>

section \<open>The signature cache does not influence evaluation\<close>

definition with_cache :: "CSignatureCache \<Rightarrow> eval_state \<Rightarrow> eval_state" where
  "with_cache c st = st\<lparr> signatureCache := c \<rparr>"

fun map_outcome :: "(eval_state \<Rightarrow> eval_state) \<Rightarrow> outcome \<Rightarrow> outcome" where
  "map_outcome f (Done st) = Done (f st)"
| "map_outcome f (Failed st) = Failed (f st)"

fun outcome_state :: "outcome \<Rightarrow> eval_state" where
  "outcome_state (Done st) = st"
| "outcome_state (Failed st) = st"

lemma with_cache_simps [simp]:
  "stack (with_cache c st) = stack st" "altstack (with_cache c st) = altstack st"
  "vfExec (with_cache c st) = vfExec st" "nOpCount (with_cache c st) = nOpCount st"
  "pbegincodehash (with_cache c st) = pbegincodehash st"
  "signatureCache (with_cache c st) = c" "with_cache c (with_cache d st) = with_cache c st"
  by (simp_all add: with_cache_def)

lemma with_cache_upd:
  "(with_cache c st)\<lparr> stack := a \<rparr> = with_cache c (st\<lparr> stack := a \<rparr>)"
  "(with_cache c st)\<lparr> altstack := b \<rparr> = with_cache c (st\<lparr> altstack := b \<rparr>)"
  "(with_cache c st)\<lparr> vfExec := f \<rparr> = with_cache c (st\<lparr> vfExec := f \<rparr>)"
  "(with_cache c st)\<lparr> nOpCount := n \<rparr> = with_cache c (st\<lparr> nOpCount := n \<rparr>)"
  "(with_cache c st)\<lparr> pbegincodehash := p \<rparr> = with_cache c (st\<lparr> pbegincodehash := p \<rparr>)"
  "(with_cache c st)\<lparr> signatureCache := d \<rparr> = with_cache d st"
  "push v (with_cache c st) = with_cache c (push v st)"
  "set_stack s (with_cache c st) = with_cache c (set_stack s st)"
  by (simp_all add: with_cache_def push_def set_stack_def)

lemmas distrib_outcome =
  list.case_distrib [of "map_outcome f" for f] if_distrib [of "map_outcome f" for f]
  option.case_distrib [of "map_outcome f" for f] prod.case_distrib [of "map_outcome f" for f]

lemma op_control_cache: "op_control opc f (with_cache c st) = map_outcome (with_cache c) (op_control opc f st)"
  by (simp add: op_control_def with_cache_upd distrib_outcome Let_def cong: list.case_cong if_cong)

lemma op_pick_cache: "op_pick E opc (with_cache c st) = map_outcome (with_cache c) (op_pick E opc st)"
  by (simp add: op_pick_def with_cache_upd distrib_outcome Let_def cong: list.case_cong option.case_cong if_cong)

lemma op_stack_cache: "op_stack E opc (with_cache c st) = map_outcome (with_cache c) (op_stack E opc st)"
  unfolding op_stack_def
  by (simp add: with_cache_upd distrib_outcome op_pick_cache if_distrib [of "with_cache c"]
      cong: list.case_cong if_cong)

lemma op_splice_cache: "op_splice E opc (with_cache c st) = map_outcome (with_cache c) (op_splice E opc st)"
  by (simp add: op_splice_def with_cache_upd distrib_outcome Let_def
      cong: list.case_cong option.case_cong prod.case_cong if_cong)

lemma op_bitlogic_cache: "op_bitlogic opc (with_cache c st) = map_outcome (with_cache c) (op_bitlogic opc st)"
  by (simp add: op_bitlogic_def with_cache_upd distrib_outcome Let_def cong: list.case_cong if_cong)

lemma op_unary_cache: "op_unary E opc (with_cache c st) = map_outcome (with_cache c) (op_unary E opc st)"
  by (simp add: op_unary_def with_cache_upd distrib_outcome cong: list.case_cong option.case_cong)

lemma op_binary_cache: "op_binary E opc (with_cache c st) = map_outcome (with_cache c) (op_binary E opc st)"
  by (simp add: op_binary_def with_cache_upd distrib_outcome Let_def
      cong: list.case_cong option.case_cong prod.case_cong if_cong)

lemma op_within_cache: "op_within E (with_cache c st) = map_outcome (with_cache c) (op_within E st)"
  by (simp add: op_within_def with_cache_upd distrib_outcome
      cong: list.case_cong option.case_cong prod.case_cong)

lemma op_hashing_cache: "op_hashing E opc (with_cache c st) = map_outcome (with_cache c) (op_hashing E opc st)"
  by (simp add: op_hashing_def with_cache_upd distrib_outcome Let_def cong: list.case_cong)


text \<open>Two outcomes that differ at most in their (sound) caches.\<close>

definition same_outcome :: "openssl \<Rightarrow> outcome \<Rightarrow> outcome \<Rightarrow> bool" where
  "same_outcome E o1 o2 \<longleftrightarrow>
     map_outcome (with_cache empty_cache) o1 = map_outcome (with_cache empty_cache) o2
     \<and> cache_ok E (signatureCache (outcome_state o1)) \<and> cache_ok E (signatureCache (outcome_state o2))"

lemma map_outcome_comp [simp]: "map_outcome f (map_outcome g r) = map_outcome (f \<circ> g) r"
  by (cases r) auto

lemma outcome_state_map [simp]: "outcome_state (map_outcome f r) = f (outcome_state r)"
  by (cases r) auto

lemma same_outcome_indep:
  assumes "\<And>c. g (with_cache c st) = map_outcome (with_cache c) (g st)"
    and "cache_ok E c" and "cache_ok E d"
  shows "same_outcome E (g (with_cache c st)) (g (with_cache d st))"
  using assms by (simp add: same_outcome_def comp_def)

lemma same_outcome_simps [simp]:
  "same_outcome E (Done (with_cache c st)) (Done (with_cache d st)) \<longleftrightarrow> cache_ok E c \<and> cache_ok E d"
  "same_outcome E (Failed (with_cache c st)) (Failed (with_cache d st)) \<longleftrightarrow> cache_ok E c \<and> cache_ok E d"
  by (auto simp: same_outcome_def)

lemma op_checksig_same:
  assumes "cache_ok E c" and "cache_ok E d"
  shows "same_outcome E (op_checksig E t n h opc (with_cache c st)) (op_checksig E t n h opc (with_cache d st))"
proof (cases "\<exists>p s r. stack st = p # s # r")
  case True
  then obtain p s r where st: "stack st = p # s # r" by blast
  define code where "code = fst (FindAndDelete (pbegincodehash st) (push_data s))"
  obtain b c' where c: "CheckSig E c s p code t n h = (b, c')" by fastforce
  obtain b' d' where d: "CheckSig E d s p code t n h = (b', d')" by fastforce
  from CheckSig_result [OF assms(1), of s p code t n h] CheckSig_result [OF assms(2), of s p code t n h]
  have "b' = b" "cache_ok E c'" "cache_ok E d'" by (simp_all add: c d)
  then show ?thesis
    by (simp add: op_checksig_def st c d code_def [symmetric] with_cache_upd Let_def)
next
  case False
  then show ?thesis
    using assms by (auto simp: op_checksig_def split: list.splits)
qed

fun multisig_match :: "(bytes \<Rightarrow> bytes \<Rightarrow> bool) \<Rightarrow> bytes list \<Rightarrow> bytes list \<Rightarrow> bool" where
  "multisig_match v [] ks = True"
| "multisig_match v (s # ss) [] = False"
| "multisig_match v (s # ss) (k # ks) =
     (let sigs = (if v s k then ss else s # ss) in
      if length sigs > length ks then False else multisig_match v sigs ks)"

lemma multisig_loop_match:
  assumes "cache_ok E c"
  shows "fst (multisig_loop (\<lambda>c s k. CheckSig E c s k code t n h) ss ks c)
      = multisig_match (\<lambda>s k. sig_valid E s k code t n h) ss ks
    \<and> cache_ok E (snd (multisig_loop (\<lambda>c s k. CheckSig E c s k code t n h) ss ks c))"
  using assms
proof (induction ks arbitrary: ss c)
  case Nil
  then show ?case by (cases ss) auto
next
  case (Cons k ks)
  show ?case
  proof (cases ss)
    case (Cons s ss')
    obtain b c' where c: "CheckSig E c s k code t n h = (b, c')" by fastforce
    from CheckSig_result [OF Cons.prems, of s k code t n h]
    have "b = sig_valid E s k code t n h" "cache_ok E c'" by (simp_all add: c)
    with Cons.IH [of c' "if b then ss' else s # ss'"] show ?thesis
      by (simp add: Cons c Let_def)
  qed (use Cons.prems in simp)
qed

lemma op_checkmultisig_same:
  assumes "cache_ok E c" and "cache_ok E d"
  shows "same_outcome E (op_checkmultisig E t n h opc (with_cache c st)) (op_checkmultisig E t n h opc (with_cache d st))"
proof -
  define code where "code = (\<lambda>sigs. foldl (\<lambda>code vchSig. fst (FindAndDelete code (push_data vchSig))) (pbegincodehash st) sigs)"
  define v where "v = (\<lambda>sigs keys. multisig_match (\<lambda>s k. sig_valid E s k (code sigs) t n h) sigs keys)"
  define fin where "fin = (\<lambda>cc sigs keys r st'.
     (let (fSuccess, c2) = multisig_loop (\<lambda>c s k. CheckSig E c s k (code sigs) t n h) sigs keys cc;
          st1 = with_cache c2 st' in
      if opc = OP_CHECKMULTISIGVERIFY
      then (if fSuccess then Done (set_stack r st1) else Failed (set_stack (vch_bool fSuccess # r) st1))
      else Done (set_stack (vch_bool fSuccess # r) st1)))"
  have fin: "same_outcome E (fin c sigs keys r st') (fin d sigs keys r st')" for sigs keys r st'
  proof -
    obtain b c2 where c2: "multisig_loop (\<lambda>c s k. CheckSig E c s k (code sigs) t n h) sigs keys c = (b, c2)" by fastforce
    obtain b' d2 where d2: "multisig_loop (\<lambda>c s k. CheckSig E c s k (code sigs) t n h) sigs keys d = (b', d2)" by fastforce
    from multisig_loop_match [OF assms(1), of "code sigs" t n h sigs keys]
      multisig_loop_match [OF assms(2), of "code sigs" t n h sigs keys]
    have "b' = b" "cache_ok E c2" "cache_ok E d2" by (simp_all add: c2 d2)
    then show ?thesis by (simp add: fin_def c2 d2 with_cache_upd Let_def)
  qed
  have "op_checkmultisig E t n h opc (with_cache cc st) =
    (if length (stack st) < 1 then Failed (with_cache cc st)
      else case CastToBigNum E (stack st ! 0) of None \<Rightarrow> Failed (with_cache cc st)
      | Some bnKeys \<Rightarrow>
        let nKeysCount = getint E bnKeys in
        if nKeysCount < 0 \<or> nKeysCount > 20 then Failed (with_cache cc st)
        else let st' = st\<lparr> nOpCount := nOpCount st + nKeysCount \<rparr>; nKeys = nat nKeysCount in
        if nOpCount st' > 201 then Failed (with_cache cc st')
        else if length (stack st) < 2 + nKeys then Failed (with_cache cc st')
        else case CastToBigNum E (stack st ! (1 + nKeys)) of None \<Rightarrow> Failed (with_cache cc st')
        | Some bnSigs \<Rightarrow>
          let nSigsCount = getint E bnSigs in
          if nSigsCount < 0 \<or> nSigsCount > nKeysCount then Failed (with_cache cc st')
          else let nSigs = nat nSigsCount in
          if length (stack st) < 3 + nKeys + nSigs then Failed (with_cache cc st')
          else fin cc (take nSigs (drop (2 + nKeys) (stack st))) (take nKeys (drop 1 (stack st)))
            (drop (3 + nKeys + nSigs) (stack st)) st')" for cc
    unfolding op_checkmultisig_def fin_def code_def
    by (simp add: with_cache_upd Let_def cong: option.case_cong if_cong)
  then show ?thesis
    using assms fin by (simp add: Let_def split: option.split)
qed


lemma exec_op_same:
  assumes "cache_ok E c" and "cache_ok E d"
  shows "same_outcome E (exec_op E t n h pc f opc (with_cache c st)) (exec_op E t n h pc f opc (with_cache d st))"
  unfolding exec_op_def
  using assms op_checksig_same op_checkmultisig_same
    same_outcome_indep [of "op_control opc f", OF op_control_cache]
    same_outcome_indep [of "op_stack E opc", OF op_stack_cache]
    same_outcome_indep [of "op_splice E opc", OF op_splice_cache]
    same_outcome_indep [of "op_bitlogic opc", OF op_bitlogic_cache]
    same_outcome_indep [of "op_unary E opc", OF op_unary_cache]
    same_outcome_indep [of "op_binary E opc", OF op_binary_cache]
    same_outcome_indep [of "op_within E", OF op_within_cache]
    same_outcome_indep [of "op_hashing E opc", OF op_hashing_cache]
  by (simp add: with_cache_upd)

lemma same_outcomeE:
  assumes "same_outcome E o1 o2"
  obtains st c d where "o1 = Done (with_cache c st)" "o2 = Done (with_cache d st)" "cache_ok E c" "cache_ok E d"
  | st c d where "o1 = Failed (with_cache c st)" "o2 = Failed (with_cache d st)" "cache_ok E c" "cache_ok E d"
proof -
  have wc: "s2 = with_cache (signatureCache s2) s1"
    if "with_cache empty_cache s1 = with_cache empty_cache s2" for s1 s2
    using that by (simp add: with_cache_def) (metis eval_state.surjective eval_state.update_convs(6) eval_state.select_convs)
  have id: "s = with_cache (signatureCache s) s" for s by (simp add: with_cache_def)
  show thesis
  proof (cases o1)
    case (Done s1)
    with assms obtain s2 where "o2 = Done s2" "with_cache empty_cache s1 = with_cache empty_cache s2"
      "cache_ok E (signatureCache s1)" "cache_ok E (signatureCache s2)"
      by (cases o2) (auto simp: same_outcome_def)
    with Done wc id that(1) show thesis by metis
  next
    case (Failed s1)
    with assms obtain s2 where "o2 = Failed s2" "with_cache empty_cache s1 = with_cache empty_cache s2"
      "cache_ok E (signatureCache s1)" "cache_ok E (signatureCache s2)"
      by (cases o2) (auto simp: same_outcome_def)
    with Failed wc id that(2) show thesis by metis
  qed
qed

lemma eval_step_same:
  assumes "cache_ok E c" and "cache_ok E d"
  shows "same_outcome E (eval_step E t n h pc opc v (with_cache c st)) (eval_step E t n h pc opc v (with_cache d st))"
proof -
  define st' where "st' = (if OP_16 < opc then st\<lparr> nOpCount := nOpCount st + 1 \<rparr> else st)"
  define g where "g = (\<lambda>cc. if False \<notin> set (vfExec st) \<and> opc \<le> OP_PUSHDATA4 then Done (push v (with_cache cc st'))
     else if False \<notin> set (vfExec st) \<or> between OP_IF opc OP_ENDIF
     then exec_op E t n h pc (False \<notin> set (vfExec st)) opc (with_cache cc st') else Done (with_cache cc st'))"
  have eq: "eval_step E t n h pc opc v (with_cache cc st) =
    (if length v > 520 then Failed (with_cache cc st)
     else if OP_16 < opc \<and> nOpCount st' > 201 then Failed (with_cache cc st')
     else if opc \<in> set disabled_ops then Failed (with_cache cc st')
     else (case g cc of Failed s \<Rightarrow> Failed s
        | Done s \<Rightarrow> if length (stack s) + length (altstack s) > 1000 then Failed s else Done s))" for cc
    unfolding eval_step_def g_def st'_def Let_def by (simp add: with_cache_upd)
  have "same_outcome E (g c) (g d)"
    unfolding g_def using assms exec_op_same by (simp add: with_cache_upd)
  then show ?thesis
    unfolding eq using assms by (cases rule: same_outcomeE) auto
qed

lemma eval_loop_same:
  assumes "cache_ok E c" and "cache_ok E d"
  shows "same_outcome E (eval_loop E t n h pc (with_cache c st)) (eval_loop E t n h pc (with_cache d st))"
  using assms
proof (induction "length pc" arbitrary: pc st c d rule: less_induct)
  case less
  show ?case
  proof (cases "pc = [] \<or> GetOp2 pc = None")
    case True
    then show ?thesis using less.prems by (subst (1 2) eval_loop.simps) auto
  next
    case False
    then obtain opc v r where g: "GetOp2 pc = Some (opc, v, r)" by auto
    note step = eval_step_same [OF less.prems, of t n h r opc v st]
    have eq: "eval_loop E t n h pc s = (case eval_step E t n h r opc v s of Failed s \<Rightarrow> Failed s
        | Done s \<Rightarrow> eval_loop E t n h r s)" for s
      using False g by (subst eval_loop.simps) simp
    show ?thesis
      unfolding eq using step less.hyps [OF GetOp2_shorter [OF g]]
      by (cases rule: same_outcomeE) auto
  qed
qed

lemma EvalScript_same:
  assumes "cache_ok E c" and "cache_ok E d"
    and "EvalScript E c stk script t n h = (b, s, c')" and "EvalScript E d stk script t n h = (b', s', d')"
  shows "b' = b \<and> s' = s \<and> cache_ok E c' \<and> cache_ok E d'"
proof -
  define st where "st = \<lparr> stack = stk, altstack = [], vfExec = [], nOpCount = 0, pbegincodehash = script,
     signatureCache = c \<rparr>"
  have st: "\<lparr> stack = stk, altstack = [], vfExec = [], nOpCount = 0, pbegincodehash = script,
     signatureCache = cc \<rparr> = with_cache cc st" for cc by (simp add: st_def with_cache_def)
  note same = eval_loop_same [OF assms(1,2), of t n h script st]
  show ?thesis
    using same assms unfolding EvalScript_def st
    by (cases rule: same_outcomeE) (auto split: if_splits)
qed

lemma EvalScript_cache_ok:
  "cache_ok E c \<Longrightarrow> EvalScript E c stk script t n h = (b, s, c') \<Longrightarrow> cache_ok E c'"
  using EvalScript_same by blast

lemma VerifyScript_same:
  assumes "cache_ok E c" and "cache_ok E d"
  shows "fst (VerifyScript E c sig pk t n p h) = fst (VerifyScript E d sig pk t n p h)
    \<and> cache_ok E (snd (VerifyScript E c sig pk t n p h))"
proof -
  obtain b1 s1 c1 where x1: "EvalScript E c [] sig t n h = (b1, s1, c1)" by (metis prod_cases3)
  obtain b1' s1' d1 where y1: "EvalScript E d [] sig t n h = (b1', s1', d1)" by (metis prod_cases3)
  from EvalScript_same [OF assms x1 y1] have e1: "b1' = b1" "s1' = s1" "cache_ok E c1" "cache_ok E d1" by auto
  obtain b2 s2 c2 where x2: "EvalScript E c1 s1 pk t n h = (b2, s2, c2)" by (metis prod_cases3)
  obtain b2' s2' d2 where y2: "EvalScript E d1 s1 pk t n h = (b2', s2', d2)" by (metis prod_cases3)
  from EvalScript_same [OF e1(3,4) x2 y2] have e2: "b2' = b2" "s2' = s2" "cache_ok E c2" "cache_ok E d2" by auto
  obtain b3 s3 c3 where x3: "EvalScript E c2 (tl s1) (hd s1) t n h = (b3, s3, c3)" by (metis prod_cases3)
  obtain b3' s3' d3 where y3: "EvalScript E d2 (tl s1) (hd s1) t n h = (b3', s3', d3)" by (metis prod_cases3)
  from EvalScript_same [OF e2(3,4) x3 y3] have e3: "b3' = b3" "s3' = s3" "cache_ok E c3" "cache_ok E d3" by auto
  show ?thesis
    using e1 e2 e3 by (simp add: VerifyScript_def x1 y1 x2 y2 x3 y3 Let_def)
qed

section \<open>Multisignatures\<close>

lemma multisig_match_length: "multisig_match v ss ks \<Longrightarrow> length ss \<le> length ks"
  by (induction v ss ks rule: multisig_match.induct) (auto simp: Let_def split: if_splits)

lemma multisig_match_sound:
  "multisig_match v ss ks \<Longrightarrow> \<exists>ks'. subseq ks' ks \<and> list_all2 v ss ks'"
proof (induction v ss ks rule: multisig_match.induct)
  case (3 v s ss k ks)
  show ?case
  proof (cases "v s k")
    case True
    with 3 obtain ks' where "subseq ks' ks" "list_all2 v ss ks'" by (auto simp: Let_def split: if_splits)
    with True show ?thesis by (intro exI [of _ "k # ks'"]) auto
  next
    case False
    with 3 obtain ks' where "subseq ks' ks" "list_all2 v (s # ss) ks'" by (auto simp: Let_def split: if_splits)
    then show ?thesis by auto
  qed
qed auto

lemma multisig_match_complete:
  "subseq ks' ks \<Longrightarrow> list_all2 v ss ks' \<Longrightarrow> multisig_match v ss ks"
proof (induction ks arbitrary: ss ks')
  case Nil
  then show ?case by (cases ss; cases ks') auto
next
  case (Cons k ks)
  show ?case
  proof (cases ss)
    case (Cons s ss')
    then obtain k' ks'' where ks': "ks' = k' # ks''" and v: "v s k'" and rest: "list_all2 v ss' ks''"
      using Cons.prems by (auto simp: list_all2_Cons1)
    show ?thesis
    proof (cases "v s k")
      case True
      have "subseq ks'' ks"
        using Cons.prems(1) ks' by (cases "k' = k") (auto dest: subseq_Cons')
      then have m: "multisig_match v ss' ks" using Cons.IH rest by blast
      then show ?thesis using True multisig_match_length [OF m] by (simp add: Cons)
    next
      case False
      with v have "k \<noteq> k'" by auto
      then have "subseq ks' ks" using Cons.prems(1) ks' by simp
      then have m: "multisig_match v ss ks" using Cons.IH Cons.prems(2) by blast
      then show ?thesis using False multisig_match_length [OF m] by (simp add: Cons)
    qed
  qed simp
qed

lemma multisig_match_iff: "multisig_match v ss ks \<longleftrightarrow> (\<exists>ks'. subseq ks' ks \<and> list_all2 v ss ks')"
  using multisig_match_sound multisig_match_complete by blast

section \<open>Running scripts\<close>

lemma eval_loop_Nil [simp]: "eval_loop E t n h [] st = Done st"
  by (simp add: eval_loop.simps)

lemma eval_loop_step:
  assumes "GetOp2 pc = Some (opc, v, r)"
  shows "eval_loop E t n h pc st =
    (case eval_step E t n h r opc v st of Failed st \<Rightarrow> Failed st | Done st \<Rightarrow> eval_loop E t n h r st)"
proof -
  have "pc \<noteq> []" using assms by auto
  then show ?thesis using assms by (subst eval_loop.simps) simp
qed

lemma eval_step_push:
  assumes "opc \<le> OP_PUSHDATA4" and "length v \<le> 520" and "False \<notin> set (vfExec st)"
    and "length (stack st) + length (altstack st) < 1000"
  shows "eval_step E t n h r opc v st = Done (push v st)"
proof -
  have o: "opc \<le> 96" using assms(1) by (rule order_trans) simp
  have "opc \<notin> set disabled_ops"
    using assms(1) by (auto simp: disabled_ops_def)
  then show ?thesis using assms o by (auto simp: eval_step_def push_def not_less)
qed

lemma eval_loop_pushes:
  assumes "list_all (\<lambda>v. length v \<le> 520) vs" and "length (concat (map push_data vs) @ r) < 2 ^ 32"
    and "False \<notin> set (vfExec st)" and "length (stack st) + length (altstack st) + length vs \<le> 1000"
  shows "eval_loop E t n h (concat (map push_data vs) @ r) st = eval_loop E t n h r (st\<lparr> stack := rev vs @ stack st \<rparr>)"
  using assms
proof (induction vs arbitrary: st)
  case (Cons v vs)
  have "length (v @ concat (map push_data vs) @ r) < 2 ^ 32"
    using Cons.prems(2) length_push_data [of v] by simp
  from push_data_GetOp2 [OF this] obtain opc where opc: "opc \<le> OP_PUSHDATA4"
    and g: "GetOp2 (push_data v @ concat (map push_data vs) @ r) = Some (opc, v, concat (map push_data vs) @ r)"
    by blast
  have "eval_loop E t n h (concat (map push_data (v # vs)) @ r) st = eval_loop E t n h (concat (map push_data vs) @ r) (push v st)"
    using Cons.prems opc by (simp add: eval_loop_step [OF g] eval_step_push)
  also have "\<dots> = eval_loop E t n h r ((push v st)\<lparr> stack := rev vs @ stack (push v st) \<rparr>)"
    using Cons.prems by (intro Cons.IH) (auto simp: push_def)
  finally show ?case by (simp add: push_def)
qed simp

lemma EvalScript_pushes:
  assumes "list_all (\<lambda>v. length v \<le> 520) vs" and "length (concat (map push_data vs)) \<le> 10000"
    and "length stk + length vs \<le> 1000"
  shows "EvalScript E c stk (concat (map push_data vs)) t n h = (True, rev vs @ stk, c)"
proof -
  let ?st = "\<lparr> stack = stk, altstack = [], vfExec = [], nOpCount = 0,
      pbegincodehash = concat (map push_data vs), signatureCache = c \<rparr>"
  have "eval_loop E t n h (concat (map push_data vs) @ []) ?st = eval_loop E t n h [] (?st\<lparr> stack := rev vs @ stack ?st \<rparr>)"
    using assms by (intro eval_loop_pushes) auto
  then show ?thesis using assms(2) by (simp add: EvalScript_def)
qed

lemma EvalScript_OP_RETURN: "fst (EvalScript E c stk (OP_RETURN # s) t n h) = False"
  by (simp add: EvalScript_def eval_loop_step eval_step_def exec_op_def between_def op_control_def
      disabled_ops_def)


lemma eval_step_exec:
  assumes "OP_16 < opc" and "opc \<notin> set disabled_ops" and "vfExec st = []" and "nOpCount st < 201"
  shows "eval_step E t n h pc opc [] st =
    (case exec_op E t n h pc True opc (st\<lparr> nOpCount := nOpCount st + 1 \<rparr>) of Failed s \<Rightarrow> Failed s
     | Done s \<Rightarrow> if length (stack s) + length (altstack s) > 1000 then Failed s else Done s)"
proof -
  have "\<not> opc \<le> 78" using assms(1) by (simp add: not_le less_trans [of 78 96])
  then show ?thesis using assms by (simp add: eval_step_def)
qed

lemma not_disabled:
  "OP_DUP \<notin> set disabled_ops" "OP_HASH160 \<notin> set disabled_ops" "OP_EQUALVERIFY \<notin> set disabled_ops"
  "OP_EQUAL \<notin> set disabled_ops" "OP_CHECKSIG \<notin> set disabled_ops" "OP_RETURN \<notin> set disabled_ops"
  by (simp_all add: disabled_ops_def)

lemma exec_op_DUP: "exec_op E t n h pc True OP_DUP st = (case stack st of v # r \<Rightarrow> Done (push v st) | _ \<Rightarrow> Failed st)"
  by (simp add: exec_op_def between_def op_stack_def)

lemma exec_op_HASH160: "exec_op E t n h pc True OP_HASH160 st = (case stack st of v # r \<Rightarrow>
    Done (set_stack (word_le 20 (Hash160 E v) # r) st) | _ \<Rightarrow> Failed st)"
  by (simp add: exec_op_def between_def op_hashing_def split: list.split)

lemma exec_op_EQUALVERIFY: "exec_op E t n h pc True OP_EQUALVERIFY st = (case stack st of v2 # v1 # r \<Rightarrow>
    (if v1 = v2 then Done (set_stack r st) else Failed (set_stack (vchFalse # r) st)) | _ \<Rightarrow> Failed st)"
  by (simp add: exec_op_def between_def op_bitlogic_def vch_bool_def Let_def split: list.split)

lemma exec_op_EQUAL: "exec_op E t n h pc True OP_EQUAL st = (case stack st of v2 # v1 # r \<Rightarrow>
    Done (set_stack (vch_bool (v1 = v2) # r) st) | _ \<Rightarrow> Failed st)"
  by (simp add: exec_op_def between_def op_bitlogic_def Let_def cong: list.case_cong)

lemma exec_op_CHECKSIG: "exec_op E t n h pc True OP_CHECKSIG st = op_checksig E t n h OP_CHECKSIG st"
  by (simp add: exec_op_def between_def)

lemmas exec_ops = exec_op_DUP exec_op_HASH160 exec_op_EQUALVERIFY exec_op_EQUAL exec_op_CHECKSIG

lemma GetOp2_hash: "length r < 2 ^ 31 \<Longrightarrow> GetOp2 (push_data (word_le 20 k) @ r) = Some (20, word_le 20 k, r)"
  by simp

lemma eval_loop_op:
  "OP_PUSHDATA4 < opc \<Longrightarrow> eval_loop E t n h (opc # r) st =
    (case eval_step E t n h r opc [] st of Failed st \<Rightarrow> Failed st | Done st \<Rightarrow> eval_loop E t n h r st)"
  by (rule eval_loop_step) simp

lemma le_word_20: "le_word (word_le 20 w) = (w :: u160)"
  by (rule le_word_word_le) simp

lemma word_le_20_inj: "word_le 20 (a :: u160) = word_le 20 b \<longleftrightarrow> a = b"
  by (metis le_word_20)

lemma upd_swap: "st\<lparr> nOpCount := a, stack := s \<rparr> = st\<lparr> stack := s, nOpCount := a \<rparr>"
  by (cases st) simp

lemma eval_P2PKH:
  assumes "stack st = pk # sig # rest" and "vfExec st = []" and "altstack st = []" and "nOpCount st = 0"
    and "length rest \<le> 990" and "pbegincodehash st = SetDestination (KeyID k)"
    and "CheckSig E (signatureCache st) sig pk
      (fst (FindAndDelete (SetDestination (KeyID k)) (push_data sig))) t n h = (b, c)"
  shows "eval_loop E t n h (SetDestination (KeyID k)) st =
    (if Hash160 E pk = k
     then Done (st\<lparr> stack := vch_bool b # rest, nOpCount := 4, signatureCache := c \<rparr>)
     else Failed (st\<lparr> stack := vchFalse # pk # sig # rest, nOpCount := 3 \<rparr>))"
proof -
  have inj: "word_le 20 (Hash160 E pk) = word_le 20 k \<longleftrightarrow> Hash160 E pk = k"
    by (rule word_le_20_inj)
  let ?r1 = "OP_HASH160 # push_data (word_le 20 k) @ [OP_EQUALVERIFY, OP_CHECKSIG]"
  let ?r2 = "push_data (word_le 20 k) @ [OP_EQUALVERIFY, OP_CHECKSIG]"
  let ?s1 = "st\<lparr> stack := pk # pk # sig # rest, nOpCount := 1 \<rparr>"
  let ?s2 = "st\<lparr> stack := word_le 20 (Hash160 E pk) # pk # sig # rest, nOpCount := 2 \<rparr>"
  let ?s3 = "st\<lparr> stack := word_le 20 k # word_le 20 (Hash160 E pk) # pk # sig # rest, nOpCount := 2 \<rparr>"
  let ?s4 = "st\<lparr> stack := pk # sig # rest, nOpCount := 3 \<rparr>"
  have "eval_loop E t n h (SetDestination (KeyID k)) st = eval_loop E t n h (OP_DUP # ?r1) st"
    by (simp only: P2PKH_script)
  also have "\<dots> = eval_loop E t n h ?r1 ?s1"
    using assms(1-5) by (subst eval_loop_op, simp, simp add: eval_step_exec not_disabled exec_ops upd_swap push_def)
  also have "\<dots> = eval_loop E t n h ?r2 ?s2"
    using assms(1-5) by (subst eval_loop_op, simp, simp add: eval_step_exec not_disabled exec_ops upd_swap set_stack_def)
  also have "\<dots> = eval_loop E t n h [OP_EQUALVERIFY, OP_CHECKSIG] ?s3"
    using assms(1-5) by (subst eval_loop_step [OF GetOp2_hash], simp, simp add: eval_step_push push_def upd_swap)
  also have "\<dots> = (if Hash160 E pk = k then eval_loop E t n h [OP_CHECKSIG] ?s4
      else Failed (st\<lparr> stack := vchFalse # pk # sig # rest, nOpCount := 3 \<rparr>))"
    using assms(1-5) inj by (subst eval_loop_op, simp, simp add: eval_step_exec not_disabled exec_ops upd_swap set_stack_def)
  also have "eval_loop E t n h [OP_CHECKSIG] ?s4
      = Done (st\<lparr> stack := vch_bool b # rest, nOpCount := 4, signatureCache := c \<rparr>)"
    using assms by (subst eval_loop_op, simp, simp add: eval_step_exec not_disabled exec_ops upd_swap op_checksig_def set_stack_def
        del: SetDestination.simps)
  finally show ?thesis by simp
qed


lemma eval_P2SH:
  assumes "vfExec st = []" and "altstack st = []" and "nOpCount st = 0" and "length (stack st) < 1000"
  shows "eval_loop E t n h (SetDestination (ScriptID k)) st =
    (case stack st of [] \<Rightarrow> Failed (st\<lparr> nOpCount := 1 \<rparr>)
     | v # r \<Rightarrow> Done (st\<lparr> stack := vch_bool (Hash160 E v = k) # r, nOpCount := 2 \<rparr>))"
proof -
  have s: "SetDestination (ScriptID k) = OP_HASH160 # push_data (word_le 20 k) @ [OP_EQUAL]"
    by (simp add: push_uint160_eq)
  show ?thesis
  proof (cases "stack st")
    case Nil
    then show ?thesis
      unfolding s using assms by (subst eval_loop_op, simp, simp add: eval_step_exec not_disabled exec_ops upd_swap)
  next
    case (Cons v r)
    let ?s1 = "st\<lparr> stack := word_le 20 (Hash160 E v) # r, nOpCount := 1 \<rparr>"
    let ?s2 = "st\<lparr> stack := word_le 20 k # word_le 20 (Hash160 E v) # r, nOpCount := 1 \<rparr>"
    have "eval_loop E t n h (SetDestination (ScriptID k)) st = eval_loop E t n h (push_data (word_le 20 k) @ [OP_EQUAL]) ?s1"
      unfolding s using assms Cons
      by (subst eval_loop_op, simp, simp add: eval_step_exec not_disabled exec_ops upd_swap set_stack_def)
    also have "\<dots> = eval_loop E t n h [OP_EQUAL] ?s2"
      using assms Cons by (subst eval_loop_step [OF GetOp2_hash], simp, simp add: eval_step_push push_def upd_swap)
    also have "\<dots> = Done (st\<lparr> stack := vch_bool (Hash160 E v = k) # r, nOpCount := 2 \<rparr>)"
      using assms Cons
      by (subst eval_loop_op, simp, simp add: eval_step_exec not_disabled exec_ops upd_swap set_stack_def word_le_20_inj)
    finally show ?thesis by (simp add: Cons)
  qed
qed

lemma EvalScript_P2SH:
  "length stk < 1000 \<Longrightarrow> EvalScript E c stk (SetDestination (ScriptID k)) t n h =
    (case stk of [] \<Rightarrow> (False, [], c) | v # r \<Rightarrow> (True, vch_bool (Hash160 E v = k) # r, c))"
  unfolding EvalScript_def
  by (subst eval_P2SH) (simp_all add: push_uint160_def split: list.split)

lemma CastToBool_vch_bool [simp]: "CastToBool (vch_bool b) = b"
  by (simp add: vch_bool_def vchTrue_def vchFalse_def)

lemma not_P2SH_P2PKH: "\<not> IsPayToScriptHash (SetDestination (KeyID k))"
  by (simp add: IsPayToScriptHash_def push_uint160_def)


lemma P2PKH_spent:
  assumes "cache_ok E c" and "length sig \<le> 520" and "length pk \<le> 520"
  shows "fst (VerifyScript E c (push_data sig @ push_data pk) (SetDestination (KeyID k)) t n p2sh h)
    \<longleftrightarrow> Hash160 E pk = k
      \<and> sig_valid E sig pk (fst (FindAndDelete (SetDestination (KeyID k)) (push_data sig))) t n h"
proof -
  let ?spk = "SetDestination (KeyID k)"
  have "length (push_data sig) \<le> 525" "length (push_data pk) \<le> 525"
    using length_push_data [of sig] length_push_data [of pk] assms by linarith+
  then have ev1: "EvalScript E c [] (push_data sig @ push_data pk) t n h = (True, [pk, sig], c)"
    using EvalScript_pushes [of "[sig, pk]" "[]" E c t n h] assms by simp
  obtain b c' where cs: "CheckSig E c sig pk (fst (FindAndDelete ?spk (push_data sig))) t n h = (b, c')"
    by fastforce
  have b: "b = sig_valid E sig pk (fst (FindAndDelete ?spk (push_data sig))) t n h"
    using CheckSig_result(1) [OF assms(1), of sig pk "fst (FindAndDelete ?spk (push_data sig))" t n h] cs by simp
  have "length ?spk \<le> 10000" by (simp add: push_uint160_def)
  then have ev2: "EvalScript E c [pk, sig] ?spk t n h =
      (if Hash160 E pk = k then (True, [vch_bool b], c') else (False, [vchFalse, pk, sig], c))"
    unfolding EvalScript_def using cs
    by (subst eval_P2PKH [where pk = pk and sig = sig and rest = "[]" and b = b and c = c'])
      (simp_all del: SetDestination.simps)
  show ?thesis
    using b not_P2SH_P2PKH [of k]
    by (simp add: VerifyScript_def ev1 ev2 del: SetDestination.simps)
qed

section \<open>Properties\<close>

text \<open>
  C36. Pay-to-public-key-hash: spending an output to a key with a signature and a public key
  succeeds exactly when the public key hashes to the key identifier and the signature is valid
  for it over the output script (from which the signature itself is deleted), whatever is in the
  signature cache.
\<close>

theorem VerifyScript_P2PKH:
  assumes "cache_ok E c" and "length sig \<le> 520" and "length pk \<le> 520"
  shows "fst (VerifyScript E c (push_data sig @ push_data pk) (SetDestination (KeyID k)) t n p2sh h)
    \<longleftrightarrow> Hash160 E pk = k
      \<and> sig_valid E sig pk (fst (FindAndDelete (SetDestination (KeyID k)) (push_data sig))) t n h"
  by (rule P2PKH_spent [OF assms])

theorem VerifyScript_P2PKH_witness:
  "\<exists>sig. fst (VerifyScript openssl_ref empty_cache (push_data sig @ push_data [3])
      (SetDestination (KeyID (Hash160 openssl_ref [3]))) example_tx 0 True 0)"
proof -
  define spk where "spk = SetDestination (KeyID (Hash160 openssl_ref [3]))"
  define sig where "sig = [3] @ word_le 32 (SignatureHash openssl_ref spk example_tx 0 1) @ [1]"
  have len: "length spk = 25" "length (push_data sig) = 35"
    by (simp_all add: spk_def sig_def push_uint160_def push_data_def)
  obtain r m where f: "FindAndDelete spk (push_data sig) = (r, m)" by fastforce
  then have d: "deleted (push_data sig) spk r m"
    using fad_loop_deleted [of "push_data sig" spk r m] by (simp add: FindAndDelete_def)
  then have "m = 0" using deleted_length [OF d] len by (cases m) auto
  then have "r = spk" using deleted_none [OF d] by simp
  then have "sig_valid openssl_ref sig [3] (fst (FindAndDelete spk (push_data sig))) example_tx 0 0"
    using f by (simp add: sig_valid_def SetPubKey_def Verify_def openssl_ref_def sig_def butlast_append)
  then show ?thesis
    using VerifyScript_P2PKH [of openssl_ref empty_cache sig "[3]" "Hash160 openssl_ref [3]" example_tx 0 True 0]
    by (intro exI [of _ sig]) (simp add: spk_def sig_def del: SetDestination.simps)
qed

text \<open>
  C37. Pay-to-script-hash: an output to a script identifier is spent exactly when the input
  script only pushes data, its last push hashes to the identifier, and that push, run as a
  script on the stack below it, leaves a true value; the code never reads the top of an empty
  stack on the way.
\<close>

theorem VerifyScript_P2SH:
  assumes "EvalScript E c [] sig t n h = (ok, stk, c1)" and "length stk < 1000"
  shows "fst (VerifyScript E c sig (SetDestination (ScriptID k)) t n True h) \<longleftrightarrow>
    ok \<and> (\<exists>script2 rest. stk = script2 # rest \<and> Hash160 E script2 = k \<and> IsPushOnly sig
      \<and> (\<exists>top below c2. EvalScript E c1 rest script2 t n h = (True, top # below, c2) \<and> CastToBool top))"
proof (cases stk)
  case Nil
  then show ?thesis
    using assms by (simp add: VerifyScript_def EvalScript_P2SH del: SetDestination.simps)
next
  case (Cons v r)
  obtain ok2 stk2 c2 where "EvalScript E c1 r v t n h = (ok2, stk2, c2)" by (metis prod_cases3)
  then show ?thesis
    using assms Cons P2SH_IsPayToScriptHash [of k]
    by (cases stk2) (auto simp: VerifyScript_def EvalScript_P2SH Let_def split: if_splits
      simp del: SetDestination.simps)
qed

theorem VerifyScript_P2SH_witness:
  "fst (VerifyScript openssl_ref empty_cache (push_data [OP_1]) (SetDestination (ScriptID (Hash160 openssl_ref [OP_1])))
        example_tx 0 True 0)"
proof -
  have e: "EvalScript openssl_ref empty_cache [] (push_data [OP_1]) example_tx 0 0 = (True, [[OP_1]], empty_cache)"
    using EvalScript_pushes [of "[[OP_1]]" "[]" openssl_ref empty_cache example_tx 0 0] by (simp add: push_data_def)
  have g: "getvch openssl_ref 1 = [1]" by code_simp
  have "EvalScript openssl_ref empty_cache [] [OP_1] example_tx 0 0 = (True, [[1]], empty_cache)"
    by (simp add: EvalScript_def eval_loop_step eval_step_def exec_op_def between_def disabled_ops_def push_def g)
  then show ?thesis
    using VerifyScript_P2SH [OF e] IsPushOnly_pushes [of "[[OP_1]]"] by (simp add: push_data_def del: SetDestination.simps)
qed

text \<open>
  Burned outputs stay burned: an output script that starts with \<open>OP_RETURN\<close>, which is how
  \<open>Solver\<close> recognises \<open>TX_NULL_DATA\<close>, can be spent by no input script, under any hash type and
  with any cache.
\<close>

theorem OP_RETURN_unspendable:
  "\<not> fst (VerifyScript E c sig (OP_RETURN # data) t n p2sh h)
   \<and> (length data \<le> 82 \<longrightarrow> Solver (OP_RETURN # data) = (True, TX_NULL_DATA, []))
   \<and> (Solver script = (True, TX_NULL_DATA, sols) \<longrightarrow>
        sols = [] \<and> \<not> fst (VerifyScript E c sig script t n p2sh h))"
proof -
  have un: "\<not> fst (VerifyScript E c sig (OP_RETURN # d) t n p2sh h)" for d
  proof -
    obtain ok stk c1 where 1: "EvalScript E c [] sig t n h = (ok, stk, c1)" by (metis prod_cases3)
    have "fst (EvalScript E c1 stk (OP_RETURN # d) t n h) = False" by (rule EvalScript_OP_RETURN)
    then show ?thesis by (auto simp: VerifyScript_def 1 Let_def split: prod.splits)
  qed
  have scan: "\<not> (fst (scan_templates s ts) \<and> fst (snd (scan_templates s ts)) = TX_NULL_DATA)"
    if "TX_NULL_DATA \<notin> fst ` set ts" for s ts
    using that by (induction s ts rule: scan_templates.induct) (auto simp: Let_def split: option.splits)
  have "TX_NULL_DATA \<notin> fst ` set mTemplates" by (simp add: mTemplates_def)
  note scan' = scan [OF this, of script]
  have "\<exists>d. script = OP_RETURN # d \<and> sols = []" if "Solver script = (True, TX_NULL_DATA, sols)"
    using that scan' by (cases script) (auto simp: Solver_def split: if_splits)
  then show ?thesis using un by (auto simp: Solver_def)
qed

theorem OP_RETURN_unspendable_witness:
  "Solver [OP_RETURN, 1, 7] = (True, TX_NULL_DATA, [])"
  using OP_RETURN_unspendable [of openssl_ref empty_cache "[]" "[1, 7]" example_tx 0 True 0] by simp

text \<open>
  C38. \<open>OP_CHECKMULTISIG\<close> decides what it should although it never goes back: the loop succeeds
  exactly when the signatures can be assigned, in order, to distinct positions of the key list
  at which they are valid.
\<close>

theorem multisig_loop_complete:
  assumes "cache_ok E c"
  shows "fst (multisig_loop (\<lambda>c s k. CheckSig E c s k code t n h) sigs keys c) \<longleftrightarrow>
    (\<exists>keys'. subseq keys' keys \<and> list_all2 (\<lambda>s k. sig_valid E s k code t n h) sigs keys')"
  using multisig_loop_match [OF assms, of code t n h sigs keys] multisig_match_iff by simp

theorem multisig_loop_complete_witness:
  "\<exists>sig. fst (multisig_loop (\<lambda>c s k. CheckSig openssl_ref c s k [] example_tx 0 0) [sig] [[4], [3]] empty_cache)"
proof -
  define sig where "sig = [3] @ word_le 32 (SignatureHash openssl_ref [] example_tx 0 1) @ [1]"
  have "sig_valid openssl_ref sig [3] [] example_tx 0 0"
    by (simp add: sig_valid_def SetPubKey_def Verify_def openssl_ref_def sig_def butlast_append)
  then have "\<exists>keys'. subseq keys' [[4], [3]] \<and> list_all2 (\<lambda>s k. sig_valid openssl_ref s k [] example_tx 0 0) [sig] keys'"
    by (intro exI [of _ "[[3]]"]) simp
  then show ?thesis
    using multisig_loop_complete [of openssl_ref empty_cache "[]" example_tx 0 0 "[sig]" "[[4], [3]]"] by auto
qed

text \<open>
  Script verification does not depend on what has been verified before: with two sound
  caches the verdict is the same, and the cache stays sound.
\<close>

theorem VerifyScript_cache:
  "cache_ok E c \<Longrightarrow> cache_ok E d \<Longrightarrow>
     fst (VerifyScript E c sig pk t n p2sh h) = fst (VerifyScript E d sig pk t n p2sh h)
     \<and> cache_ok E (snd (VerifyScript E c sig pk t n p2sh h))"
  by (rule VerifyScript_same)

theorem VerifyScript_cache_witness:
  "cache_ok openssl_ref (snd (VerifyScript openssl_ref empty_cache [OP_1] [OP_1] example_tx 0 True 0))"
  using VerifyScript_cache [of openssl_ref empty_cache empty_cache "[OP_1]" "[OP_1]" example_tx 0 True 0]
  by simp

section \<open>Limits\<close>

definition elems_ok :: "eval_state \<Rightarrow> bool" where
  "elems_ok st \<longleftrightarrow> (\<forall>v \<in> set (stack st) \<union> set (altstack st). length v \<le> 520)"

fun outcome_all :: "(eval_state \<Rightarrow> bool) \<Rightarrow> outcome \<Rightarrow> bool" where
  "outcome_all P (Done st) = P st"
| "outcome_all P (Failed st) = True"

lemma elems_ok_upd [simp]:
  "elems_ok (push v st) \<longleftrightarrow> length v \<le> 520 \<and> elems_ok st"
  "elems_ok (set_stack s st) \<longleftrightarrow> (\<forall>v \<in> set s \<union> set (altstack st). length v \<le> 520)"
  "elems_ok (st\<lparr> nOpCount := n \<rparr>) = elems_ok st" "elems_ok (st\<lparr> pbegincodehash := p \<rparr>) = elems_ok st"
  "elems_ok (st\<lparr> signatureCache := d \<rparr>) = elems_ok st" "elems_ok (st\<lparr> vfExec := f \<rparr>) = elems_ok st"
  by (auto simp: elems_ok_def push_def set_stack_def)

lemma op_control_elems: "elems_ok st \<Longrightarrow> outcome_all elems_ok (op_control opc f st)"
  by (auto simp: op_control_def Let_def elems_ok_def set_stack_def split: list.split)

lemma elems_nth: "elems_ok st \<Longrightarrow> i < length (stack st) \<Longrightarrow> length (stack st ! i) \<le> 520"
  by (simp add: elems_ok_def)

lemma op_pick_elems: "elems_ok st \<Longrightarrow> outcome_all elems_ok (op_pick E opc st)"
  by (auto simp: op_pick_def Let_def elems_ok_def set_stack_def nth_Cons'
      split: list.split option.split dest!: in_set_takeD dest: in_set_dropD intro: nth_mem)

lemma op_bitlogic_elems:
  "elems_ok st \<Longrightarrow> opc = OP_EQUAL \<or> opc = OP_EQUALVERIFY \<Longrightarrow> outcome_all elems_ok (op_bitlogic opc st)"
  by (auto simp: op_bitlogic_def Let_def elems_ok_def set_stack_def vch_bool_def vchTrue_def vchFalse_def
      split: list.split)

context openssl_mpi
begin

lemma length_getvch:
  assumes "\<bar>z\<bar> < 256 ^ k" and "k < 100"
  shows "length (getvch E z) \<le> Suc k"
proof -
  have "length (mpi_body z) < 2 ^ 31" using length_mpi_body [OF assms(1)] assms(2) by simp
  then show ?thesis using length_mpi_body [OF assms(1)] by (simp add: getvch_value)
qed

lemma mpi_value_bound: "\<bar>mpi_value b\<bar> < 256 ^ length b"
proof (cases b)
  case (Cons x r)
  have "int (be_nat (y # r)) < 256 ^ Suc (length r)" for y
    using be_nat_bound [of "y # r"] by (metis length_Cons of_nat_less_iff of_nat_numeral of_nat_power)
  then show ?thesis using Cons by (auto simp: mpi_value_def)
qed (simp add: mpi_value_def)

lemma CastToBigNum_bound: "CastToBigNum E v = Some bn \<Longrightarrow> \<bar>bn\<bar> < 256 ^ 4"
proof -
  assume a: "CastToBigNum E v = Some bn"
  then have l: "length v \<le> 4" by (auto simp: CastToBigNum_def nMaxNumSize_def split: if_splits)
  define z where "z = setvch E v"
  have "\<bar>z\<bar> < 256 ^ length v"
    using mpi_value_bound [of "rev v"] l by (simp add: z_def setvch_value)
  also have "\<dots> \<le> 256 ^ 4" using l by (rule power_increasing) simp
  finally have z: "\<bar>z\<bar> < 256 ^ 4" .
  then have "setvch E (getvch E z) = z"
    using length_mpi_body [OF z] by (intro setvch_getvch) simp
  then show ?thesis using a z by (auto simp: CastToBigNum_def z_def split: if_splits)
qed

lemma op_stack_elems:
  assumes "elems_ok st" and "length (stack st) \<le> 1000"
  shows "outcome_all elems_ok (op_stack E opc st)"
proof -
  have d: "length (getvch E (int (length (stack st)))) \<le> 520"
    using length_getvch [of "int (length (stack st))" 4] assms(2) by simp
  define depth where "depth = getvch E (int (length (stack st)))"
  show ?thesis
    unfolding op_stack_def depth_def [symmetric]
    using assms(1) d [folded depth_def] op_pick_elems [OF assms(1), of E opc]
    by (simp add: elems_ok_def push_def set_stack_def split: list.split)
qed

lemma op_size_elems:
  assumes "elems_ok st"
  shows "outcome_all elems_ok (op_splice E OP_SIZE st)"
proof -
  have "length (getvch E (int (length v))) \<le> 520" if "length v \<le> 520" for v :: bytes
    using length_getvch [of "int (length v)" 4] that by simp
  then show ?thesis using assms by (auto simp: op_splice_def elems_ok_def push_def split: list.split)
qed

lemma op_unary_elems:
  assumes "elems_ok st" and "opc \<notin> set disabled_ops"
  shows "outcome_all elems_ok (op_unary E opc st)"
proof -
  have "length (getvch E (num_unary opc bn)) \<le> 520" if "CastToBigNum E v = Some bn" for v bn
  proof -
    have "\<bar>bn\<bar> < 256 ^ 4" using CastToBigNum_bound [OF that] .
    then have "\<bar>num_unary opc bn\<bar> < 256 ^ 5"
      using assms(2) by (auto simp: num_unary_def disabled_ops_def)
    from length_getvch [OF this] show ?thesis by simp
  qed
  then show ?thesis using assms(1) by (auto simp: op_unary_def elems_ok_def set_stack_def split: list.split option.split)
qed

lemma op_binary_elems:
  assumes "elems_ok st" and "opc \<notin> set disabled_ops"
  shows "outcome_all elems_ok (op_binary E opc st)"
proof -
  have "length (getvch E z) \<le> 520"
    if "CastToBigNum E v1 = Some bn1" "CastToBigNum E v2 = Some bn2" "num_binary E opc bn1 bn2 = Some z" for v1 v2 bn1 bn2 z
  proof -
    have "\<bar>bn1\<bar> < 256 ^ 4" "\<bar>bn2\<bar> < 256 ^ 4" using CastToBigNum_bound that by blast+
    then have "\<bar>z\<bar> < 256 ^ 5"
      using assms(2) that(3) by (auto simp: num_binary_def disabled_ops_def split: if_splits)
    from length_getvch [OF this] show ?thesis by simp
  qed
  then show ?thesis
    using assms(1) by (auto simp: op_binary_def elems_ok_def set_stack_def Let_def split: list.split option.split)
qed

end

lemma op_within_elems: "elems_ok st \<Longrightarrow> outcome_all elems_ok (op_within E st)"
  by (auto simp: op_within_def elems_ok_def set_stack_def vch_bool_def vchTrue_def vchFalse_def
      split: list.split option.split)

lemma op_hashing_elems: "openssl_digest E \<Longrightarrow> elems_ok st \<Longrightarrow> outcome_all elems_ok (op_hashing E opc st)"
  by (auto simp: op_hashing_def elems_ok_def set_stack_def Let_def openssl_digest_def split: list.split)

lemma vch_bool_le [simp]: "length (vch_bool b) \<le> 520"
  by (simp add: vch_bool_def vchTrue_def vchFalse_def)

lemma op_checksig_elems: "elems_ok st \<Longrightarrow> outcome_all elems_ok (op_checksig E t n h opc st)"
  by (auto simp: op_checksig_def elems_ok_def set_stack_def Let_def split: list.split prod.split)

lemma op_checkmultisig_elems: "elems_ok st \<Longrightarrow> outcome_all elems_ok (op_checkmultisig E t n h opc st)"
  by (auto simp: op_checkmultisig_def elems_ok_def set_stack_def Let_def split: list.split prod.split option.split
      dest!: in_set_dropD)

lemma exec_op_elems:
  assumes "openssl_mpi E" and "openssl_digest E" and "elems_ok st" and "length (stack st) \<le> 1000"
    and "opc \<notin> set disabled_ops"
  shows "outcome_all elems_ok (exec_op E t n h pc f opc st)"
proof -
  have v: "length (getvch E (uint opc - 80)) \<le> 520"
  proof -
    have "uint opc < 2 ^ LENGTH(8)" by (rule unsigned_less)
    then have "uint opc < 256" by simp
    moreover have "0 \<le> uint opc" by simp
    ultimately have "\<bar>uint opc - 80\<bar> < 256" by linarith
    then have "\<bar>uint opc - 80\<bar> < 256 ^ 4" by simp
    from openssl_mpi.length_getvch [OF assms(1) this] show ?thesis by simp
  qed
  have sz: "outcome_all elems_ok (op_splice E opc st)" if "between OP_CAT opc OP_SIZE"
  proof -
    have "opc = OP_SIZE"
      using that assms(5) by (auto simp: between_def disabled_ops_def word_le_nat_alt word_unat_eq_iff)
    then show ?thesis using openssl_mpi.op_size_elems [OF assms(1,3)] by simp
  qed
  have eq: "outcome_all elems_ok (op_bitlogic opc st)" if "between OP_INVERT opc OP_EQUALVERIFY"
  proof -
    have "opc = OP_EQUAL \<or> opc = OP_EQUALVERIFY"
      using that assms(5) by (auto simp: between_def disabled_ops_def word_le_nat_alt word_unat_eq_iff)
    then show ?thesis using op_bitlogic_elems [OF assms(3)] by simp
  qed
  show ?thesis
    unfolding exec_op_def
    using assms(3) v sz eq op_control_elems [OF assms(3)] op_within_elems [OF assms(3)]
      op_hashing_elems [OF assms(2,3)] op_checksig_elems [OF assms(3)] op_checkmultisig_elems [OF assms(3)]
      openssl_mpi.op_stack_elems [OF assms(1,3,4)] openssl_mpi.op_unary_elems [OF assms(1,3,5)]
      openssl_mpi.op_binary_elems [OF assms(1,3,5)]
    by simp
qed

definition limits_ok :: "eval_state \<Rightarrow> bool" where
  "limits_ok st \<longleftrightarrow> elems_ok st \<and> length (stack st) + length (altstack st) \<le> 1000"

lemma eval_step_limits:
  assumes "openssl_mpi E" and "openssl_digest E" and "limits_ok st"
  shows "outcome_all limits_ok (eval_step E t n h pc opc v st)"
proof -
  define st' where "st' = (if OP_16 < opc then st\<lparr> nOpCount := nOpCount st + 1 \<rparr> else st)"
  have st': "elems_ok st'" "length (stack st') \<le> 1000"
    using assms(3) by (auto simp: st'_def limits_ok_def)
  define g where "g = (if False \<notin> set (vfExec st) \<and> opc \<le> OP_PUSHDATA4 then Done (push v st')
     else if False \<notin> set (vfExec st) \<or> between OP_IF opc OP_ENDIF
     then exec_op E t n h pc (False \<notin> set (vfExec st)) opc st' else Done st')"
  have g: "outcome_all elems_ok g" if "length v \<le> 520" "opc \<notin> set disabled_ops"
    unfolding g_def using st' that exec_op_elems [OF assms(1,2) st'] by auto
  have eq: "eval_step E t n h pc opc v st =
    (if length v > 520 then Failed st
     else if OP_16 < opc \<and> nOpCount st' > 201 then Failed st'
     else if opc \<in> set disabled_ops then Failed st'
     else (case g of Failed s \<Rightarrow> Failed s
        | Done s \<Rightarrow> if length (stack s) + length (altstack s) > 1000 then Failed s else Done s))"
    unfolding eval_step_def g_def st'_def Let_def by simp
  show ?thesis
    unfolding eq using g by (cases g) (auto simp: limits_ok_def)
qed

text \<open>The operation count never goes down, and stays within 201.\<close>

definition counted :: "int \<Rightarrow> eval_state \<Rightarrow> bool" where
  "counted k st \<longleftrightarrow> k \<le> nOpCount st \<and> nOpCount st \<le> 201"

lemma counted_upd [simp]:
  "counted k (push v st) = counted k st" "counted k (set_stack s st) = counted k st"
  "counted k (st\<lparr> stack := s \<rparr>) = counted k st" "counted k (st\<lparr> altstack := a \<rparr>) = counted k st"
  "counted k (st\<lparr> pbegincodehash := p \<rparr>) = counted k st"
  "counted k (st\<lparr> signatureCache := d \<rparr>) = counted k st" "counted k (st\<lparr> vfExec := f \<rparr>) = counted k st"
  by (simp_all add: counted_def push_def set_stack_def)

lemma op_checkmultisig_counted: "counted k st \<Longrightarrow> outcome_all (counted k) (op_checkmultisig E t n h opc st)"
  by (auto simp: op_checkmultisig_def Let_def split: list.split prod.split option.split) (auto simp: counted_def)

lemma exec_op_counted:
  assumes "counted k st"
  shows "outcome_all (counted k) (exec_op E t n h pc f opc st)"
proof -
  note splits = list.split option.split prod.split
  have "outcome_all (counted k) (op_control opc f st)"
    using assms by (auto simp: op_control_def Let_def split: splits)
  moreover have "outcome_all (counted k) (op_pick E opc st)"
    using assms by (auto simp: op_pick_def Let_def split: splits)
  moreover have "outcome_all (counted k) (op_stack E opc st)"
    using assms calculation(2) by (auto simp: op_stack_def Let_def split: splits)
  moreover have "outcome_all (counted k) (op_splice E opc st)"
    using assms by (auto simp: op_splice_def Let_def split: splits)
  moreover have "outcome_all (counted k) (op_bitlogic opc st)"
    using assms by (auto simp: op_bitlogic_def Let_def split: splits)
  moreover have "outcome_all (counted k) (op_unary E opc st)"
    using assms by (auto simp: op_unary_def Let_def split: splits)
  moreover have "outcome_all (counted k) (op_binary E opc st)"
    using assms by (auto simp: op_binary_def Let_def split: splits)
  moreover have "outcome_all (counted k) (op_within E st)"
    using assms by (auto simp: op_within_def Let_def split: splits)
  moreover have "outcome_all (counted k) (op_hashing E opc st)"
    using assms by (auto simp: op_hashing_def Let_def split: splits)
  moreover have "outcome_all (counted k) (op_checksig E t n h opc st)"
    using assms by (auto simp: op_checksig_def Let_def split: splits)
  moreover note op_checkmultisig_counted [OF assms, of E t n h opc]
  ultimately show ?thesis unfolding exec_op_def using assms by simp
qed

lemma eval_step_counted:
  assumes "0 \<le> k" and "counted k st" and "eval_step E t n h pc opc v st = Done st'"
  shows "counted (k + (if OP_16 < opc then 1 else 0)) st'"
proof -
  define st1 where "st1 = (if OP_16 < opc then st\<lparr> nOpCount := nOpCount st + 1 \<rparr> else st)"
  let ?k = "k + (if OP_16 < opc then 1 else 0)"
  define g where "g = (if False \<notin> set (vfExec st) \<and> opc \<le> OP_PUSHDATA4 then Done (push v st1)
     else if False \<notin> set (vfExec st) \<or> between OP_IF opc OP_ENDIF
     then exec_op E t n h pc (False \<notin> set (vfExec st)) opc st1 else Done st1)"
  have fin: "\<not> (OP_16 < opc \<and> nOpCount st1 > 201)" "g = Done st'"
    using assms(3) unfolding eval_step_def g_def st1_def Let_def
    by (auto split: if_splits outcome.splits)
  then have "counted ?k st1" using assms(2) by (auto simp: st1_def counted_def)
  then have "outcome_all (counted ?k) g" unfolding g_def using exec_op_counted [of ?k st1] by simp
  then show ?thesis using fin(2) by simp
qed

subsection \<open>The states of a run\<close>

text \<open>
  The states in which the loop of \<open>EvalScript\<close> stands between two instructions: what is left of the
  script, the state, and the opcodes that were read to get there.
\<close>

definition eval_start :: "CSignatureCache \<Rightarrow> bytes list \<Rightarrow> bytes \<Rightarrow> eval_state" where
  "eval_start c stk script = \<lparr> stack = stk, altstack = [], vfExec = [], nOpCount = 0,
     pbegincodehash = script, signatureCache = c \<rparr>"

inductive eval_reach :: "openssl \<Rightarrow> CTransaction \<Rightarrow> nat \<Rightarrow> int \<Rightarrow> bytes \<Rightarrow> eval_state
    \<Rightarrow> opcodetype list \<Rightarrow> bytes \<Rightarrow> eval_state \<Rightarrow> bool"
  for E t n h script st0 where
  start: "eval_reach E t n h script st0 [] script st0"
| step: "eval_reach E t n h script st0 ops pc st \<Longrightarrow> GetOp2 pc = Some (opc, v, r)
    \<Longrightarrow> eval_step E t n h r opc v st = Done st' \<Longrightarrow> eval_reach E t n h script st0 (ops @ [opc]) r st'"

lemma eval_reach_loop:
  "eval_reach E t n h script st0 ops pc st \<Longrightarrow> eval_loop E t n h script st0 = eval_loop E t n h pc st"
  by (induction rule: eval_reach.induct) (simp_all add: eval_loop_step)

lemma eval_reach_limits:
  assumes "openssl_mpi E" and "openssl_digest E" and "limits_ok st0"
  shows "eval_reach E t n h script st0 ops pc st \<Longrightarrow> limits_ok st"
proof (induction rule: eval_reach.induct)
  case (step ops pc st opc v r st')
  then show ?case using eval_step_limits [OF assms(1,2) step.IH, of t n h r opc v] by simp
qed (rule assms(3))

lemma eval_reach_counted:
  assumes "nOpCount st0 = 0"
  shows "eval_reach E t n h script st0 ops pc st \<Longrightarrow> counted (int (length (filter ((<) OP_16) ops))) st"
proof (induction rule: eval_reach.induct)
  case (step ops pc st opc v r st')
  from eval_step_counted [OF _ step.IH step.hyps(3)] show ?case by (cases "OP_16 < opc") (simp_all add: add.commute)
qed (simp add: counted_def assms)

text \<open>A loop that ends normally is a run to the end of the script.\<close>

lemma eval_loop_reach:
  "eval_loop E t n h pc st = Done st' \<Longrightarrow> eval_reach E t n h script st0 ops pc st
     \<Longrightarrow> \<exists>ops'. eval_reach E t n h script st0 ops' [] st'"
proof (induction "length pc" arbitrary: pc st ops rule: less_induct)
  case less
  show ?case
  proof (cases "pc = []")
    case True
    then show ?thesis using less.prems by (auto simp: eval_loop.simps [of _ _ _ _ "[]"])
  next
    case False
    then obtain opc v r where g: "GetOp2 pc = Some (opc, v, r)"
      using less.prems(1) by (subst (asm) eval_loop.simps) (auto split: option.splits)
    then obtain st1 where st1: "eval_step E t n h r opc v st = Done st1" "eval_loop E t n h r st1 = Done st'"
      using less.prems(1) by (auto simp: eval_loop_step split: outcome.splits)
    show ?thesis
      by (rule less.hyps [OF GetOp2_shorter [OF g] st1(2) eval_reach.step [OF less.prems(2) g st1(1)]])
  qed
qed

lemma EvalScript_reach:
  assumes "EvalScript E c stk script t n h = (True, stk', c')"
  shows "length script \<le> 10000 \<and> (\<exists>ops st. eval_reach E t n h script (eval_start c stk script) ops [] st
    \<and> stack st = stk' \<and> vfExec st = [] \<and> signatureCache st = c')"
proof -
  obtain st where st: "eval_loop E t n h script (eval_start c stk script) = Done st" "length script \<le> 10000"
      "stack st = stk'" "vfExec st = []" "signatureCache st = c'"
    using assms by (auto simp: EvalScript_def eval_start_def split: if_splits outcome.splits)
  from eval_loop_reach [OF st(1) eval_reach.start] st show ?thesis by blast
qed

lemma EvalScript_limits:
  assumes "openssl_mpi E" and "openssl_digest E"
    and "\<forall>v \<in> set stk. length v \<le> 520" and "length stk \<le> 1000"
  shows "eval_reach E t n h script (eval_start c stk script) ops pc st \<Longrightarrow>
      length (stack st) + length (altstack st) \<le> 1000
      \<and> (\<forall>v \<in> set (stack st) \<union> set (altstack st). length v \<le> 520)
      \<and> int (length (filter ((<) OP_16) ops)) \<le> nOpCount st \<and> nOpCount st \<le> 201"
proof -
  have "limits_ok (eval_start c stk script)" using assms(3,4) by (simp add: limits_ok_def elems_ok_def eval_start_def)
  moreover have "nOpCount (eval_start c stk script) = 0" by (simp add: eval_start_def)
  moreover assume "eval_reach E t n h script (eval_start c stk script) ops pc st"
  ultimately show ?thesis
    using eval_reach_limits [OF assms(1,2)] eval_reach_counted unfolding limits_ok_def elems_ok_def counted_def by blast
qed

text \<open>
  C40. The resource limits hold throughout a run, from a stack within the limits: whenever the loop of
  \<open>EvalScript\<close> stands between two instructions, the two stacks together have at most 1,000 elements,
  each of at most 520 bytes, and the opcodes above \<open>OP_16\<close> that were read, executed or not, are at
  most \<open>nOpCount\<close>, which is at most 201. What is left of the run depends only on the state reached; and
  a run that succeeds is of a script of at most 10,000 bytes and ends in such a state, with the whole
  script read, every \<open>OP_IF\<close> closed and the stack that is returned.
\<close>

theorem EvalScript_stack_limits:
  assumes "openssl_mpi E" and "openssl_digest E"
    and "\<forall>v \<in> set stk. length v \<le> 520" and "length stk \<le> 1000"
  shows "(\<forall>ops pc st. eval_reach E t n h script (eval_start c stk script) ops pc st \<longrightarrow>
      length (stack st) + length (altstack st) \<le> 1000
      \<and> (\<forall>v \<in> set (stack st) \<union> set (altstack st). length v \<le> 520)
      \<and> int (length (filter ((<) OP_16) ops)) \<le> nOpCount st \<and> nOpCount st \<le> 201
      \<and> eval_loop E t n h script (eval_start c stk script) = eval_loop E t n h pc st)
    \<and> (EvalScript E c stk script t n h = (True, stk', c') \<longrightarrow>
      length script \<le> 10000
      \<and> (\<exists>ops st. eval_reach E t n h script (eval_start c stk script) ops [] st
           \<and> stack st = stk' \<and> vfExec st = [] \<and> signatureCache st = c'))"
  by (rule conjI [OF allI [OF allI [OF allI [OF impI]]] impI], use EvalScript_limits [OF assms] eval_reach_loop in metis)
    (rule EvalScript_reach)

theorem EvalScript_stack_limits_witness:
  "EvalScript openssl_ref empty_cache [] (push_data [7] @ push_data [8]) example_tx 0 0 = (True, [[8], [7]], empty_cache)
   \<and> length (push_data [7] @ push_data [8]) \<le> 10000
   \<and> (\<exists>ops st. eval_reach openssl_ref example_tx 0 0 (push_data [7] @ push_data [8])
         (eval_start empty_cache [] (push_data [7] @ push_data [8])) ops [] st
       \<and> stack st = [[8], [7]] \<and> length (filter ((<) OP_16) ops) \<le> 201)"
proof -
  have run: "EvalScript openssl_ref empty_cache [] (push_data [7] @ push_data [8]) example_tx 0 0 = (True, [[8], [7]], empty_cache)"
    using EvalScript_pushes [of "[[7], [8]]" "[]" openssl_ref empty_cache example_tx 0 0]
    by (simp add: push_data_def)
  note limits = EvalScript_stack_limits [OF ref_bn.openssl_mpi_axioms ref_digest.openssl_digest_axioms, of "[]"
      example_tx 0 0 "push_data [7] @ push_data [8]" empty_cache "[[8], [7]]" empty_cache]
  from limits run obtain ops st where st: "length (push_data [7] @ push_data [8]) \<le> 10000"
      "eval_reach openssl_ref example_tx 0 0 (push_data [7] @ push_data [8])
         (eval_start empty_cache [] (push_data [7] @ push_data [8])) ops [] st" "stack st = [[8], [7]]"
    by auto
  then have "int (length (filter ((<) OP_16) ops)) \<le> 201" using limits by force
  then show ?thesis using run st by auto
qed

end
