(* ===== verification/Scrypt.thy ===== *)
theory Scrypt
  imports Externals
begin

text \<open>
  The proof-of-work hash of src/src/scrypt.c: HMAC-SHA256 and PBKDF2 over OpenSSL's SHA-256, the
  Salsa20/8 core and the memory-hard mixing loop. An incremental hash context is the list of
  bytes fed to it so far. The sixteen local variables of \<open>xor_salsa8\<close> are a tuple, the arrays
  \<open>X\<close> and \<open>V\<close> are lists of words and of 32-word rows.
\<close>

section \<open>HMAC and PBKDF2\<close>

definition be32enc :: "u32 \<Rightarrow> bytes" where
  "be32enc x = [ucast (drop_bit 24 x AND 0xff), ucast (drop_bit 16 x AND 0xff),
                ucast (drop_bit 8 x AND 0xff), ucast (x AND 0xff)]"

definition le32dec :: "bytes \<Rightarrow> u32" where
  "le32dec p = ucast (p ! 0) + push_bit 8 (ucast (p ! 1)) + push_bit 16 (ucast (p ! 2))
     + push_bit 24 (ucast (p ! 3))"

definition le32enc :: "u32 \<Rightarrow> bytes" where
  "le32enc x = [ucast (x AND 0xff), ucast (drop_bit 8 x AND 0xff),
                ucast (drop_bit 16 x AND 0xff), ucast (drop_bit 24 x AND 0xff)]"

record HMAC_SHA256_CTX =
  ictx :: bytes
  octx :: bytes

definition xor_pad :: "byte \<Rightarrow> bytes \<Rightarrow> bytes" where
  "xor_pad c K = map (\<lambda>i. if i < length K then c XOR K ! i else c) [0..<64]"

definition HMAC_SHA256_Init :: "openssl \<Rightarrow> bytes \<Rightarrow> HMAC_SHA256_CTX" where
  "HMAC_SHA256_Init E K =
     (let K = (if length K > 64 then SHA256 E K else K) in
      \<lparr> ictx = xor_pad 0x36 K, octx = xor_pad 0x5c K \<rparr>)"

definition HMAC_SHA256_Update :: "HMAC_SHA256_CTX \<Rightarrow> bytes \<Rightarrow> HMAC_SHA256_CTX" where
  "HMAC_SHA256_Update ctx b = ctx\<lparr> ictx := ictx ctx @ b \<rparr>"

definition HMAC_SHA256_Final :: "openssl \<Rightarrow> HMAC_SHA256_CTX \<Rightarrow> bytes" where
  "HMAC_SHA256_Final E ctx = (let ihash = SHA256 E (ictx ctx) in SHA256 E (octx ctx @ ihash))"

text \<open>The inner loop: \<open>c - 1\<close> further applications, accumulated into \<open>T\<close>.\<close>

fun pbkdf2_iter :: "openssl \<Rightarrow> bytes \<Rightarrow> nat \<Rightarrow> bytes \<Rightarrow> bytes \<Rightarrow> bytes" where
  "pbkdf2_iter E passwd 0 U T = T"
| "pbkdf2_iter E passwd (Suc j) U T =
     (let U = HMAC_SHA256_Final E (HMAC_SHA256_Update (HMAC_SHA256_Init E passwd) U) in
      pbkdf2_iter E passwd j U (map2 (\<lambda>t u. t XOR u) T U))"

function pbkdf2_blocks :: "openssl \<Rightarrow> bytes \<Rightarrow> HMAC_SHA256_CTX \<Rightarrow> nat \<Rightarrow> nat \<Rightarrow> nat \<Rightarrow> bytes" where
  "pbkdf2_blocks E passwd PShctx c dkLen i =
     (if i * 32 < dkLen then
        (let ivec = be32enc (word_of_nat (i + 1));
             U = HMAC_SHA256_Final E (HMAC_SHA256_Update PShctx ivec);
             T = pbkdf2_iter E passwd (c - 1) U U;
             clen = min 32 (dkLen - i * 32) in
         take clen T @ pbkdf2_blocks E passwd PShctx c dkLen (i + 1))
      else [])"
  by pat_completeness auto
termination
  by (relation "measure (\<lambda>(E, p, h, c, dkLen, i). dkLen - i * 32)") auto

declare pbkdf2_blocks.simps [simp del]

definition PBKDF2_SHA256 :: "openssl \<Rightarrow> bytes \<Rightarrow> bytes \<Rightarrow> nat \<Rightarrow> nat \<Rightarrow> bytes" where
  "PBKDF2_SHA256 E passwd salt c dkLen =
     pbkdf2_blocks E passwd (HMAC_SHA256_Update (HMAC_SHA256_Init E passwd) salt) c dkLen 0"

section \<open>Salsa20/8 and mixing\<close>

definition ROTL :: "u32 \<Rightarrow> nat \<Rightarrow> u32" where
  "ROTL a b = push_bit b a OR drop_bit (32 - b) a"

type_synonym salsa_vars = "u32 \<times> u32 \<times> u32 \<times> u32 \<times> u32 \<times> u32 \<times> u32 \<times> u32
  \<times> u32 \<times> u32 \<times> u32 \<times> u32 \<times> u32 \<times> u32 \<times> u32 \<times> u32"

definition vars_of :: "u32 list \<Rightarrow> salsa_vars" where
  "vars_of B = (B ! 0, B ! 1, B ! 2, B ! 3, B ! 4, B ! 5, B ! 6, B ! 7,
     B ! 8, B ! 9, B ! 10, B ! 11, B ! 12, B ! 13, B ! 14, B ! 15)"

definition list_of :: "salsa_vars \<Rightarrow> u32 list" where
  "list_of = (\<lambda>(x00, x01, x02, x03, x04, x05, x06, x07, x08, x09, x10, x11, x12, x13, x14, x15).
     [x00, x01, x02, x03, x04, x05, x06, x07, x08, x09, x10, x11, x12, x13, x14, x15])"

definition salsa_rounds :: "salsa_vars \<Rightarrow> salsa_vars" where
  "salsa_rounds = (\<lambda>(x00, x01, x02, x03, x04, x05, x06, x07, x08, x09, x10, x11, x12, x13, x14, x15).
     let x04 = x04 XOR ROTL (x00 + x12) 7; x09 = x09 XOR ROTL (x05 + x01) 7;
         x14 = x14 XOR ROTL (x10 + x06) 7; x03 = x03 XOR ROTL (x15 + x11) 7;
         x08 = x08 XOR ROTL (x04 + x00) 9; x13 = x13 XOR ROTL (x09 + x05) 9;
         x02 = x02 XOR ROTL (x14 + x10) 9; x07 = x07 XOR ROTL (x03 + x15) 9;
         x12 = x12 XOR ROTL (x08 + x04) 13; x01 = x01 XOR ROTL (x13 + x09) 13;
         x06 = x06 XOR ROTL (x02 + x14) 13; x11 = x11 XOR ROTL (x07 + x03) 13;
         x00 = x00 XOR ROTL (x12 + x08) 18; x05 = x05 XOR ROTL (x01 + x13) 18;
         x10 = x10 XOR ROTL (x06 + x02) 18; x15 = x15 XOR ROTL (x11 + x07) 18;
         x01 = x01 XOR ROTL (x00 + x03) 7; x06 = x06 XOR ROTL (x05 + x04) 7;
         x11 = x11 XOR ROTL (x10 + x09) 7; x12 = x12 XOR ROTL (x15 + x14) 7;
         x02 = x02 XOR ROTL (x01 + x00) 9; x07 = x07 XOR ROTL (x06 + x05) 9;
         x08 = x08 XOR ROTL (x11 + x10) 9; x13 = x13 XOR ROTL (x12 + x15) 9;
         x03 = x03 XOR ROTL (x02 + x01) 13; x04 = x04 XOR ROTL (x07 + x06) 13;
         x09 = x09 XOR ROTL (x08 + x11) 13; x14 = x14 XOR ROTL (x13 + x12) 13;
         x00 = x00 XOR ROTL (x03 + x02) 18; x05 = x05 XOR ROTL (x04 + x07) 18;
         x10 = x10 XOR ROTL (x09 + x08) 18; x15 = x15 XOR ROTL (x14 + x13) 18
     in (x00, x01, x02, x03, x04, x05, x06, x07, x08, x09, x10, x11, x12, x13, x14, x15))"

definition xor_salsa8 :: "u32 list \<Rightarrow> u32 list \<Rightarrow> u32 list" where
  "xor_salsa8 B Bx =
     (let B = map2 (\<lambda>b x. b XOR x) B Bx;
          x = (salsa_rounds ^^ 4) (vars_of B) in
      map2 (+) B (list_of x))"

text \<open>The two calls that mix the halves of \<open>X\<close>.\<close>

definition mix_halves :: "u32 list \<Rightarrow> u32 list" where
  "mix_halves X =
     (let lo = xor_salsa8 (take 16 X) (drop 16 X);
          hi = xor_salsa8 (drop 16 X) lo in lo @ hi)"

fun fill_V :: "nat \<Rightarrow> u32 list \<Rightarrow> u32 list list \<Rightarrow> u32 list \<times> u32 list list" where
  "fill_V 0 X V = (X, V)"
| "fill_V (Suc i) X V = fill_V i (mix_halves X) (V @ [X])"

fun mix_V :: "nat \<Rightarrow> u32 list \<Rightarrow> u32 list list \<Rightarrow> u32 list" where
  "mix_V 0 X V = X"
| "mix_V (Suc i) X V =
     (let j = unat (X ! 16 AND 1023) in mix_V i (mix_halves (map2 (\<lambda>x v. x XOR v) X (V ! j))) V)"

definition scrypt_1024_1_1_256 :: "openssl \<Rightarrow> bytes \<Rightarrow> bytes" where
  "scrypt_1024_1_1_256 E input =
     (let input = take 80 input;
          B = PBKDF2_SHA256 E input input 1 128;
          X = map (\<lambda>k. le32dec (drop (4 * k) B)) [0..<32];
          (X, V) = fill_V 1024 X [];
          X = mix_V 1024 X V;
          B = concat (map le32enc X) in
      PBKDF2_SHA256 E input B 1 32)"

section \<open>The published algorithm\<close>

text \<open>Salsa20/8, scryptBlockMix and scryptROMix as RFC 7914 gives them for r = 1, and HMAC
  and PBKDF2 with one iteration as RFC 2104 and RFC 2898 give them.\<close>

definition quarterround :: "u32 \<times> u32 \<times> u32 \<times> u32 \<Rightarrow> u32 \<times> u32 \<times> u32 \<times> u32" where
  "quarterround = (\<lambda>(y0, y1, y2, y3).
     let z1 = y1 XOR ROTL (y0 + y3) 7; z2 = y2 XOR ROTL (z1 + y0) 9;
         z3 = y3 XOR ROTL (z2 + z1) 13; z0 = y0 XOR ROTL (z3 + z2) 18 in (z0, z1, z2, z3))"

definition columnround :: "salsa_vars \<Rightarrow> salsa_vars" where
  "columnround = (\<lambda>(x0, x1, x2, x3, x4, x5, x6, x7, x8, x9, x10, x11, x12, x13, x14, x15).
     let (y0, y4, y8, y12) = quarterround (x0, x4, x8, x12);
         (y5, y9, y13, y1) = quarterround (x5, x9, x13, x1);
         (y10, y14, y2, y6) = quarterround (x10, x14, x2, x6);
         (y15, y3, y7, y11) = quarterround (x15, x3, x7, x11) in
     (y0, y1, y2, y3, y4, y5, y6, y7, y8, y9, y10, y11, y12, y13, y14, y15))"

definition rowround :: "salsa_vars \<Rightarrow> salsa_vars" where
  "rowround = (\<lambda>(x0, x1, x2, x3, x4, x5, x6, x7, x8, x9, x10, x11, x12, x13, x14, x15).
     let (y0, y1, y2, y3) = quarterround (x0, x1, x2, x3);
         (y5, y6, y7, y4) = quarterround (x5, x6, x7, x4);
         (y10, y11, y8, y9) = quarterround (x10, x11, x8, x9);
         (y15, y12, y13, y14) = quarterround (x15, x12, x13, x14) in
     (y0, y1, y2, y3, y4, y5, y6, y7, y8, y9, y10, y11, y12, y13, y14, y15))"

definition salsa20_8 :: "u32 list \<Rightarrow> u32 list" where
  "salsa20_8 x = map2 (+) x (list_of (((rowround \<circ> columnround) ^^ 4) (vars_of x)))"

definition xor_words :: "u32 list \<Rightarrow> u32 list \<Rightarrow> u32 list" where
  "xor_words = map2 (\<lambda>a b. a XOR b)"

definition block_mix :: "u32 list \<Rightarrow> u32 list" where
  "block_mix B =
     (let Y0 = salsa20_8 (xor_words (drop 16 B) (take 16 B));
          Y1 = salsa20_8 (xor_words Y0 (drop 16 B)) in Y0 @ Y1)"

definition ro_mix :: "nat \<Rightarrow> u32 list \<Rightarrow> u32 list" where
  "ro_mix N B =
     (let V = (\<lambda>i. (block_mix ^^ i) B) in
      ((\<lambda>X. block_mix (xor_words X (V (unat (X ! 16) mod N)))) ^^ N) ((block_mix ^^ N) B))"

definition hmac_sha256 :: "openssl \<Rightarrow> bytes \<Rightarrow> bytes \<Rightarrow> bytes" where
  "hmac_sha256 E K m =
     (let K = (if length K > 64 then SHA256 E K else K); K0 = K @ replicate (64 - length K) 0 in
      SHA256 E (map (\<lambda>b. 0x5c XOR b) K0 @ SHA256 E (map (\<lambda>b. 0x36 XOR b) K0 @ m)))"

definition pbkdf2_once :: "openssl \<Rightarrow> bytes \<Rightarrow> bytes \<Rightarrow> nat \<Rightarrow> bytes" where
  "pbkdf2_once E P S blocks =
     concat (map (\<lambda>i. hmac_sha256 E P (S @ nat_be 4 (i + 1))) [0..<blocks])"

lemma salsa_rounds_eq: "salsa_rounds v = rowround (columnround v)"
  by (simp add: salsa_rounds_def rowround_def columnround_def quarterround_def Let_def case_prod_unfold)

lemma length_list_of [simp]: "length (list_of v) = 16"
  by (simp add: list_of_def case_prod_unfold)

lemma xor_salsa8_eq: "xor_salsa8 B Bx = salsa20_8 (xor_words B Bx)"
proof -
  have "salsa_rounds = rowround \<circ> columnround" by (rule ext) (simp add: salsa_rounds_eq)
  then show ?thesis by (simp add: xor_salsa8_def salsa20_8_def xor_words_def Let_def)
qed

lemma xor_words_commute: "xor_words a b = xor_words b a"
  unfolding xor_words_def
  by (intro nth_equalityI) (auto simp: xor.commute)

lemma mix_halves_eq: "mix_halves X = block_mix X"
  unfolding mix_halves_def block_mix_def xor_salsa8_eq Let_def
  by (metis xor_words_commute)

lemma fill_V_eq: "fill_V n X V = ((block_mix ^^ n) X, V @ map (\<lambda>i. (block_mix ^^ i) X) [0..<n])"
proof (induction n arbitrary: X V)
  case (Suc n)
  have "map (\<lambda>i. (block_mix ^^ i) X) [0..<Suc n] = X # map (\<lambda>i. (block_mix ^^ i) (block_mix X)) [0..<n]"
    by (simp add: map_upt_Suc funpow_swap1 del: upt_Suc)
  then show ?case by (simp add: Suc mix_halves_eq funpow_swap1 del: upt_Suc)
qed simp

lemma mix_V_eq:
  assumes "length V = 1024"
  shows "mix_V n X V = ((\<lambda>X. block_mix (xor_words X (V ! (unat (X ! 16) mod 1024)))) ^^ n) X"
proof (induction n arbitrary: X)
  case (Suc n)
  have "unat (x AND 1023) = unat x mod 1024" for x :: u32
  proof -
    have "x AND 1023 = take_bit 10 x" by (simp add: take_bit_eq_mask mask_eq_exp_minus_1)
    then show ?thesis by (simp add: unsigned_take_bit_eq) (simp add: take_bit_eq_mod)
  qed
  then show ?case by (simp add: Suc mix_halves_eq xor_words_def funpow_Suc_right del: funpow.simps)
qed simp


lemma xor_pad_eq: "length K \<le> 64 \<Longrightarrow> xor_pad c K = map (\<lambda>b. c XOR b) (K @ replicate (64 - length K) 0)"
  by (auto simp: xor_pad_def list_eq_iff_nth_eq nth_append)

lemma be32enc_eq: "be32enc x = nat_be 4 (unat x)"
proof -
  have b: "ucast (drop_bit k x AND 0xff) = (word_of_nat (unat x div 2 ^ k) :: byte)" for k
  proof -
    have "drop_bit k x AND 0xff = take_bit 8 (drop_bit k x)"
      by (simp add: take_bit_eq_mask mask_eq_exp_minus_1)
    then have "unat (ucast (drop_bit k x AND 0xff) :: byte) = unat (word_of_nat (unat x div 2 ^ k) :: byte)"
      by (simp add: unsigned_ucast_eq unsigned_take_bit_eq unsigned_drop_bit_eq unat_of_nat)
        (use unat_lt_2p [of x] in \<open>simp add: take_bit_eq_mod drop_bit_eq_div\<close>)
    then show ?thesis by (rule unsigned_word_eqI)
  qed
  have m: "(word_of_nat (k mod 256) :: byte) = word_of_nat k" for k
    by (rule unsigned_word_eqI [where ?'a = nat]) (simp add: unat_of_nat)
  have four: "(4 :: nat) = Suc (Suc (Suc (Suc 0)))" by simp
  have n: "nat_be 4 k = [word_of_nat (k div 2 ^ 24), word_of_nat (k div 2 ^ 16), word_of_nat (k div 2 ^ 8),
      word_of_nat (k div 2 ^ 0)]" for k
    unfolding nat_be_def four nat_le.simps m by (simp add: div_mult2_eq [symmetric])
  show ?thesis unfolding be32enc_def n b [symmetric] by simp
qed

context openssl_digest
begin

lemma HMAC_eq:
  "HMAC_SHA256_Final E (HMAC_SHA256_Update (HMAC_SHA256_Update (HMAC_SHA256_Init E K) a) b) = hmac_sha256 E K (a @ b)"
  by (simp add: HMAC_SHA256_Final_def HMAC_SHA256_Update_def HMAC_SHA256_Init_def hmac_sha256_def Let_def
      xor_pad_eq length_SHA256)

lemma length_hmac [simp]: "length (hmac_sha256 E K m) = 32"
  by (simp add: hmac_sha256_def Let_def length_SHA256)

lemma pbkdf2_blocks_eq:
  assumes "n < 2 ^ 31" and "i \<le> n"
  shows "pbkdf2_blocks E P (HMAC_SHA256_Update (HMAC_SHA256_Init E P) S) 1 (32 * n) i =
    concat (map (\<lambda>i. hmac_sha256 E P (S @ nat_be 4 (i + 1))) [i..<n])"
  using assms(2)
proof (induction "n - i" arbitrary: i)
  case 0
  then show ?case by (simp add: pbkdf2_blocks.simps)
next
  case (Suc k)
  then have i: "i < n" by simp
  have "unat (word_of_nat (i + 1) :: u32) = i + 1" by (rule unat_of_nat_small) (use i assms in simp)
  then have iv: "be32enc (word_of_nat (i + 1)) = nat_be 4 (i + 1)" by (simp add: be32enc_eq)
  have "pbkdf2_blocks E P (HMAC_SHA256_Update (HMAC_SHA256_Init E P) S) 1 (32 * n) i =
      hmac_sha256 E P (S @ nat_be 4 (i + 1)) @ pbkdf2_blocks E P (HMAC_SHA256_Update (HMAC_SHA256_Init E P) S) 1 (32 * n) (i + 1)"
    using i iv by (subst pbkdf2_blocks.simps) (simp add: HMAC_eq Let_def)
  also have "\<dots> = concat (map (\<lambda>i. hmac_sha256 E P (S @ nat_be 4 (i + 1))) [i..<n])"
    using Suc i by (simp add: upt_conv_Cons)
  finally show ?case .
qed

lemma PBKDF2_eq: "n < 2 ^ 31 \<Longrightarrow> PBKDF2_SHA256 E P S 1 (32 * n) = pbkdf2_once E P S n"
  unfolding PBKDF2_SHA256_def pbkdf2_once_def by (rule pbkdf2_blocks_eq) simp_all

lemma scrypt_eq:
  "scrypt_1024_1_1_256 E input =
     (let P = take 80 input;
          X = map (\<lambda>k. le32dec (drop (4 * k) (pbkdf2_once E P P 4))) [0..<32] in
      pbkdf2_once E P (concat (map le32enc (ro_mix 1024 X))) 1)"
proof -
  have V: "length (map (\<lambda>i. (block_mix ^^ i) X) [0..<1024]) = 1024" for X :: "u32 list" by simp
  have nth: "map (\<lambda>i. (block_mix ^^ i) X) [0..<1024] ! (unat (Y ! 16) mod 1024) = (block_mix ^^ (unat (Y ! 16) mod 1024)) X"
    for X Y :: "u32 list" by (subst nth_map) simp_all
  have mix: "mix_V 1024 ((block_mix ^^ 1024) X) (map (\<lambda>i. (block_mix ^^ i) X) [0..<1024]) = ro_mix 1024 X" for X
    unfolding mix_V_eq [OF V] ro_mix_def Let_def nth ..
  show ?thesis
    unfolding scrypt_1024_1_1_256_def Let_def fill_V_eq prod.case append_Nil mix
    using PBKDF2_eq [of 4] PBKDF2_eq [of 1] by simp
qed

end

section \<open>Properties\<close>

text \<open>
  C39. The optimised proof-of-work routine computes the published function: the unrolled Salsa
  rounds, the in-place mixing and the incremental HMAC give scrypt of RFC 7914 with N = 1024,
  r = 1, p = 1 of the 80-byte header used as password and salt, and the result has 32 bytes.
\<close>

theorem scrypt_spec:
  assumes "openssl_digest E"
  shows "scrypt_1024_1_1_256 E input =
    (let P = take 80 input;
         X = map (\<lambda>k. le32dec (drop (4 * k) (pbkdf2_once E P P 4))) [0..<32] in
     pbkdf2_once E P (concat (map le32enc (ro_mix 1024 X))) 1)
    \<and> length (scrypt_1024_1_1_256 E input) = 32"
proof -
  note eq = openssl_digest.scrypt_eq [OF assms, of input]
  have "length (pbkdf2_once E P S 1) = 32" for P S
    by (simp add: pbkdf2_once_def openssl_digest.length_hmac [OF assms])
  with eq show ?thesis by (simp add: Let_def)
qed

theorem scrypt_spec_witness:
  "length (scrypt_1024_1_1_256 openssl_ref (replicate 80 7)) = 32"
  using scrypt_spec [OF ref_digest.openssl_digest_axioms, of "replicate 80 7"] by blast

end
