(* ===== verification/Positional.thy ===== *)
theory Positional
  imports Externals
begin

text \<open>
  Positional numerals, shared by every text format of the repository that writes a number in
  some base: hexadecimal and decimal text, base58, and the bytes of a number. A numeral is the
  list of its digits, most significant first, with no leading zero. The locale \<open>radix\<close> fixes
  a base, \<open>alphabet\<close> adds the characters that stand for the digits; both are interpreted for
  the bases the code uses (\<open>dec\<close>, \<open>hex\<close>, \<open>b58\<close>, \<open>b256\<close>).
\<close>

fun digits :: "nat \<Rightarrow> nat \<Rightarrow> nat list" where
  "digits b n = (if n = 0 \<or> b < 2 then [] else digits b (n div b) @ [n mod b])"

declare digits.simps [simp del]

definition horner :: "nat \<Rightarrow> nat list \<Rightarrow> nat" where
  "horner b ds = foldl (\<lambda>x d. x * b + d) 0 ds"

text \<open>The position of a character, \<open>String.prototype.indexOf\<close> and \<open>strchr\<close>.\<close>

fun index_of :: "char \<Rightarrow> string \<Rightarrow> nat option" where
  "index_of c [] = None"
| "index_of c (x # xs) = (if x = c then Some 0 else map_option Suc (index_of c xs))"

definition B58 :: string where
  "B58 = ''123456789ABCDEFGHJKLMNPQRSTUVWXYZabcdefghijkmnopqrstuvwxyz''"

definition HEX :: string where
  "HEX = ''0123456789abcdef''"

definition DEC :: string where
  "DEC = ''0123456789''"

definition numeral_text :: "string \<Rightarrow> nat \<Rightarrow> string" where
  "numeral_text abc n = map ((!) abc) (digits (length abc) n)"

lemma digits_0 [simp]: "digits b 0 = []"
  by (simp add: digits.simps)

lemma horner_Nil [simp]: "horner b [] = 0"
  by (simp add: horner_def)

lemma horner_snoc [simp]: "horner b (ds @ [d]) = horner b ds * b + d"
  by (simp add: horner_def)

lemma horner_append: "horner b (xs @ ys) = horner b xs * b ^ length ys + horner b ys"
  by (induction ys rule: rev_induct) (simp_all add: append_assoc [symmetric] algebra_simps del: append_assoc)

lemma horner_Cons: "horner b (d # ds) = d * b ^ length ds + horner b ds"
  using horner_append [of b "[d]" ds] by (simp add: horner_def)

lemma horner_replicate_0 [simp]: "horner b (replicate k 0 @ ds) = horner b ds"
  by (induction k) (simp_all add: horner_Cons)

lemma horner_256: "horner 256 (map unat bs) = be_nat bs"
  by (induction bs) (simp_all add: horner_Cons be_nat_Cons)

lemma index_of_nth: "distinct xs \<Longrightarrow> i < length xs \<Longrightarrow> index_of (xs ! i) xs = Some i"
  by (induction xs arbitrary: i) (auto simp: nth_Cons split: nat.splits)

lemma index_of_SomeD: "index_of c xs = Some i \<Longrightarrow> i < length xs \<and> xs ! i = c"
  by (induction xs arbitrary: i) (auto split: if_splits)

lemma index_of_None: "index_of c xs = None \<longleftrightarrow> c \<notin> set xs"
  by (induction xs) auto

lemma takeWhile_replicate_append:
  "\<not> P y \<Longrightarrow> P x \<Longrightarrow> takeWhile P (replicate k x @ y # ys) = replicate k x"
  by (induction k) simp_all

lemma takeWhile_eq_replicate: "takeWhile ((=) a) xs = replicate (length (takeWhile ((=) a) xs)) a"
  by (induction xs) auto

lemma map_dropWhile_iff:
  "(\<And>x. x \<in> set xs \<Longrightarrow> Q (f x) \<longleftrightarrow> P x) \<Longrightarrow> dropWhile Q (map f xs) = map f (dropWhile P xs)"
  by (induction xs) auto

section \<open>Numerals\<close>

locale radix =
  fixes b :: nat
  assumes two_le: "2 \<le> b"
begin

lemma digits_pos: "0 < n \<Longrightarrow> digits b n = digits b (n div b) @ [n mod b]"
  using two_le by (subst digits.simps) simp

lemma digits_eq_Nil [simp]: "digits b n = [] \<longleftrightarrow> n = 0"
  using digits_pos [of n] by (cases "n = 0") auto

lemma radix_induct [case_names zero step]:
  assumes "P 0" and "\<And>n. 0 < n \<Longrightarrow> P (n div b) \<Longrightarrow> P n"
  shows "P n"
proof (induction n rule: less_induct)
  case (less n)
  show ?case
  proof (cases "n = 0")
    case False
    then have "n div b < n" using two_le by (intro div_less_dividend) auto
    with less False assms(2) show ?thesis by blast
  qed (simp add: assms(1))
qed

lemma horner_digits [simp]: "horner b (digits b n) = n"
  by (induction n rule: radix_induct) (simp_all add: digits_pos)

lemma digits_lt: "d \<in> set (digits b n) \<Longrightarrow> d < b"
proof (induction n rule: radix_induct)
  case (step n)
  then show ?case using two_le by (auto simp: digits_pos)
qed simp

lemma hd_digits: "0 < n \<Longrightarrow> hd (digits b n) \<noteq> 0"
proof (induction n rule: radix_induct)
  case (step n)
  show ?case
  proof (cases "n div b = 0")
    case True
    then have "n mod b = n" by (metis div_mult_mod_eq mult_is_0 add_0)
    with True step show ?thesis by (simp add: digits_pos)
  next
    case False
    with step show ?thesis by (simp add: digits_pos [of n] hd_append)
  qed
qed simp

lemma horner_bound: "\<forall>d\<in>set ds. d < b \<Longrightarrow> horner b ds < b ^ length ds"
proof (induction ds)
  case (Cons d ds)
  then have "d * b ^ length ds + horner b ds < d * b ^ length ds + b ^ length ds" by simp
  also have "\<dots> = Suc d * b ^ length ds" by simp
  also have "\<dots> \<le> b * b ^ length ds" using Cons by (intro mult_le_mono1) simp
  finally show ?case by (simp add: horner_Cons)
qed simp

lemma length_digits: "n < b ^ k \<Longrightarrow> length (digits b n) \<le> k"
proof (induction k arbitrary: n)
  case (Suc k)
  show ?case
  proof (cases "n = 0")
    case False
    from Suc have "n div b < b ^ k" by (simp add: less_mult_imp_div_less mult.commute)
    with Suc.IH [of "n div b"] False show ?thesis by (simp add: digits_pos)
  qed simp
qed simp

lemma digits_horner_nz:
  "\<forall>d\<in>set ds. d < b \<Longrightarrow> ds = [] \<or> hd ds \<noteq> 0 \<Longrightarrow> digits b (horner b ds) = ds"
proof (induction ds rule: rev_induct)
  case (snoc d ds)
  have IH: "digits b (horner b ds) = ds"
  proof (cases ds)
    case (Cons x xs)
    with snoc show ?thesis by simp
  qed simp
  have "0 < horner b (ds @ [d])"
  proof (cases ds)
    case Nil
    with snoc.prems show ?thesis by (simp add: horner_Cons)
  next
    case (Cons x xs)
    then have "ds \<noteq> []" by simp
    then have "horner b ds \<noteq> 0" using IH by (metis digits_0)
    then show ?thesis using two_le by simp
  qed
  then show ?case using snoc.prems IH by (simp add: digits_pos)
qed simp

lemma digits_horner: "\<forall>d\<in>set ds. d < b \<Longrightarrow> digits b (horner b ds) = dropWhile ((=) 0) ds"
proof -
  assume lt: "\<forall>d\<in>set ds. d < b"
  let ?z = "takeWhile ((=) 0) ds" and ?r = "dropWhile ((=) 0) ds"
  have "ds = replicate (length ?z) 0 @ ?r"
    using takeWhile_eq_replicate [of 0 ds] by simp
  then have "horner b ds = horner b ?r" by (metis horner_replicate_0)
  moreover have "?r = [] \<or> hd ?r \<noteq> 0"
    using hd_dropWhile [of "(=) 0" ds] by metis
  moreover have "\<forall>d\<in>set ?r. d < b" using lt by (meson set_dropWhileD)
  ultimately show ?thesis by (simp add: digits_horner_nz)
qed

end

locale alphabet = radix +
  fixes abc :: string
  assumes size_abc: "length abc = b" and distinct_abc: "distinct abc"
begin

lemma index_digit: "d < b \<Longrightarrow> index_of (abc ! d) abc = Some d"
  by (simp add: index_of_nth size_abc distinct_abc)

lemma index_lt: "index_of c abc = Some d \<Longrightarrow> d < b \<and> abc ! d = c"
  using index_of_SomeD [of c abc d] by (simp add: size_abc)

lemma set_numeral: "set (numeral_text abc n) \<subseteq> set abc"
  using digits_lt size_abc by (auto simp: numeral_text_def)

lemma hd_numeral: "0 < n \<Longrightarrow> hd (numeral_text abc n) \<noteq> abc ! 0"
proof -
  assume n: "0 < n"
  then have ne: "digits b n \<noteq> []" by simp
  then have "hd (digits b n) < b" by (intro digits_lt [of _ n]) simp
  with hd_digits [OF n] have "abc ! hd (digits b n) \<noteq> abc ! 0"
    using distinct_abc size_abc two_le by (simp add: nth_eq_iff_index_eq)
  with ne show ?thesis by (simp add: numeral_text_def hd_map size_abc)
qed

end

interpretation dec: alphabet 10 DEC
  by unfold_locales (simp_all add: DEC_def)

interpretation hex: alphabet 16 HEX
  by unfold_locales (simp_all add: HEX_def)

interpretation b58: alphabet 58 B58
  by unfold_locales (simp_all add: B58_def)

interpretation b256: radix 256
  by unfold_locales simp

lemma mag_be_digits: "mag_be n = map word_of_nat (digits 256 n)"
proof (induction n rule: b256.radix_induct)
  case (step n)
  then show ?case by (subst mag_be.simps) (simp add: b256.digits_pos)
qed simp

lemma mag_be_strip: "mag_be (be_nat bs) = dropWhile ((=) 0) bs"
proof -
  have "mag_be (be_nat bs) = map word_of_nat (dropWhile ((=) 0) (map unat bs))"
    by (simp add: mag_be_digits horner_256 [symmetric] b256.digits_horner)
  also have "\<dots> = dropWhile ((=) 0) bs"
    by (subst map_dropWhile_iff [where P = "(=) 0"]) (auto simp: unat_0_iff eq_commute [of 0] map_idI)
  finally show ?thesis .
qed

context radix
begin

lemma digits_lower: "0 < n \<Longrightarrow> b ^ (length (digits b n) - 1) \<le> n"
proof (induction n rule: radix_induct)
  case (step n)
  show ?case
  proof (cases "n div b = 0")
    case True
    with step show ?thesis by (simp add: digits_pos)
  next
    case False
    then have "digits b (n div b) \<noteq> []" by simp
    then have len: "length (digits b n) - 1 = Suc (length (digits b (n div b)) - 1)"
      using step by (simp add: digits_pos [of n])
    have "b * b ^ (length (digits b (n div b)) - 1) \<le> b * (n div b)"
      using step False by (intro mult_le_mono2) simp
    also have "\<dots> \<le> n" by simp
    finally show ?thesis by (simp only: len power_Suc)
  qed
qed simp

end

section \<open>Base58 as a bijection\<close>

text \<open>The base58 text of a byte string: one \<open>1\<close> per leading zero byte, then the number in base
  58; and the byte string of a text over the alphabet.\<close>

definition b58_text :: "bytes \<Rightarrow> string" where
  "b58_text bs = replicate (length (takeWhile ((=) 0) bs)) (CHR ''1'') @ numeral_text B58 (be_nat bs)"

definition b58_value :: "string \<Rightarrow> nat" where
  "b58_value s = horner 58 (map (\<lambda>c. the (index_of c B58)) s)"

definition b58_bytes :: "string \<Rightarrow> bytes" where
  "b58_bytes s = replicate (length (takeWhile ((=) (CHR ''1'')) s)) 0 @ mag_be (b58_value s)"

lemma B58_0 [simp]: "B58 ! 0 = CHR ''1''"
  by (simp add: B58_def)

lemma index_one [simp]: "index_of (CHR ''1'') B58 = Some 0"
  by (simp add: B58_def)

lemma length_alphabets [simp]: "length B58 = 58" "length HEX = 16" "length DEC = 10"
  by (rule b58.size_abc hex.size_abc dec.size_abc)+

lemma index_values_lt: "set s \<subseteq> set B58 \<Longrightarrow> \<forall>d\<in>set (map (\<lambda>c. the (index_of c B58)) s). d < 58"
  using b58.index_lt index_of_None [of _ B58] by (fastforce simp: subset_iff)

lemma b58_value_numeral [simp]: "b58_value (numeral_text B58 n) = n"
proof -
  have "map (\<lambda>c. the (index_of c B58)) (numeral_text B58 n) = digits 58 n"
    using b58.digits_lt [of _ n] by (auto simp: numeral_text_def b58.index_digit intro!: map_idI)
  then show ?thesis by (simp add: b58_value_def)
qed

lemma b58_value_ones [simp]: "b58_value (replicate k (CHR ''1'') @ s) = b58_value s"
  by (simp add: b58_value_def)

lemma numeral_b58_value:
  "set s \<subseteq> set B58 \<Longrightarrow> numeral_text B58 (b58_value s) = dropWhile ((=) (CHR ''1'')) s"
proof -
  assume s: "set s \<subseteq> set B58"
  have inv: "B58 ! the (index_of c B58) = c" if "c \<in> set s" for c
    using that s index_of_SomeD [of c B58] index_of_None [of c B58] by auto
  have one: "the (index_of c B58) = 0 \<longleftrightarrow> c = CHR ''1''" if "c \<in> set s" for c
    using inv [OF that] by auto
  have "numeral_text B58 (b58_value s) =
      map ((!) B58) (dropWhile ((=) 0) (map (\<lambda>c. the (index_of c B58)) s))"
    using index_values_lt [OF s] by (simp add: numeral_text_def b58_value_def b58.digits_horner)
  also have "\<dots> = map ((!) B58) (map (\<lambda>c. the (index_of c B58)) (dropWhile ((=) (CHR ''1'')) s))"
    using one by (subst map_dropWhile_iff [where P = "(=) (CHR ''1'')"]) (auto simp: eq_commute [of 0])
  also have "\<dots> = dropWhile ((=) (CHR ''1'')) s"
    using inv by (auto intro!: map_idI dest: set_dropWhileD)
  finally show ?thesis .
qed

lemma split_leading: "replicate (length (takeWhile ((=) a) xs)) a @ dropWhile ((=) a) xs = xs"
  using takeWhile_eq_replicate [of a xs] by (metis takeWhile_dropWhile_id)

lemma takeWhile_leading:
  "xs = [] \<or> hd xs \<noteq> a \<Longrightarrow> takeWhile ((=) a) (replicate k a @ xs) = replicate k a"
  by (induction k) (cases xs, auto)+

lemma set_b58_text: "set (b58_text bs) \<subseteq> set B58"
proof -
  have "CHR ''1'' \<in> set B58" by (simp add: B58_def)
  then show ?thesis using b58.set_numeral by (auto simp: b58_text_def)
qed

theorem b58_bytes_text: "b58_bytes (b58_text bs) = bs"
proof -
  have "numeral_text B58 (be_nat bs) = [] \<or> hd (numeral_text B58 (be_nat bs)) \<noteq> CHR ''1''"
    using b58.hd_numeral [of "be_nat bs"] by (cases "be_nat bs = 0") (auto simp: numeral_text_def)
  then show ?thesis
    by (simp add: b58_bytes_def b58_text_def takeWhile_leading mag_be_strip split_leading)
qed

theorem b58_text_bytes: "set s \<subseteq> set B58 \<Longrightarrow> b58_text (b58_bytes s) = s"
proof -
  assume s: "set s \<subseteq> set B58"
  have "mag_be n = [] \<or> hd (mag_be n) \<noteq> 0" for n
    using hd_mag_be [of n] by auto
  moreover have "be_nat (replicate k 0 @ mag_be n) = n" for k n
    by (induction k) (simp_all add: be_nat_Cons)
  ultimately show ?thesis
    by (simp add: b58_text_def b58_bytes_def takeWhile_leading numeral_b58_value [OF s] split_leading)
qed

end
