(* ===== verification/Web_Base.thy ===== *)
theory Web_Base
  imports Positional Bignum
begin

text \<open>
  The part of JavaScript that the browser wallet (\<open>src/contrib/webwallet\<close>) uses, its byte
  helpers and hashes, and base58check: \<open>wallet.js\<close> up to \<open>base58checkDecode\<close>.

  A \<open>Uint8Array\<close> is a list of bytes, a string a list of characters (of which the formats here
  only use ASCII), a \<open>BigInt\<close> or an integral \<open>Number\<close> an integer, and a function that can
  throw returns \<open>js_error + 'a\<close>. An \<open>async\<close> function is the function of its awaited result:
  the wallet awaits every promise at once, in the order written.

  SubtleCrypto and the vendored noble libraries are the fields of the record \<open>webcrypto\<close>; the
  locale \<open>web_digest\<close> says what the wallet relies on of them.
\<close>

section \<open>JavaScript\<close>

datatype js_error =
    Error string
  | TypeError
  | SyntaxError
  | DOMException

type_synonym 'a js = "js_error + 'a"

text \<open>Sequencing: an exception leaves the function.\<close>

definition js_bind :: "'a js \<Rightarrow> ('a \<Rightarrow> 'b js) \<Rightarrow> 'b js" where
  "js_bind m f = (case m of Inl e \<Rightarrow> Inl e | Inr x \<Rightarrow> f x)"

fun for_of :: "'a list \<Rightarrow> ('a \<Rightarrow> 's \<Rightarrow> 's js) \<Rightarrow> 's \<Rightarrow> 's js" where
  "for_of [] body s = Inr s"
| "for_of (x # xs) body s = js_bind (body x s) (for_of xs body)"

text \<open>White space and line terminators among the 8-bit characters.\<close>

definition js_space :: "char \<Rightarrow> bool" where
  "js_space c \<longleftrightarrow> (of_char c :: nat) \<in> {9, 10, 11, 12, 13, 32, 160}"

definition line_terminator :: "char \<Rightarrow> bool" where
  "line_terminator c \<longleftrightarrow> c = CHR 0x0A \<or> c = CHR 0x0D"

definition hex_digit_value :: "char \<Rightarrow> nat option" where
  "hex_digit_value c =
     (let n = of_char c :: nat in
      if 48 \<le> n \<and> n \<le> 57 then Some (n - 48)
      else if 97 \<le> n \<and> n \<le> 102 then Some (n - 87)
      else if 65 \<le> n \<and> n \<le> 70 then Some (n - 55) else None)"

text \<open>\<open>n.toString(16)\<close> and \<open>n.toString()\<close> of a natural number.\<close>

definition toString16 :: "nat \<Rightarrow> string" where
  "toString16 n = (if n = 0 then ''0'' else numeral_text HEX n)"

definition toString10 :: "nat \<Rightarrow> string" where
  "toString10 n = (if n = 0 then ''0'' else numeral_text DEC n)"

definition padStart :: "nat \<Rightarrow> char \<Rightarrow> string \<Rightarrow> string" where
  "padStart k c s = replicate (k - length s) c @ s"

text \<open>\<open>h.match(/.{1,2}/g)\<close>: greedy pairs; a line terminator matches nothing. The empty list
  is \<open>null\<close>.\<close>

fun match_pairs :: "string \<Rightarrow> string list" where
  "match_pairs [] = []"
| "match_pairs [c] = (if line_terminator c then [] else [[c]])"
| "match_pairs (c # d # s) =
     (if line_terminator c then match_pairs (d # s)
      else if line_terminator d then [c] # match_pairs s
      else [c, d] # match_pairs s)"

text \<open>\<open>parseInt(x, 16)\<close>; \<open>None\<close> is \<open>NaN\<close>.\<close>

definition parseInt16 :: "string \<Rightarrow> int option" where
  "parseInt16 x =
     (let s = dropWhile js_space x;
          neg = (s \<noteq> [] \<and> hd s = CHR ''-'');
          s = (if s \<noteq> [] \<and> (hd s = CHR ''-'' \<or> hd s = CHR ''+'') then tl s else s);
          s = (if take 2 s = ''0x'' \<or> take 2 s = ''0X'' then drop 2 s else s);
          ds = takeWhile (\<lambda>c. hex_digit_value c \<noteq> None) s
      in if ds = [] then None
         else let v = int (horner 16 (map (the \<circ> hex_digit_value) ds))
              in Some (if neg then - v else v))"

text \<open>\<open>ToUint8\<close>: what a \<open>Uint8Array\<close> stores.\<close>

definition ToUint8 :: "int option \<Rightarrow> byte" where
  "ToUint8 v = (case v of None \<Rightarrow> 0 | Some z \<Rightarrow> word_of_int z)"

text \<open>\<open>BigInt("0x" + h)\<close>.\<close>

definition BigInt_hex :: "string \<Rightarrow> nat js" where
  "BigInt_hex h =
     (if h = [] \<or> (\<exists>c \<in> set h. hex_digit_value c = None) then Inl SyntaxError
      else Inr (horner 16 (map (the \<circ> hex_digit_value) h)))"

text \<open>\<open>ToUint32\<close>, the operand of \<open>>>>\<close> and \<open>&\<close>.\<close>

definition ToUint32 :: "int \<Rightarrow> u32" where
  "ToUint32 n = word_of_int n"

definition byte_at :: "nat \<Rightarrow> int \<Rightarrow> byte" where
  "byte_at k n = ucast (drop_bit k (ToUint32 n) AND 255)"

text \<open>\<open>a.slice(0, -k)\<close> and \<open>a.slice(-k)\<close>.\<close>

definition slice_to_neg :: "nat \<Rightarrow> 'a list \<Rightarrow> 'a list" where
  "slice_to_neg k xs = take (length xs - k) xs"

definition slice_neg :: "nat \<Rightarrow> 'a list \<Rightarrow> 'a list" where
  "slice_neg k xs = drop (length xs - k) xs"

text \<open>\<open>TextEncoder.encode\<close>: UTF-8.\<close>

definition utf8_char :: "char \<Rightarrow> bytes" where
  "utf8_char c = (let n = of_char c :: nat in
     if n < 128 then [word_of_nat n] else [word_of_nat (192 + n div 64), word_of_nat (128 + n mod 64)])"

definition TextEncoder_encode :: "string \<Rightarrow> bytes" where
  "TextEncoder_encode s = concat (map utf8_char s)"

section \<open>Byte helpers\<close>

definition toHex :: "bytes \<Rightarrow> string" where
  "toHex u8 = concat (map (\<lambda>b. padStart 2 (CHR ''0'') (toString16 (unat b))) u8)"

definition fromHex :: "string \<Rightarrow> bytes js" where
  "fromHex h = (case match_pairs h of [] \<Rightarrow> Inl TypeError
     | ms \<Rightarrow> Inr (map (\<lambda>x. ToUint8 (parseInt16 x)) ms))"

text \<open>\<open>out.set(a, o)\<close> inside the bounds of \<open>out\<close>.\<close>

definition set_at :: "bytes \<Rightarrow> bytes \<Rightarrow> nat \<Rightarrow> bytes" where
  "set_at out a k = take k out @ a @ drop (k + length a) out"

definition concat_u8 :: "bytes list \<Rightarrow> bytes" where
  "concat_u8 arrs =
     (let n = foldl (\<lambda>s a. s + length a) 0 arrs;
          out = replicate n 0
      in fst (foldl (\<lambda>(out, k) a. (set_at out a k, k + length a)) (out, 0) arrs))"

definition be32 :: "int \<Rightarrow> bytes" where
  "be32 n = [byte_at 24 n, byte_at 16 n, byte_at 8 n, byte_at 0 n]"

definition bnTo32 :: "nat \<Rightarrow> bytes js" where
  "bnTo32 bn = (let h = padStart 64 (CHR ''0'') (toString16 bn) in fromHex h)"

section \<open>Hashes\<close>

record webcrypto =
  digest_SHA256 :: "bytes \<Rightarrow> bytes"
  ripemd160 :: "bytes \<Rightarrow> bytes"
  sign_HMAC_SHA512 :: "bytes \<Rightarrow> bytes \<Rightarrow> bytes"
  deriveBits_PBKDF2_SHA512 :: "bytes \<Rightarrow> bytes \<Rightarrow> nat \<Rightarrow> nat \<Rightarrow> bytes"
  encode_NFKD :: "string \<Rightarrow> bytes"
  getRandomValues :: "nat \<Rightarrow> bytes"
  getPublicKey :: "bytes \<Rightarrow> bool \<Rightarrow> bytes js"
  secp_sign :: "bytes \<Rightarrow> bytes \<Rightarrow> bytes js"

definition sha256 :: "webcrypto \<Rightarrow> bytes \<Rightarrow> bytes" where
  "sha256 W data = digest_SHA256 W data"

definition sha256d :: "webcrypto \<Rightarrow> bytes \<Rightarrow> bytes" where
  "sha256d W data = sha256 W (sha256 W data)"

definition hash160 :: "webcrypto \<Rightarrow> bytes \<Rightarrow> bytes" where
  "hash160 W data = ripemd160 W (sha256 W data)"

text \<open>SubtleCrypto refuses an empty HMAC key (\<open>DataError\<close>), and zero iterations
  (\<open>OperationError\<close>).\<close>

definition hmacSha512 :: "webcrypto \<Rightarrow> bytes \<Rightarrow> bytes \<Rightarrow> bytes js" where
  "hmacSha512 W key data =
     (if key = [] then Inl DOMException else Inr (sign_HMAC_SHA512 W key data))"

definition pbkdf2Sha512 :: "webcrypto \<Rightarrow> bytes \<Rightarrow> bytes \<Rightarrow> nat \<Rightarrow> nat \<Rightarrow> bytes js" where
  "pbkdf2Sha512 W pw salt iters len =
     (if iters = 0 then Inl DOMException
      else Inr (deriveBits_PBKDF2_SHA512 W pw salt iters (len * 8)))"

section \<open>base58check\<close>

text \<open>The digit loop of \<open>base58encode\<close>, prepending to \<open>out\<close>.\<close>

function encode_loop :: "nat \<Rightarrow> string \<Rightarrow> string" where
  "encode_loop x out =
     (if 0 < x then encode_loop (x div 58) (B58 ! (x mod 58) # out) else out)"
  by pat_completeness auto
termination by (relation "measure fst") auto

declare encode_loop.simps [simp del]

fun encode_zeros :: "bytes \<Rightarrow> string \<Rightarrow> string" where
  "encode_zeros [] out = out"
| "encode_zeros (b # bs) out = (if b = 0 then encode_zeros bs (CHR ''1'' # out) else out)"

definition base58encode :: "bytes \<Rightarrow> string js" where
  "base58encode bytes =
     js_bind (BigInt_hex (let h = toHex bytes in if h = [] then ''0'' else h)) (\<lambda>x.
     Inr (encode_zeros bytes (encode_loop x [])))"

definition base58check :: "webcrypto \<Rightarrow> int \<Rightarrow> bytes \<Rightarrow> string js" where
  "base58check W version payload =
     (let data = concat_u8 [[word_of_int version], payload];
          chk = take 4 (sha256d W data)
      in base58encode (concat_u8 [data, chk]))"

fun count_ones :: "string \<Rightarrow> nat" where
  "count_ones [] = 0"
| "count_ones (c # s) = (if c = CHR ''1'' then Suc (count_ones s) else 0)"

definition base58decode :: "string \<Rightarrow> bytes js" where
  "base58decode str =
     js_bind (for_of str (\<lambda>c x.
        case index_of c B58 of
          None \<Rightarrow> Inl (Error ''bad base58 character'')
        | Some v \<Rightarrow> Inr (x * 58 + v)) 0) (\<lambda>x.
     let hex = toString16 x;
         hex = (if length hex mod 2 \<noteq> 0 then CHR ''0'' # hex else hex)
     in js_bind (if x = 0 then Inr [] else fromHex hex) (\<lambda>bytes.
        let leading = count_ones str in
        Inr (concat_u8 [replicate leading 0, bytes])))"

record decoded =
  addr_version :: byte
  addr_hash :: bytes

definition base58checkDecode :: "webcrypto \<Rightarrow> string \<Rightarrow> decoded js" where
  "base58checkDecode W str =
     js_bind (base58decode str) (\<lambda>raw.
     if length raw < 5 then Inl (Error ''address too short'') else
     let data = slice_to_neg 4 raw; chk = slice_neg 4 raw;
         good = take 4 (sha256d W data)
     in if toHex chk \<noteq> toHex good then Inl (Error ''bad address checksum'')
        else Inr \<lparr> addr_version = data ! 0, addr_hash = drop 1 data \<rparr>)"

section \<open>Facts about the byte helpers\<close>

lemma js_bind_simps [simp]: "js_bind (Inl e) f = Inl e" "js_bind (Inr x) f = f x"
  by (simp_all add: js_bind_def)

lemma js_bind_InrD: "js_bind m f = Inr y \<Longrightarrow> \<exists>x. m = Inr x \<and> f x = Inr y"
  by (cases m) auto

lemma js_bind_eq_Inr: "js_bind m f = Inr y \<longleftrightarrow> (\<exists>x. m = Inr x \<and> f x = Inr y)"
  by (cases m) auto

lemma concat_loop:
  "length pre = k \<Longrightarrow>
   fst (foldl (\<lambda>(out, k) a. (set_at out a k, k + length a))
     (pre @ replicate (length (concat arrs)) 0, k) arrs) = pre @ concat arrs"
proof (induction arrs arbitrary: pre k)
  case (Cons a arrs)
  have "set_at (pre @ replicate (length (concat (a # arrs))) 0) a k =
      (pre @ a) @ replicate (length (concat arrs)) 0"
    using Cons.prems by (simp add: set_at_def)
  then show ?case using Cons.IH [of "pre @ a" "k + length a"] Cons.prems by simp
qed simp

lemma sum_lengths: "foldl (\<lambda>s a. s + length a) n arrs = n + length (concat arrs)"
  by (induction arrs arbitrary: n) auto

lemma concat_u8_eq [simp]: "concat_u8 arrs = concat arrs"
  using concat_loop [of "[]" 0 arrs] by (simp add: concat_u8_def sum_lengths)

lemma ToUint32_nat: "ToUint32 (int n) = word_of_nat n"
  by (simp add: ToUint32_def)

lemma byte_at_nat: "byte_at k n = word_of_nat (unat (ToUint32 n) div 2 ^ k mod 256)"
  by (rule unsigned_word_eqI [where ?'a = nat])
    (simp only: byte_at_def unat_byte_at, simp add: unat_of_nat)

lemma nat_le_4: "nat_le 4 n = map (\<lambda>k. word_of_nat (n div 2 ^ k mod 256)) [0, 8, 16, 24]"
proof -
  have "nat_le 4 n = nat_le (Suc (Suc (Suc (Suc 0)))) n" by (simp only: numeral_eq_Suc pred_numeral_simps arith_simps eval_nat_numeral)
  then show ?thesis by (simp add: div_mult2_eq [symmetric])
qed

lemma be32_eq: "be32 n = nat_be 4 (unat (ToUint32 n))"
  by (simp add: be32_def byte_at_nat nat_be_def nat_le_4)

section \<open>Hexadecimal text\<close>

lemma hex_value_digit: "d < 16 \<Longrightarrow> hex_digit_value (HEX ! d) = Some d"
proof -
  have "list_all (\<lambda>d. hex_digit_value (HEX ! d) = Some d) [0..<16]"
    by code_simp
  then show "d < 16 \<Longrightarrow> ?thesis" by (simp add: list_all_iff)
qed

lemma hex_value_lt: "hex_digit_value c = Some v \<Longrightarrow> v < 16"
  by (auto simp: hex_digit_value_def Let_def split: if_splits)

definition all_hex :: "string \<Rightarrow> bool" where
  "all_hex s \<longleftrightarrow> (\<forall>c\<in>set s. hex_digit_value c \<noteq> None)"

definition hex_value :: "string \<Rightarrow> nat" where
  "hex_value s = horner 16 (map (the \<circ> hex_digit_value) s)"

lemma not_hex: "hex_digit_value CHR ''x'' = None" "hex_digit_value CHR ''X'' = None"
  "hex_digit_value CHR ''-'' = None" "hex_digit_value CHR ''+'' = None"
  "hex_digit_value CHR 0x0A = None" "hex_digit_value CHR 0x0D = None"
  by (simp_all add: hex_digit_value_def)

lemma hex_not_space: "hex_digit_value c \<noteq> None \<Longrightarrow> \<not> js_space c"
  by (auto simp: hex_digit_value_def js_space_def Let_def split: if_splits)

lemma hex_not_terminator: "hex_digit_value c \<noteq> None \<Longrightarrow> \<not> line_terminator c"
  by (auto simp: line_terminator_def not_hex)

lemma parseInt16_pair:
  assumes "hex_digit_value c = Some u" and "hex_digit_value d = Some v"
  shows "parseInt16 [c, d] = Some (int (16 * u + v))"
proof -
  have "\<not> js_space c" using assms hex_not_space [of c] by simp
  moreover have "c \<noteq> CHR ''-''" "c \<noteq> CHR ''+''" "d \<noteq> CHR ''x''" "d \<noteq> CHR ''X''"
    using assms not_hex by auto
  ultimately show ?thesis
    using assms by (simp add: parseInt16_def Let_def horner_Cons)
qed

lemma pow16_double: "(16::nat) ^ (2 * k) = 256 ^ k"
  by (simp add: power_mult)

lemma match_pairs_hex:
  assumes "all_hex s" and "even (length s)"
  shows "map (\<lambda>x. ToUint8 (parseInt16 x)) (match_pairs s) = nat_be (length s div 2) (hex_value s)"
  using assms
proof (induction s rule: match_pairs.induct)
  case (3 c d s)
  obtain u v where uv: "hex_digit_value c = Some u" "hex_digit_value d = Some v"
    using 3 by (auto simp: all_hex_def)
  have lt: "u < 16" "v < 16" using uv hex_value_lt by auto
  have nt: "\<not> line_terminator c" "\<not> line_terminator d"
    using uv hex_not_terminator by auto
  have hs: "all_hex s" "even (length s)" using 3 by (auto simp: all_hex_def)
  define k where "k = length s div 2"
  define b :: byte where "b = word_of_nat (16 * u + v)"
  have b: "unat b = 16 * u + v" unfolding b_def using lt by (intro unat_byte_of_nat) simp
  have len: "length s = 2 * k" using hs by (simp add: k_def)
  have hv: "hex_value (c # d # s) = unat b * 256 ^ k + hex_value s"
    by (simp add: hex_value_def horner_Cons uv b len pow16_double distrib_right)
  have "hex_value s < 16 ^ length s"
    unfolding hex_value_def using hs hex_value_lt
    by (intro hex.horner_bound [of "map (the \<circ> hex_digit_value) s", simplified]) (auto simp: all_hex_def)
  then have lts: "hex_value s < 256 ^ k" by (simp add: len pow16_double)
  have IH: "map (\<lambda>x. ToUint8 (parseInt16 x)) (match_pairs s) = nat_be k (hex_value s)"
    using 3 nt hs by (simp add: k_def)
  have "b # nat_be k (hex_value s) = nat_be (Suc k) (be_nat (b # nat_be k (hex_value s)))"
    using nat_be_be_nat [of "b # nat_be k (hex_value s)"] by simp
  also have "be_nat (b # nat_be k (hex_value s)) = hex_value (c # d # s)"
    using lts by (simp add: be_nat_Cons be_nat_nat_be hv)
  finally have "b # nat_be k (hex_value s) = nat_be (Suc k) (hex_value (c # d # s))" .
  moreover have "ToUint8 (parseInt16 [c, d]) = b"
    by (simp add: parseInt16_pair [OF uv] ToUint8_def b_def)
  ultimately show ?case using nt IH len by simp
qed (simp_all add: nat_be_def)

lemma fromHex_hex:
  assumes "all_hex s" and "even (length s)" and "s \<noteq> []"
  shows "fromHex s = Inr (nat_be (length s div 2) (hex_value s))"
proof -
  have "length s div 2 \<noteq> 0" using assms by (cases s rule: match_pairs.cases) auto
  then have "match_pairs s \<noteq> []"
    using match_pairs_hex [OF assms(1,2)] by (metis length_nat_be length_map list.size(3))
  then show ?thesis
    using match_pairs_hex [OF assms(1,2)] by (cases "match_pairs s") (simp_all add: fromHex_def)
qed

lemma BigInt_hex_hex: "all_hex s \<Longrightarrow> s \<noteq> [] \<Longrightarrow> BigInt_hex s = Inr (hex_value s)"
  by (auto simp: BigInt_hex_def all_hex_def hex_value_def)

lemma all_hex_append [simp]: "all_hex (s @ t) \<longleftrightarrow> all_hex s \<and> all_hex t"
  by (auto simp: all_hex_def)

lemma all_hex_zeros [simp]: "all_hex (replicate k CHR ''0'')"
  by (auto simp: all_hex_def hex_digit_value_def)

lemma hex_value_zeros [simp]: "hex_value (replicate k CHR ''0'' @ s) = hex_value s"
  by (simp add: hex_value_def hex_digit_value_def)

lemma toString16_hex: "all_hex (toString16 n) \<and> hex_value (toString16 n) = n"
proof (cases "n = 0")
  case False
  have "map (the \<circ> hex_digit_value) (toString16 n) = digits 16 n"
    using hex_value_digit hex.digits_lt [of _ n] False
    by (auto simp: toString16_def numeral_text_def intro!: map_idI)
  moreover have "all_hex (toString16 n)"
    using hex_value_digit hex.digits_lt [of _ n] False
    by (auto simp: toString16_def numeral_text_def all_hex_def)
  ultimately show ?thesis by (simp add: hex_value_def)
qed (simp add: toString16_def all_hex_def hex_value_def hex_digit_value_def horner_Cons)

lemma length_toString16: "n < 16 ^ k \<Longrightarrow> 0 < k \<Longrightarrow> length (toString16 n) \<le> k"
  using hex.length_digits [of n k] by (auto simp: toString16_def numeral_text_def)

lemma toString16_ne [simp]: "toString16 n \<noteq> []"
  by (simp add: toString16_def numeral_text_def)

text \<open>\<open>toHex\<close> writes two digits per byte.\<close>

lemma hex_byte:
  fixes b :: byte
  defines "h \<equiv> padStart 2 (CHR ''0'') (toString16 (unat b))"
  shows "all_hex h" and "hex_value h = unat b" and "length h = 2"
  using toString16_hex [of "unat b"] length_toString16 [of "unat b" 2] unat_byte_lt [of b]
  by (auto simp: h_def padStart_def simp del: unat_byte_lt)

lemma hex_value_append: "hex_value (s @ t) = hex_value s * 16 ^ length t + hex_value t"
  by (simp add: hex_value_def horner_append)

lemma toHex_Cons: "toHex (b # bs) = padStart 2 (CHR ''0'') (toString16 (unat b)) @ toHex bs"
  by (simp add: toHex_def)

lemma length_toHex [simp, size_simps]: "length (toHex bs) = 2 * length bs"
  by (induction bs) (simp_all add: toHex_Cons hex_byte, simp add: toHex_def)

lemma all_hex_toHex [simp]: "all_hex (toHex bs)"
  by (induction bs) (simp_all add: toHex_Cons hex_byte, simp add: toHex_def all_hex_def)

lemma hex_value_toHex [simp]: "hex_value (toHex bs) = be_nat bs"
proof (induction bs)
  case (Cons b bs)
  then show ?case
    by (simp add: toHex_Cons hex_value_append hex_byte be_nat_Cons power_mult power2_eq_square)
qed (simp add: toHex_def hex_value_def)

lemma toHex_Nil_iff [simp]: "toHex bs = [] \<longleftrightarrow> bs = []"
  by (metis length_0_conv length_toHex mult_eq_0_iff zero_neq_numeral)

lemma fromHex_toHex: "bs \<noteq> [] \<Longrightarrow> fromHex (toHex bs) = Inr bs"
  by (simp add: fromHex_hex nat_be_be_nat)

lemma toHex_inject [simp]: "toHex xs = toHex ys \<longleftrightarrow> xs = ys"
proof
  assume eq: "toHex xs = toHex ys"
  then have "length xs = length ys" by (metis length_toHex mult_cancel1 zero_neq_numeral)
  moreover have "be_nat xs = be_nat ys" using eq by (metis hex_value_toHex)
  ultimately show "xs = ys" by (metis nat_be_be_nat)
qed simp

lemma BigInt_hex_toHex: "bs \<noteq> [] \<Longrightarrow> BigInt_hex (toHex bs) = Inr (be_nat bs)"
  by (simp add: BigInt_hex_hex)

lemma bnTo32_eq: "n < 2 ^ 256 \<Longrightarrow> bnTo32 n = Inr (nat_be 32 n)"
proof -
  assume "n < 2 ^ 256"
  then have "n < 16 ^ 64" by simp
  then have le: "length (toString16 n) \<le> 64" by (rule length_toString16) simp
  let ?h = "padStart 64 (CHR ''0'') (toString16 n)"
  have "length ?h = 64" "all_hex ?h" "hex_value ?h = n"
    using le toString16_hex [of n] by (simp_all add: padStart_def)
  then show ?thesis using fromHex_hex [of ?h] by (fastforce simp: bnTo32_def)
qed

lemma fromHex_toString16:
  assumes "0 < x"
  shows "fromHex (if length (toString16 x) mod 2 \<noteq> 0 then CHR ''0'' # toString16 x else toString16 x)
    = Inr (mag_be x)" (is "fromHex ?h = _")
proof -
  define k where "k = length ?h div 2"
  have hex: "all_hex ?h" "hex_value ?h = x"
    using toString16_hex [of x] hex_value_zeros [of 1 "toString16 x"] all_hex_zeros [of 1]
    by (auto simp: all_hex_def)
  have ev: "even (length ?h)" by (auto simp: even_iff_mod_2_eq_zero mod_Suc)
  then have k: "length ?h = 2 * k" by (simp add: k_def)
  have "hex_value ?h < 16 ^ length ?h"
    unfolding hex_value_def using hex(1) hex_value_lt
    by (intro hex.horner_bound [of "map (the \<circ> hex_digit_value) ?h", simplified length_map]) (auto simp: all_hex_def)
  then have up: "x < 256 ^ k" by (simp only: hex k power_mult, simp)
  have kpos: "0 < k" using k by (cases k) (auto split: if_splits)
  have "k - 1 \<le> (length (toString16 x) - 1) div 2"
    using k by (auto split: if_splits)
  then have "2 * (k - 1) \<le> length (toString16 x) - 1" by linarith
  then have "16 ^ (2 * (k - 1)) \<le> (16::nat) ^ (length (toString16 x) - 1)"
    by (intro power_increasing) auto
  also have "\<dots> \<le> x"
    using hex.digits_lower [OF assms] assms by (simp add: toString16_def numeral_text_def)
  finally have low: "256 ^ (k - 1) \<le> x" by (simp add: power_mult)
  have val: "be_nat (nat_be k x) = x" using up by (simp add: be_nat_nat_be)
  obtain b r where br: "nat_be k x = b # r" and r: "length r = k - 1"
    using kpos length_nat_be [of k x] by (cases "nat_be k x") auto
  have "b \<noteq> 0"
  proof
    assume "b = 0"
    then have "x = be_nat r" using val br by (simp add: be_nat_Cons)
    then show False using be_nat_bound [of r] low r by simp
  qed
  then have "mag_be (be_nat (nat_be k x)) = nat_be k x"
    by (simp add: mag_be_be_nat br)
  then show ?thesis
    using fromHex_hex [OF hex(1) ev] hex(2) kpos k by (auto simp: val k_def [symmetric])
qed

section \<open>Facts about base58check\<close>

lemma encode_loop_eq: "encode_loop x out = numeral_text B58 x @ out"
proof (induction x arbitrary: out rule: b58.radix_induct)
  case (step n)
  then show ?case
    by (subst encode_loop.simps) (simp add: numeral_text_def b58.digits_pos [of n])
qed (simp add: encode_loop.simps numeral_text_def)

lemma encode_zeros_eq:
  "encode_zeros bs out = replicate (length (takeWhile ((=) 0) bs)) (CHR ''1'') @ out"
  by (induction bs arbitrary: out) (auto simp: replicate_app_Cons_same)

lemma base58encode_eq: "base58encode bs = Inr (b58_text bs)"
proof (cases "bs = []")
  case True
  have "BigInt_hex ''0'' = Inr 0" by (simp add: BigInt_hex_def hex_digit_value_def horner_Cons)
  with True show ?thesis
    by (simp add: base58encode_def b58_text_def toHex_def encode_loop_eq numeral_text_def)
next
  case False
  then show ?thesis
    by (simp add: base58encode_def b58_text_def BigInt_hex_toHex encode_zeros_eq encode_loop_eq Let_def)
qed

lemma decode_loop:
  "for_of str (\<lambda>c x. case index_of c B58 of None \<Rightarrow> Inl e | Some v \<Rightarrow> Inr (x * 58 + v)) x =
   (if set str \<subseteq> set B58
    then Inr (foldl (\<lambda>x d. x * 58 + d) x (map (\<lambda>c. the (index_of c B58)) str)) else Inl e)"
proof (induction str arbitrary: x)
  case (Cons c str)
  then show ?case
    using index_of_None [of c B58] index_of_SomeD [of c B58] by (cases "index_of c B58") auto
qed simp

lemma count_ones_eq: "count_ones s = length (takeWhile ((=) (CHR ''1'')) s)"
  by (induction s) auto

lemma base58decode_eq:
  "base58decode str = (if set str \<subseteq> set B58 then Inr (b58_bytes str)
     else Inl (Error ''bad base58 character''))"
proof (cases "set str \<subseteq> set B58")
  case True
  define x where "x = b58_value str"
  have loop: "for_of str (\<lambda>c x. case index_of c B58 of None \<Rightarrow> Inl (Error ''bad base58 character'')
      | Some v \<Rightarrow> Inr (x * 58 + v)) 0 = Inr x"
    using True by (simp add: decode_loop x_def b58_value_def horner_def)
  have "(if x = 0 then Inr [] else fromHex (if length (toString16 x) mod 2 \<noteq> 0
      then CHR ''0'' # toString16 x else toString16 x)) = Inr (mag_be x)"
    using fromHex_toString16 [of x] by simp
  then show ?thesis
    unfolding base58decode_def loop js_bind_simps Let_def
    using True by (simp add: b58_bytes_def count_ones_eq x_def)
next
  case False
  then show ?thesis by (simp add: base58decode_def decode_loop)
qed

locale web_digest =
  fixes W :: webcrypto
  assumes length_digest: "length (digest_SHA256 W bs) = 32"
    and length_ripemd160: "length (ripemd160 W bs) = 20"
begin

lemma length_sha256d [simp]: "length (sha256d W bs) = 32"
  by (simp add: sha256d_def sha256_def length_digest)

lemma length_hash160 [simp]: "length (hash160 W bs) = 20"
  by (simp add: hash160_def length_ripemd160)

lemma base58check_eq:
  "base58check W v payload =
     (let data = word_of_int v # payload in Inr (b58_text (data @ take 4 (sha256d W data))))"
  by (simp add: base58check_def base58encode_eq Let_def)

lemma base58checkDecode_eq:
  "base58checkDecode W str =
     (if \<not> set str \<subseteq> set B58 then Inl (Error ''bad base58 character'') else
      let raw = b58_bytes str in
      if length raw < 5 then Inl (Error ''address too short'')
      else if slice_neg 4 raw \<noteq> take 4 (sha256d W (slice_to_neg 4 raw))
      then Inl (Error ''bad address checksum'')
      else Inr \<lparr> addr_version = slice_to_neg 4 raw ! 0, addr_hash = drop 1 (slice_to_neg 4 raw) \<rparr>)"
  by (simp add: base58checkDecode_def base58decode_eq Let_def)

lemma decode_check:
  assumes "base58check W v payload = Inr str"
  shows "base58checkDecode W str = Inr \<lparr> addr_version = word_of_int v, addr_hash = payload \<rparr>"
proof -
  define data where "data = word_of_int v # payload"
  have str: "str = b58_text (data @ take 4 (sha256d W data))"
    using assms by (simp add: base58check_eq data_def Let_def)
  have "length (take 4 (sha256d W data)) = 4" by simp
  then show ?thesis
    unfolding str base58checkDecode_eq b58_bytes_text Let_def
    by (simp add: set_b58_text slice_neg_def slice_to_neg_def data_def)
qed

text \<open>A text that decodes is the encoding of what it decodes to.\<close>

lemma check_decode:
  assumes "base58checkDecode W str = Inr d"
  shows "base58check W (uint (addr_version d)) (addr_hash d) = Inr str"
proof -
  define raw where "raw = b58_bytes str"
  have alpha: "set str \<subseteq> set B58" and len: "5 \<le> length raw"
    and chk: "slice_neg 4 raw = take 4 (sha256d W (slice_to_neg 4 raw))"
    and d: "d = \<lparr> addr_version = slice_to_neg 4 raw ! 0, addr_hash = drop 1 (slice_to_neg 4 raw) \<rparr>"
    using assms unfolding base58checkDecode_eq raw_def [symmetric] Let_def
    by (auto split: if_splits)
  have "slice_to_neg 4 raw \<noteq> []" using len by (auto simp: slice_to_neg_def)
  then have data: "addr_version d # addr_hash d = slice_to_neg 4 raw"
    by (cases "slice_to_neg 4 raw") (simp_all add: d)
  have "slice_to_neg 4 raw @ slice_neg 4 raw = raw"
    by (simp add: slice_to_neg_def slice_neg_def)
  then show ?thesis
    by (simp add: base58check_eq data Let_def chk [symmetric], simp add: raw_def b58_text_bytes [OF alpha])
qed

end

definition hmac_ref :: "bytes \<Rightarrow> bytes \<Rightarrow> bytes" where
  "hmac_ref k d = nat_be 32 (Suc (length k)) @ nat_be 32 (length d)"

definition web_ref :: webcrypto where
  "web_ref = \<lparr> digest_SHA256 = digest_ref 32, ripemd160 = digest_ref 20,
     sign_HMAC_SHA512 = hmac_ref,
     deriveBits_PBKDF2_SHA512 = (\<lambda>pw salt iters n. digest_ref (n div 8) (pw @ salt)),
     encode_NFKD = TextEncoder_encode,
     getRandomValues = (\<lambda>n. replicate n 0),
     getPublicKey = (\<lambda>k c. if length k \<noteq> 32 then Inl (Error ''Expected 32 bytes of private key'')
       else Inr (if c then 2 # k else 4 # k @ k)),
     secp_sign = (\<lambda>h k. Inr ((2 # k) @ h)) \<rparr>"

interpretation web_ref: web_digest web_ref
  by unfold_locales (simp_all add: web_ref_def digest_ref_def)

section \<open>Properties\<close>

text \<open>\<open>fromHex\<close> reads back what \<open>toHex\<close> writes, for every byte array but the empty one, on
  which it throws (\<open>"".match\<close> is \<open>null\<close>).\<close>

lemma fromHex_roundtrip:
  "fromHex (toHex bs) = (if bs = [] then Inl TypeError else Inr bs)"
  by (simp add: fromHex_toHex) (simp add: fromHex_def toHex_def)

text \<open>
  Base58 is a bijection: a text decodes to a byte array exactly when it is the encoding of
  that array. Leading zero bytes are kept, and a text outside the alphabet is refused.
\<close>

theorem base58_inverse: "base58decode s = Inr bs \<longleftrightarrow> base58encode bs = Inr s"
  using b58_bytes_text [of bs] b58_text_bytes [of s] set_b58_text [of bs]
  by (auto simp: base58decode_eq base58encode_eq)

text \<open>
  C22. Addresses: \<open>base58checkDecode\<close> accepts exactly the texts that \<open>base58check\<close> produces, and
  returns the version byte and the payload that were encoded; everything else, in particular a
  text with a wrong checksum, throws.
\<close>

theorem base58check_inverse:
  assumes "web_digest W"
  shows "base58checkDecode W s = Inr d \<longleftrightarrow>
    base58check W (uint (addr_version d)) (addr_hash d) = Inr s"
  using web_digest.check_decode [OF assms, of s d]
    web_digest.decode_check [OF assms, of "uint (addr_version d)" "addr_hash d" s]
  by (cases d) auto

theorem base58check_inverse_witness:
  "base58checkDecode web_ref (b58_text ([28, 7] @ take 4 (sha256d web_ref [28, 7])))
     = Inr \<lparr> addr_version = 28, addr_hash = [7] \<rparr>"
  unfolding base58check_inverse [OF web_ref.web_digest_axioms]
  by (simp add: web_ref.base58check_eq Let_def)

end
