(* ===== verification/Wordlist.thy ===== *)
theory Wordlist
  imports Prelude
begin

text \<open>
  The English word list of BIP39 (\<open>src/contrib/webwallet/wordlist.js\<close>,
  \<open>src/src/bip39_wordlist.h\<close>): the words themselves, in blocks of 32 so that facts about them
  are evaluated block by block, and what the mnemonic code relies on: there are 2048 words, all
  different, each a non-empty string of lower-case letters.
\<close>

section \<open>The words\<close>

definition words_00 :: "string list" where
  "words_00 = [
    ''abandon'', ''ability'', ''able'', ''about'', ''above'', ''absent'', ''absorb'',
    ''abstract'', ''absurd'', ''abuse'', ''access'', ''accident'', ''account'', ''accuse'',
    ''achieve'', ''acid'', ''acoustic'', ''acquire'', ''across'', ''act'', ''action'', ''actor'',
    ''actress'', ''actual'', ''adapt'', ''add'', ''addict'', ''address'', ''adjust'', ''admit'',
    ''adult'', ''advance'']"

definition words_01 :: "string list" where
  "words_01 = [
    ''advice'', ''aerobic'', ''affair'', ''afford'', ''afraid'', ''again'', ''age'', ''agent'',
    ''agree'', ''ahead'', ''aim'', ''air'', ''airport'', ''aisle'', ''alarm'', ''album'',
    ''alcohol'', ''alert'', ''alien'', ''all'', ''alley'', ''allow'', ''almost'', ''alone'',
    ''alpha'', ''already'', ''also'', ''alter'', ''always'', ''amateur'', ''amazing'', ''among'']"

definition words_02 :: "string list" where
  "words_02 = [
    ''amount'', ''amused'', ''analyst'', ''anchor'', ''ancient'', ''anger'', ''angle'', ''angry'',
    ''animal'', ''ankle'', ''announce'', ''annual'', ''another'', ''answer'', ''antenna'',
    ''antique'', ''anxiety'', ''any'', ''apart'', ''apology'', ''appear'', ''apple'', ''approve'',
    ''april'', ''arch'', ''arctic'', ''area'', ''arena'', ''argue'', ''arm'', ''armed'',
    ''armor'']"

definition words_03 :: "string list" where
  "words_03 = [
    ''army'', ''around'', ''arrange'', ''arrest'', ''arrive'', ''arrow'', ''art'', ''artefact'',
    ''artist'', ''artwork'', ''ask'', ''aspect'', ''assault'', ''asset'', ''assist'', ''assume'',
    ''asthma'', ''athlete'', ''atom'', ''attack'', ''attend'', ''attitude'', ''attract'',
    ''auction'', ''audit'', ''august'', ''aunt'', ''author'', ''auto'', ''autumn'', ''average'',
    ''avocado'']"

definition words_04 :: "string list" where
  "words_04 = [
    ''avoid'', ''awake'', ''aware'', ''away'', ''awesome'', ''awful'', ''awkward'', ''axis'',
    ''baby'', ''bachelor'', ''bacon'', ''badge'', ''bag'', ''balance'', ''balcony'', ''ball'',
    ''bamboo'', ''banana'', ''banner'', ''bar'', ''barely'', ''bargain'', ''barrel'', ''base'',
    ''basic'', ''basket'', ''battle'', ''beach'', ''bean'', ''beauty'', ''because'', ''become'']"

definition words_05 :: "string list" where
  "words_05 = [
    ''beef'', ''before'', ''begin'', ''behave'', ''behind'', ''believe'', ''below'', ''belt'',
    ''bench'', ''benefit'', ''best'', ''betray'', ''better'', ''between'', ''beyond'',
    ''bicycle'', ''bid'', ''bike'', ''bind'', ''biology'', ''bird'', ''birth'', ''bitter'',
    ''black'', ''blade'', ''blame'', ''blanket'', ''blast'', ''bleak'', ''bless'', ''blind'',
    ''blood'']"

definition words_06 :: "string list" where
  "words_06 = [
    ''blossom'', ''blouse'', ''blue'', ''blur'', ''blush'', ''board'', ''boat'', ''body'',
    ''boil'', ''bomb'', ''bone'', ''bonus'', ''book'', ''boost'', ''border'', ''boring'',
    ''borrow'', ''boss'', ''bottom'', ''bounce'', ''box'', ''boy'', ''bracket'', ''brain'',
    ''brand'', ''brass'', ''brave'', ''bread'', ''breeze'', ''brick'', ''bridge'', ''brief'']"

definition words_07 :: "string list" where
  "words_07 = [
    ''bright'', ''bring'', ''brisk'', ''broccoli'', ''broken'', ''bronze'', ''broom'',
    ''brother'', ''brown'', ''brush'', ''bubble'', ''buddy'', ''budget'', ''buffalo'', ''build'',
    ''bulb'', ''bulk'', ''bullet'', ''bundle'', ''bunker'', ''burden'', ''burger'', ''burst'',
    ''bus'', ''business'', ''busy'', ''butter'', ''buyer'', ''buzz'', ''cabbage'', ''cabin'',
    ''cable'']"

definition words_08 :: "string list" where
  "words_08 = [
    ''cactus'', ''cage'', ''cake'', ''call'', ''calm'', ''camera'', ''camp'', ''can'', ''canal'',
    ''cancel'', ''candy'', ''cannon'', ''canoe'', ''canvas'', ''canyon'', ''capable'',
    ''capital'', ''captain'', ''car'', ''carbon'', ''card'', ''cargo'', ''carpet'', ''carry'',
    ''cart'', ''case'', ''cash'', ''casino'', ''castle'', ''casual'', ''cat'', ''catalog'']"

definition words_09 :: "string list" where
  "words_09 = [
    ''catch'', ''category'', ''cattle'', ''caught'', ''cause'', ''caution'', ''cave'',
    ''ceiling'', ''celery'', ''cement'', ''census'', ''century'', ''cereal'', ''certain'',
    ''chair'', ''chalk'', ''champion'', ''change'', ''chaos'', ''chapter'', ''charge'', ''chase'',
    ''chat'', ''cheap'', ''check'', ''cheese'', ''chef'', ''cherry'', ''chest'', ''chicken'',
    ''chief'', ''child'']"

definition words_10 :: "string list" where
  "words_10 = [
    ''chimney'', ''choice'', ''choose'', ''chronic'', ''chuckle'', ''chunk'', ''churn'',
    ''cigar'', ''cinnamon'', ''circle'', ''citizen'', ''city'', ''civil'', ''claim'', ''clap'',
    ''clarify'', ''claw'', ''clay'', ''clean'', ''clerk'', ''clever'', ''click'', ''client'',
    ''cliff'', ''climb'', ''clinic'', ''clip'', ''clock'', ''clog'', ''close'', ''cloth'',
    ''cloud'']"

definition words_11 :: "string list" where
  "words_11 = [
    ''clown'', ''club'', ''clump'', ''cluster'', ''clutch'', ''coach'', ''coast'', ''coconut'',
    ''code'', ''coffee'', ''coil'', ''coin'', ''collect'', ''color'', ''column'', ''combine'',
    ''come'', ''comfort'', ''comic'', ''common'', ''company'', ''concert'', ''conduct'',
    ''confirm'', ''congress'', ''connect'', ''consider'', ''control'', ''convince'', ''cook'',
    ''cool'', ''copper'']"

definition words_12 :: "string list" where
  "words_12 = [
    ''copy'', ''coral'', ''core'', ''corn'', ''correct'', ''cost'', ''cotton'', ''couch'',
    ''country'', ''couple'', ''course'', ''cousin'', ''cover'', ''coyote'', ''crack'', ''cradle'',
    ''craft'', ''cram'', ''crane'', ''crash'', ''crater'', ''crawl'', ''crazy'', ''cream'',
    ''credit'', ''creek'', ''crew'', ''cricket'', ''crime'', ''crisp'', ''critic'', ''crop'']"

definition words_13 :: "string list" where
  "words_13 = [
    ''cross'', ''crouch'', ''crowd'', ''crucial'', ''cruel'', ''cruise'', ''crumble'', ''crunch'',
    ''crush'', ''cry'', ''crystal'', ''cube'', ''culture'', ''cup'', ''cupboard'', ''curious'',
    ''current'', ''curtain'', ''curve'', ''cushion'', ''custom'', ''cute'', ''cycle'', ''dad'',
    ''damage'', ''damp'', ''dance'', ''danger'', ''daring'', ''dash'', ''daughter'', ''dawn'']"

definition words_14 :: "string list" where
  "words_14 = [
    ''day'', ''deal'', ''debate'', ''debris'', ''decade'', ''december'', ''decide'', ''decline'',
    ''decorate'', ''decrease'', ''deer'', ''defense'', ''define'', ''defy'', ''degree'',
    ''delay'', ''deliver'', ''demand'', ''demise'', ''denial'', ''dentist'', ''deny'', ''depart'',
    ''depend'', ''deposit'', ''depth'', ''deputy'', ''derive'', ''describe'', ''desert'',
    ''design'', ''desk'']"

definition words_15 :: "string list" where
  "words_15 = [
    ''despair'', ''destroy'', ''detail'', ''detect'', ''develop'', ''device'', ''devote'',
    ''diagram'', ''dial'', ''diamond'', ''diary'', ''dice'', ''diesel'', ''diet'', ''differ'',
    ''digital'', ''dignity'', ''dilemma'', ''dinner'', ''dinosaur'', ''direct'', ''dirt'',
    ''disagree'', ''discover'', ''disease'', ''dish'', ''dismiss'', ''disorder'', ''display'',
    ''distance'', ''divert'', ''divide'']"

definition words_16 :: "string list" where
  "words_16 = [
    ''divorce'', ''dizzy'', ''doctor'', ''document'', ''dog'', ''doll'', ''dolphin'', ''domain'',
    ''donate'', ''donkey'', ''donor'', ''door'', ''dose'', ''double'', ''dove'', ''draft'',
    ''dragon'', ''drama'', ''drastic'', ''draw'', ''dream'', ''dress'', ''drift'', ''drill'',
    ''drink'', ''drip'', ''drive'', ''drop'', ''drum'', ''dry'', ''duck'', ''dumb'']"

definition words_17 :: "string list" where
  "words_17 = [
    ''dune'', ''during'', ''dust'', ''dutch'', ''duty'', ''dwarf'', ''dynamic'', ''eager'',
    ''eagle'', ''early'', ''earn'', ''earth'', ''easily'', ''east'', ''easy'', ''echo'',
    ''ecology'', ''economy'', ''edge'', ''edit'', ''educate'', ''effort'', ''egg'', ''eight'',
    ''either'', ''elbow'', ''elder'', ''electric'', ''elegant'', ''element'', ''elephant'',
    ''elevator'']"

definition words_18 :: "string list" where
  "words_18 = [
    ''elite'', ''else'', ''embark'', ''embody'', ''embrace'', ''emerge'', ''emotion'', ''employ'',
    ''empower'', ''empty'', ''enable'', ''enact'', ''end'', ''endless'', ''endorse'', ''enemy'',
    ''energy'', ''enforce'', ''engage'', ''engine'', ''enhance'', ''enjoy'', ''enlist'',
    ''enough'', ''enrich'', ''enroll'', ''ensure'', ''enter'', ''entire'', ''entry'',
    ''envelope'', ''episode'']"

definition words_19 :: "string list" where
  "words_19 = [
    ''equal'', ''equip'', ''era'', ''erase'', ''erode'', ''erosion'', ''error'', ''erupt'',
    ''escape'', ''essay'', ''essence'', ''estate'', ''eternal'', ''ethics'', ''evidence'',
    ''evil'', ''evoke'', ''evolve'', ''exact'', ''example'', ''excess'', ''exchange'', ''excite'',
    ''exclude'', ''excuse'', ''execute'', ''exercise'', ''exhaust'', ''exhibit'', ''exile'',
    ''exist'', ''exit'']"

definition words_20 :: "string list" where
  "words_20 = [
    ''exotic'', ''expand'', ''expect'', ''expire'', ''explain'', ''expose'', ''express'',
    ''extend'', ''extra'', ''eye'', ''eyebrow'', ''fabric'', ''face'', ''faculty'', ''fade'',
    ''faint'', ''faith'', ''fall'', ''false'', ''fame'', ''family'', ''famous'', ''fan'',
    ''fancy'', ''fantasy'', ''farm'', ''fashion'', ''fat'', ''fatal'', ''father'', ''fatigue'',
    ''fault'']"

definition words_21 :: "string list" where
  "words_21 = [
    ''favorite'', ''feature'', ''february'', ''federal'', ''fee'', ''feed'', ''feel'', ''female'',
    ''fence'', ''festival'', ''fetch'', ''fever'', ''few'', ''fiber'', ''fiction'', ''field'',
    ''figure'', ''file'', ''film'', ''filter'', ''final'', ''find'', ''fine'', ''finger'',
    ''finish'', ''fire'', ''firm'', ''first'', ''fiscal'', ''fish'', ''fit'', ''fitness'']"

definition words_22 :: "string list" where
  "words_22 = [
    ''fix'', ''flag'', ''flame'', ''flash'', ''flat'', ''flavor'', ''flee'', ''flight'', ''flip'',
    ''float'', ''flock'', ''floor'', ''flower'', ''fluid'', ''flush'', ''fly'', ''foam'',
    ''focus'', ''fog'', ''foil'', ''fold'', ''follow'', ''food'', ''foot'', ''force'', ''forest'',
    ''forget'', ''fork'', ''fortune'', ''forum'', ''forward'', ''fossil'']"

definition words_23 :: "string list" where
  "words_23 = [
    ''foster'', ''found'', ''fox'', ''fragile'', ''frame'', ''frequent'', ''fresh'', ''friend'',
    ''fringe'', ''frog'', ''front'', ''frost'', ''frown'', ''frozen'', ''fruit'', ''fuel'',
    ''fun'', ''funny'', ''furnace'', ''fury'', ''future'', ''gadget'', ''gain'', ''galaxy'',
    ''gallery'', ''game'', ''gap'', ''garage'', ''garbage'', ''garden'', ''garlic'', ''garment'']"

definition words_24 :: "string list" where
  "words_24 = [
    ''gas'', ''gasp'', ''gate'', ''gather'', ''gauge'', ''gaze'', ''general'', ''genius'',
    ''genre'', ''gentle'', ''genuine'', ''gesture'', ''ghost'', ''giant'', ''gift'', ''giggle'',
    ''ginger'', ''giraffe'', ''girl'', ''give'', ''glad'', ''glance'', ''glare'', ''glass'',
    ''glide'', ''glimpse'', ''globe'', ''gloom'', ''glory'', ''glove'', ''glow'', ''glue'']"

definition words_25 :: "string list" where
  "words_25 = [
    ''goat'', ''goddess'', ''gold'', ''good'', ''goose'', ''gorilla'', ''gospel'', ''gossip'',
    ''govern'', ''gown'', ''grab'', ''grace'', ''grain'', ''grant'', ''grape'', ''grass'',
    ''gravity'', ''great'', ''green'', ''grid'', ''grief'', ''grit'', ''grocery'', ''group'',
    ''grow'', ''grunt'', ''guard'', ''guess'', ''guide'', ''guilt'', ''guitar'', ''gun'']"

definition words_26 :: "string list" where
  "words_26 = [
    ''gym'', ''habit'', ''hair'', ''half'', ''hammer'', ''hamster'', ''hand'', ''happy'',
    ''harbor'', ''hard'', ''harsh'', ''harvest'', ''hat'', ''have'', ''hawk'', ''hazard'',
    ''head'', ''health'', ''heart'', ''heavy'', ''hedgehog'', ''height'', ''hello'', ''helmet'',
    ''help'', ''hen'', ''hero'', ''hidden'', ''high'', ''hill'', ''hint'', ''hip'']"

definition words_27 :: "string list" where
  "words_27 = [
    ''hire'', ''history'', ''hobby'', ''hockey'', ''hold'', ''hole'', ''holiday'', ''hollow'',
    ''home'', ''honey'', ''hood'', ''hope'', ''horn'', ''horror'', ''horse'', ''hospital'',
    ''host'', ''hotel'', ''hour'', ''hover'', ''hub'', ''huge'', ''human'', ''humble'', ''humor'',
    ''hundred'', ''hungry'', ''hunt'', ''hurdle'', ''hurry'', ''hurt'', ''husband'']"

definition words_28 :: "string list" where
  "words_28 = [
    ''hybrid'', ''ice'', ''icon'', ''idea'', ''identify'', ''idle'', ''ignore'', ''ill'',
    ''illegal'', ''illness'', ''image'', ''imitate'', ''immense'', ''immune'', ''impact'',
    ''impose'', ''improve'', ''impulse'', ''inch'', ''include'', ''income'', ''increase'',
    ''index'', ''indicate'', ''indoor'', ''industry'', ''infant'', ''inflict'', ''inform'',
    ''inhale'', ''inherit'', ''initial'']"

definition words_29 :: "string list" where
  "words_29 = [
    ''inject'', ''injury'', ''inmate'', ''inner'', ''innocent'', ''input'', ''inquiry'',
    ''insane'', ''insect'', ''inside'', ''inspire'', ''install'', ''intact'', ''interest'',
    ''into'', ''invest'', ''invite'', ''involve'', ''iron'', ''island'', ''isolate'', ''issue'',
    ''item'', ''ivory'', ''jacket'', ''jaguar'', ''jar'', ''jazz'', ''jealous'', ''jeans'',
    ''jelly'', ''jewel'']"

definition words_30 :: "string list" where
  "words_30 = [
    ''job'', ''join'', ''joke'', ''journey'', ''joy'', ''judge'', ''juice'', ''jump'', ''jungle'',
    ''junior'', ''junk'', ''just'', ''kangaroo'', ''keen'', ''keep'', ''ketchup'', ''key'',
    ''kick'', ''kid'', ''kidney'', ''kind'', ''kingdom'', ''kiss'', ''kit'', ''kitchen'',
    ''kite'', ''kitten'', ''kiwi'', ''knee'', ''knife'', ''knock'', ''know'']"

definition words_31 :: "string list" where
  "words_31 = [
    ''lab'', ''label'', ''labor'', ''ladder'', ''lady'', ''lake'', ''lamp'', ''language'',
    ''laptop'', ''large'', ''later'', ''latin'', ''laugh'', ''laundry'', ''lava'', ''law'',
    ''lawn'', ''lawsuit'', ''layer'', ''lazy'', ''leader'', ''leaf'', ''learn'', ''leave'',
    ''lecture'', ''left'', ''leg'', ''legal'', ''legend'', ''leisure'', ''lemon'', ''lend'']"

definition words_32 :: "string list" where
  "words_32 = [
    ''length'', ''lens'', ''leopard'', ''lesson'', ''letter'', ''level'', ''liar'', ''liberty'',
    ''library'', ''license'', ''life'', ''lift'', ''light'', ''like'', ''limb'', ''limit'',
    ''link'', ''lion'', ''liquid'', ''list'', ''little'', ''live'', ''lizard'', ''load'',
    ''loan'', ''lobster'', ''local'', ''lock'', ''logic'', ''lonely'', ''long'', ''loop'']"

definition words_33 :: "string list" where
  "words_33 = [
    ''lottery'', ''loud'', ''lounge'', ''love'', ''loyal'', ''lucky'', ''luggage'', ''lumber'',
    ''lunar'', ''lunch'', ''luxury'', ''lyrics'', ''machine'', ''mad'', ''magic'', ''magnet'',
    ''maid'', ''mail'', ''main'', ''major'', ''make'', ''mammal'', ''man'', ''manage'',
    ''mandate'', ''mango'', ''mansion'', ''manual'', ''maple'', ''marble'', ''march'', ''margin'']"

definition words_34 :: "string list" where
  "words_34 = [
    ''marine'', ''market'', ''marriage'', ''mask'', ''mass'', ''master'', ''match'', ''material'',
    ''math'', ''matrix'', ''matter'', ''maximum'', ''maze'', ''meadow'', ''mean'', ''measure'',
    ''meat'', ''mechanic'', ''medal'', ''media'', ''melody'', ''melt'', ''member'', ''memory'',
    ''mention'', ''menu'', ''mercy'', ''merge'', ''merit'', ''merry'', ''mesh'', ''message'']"

definition words_35 :: "string list" where
  "words_35 = [
    ''metal'', ''method'', ''middle'', ''midnight'', ''milk'', ''million'', ''mimic'', ''mind'',
    ''minimum'', ''minor'', ''minute'', ''miracle'', ''mirror'', ''misery'', ''miss'',
    ''mistake'', ''mix'', ''mixed'', ''mixture'', ''mobile'', ''model'', ''modify'', ''mom'',
    ''moment'', ''monitor'', ''monkey'', ''monster'', ''month'', ''moon'', ''moral'', ''more'',
    ''morning'']"

definition words_36 :: "string list" where
  "words_36 = [
    ''mosquito'', ''mother'', ''motion'', ''motor'', ''mountain'', ''mouse'', ''move'', ''movie'',
    ''much'', ''muffin'', ''mule'', ''multiply'', ''muscle'', ''museum'', ''mushroom'', ''music'',
    ''must'', ''mutual'', ''myself'', ''mystery'', ''myth'', ''naive'', ''name'', ''napkin'',
    ''narrow'', ''nasty'', ''nation'', ''nature'', ''near'', ''neck'', ''need'', ''negative'']"

definition words_37 :: "string list" where
  "words_37 = [
    ''neglect'', ''neither'', ''nephew'', ''nerve'', ''nest'', ''net'', ''network'', ''neutral'',
    ''never'', ''news'', ''next'', ''nice'', ''night'', ''noble'', ''noise'', ''nominee'',
    ''noodle'', ''normal'', ''north'', ''nose'', ''notable'', ''note'', ''nothing'', ''notice'',
    ''novel'', ''now'', ''nuclear'', ''number'', ''nurse'', ''nut'', ''oak'', ''obey'']"

definition words_38 :: "string list" where
  "words_38 = [
    ''object'', ''oblige'', ''obscure'', ''observe'', ''obtain'', ''obvious'', ''occur'',
    ''ocean'', ''october'', ''odor'', ''off'', ''offer'', ''office'', ''often'', ''oil'',
    ''okay'', ''old'', ''olive'', ''olympic'', ''omit'', ''once'', ''one'', ''onion'', ''online'',
    ''only'', ''open'', ''opera'', ''opinion'', ''oppose'', ''option'', ''orange'', ''orbit'']"

definition words_39 :: "string list" where
  "words_39 = [
    ''orchard'', ''order'', ''ordinary'', ''organ'', ''orient'', ''original'', ''orphan'',
    ''ostrich'', ''other'', ''outdoor'', ''outer'', ''output'', ''outside'', ''oval'', ''oven'',
    ''over'', ''own'', ''owner'', ''oxygen'', ''oyster'', ''ozone'', ''pact'', ''paddle'',
    ''page'', ''pair'', ''palace'', ''palm'', ''panda'', ''panel'', ''panic'', ''panther'',
    ''paper'']"

definition words_40 :: "string list" where
  "words_40 = [
    ''parade'', ''parent'', ''park'', ''parrot'', ''party'', ''pass'', ''patch'', ''path'',
    ''patient'', ''patrol'', ''pattern'', ''pause'', ''pave'', ''payment'', ''peace'', ''peanut'',
    ''pear'', ''peasant'', ''pelican'', ''pen'', ''penalty'', ''pencil'', ''people'', ''pepper'',
    ''perfect'', ''permit'', ''person'', ''pet'', ''phone'', ''photo'', ''phrase'', ''physical'']"

definition words_41 :: "string list" where
  "words_41 = [
    ''piano'', ''picnic'', ''picture'', ''piece'', ''pig'', ''pigeon'', ''pill'', ''pilot'',
    ''pink'', ''pioneer'', ''pipe'', ''pistol'', ''pitch'', ''pizza'', ''place'', ''planet'',
    ''plastic'', ''plate'', ''play'', ''please'', ''pledge'', ''pluck'', ''plug'', ''plunge'',
    ''poem'', ''poet'', ''point'', ''polar'', ''pole'', ''police'', ''pond'', ''pony'']"

definition words_42 :: "string list" where
  "words_42 = [
    ''pool'', ''popular'', ''portion'', ''position'', ''possible'', ''post'', ''potato'',
    ''pottery'', ''poverty'', ''powder'', ''power'', ''practice'', ''praise'', ''predict'',
    ''prefer'', ''prepare'', ''present'', ''pretty'', ''prevent'', ''price'', ''pride'',
    ''primary'', ''print'', ''priority'', ''prison'', ''private'', ''prize'', ''problem'',
    ''process'', ''produce'', ''profit'', ''program'']"

definition words_43 :: "string list" where
  "words_43 = [
    ''project'', ''promote'', ''proof'', ''property'', ''prosper'', ''protect'', ''proud'',
    ''provide'', ''public'', ''pudding'', ''pull'', ''pulp'', ''pulse'', ''pumpkin'', ''punch'',
    ''pupil'', ''puppy'', ''purchase'', ''purity'', ''purpose'', ''purse'', ''push'', ''put'',
    ''puzzle'', ''pyramid'', ''quality'', ''quantum'', ''quarter'', ''question'', ''quick'',
    ''quit'', ''quiz'']"

definition words_44 :: "string list" where
  "words_44 = [
    ''quote'', ''rabbit'', ''raccoon'', ''race'', ''rack'', ''radar'', ''radio'', ''rail'',
    ''rain'', ''raise'', ''rally'', ''ramp'', ''ranch'', ''random'', ''range'', ''rapid'',
    ''rare'', ''rate'', ''rather'', ''raven'', ''raw'', ''razor'', ''ready'', ''real'',
    ''reason'', ''rebel'', ''rebuild'', ''recall'', ''receive'', ''recipe'', ''record'',
    ''recycle'']"

definition words_45 :: "string list" where
  "words_45 = [
    ''reduce'', ''reflect'', ''reform'', ''refuse'', ''region'', ''regret'', ''regular'',
    ''reject'', ''relax'', ''release'', ''relief'', ''rely'', ''remain'', ''remember'',
    ''remind'', ''remove'', ''render'', ''renew'', ''rent'', ''reopen'', ''repair'', ''repeat'',
    ''replace'', ''report'', ''require'', ''rescue'', ''resemble'', ''resist'', ''resource'',
    ''response'', ''result'', ''retire'']"

definition words_46 :: "string list" where
  "words_46 = [
    ''retreat'', ''return'', ''reunion'', ''reveal'', ''review'', ''reward'', ''rhythm'', ''rib'',
    ''ribbon'', ''rice'', ''rich'', ''ride'', ''ridge'', ''rifle'', ''right'', ''rigid'',
    ''ring'', ''riot'', ''ripple'', ''risk'', ''ritual'', ''rival'', ''river'', ''road'',
    ''roast'', ''robot'', ''robust'', ''rocket'', ''romance'', ''roof'', ''rookie'', ''room'']"

definition words_47 :: "string list" where
  "words_47 = [
    ''rose'', ''rotate'', ''rough'', ''round'', ''route'', ''royal'', ''rubber'', ''rude'',
    ''rug'', ''rule'', ''run'', ''runway'', ''rural'', ''sad'', ''saddle'', ''sadness'', ''safe'',
    ''sail'', ''salad'', ''salmon'', ''salon'', ''salt'', ''salute'', ''same'', ''sample'',
    ''sand'', ''satisfy'', ''satoshi'', ''sauce'', ''sausage'', ''save'', ''say'']"

definition words_48 :: "string list" where
  "words_48 = [
    ''scale'', ''scan'', ''scare'', ''scatter'', ''scene'', ''scheme'', ''school'', ''science'',
    ''scissors'', ''scorpion'', ''scout'', ''scrap'', ''screen'', ''script'', ''scrub'', ''sea'',
    ''search'', ''season'', ''seat'', ''second'', ''secret'', ''section'', ''security'', ''seed'',
    ''seek'', ''segment'', ''select'', ''sell'', ''seminar'', ''senior'', ''sense'', ''sentence'']"

definition words_49 :: "string list" where
  "words_49 = [
    ''series'', ''service'', ''session'', ''settle'', ''setup'', ''seven'', ''shadow'', ''shaft'',
    ''shallow'', ''share'', ''shed'', ''shell'', ''sheriff'', ''shield'', ''shift'', ''shine'',
    ''ship'', ''shiver'', ''shock'', ''shoe'', ''shoot'', ''shop'', ''short'', ''shoulder'',
    ''shove'', ''shrimp'', ''shrug'', ''shuffle'', ''shy'', ''sibling'', ''sick'', ''side'']"

definition words_50 :: "string list" where
  "words_50 = [
    ''siege'', ''sight'', ''sign'', ''silent'', ''silk'', ''silly'', ''silver'', ''similar'',
    ''simple'', ''since'', ''sing'', ''siren'', ''sister'', ''situate'', ''six'', ''size'',
    ''skate'', ''sketch'', ''ski'', ''skill'', ''skin'', ''skirt'', ''skull'', ''slab'', ''slam'',
    ''sleep'', ''slender'', ''slice'', ''slide'', ''slight'', ''slim'', ''slogan'']"

definition words_51 :: "string list" where
  "words_51 = [
    ''slot'', ''slow'', ''slush'', ''small'', ''smart'', ''smile'', ''smoke'', ''smooth'',
    ''snack'', ''snake'', ''snap'', ''sniff'', ''snow'', ''soap'', ''soccer'', ''social'',
    ''sock'', ''soda'', ''soft'', ''solar'', ''soldier'', ''solid'', ''solution'', ''solve'',
    ''someone'', ''song'', ''soon'', ''sorry'', ''sort'', ''soul'', ''sound'', ''soup'']"

definition words_52 :: "string list" where
  "words_52 = [
    ''source'', ''south'', ''space'', ''spare'', ''spatial'', ''spawn'', ''speak'', ''special'',
    ''speed'', ''spell'', ''spend'', ''sphere'', ''spice'', ''spider'', ''spike'', ''spin'',
    ''spirit'', ''split'', ''spoil'', ''sponsor'', ''spoon'', ''sport'', ''spot'', ''spray'',
    ''spread'', ''spring'', ''spy'', ''square'', ''squeeze'', ''squirrel'', ''stable'',
    ''stadium'']"

definition words_53 :: "string list" where
  "words_53 = [
    ''staff'', ''stage'', ''stairs'', ''stamp'', ''stand'', ''start'', ''state'', ''stay'',
    ''steak'', ''steel'', ''stem'', ''step'', ''stereo'', ''stick'', ''still'', ''sting'',
    ''stock'', ''stomach'', ''stone'', ''stool'', ''story'', ''stove'', ''strategy'', ''street'',
    ''strike'', ''strong'', ''struggle'', ''student'', ''stuff'', ''stumble'', ''style'',
    ''subject'']"

definition words_54 :: "string list" where
  "words_54 = [
    ''submit'', ''subway'', ''success'', ''such'', ''sudden'', ''suffer'', ''sugar'', ''suggest'',
    ''suit'', ''summer'', ''sun'', ''sunny'', ''sunset'', ''super'', ''supply'', ''supreme'',
    ''sure'', ''surface'', ''surge'', ''surprise'', ''surround'', ''survey'', ''suspect'',
    ''sustain'', ''swallow'', ''swamp'', ''swap'', ''swarm'', ''swear'', ''sweet'', ''swift'',
    ''swim'']"

definition words_55 :: "string list" where
  "words_55 = [
    ''swing'', ''switch'', ''sword'', ''symbol'', ''symptom'', ''syrup'', ''system'', ''table'',
    ''tackle'', ''tag'', ''tail'', ''talent'', ''talk'', ''tank'', ''tape'', ''target'', ''task'',
    ''taste'', ''tattoo'', ''taxi'', ''teach'', ''team'', ''tell'', ''ten'', ''tenant'',
    ''tennis'', ''tent'', ''term'', ''test'', ''text'', ''thank'', ''that'']"

definition words_56 :: "string list" where
  "words_56 = [
    ''theme'', ''then'', ''theory'', ''there'', ''they'', ''thing'', ''this'', ''thought'',
    ''three'', ''thrive'', ''throw'', ''thumb'', ''thunder'', ''ticket'', ''tide'', ''tiger'',
    ''tilt'', ''timber'', ''time'', ''tiny'', ''tip'', ''tired'', ''tissue'', ''title'',
    ''toast'', ''tobacco'', ''today'', ''toddler'', ''toe'', ''together'', ''toilet'', ''token'']"

definition words_57 :: "string list" where
  "words_57 = [
    ''tomato'', ''tomorrow'', ''tone'', ''tongue'', ''tonight'', ''tool'', ''tooth'', ''top'',
    ''topic'', ''topple'', ''torch'', ''tornado'', ''tortoise'', ''toss'', ''total'', ''tourist'',
    ''toward'', ''tower'', ''town'', ''toy'', ''track'', ''trade'', ''traffic'', ''tragic'',
    ''train'', ''transfer'', ''trap'', ''trash'', ''travel'', ''tray'', ''treat'', ''tree'']"

definition words_58 :: "string list" where
  "words_58 = [
    ''trend'', ''trial'', ''tribe'', ''trick'', ''trigger'', ''trim'', ''trip'', ''trophy'',
    ''trouble'', ''truck'', ''true'', ''truly'', ''trumpet'', ''trust'', ''truth'', ''try'',
    ''tube'', ''tuition'', ''tumble'', ''tuna'', ''tunnel'', ''turkey'', ''turn'', ''turtle'',
    ''twelve'', ''twenty'', ''twice'', ''twin'', ''twist'', ''two'', ''type'', ''typical'']"

definition words_59 :: "string list" where
  "words_59 = [
    ''ugly'', ''umbrella'', ''unable'', ''unaware'', ''uncle'', ''uncover'', ''under'', ''undo'',
    ''unfair'', ''unfold'', ''unhappy'', ''uniform'', ''unique'', ''unit'', ''universe'',
    ''unknown'', ''unlock'', ''until'', ''unusual'', ''unveil'', ''update'', ''upgrade'',
    ''uphold'', ''upon'', ''upper'', ''upset'', ''urban'', ''urge'', ''usage'', ''use'', ''used'',
    ''useful'']"

definition words_60 :: "string list" where
  "words_60 = [
    ''useless'', ''usual'', ''utility'', ''vacant'', ''vacuum'', ''vague'', ''valid'', ''valley'',
    ''valve'', ''van'', ''vanish'', ''vapor'', ''various'', ''vast'', ''vault'', ''vehicle'',
    ''velvet'', ''vendor'', ''venture'', ''venue'', ''verb'', ''verify'', ''version'', ''very'',
    ''vessel'', ''veteran'', ''viable'', ''vibrant'', ''vicious'', ''victory'', ''video'',
    ''view'']"

definition words_61 :: "string list" where
  "words_61 = [
    ''village'', ''vintage'', ''violin'', ''virtual'', ''virus'', ''visa'', ''visit'', ''visual'',
    ''vital'', ''vivid'', ''vocal'', ''voice'', ''void'', ''volcano'', ''volume'', ''vote'',
    ''voyage'', ''wage'', ''wagon'', ''wait'', ''walk'', ''wall'', ''walnut'', ''want'',
    ''warfare'', ''warm'', ''warrior'', ''wash'', ''wasp'', ''waste'', ''water'', ''wave'']"

definition words_62 :: "string list" where
  "words_62 = [
    ''way'', ''wealth'', ''weapon'', ''wear'', ''weasel'', ''weather'', ''web'', ''wedding'',
    ''weekend'', ''weird'', ''welcome'', ''west'', ''wet'', ''whale'', ''what'', ''wheat'',
    ''wheel'', ''when'', ''where'', ''whip'', ''whisper'', ''wide'', ''width'', ''wife'',
    ''wild'', ''will'', ''win'', ''window'', ''wine'', ''wing'', ''wink'', ''winner'']"

definition words_63 :: "string list" where
  "words_63 = [
    ''winter'', ''wire'', ''wisdom'', ''wise'', ''wish'', ''witness'', ''wolf'', ''woman'',
    ''wonder'', ''wood'', ''wool'', ''word'', ''work'', ''world'', ''worry'', ''worth'', ''wrap'',
    ''wreck'', ''wrestle'', ''wrist'', ''write'', ''wrong'', ''yard'', ''year'', ''yellow'',
    ''you'', ''young'', ''youth'', ''zebra'', ''zero'', ''zone'', ''zoo'']"

definition WORDLIST :: "string list" where
  "WORDLIST = concat [
    words_00, words_01, words_02, words_03, words_04, words_05, words_06, words_07,
    words_08, words_09, words_10, words_11, words_12, words_13, words_14, words_15,
    words_16, words_17, words_18, words_19, words_20, words_21, words_22, words_23,
    words_24, words_25, words_26, words_27, words_28, words_29, words_30, words_31,
    words_32, words_33, words_34, words_35, words_36, words_37, words_38, words_39,
    words_40, words_41, words_42, words_43, words_44, words_45, words_46, words_47,
    words_48, words_49, words_50, words_51, words_52, words_53, words_54, words_55,
    words_56, words_57, words_58, words_59, words_60, words_61, words_62, words_63]"

text \<open>The C++ header holds the same list.\<close>

definition BIP39_WORDLIST :: "string list" where
  "BIP39_WORDLIST = WORDLIST"

section \<open>Checking a block\<close>

fun lower :: "char \<Rightarrow> bool" where
  "lower (Char b0 b1 b2 b3 b4 b5 b6 b7) \<longleftrightarrow> b5 \<and> b6 \<and> \<not> b7"

text \<open>Alphabetic order on lower-case letters, by their bits.\<close>

fun char_less :: "char \<Rightarrow> char \<Rightarrow> bool" where
  "char_less (Char a0 a1 a2 a3 a4 a5 a6 a7) (Char b0 b1 b2 b3 b4 b5 b6 b7) \<longleftrightarrow>
     (if a4 \<noteq> b4 then b4 else if a3 \<noteq> b3 then b3 else if a2 \<noteq> b2 then b2
      else if a1 \<noteq> b1 then b1 else \<not> a0 \<and> b0)"

fun word_less :: "string \<Rightarrow> string \<Rightarrow> bool" where
  "word_less [] t \<longleftrightarrow> t \<noteq> []"
| "word_less (c # s) [] \<longleftrightarrow> False"
| "word_less (c # s) (d # t) \<longleftrightarrow>
     (if char_less c d then True else if char_less d c then False else word_less s t)"

fun chain :: "string list \<Rightarrow> bool" where
  "chain (s # t # ws) \<longleftrightarrow> s \<noteq> [] \<and> list_all lower s \<and> word_less s t \<and> chain (t # ws)"
| "chain [s] \<longleftrightarrow> s \<noteq> [] \<and> list_all lower s"
| "chain [] \<longleftrightarrow> True"

lemma char_less_trans: "char_less c d \<Longrightarrow> char_less d e \<Longrightarrow> char_less c e"
  by (cases c; cases d; cases e) (auto split: if_splits)

lemma char_less_irrefl: "\<not> char_less c c"
  by (cases c) auto

lemma char_less_total: "lower c \<Longrightarrow> lower d \<Longrightarrow> \<not> char_less c d \<Longrightarrow> \<not> char_less d c \<Longrightarrow> c = d"
  by (cases c; cases d) (auto split: if_splits)

lemma word_less_irrefl: "\<not> word_less s s"
  by (induction s) (auto simp: char_less_irrefl)

lemma word_less_trans:
  "list_all lower s \<Longrightarrow> list_all lower t \<Longrightarrow> list_all lower u \<Longrightarrow>
   word_less s t \<Longrightarrow> word_less t u \<Longrightarrow> word_less s u"
proof (induction s t arbitrary: u rule: word_less.induct)
  case (1 t)
  then show ?case by (cases t; cases u) auto
next
  case (3 c s d t)
  then show ?case
    by (cases u) (auto split: if_splits dest: char_less_trans char_less_total)
qed simp

lemma chain_append:
  "chain xs \<Longrightarrow> chain ys \<Longrightarrow> xs = [] \<or> ys = [] \<or> word_less (last xs) (hd ys) \<Longrightarrow> chain (xs @ ys)"
proof (induction xs rule: chain.induct)
  case (2 s)
  then show ?case by (cases ys) auto
qed auto

lemma chain_words: "chain ws \<Longrightarrow> w \<in> set ws \<Longrightarrow> w \<noteq> [] \<and> list_all lower w"
  by (induction ws rule: chain.induct) auto

lemma chain_sorted: "chain ws \<Longrightarrow> sorted_wrt word_less ws"
proof (induction ws rule: chain.induct)
  case (1 s t ws)
  then have st: "word_less s t" and rest: "sorted_wrt word_less (t # ws)" by auto
  have "word_less s w" if w: "w \<in> set ws" for w
    using w st rest 1(2) chain_words [OF 1(2)] word_less_trans [of s t w] by auto
  with st rest show ?case by auto
qed auto

lemma chain_distinct: "chain ws \<Longrightarrow> distinct ws"
proof (induction ws rule: chain.induct)
  case (1 s t ws)
  then have "\<forall>w\<in>set (t # ws). word_less s w" using chain_sorted [OF 1(2)] by simp
  with 1 show ?case using word_less_irrefl [of s] by auto
qed auto

text \<open>A block with its first and last word and its length; blocks in order are joined.\<close>

definition block :: "string list \<Rightarrow> string \<Rightarrow> string \<Rightarrow> nat \<Rightarrow> bool" where
  "block ws a z n \<longleftrightarrow> chain ws \<and> ws \<noteq> [] \<and> hd ws = a \<and> last ws = z \<and> length ws = n"

lemma block_append:
  "block xs a z n \<Longrightarrow> block ys b y m \<Longrightarrow> word_less z b \<Longrightarrow> block (xs @ ys) a y (n + m)"
  by (auto simp: block_def intro: chain_append)

section \<open>The list\<close>

lemma block_00: "block words_00 ''abandon'' ''advance'' 32"
  by code_simp

lemma block_01: "block words_01 ''advice'' ''among'' 32"
  by code_simp

lemma block_02: "block words_02 ''amount'' ''armor'' 32"
  by code_simp

lemma block_03: "block words_03 ''army'' ''avocado'' 32"
  by code_simp

lemma block_04: "block words_04 ''avoid'' ''become'' 32"
  by code_simp

lemma block_05: "block words_05 ''beef'' ''blood'' 32"
  by code_simp

lemma block_06: "block words_06 ''blossom'' ''brief'' 32"
  by code_simp

lemma block_07: "block words_07 ''bright'' ''cable'' 32"
  by code_simp

lemma block_08: "block words_08 ''cactus'' ''catalog'' 32"
  by code_simp

lemma block_09: "block words_09 ''catch'' ''child'' 32"
  by code_simp

lemma block_10: "block words_10 ''chimney'' ''cloud'' 32"
  by code_simp

lemma block_11: "block words_11 ''clown'' ''copper'' 32"
  by code_simp

lemma block_12: "block words_12 ''copy'' ''crop'' 32"
  by code_simp

lemma block_13: "block words_13 ''cross'' ''dawn'' 32"
  by code_simp

lemma block_14: "block words_14 ''day'' ''desk'' 32"
  by code_simp

lemma block_15: "block words_15 ''despair'' ''divide'' 32"
  by code_simp

lemma block_16: "block words_16 ''divorce'' ''dumb'' 32"
  by code_simp

lemma block_17: "block words_17 ''dune'' ''elevator'' 32"
  by code_simp

lemma block_18: "block words_18 ''elite'' ''episode'' 32"
  by code_simp

lemma block_19: "block words_19 ''equal'' ''exit'' 32"
  by code_simp

lemma block_20: "block words_20 ''exotic'' ''fault'' 32"
  by code_simp

lemma block_21: "block words_21 ''favorite'' ''fitness'' 32"
  by code_simp

lemma block_22: "block words_22 ''fix'' ''fossil'' 32"
  by code_simp

lemma block_23: "block words_23 ''foster'' ''garment'' 32"
  by code_simp

lemma block_24: "block words_24 ''gas'' ''glue'' 32"
  by code_simp

lemma block_25: "block words_25 ''goat'' ''gun'' 32"
  by code_simp

lemma block_26: "block words_26 ''gym'' ''hip'' 32"
  by code_simp

lemma block_27: "block words_27 ''hire'' ''husband'' 32"
  by code_simp

lemma block_28: "block words_28 ''hybrid'' ''initial'' 32"
  by code_simp

lemma block_29: "block words_29 ''inject'' ''jewel'' 32"
  by code_simp

lemma block_30: "block words_30 ''job'' ''know'' 32"
  by code_simp

lemma block_31: "block words_31 ''lab'' ''lend'' 32"
  by code_simp

lemma block_32: "block words_32 ''length'' ''loop'' 32"
  by code_simp

lemma block_33: "block words_33 ''lottery'' ''margin'' 32"
  by code_simp

lemma block_34: "block words_34 ''marine'' ''message'' 32"
  by code_simp

lemma block_35: "block words_35 ''metal'' ''morning'' 32"
  by code_simp

lemma block_36: "block words_36 ''mosquito'' ''negative'' 32"
  by code_simp

lemma block_37: "block words_37 ''neglect'' ''obey'' 32"
  by code_simp

lemma block_38: "block words_38 ''object'' ''orbit'' 32"
  by code_simp

lemma block_39: "block words_39 ''orchard'' ''paper'' 32"
  by code_simp

lemma block_40: "block words_40 ''parade'' ''physical'' 32"
  by code_simp

lemma block_41: "block words_41 ''piano'' ''pony'' 32"
  by code_simp

lemma block_42: "block words_42 ''pool'' ''program'' 32"
  by code_simp

lemma block_43: "block words_43 ''project'' ''quiz'' 32"
  by code_simp

lemma block_44: "block words_44 ''quote'' ''recycle'' 32"
  by code_simp

lemma block_45: "block words_45 ''reduce'' ''retire'' 32"
  by code_simp

lemma block_46: "block words_46 ''retreat'' ''room'' 32"
  by code_simp

lemma block_47: "block words_47 ''rose'' ''say'' 32"
  by code_simp

lemma block_48: "block words_48 ''scale'' ''sentence'' 32"
  by code_simp

lemma block_49: "block words_49 ''series'' ''side'' 32"
  by code_simp

lemma block_50: "block words_50 ''siege'' ''slogan'' 32"
  by code_simp

lemma block_51: "block words_51 ''slot'' ''soup'' 32"
  by code_simp

lemma block_52: "block words_52 ''source'' ''stadium'' 32"
  by code_simp

lemma block_53: "block words_53 ''staff'' ''subject'' 32"
  by code_simp

lemma block_54: "block words_54 ''submit'' ''swim'' 32"
  by code_simp

lemma block_55: "block words_55 ''swing'' ''that'' 32"
  by code_simp

lemma block_56: "block words_56 ''theme'' ''token'' 32"
  by code_simp

lemma block_57: "block words_57 ''tomato'' ''tree'' 32"
  by code_simp

lemma block_58: "block words_58 ''trend'' ''typical'' 32"
  by code_simp

lemma block_59: "block words_59 ''ugly'' ''useful'' 32"
  by code_simp

lemma block_60: "block words_60 ''useless'' ''view'' 32"
  by code_simp

lemma block_61: "block words_61 ''village'' ''wave'' 32"
  by code_simp

lemma block_62: "block words_62 ''way'' ''winner'' 32"
  by code_simp

lemma block_63: "block words_63 ''winter'' ''zoo'' 32"
  by code_simp

lemma group_0: "block (words_00 @ words_01 @ words_02 @ words_03 @ words_04 @ words_05 @ words_06 @ words_07)
    ''abandon'' ''cable'' 256"
  using block_append [OF block_00 
      block_append [OF block_01 
      block_append [OF block_02 
      block_append [OF block_03 
      block_append [OF block_04 
      block_append [OF block_05 
      block_append [OF block_06 block_07]]]]]]]
  by simp

lemma group_1: "block (words_08 @ words_09 @ words_10 @ words_11 @ words_12 @ words_13 @ words_14 @ words_15)
    ''cactus'' ''divide'' 256"
  using block_append [OF block_08 
      block_append [OF block_09 
      block_append [OF block_10 
      block_append [OF block_11 
      block_append [OF block_12 
      block_append [OF block_13 
      block_append [OF block_14 block_15]]]]]]]
  by simp

lemma group_2: "block (words_16 @ words_17 @ words_18 @ words_19 @ words_20 @ words_21 @ words_22 @ words_23)
    ''divorce'' ''garment'' 256"
  using block_append [OF block_16 
      block_append [OF block_17 
      block_append [OF block_18 
      block_append [OF block_19 
      block_append [OF block_20 
      block_append [OF block_21 
      block_append [OF block_22 block_23]]]]]]]
  by simp

lemma group_3: "block (words_24 @ words_25 @ words_26 @ words_27 @ words_28 @ words_29 @ words_30 @ words_31)
    ''gas'' ''lend'' 256"
  using block_append [OF block_24 
      block_append [OF block_25 
      block_append [OF block_26 
      block_append [OF block_27 
      block_append [OF block_28 
      block_append [OF block_29 
      block_append [OF block_30 block_31]]]]]]]
  by simp

lemma group_4: "block (words_32 @ words_33 @ words_34 @ words_35 @ words_36 @ words_37 @ words_38 @ words_39)
    ''length'' ''paper'' 256"
  using block_append [OF block_32 
      block_append [OF block_33 
      block_append [OF block_34 
      block_append [OF block_35 
      block_append [OF block_36 
      block_append [OF block_37 
      block_append [OF block_38 block_39]]]]]]]
  by simp

lemma group_5: "block (words_40 @ words_41 @ words_42 @ words_43 @ words_44 @ words_45 @ words_46 @ words_47)
    ''parade'' ''say'' 256"
  using block_append [OF block_40 
      block_append [OF block_41 
      block_append [OF block_42 
      block_append [OF block_43 
      block_append [OF block_44 
      block_append [OF block_45 
      block_append [OF block_46 block_47]]]]]]]
  by simp

lemma group_6: "block (words_48 @ words_49 @ words_50 @ words_51 @ words_52 @ words_53 @ words_54 @ words_55)
    ''scale'' ''that'' 256"
  using block_append [OF block_48 
      block_append [OF block_49 
      block_append [OF block_50 
      block_append [OF block_51 
      block_append [OF block_52 
      block_append [OF block_53 
      block_append [OF block_54 block_55]]]]]]]
  by simp

lemma group_7: "block (words_56 @ words_57 @ words_58 @ words_59 @ words_60 @ words_61 @ words_62 @ words_63)
    ''theme'' ''zoo'' 256"
  using block_append [OF block_56 
      block_append [OF block_57 
      block_append [OF block_58 
      block_append [OF block_59 
      block_append [OF block_60 
      block_append [OF block_61 
      block_append [OF block_62 block_63]]]]]]]
  by simp

lemma block_WORDLIST: "block WORDLIST ''abandon'' ''zoo'' 2048"
  using block_append [OF group_0 block_append [OF group_1 block_append [OF group_2 block_append [OF group_3 block_append [OF group_4 block_append [OF group_5 block_append [OF group_6 group_7]]]]]]]
  by (simp add: WORDLIST_def)

lemma length_WORDLIST [simp]: "length WORDLIST = 2048"
  using block_WORDLIST by (simp add: block_def)

lemma distinct_WORDLIST: "distinct WORDLIST"
  using block_WORDLIST by (simp add: block_def chain_distinct)

lemma WORDLIST_lower: "w \<in> set WORDLIST \<Longrightarrow> w \<noteq> [] \<and> list_all lower w"
  using block_WORDLIST chain_words by (auto simp: block_def)

end
