(* ===== verification/Web_Wallet.thy ===== *)
theory Web_Wallet
  imports Web_Base Wordlist
begin

text \<open>
  \<open>wallet.js\<close> of the browser wallet from the mnemonic on: BIP39 phrases, BIP32 private
  derivation, the BIP44 path \<open>m/44'/99'/0'/0/i\<close>, the accounts of a wallet and the self test.
\<close>

section \<open>Network parameters\<close>

record network =
  net_pubkey :: int
  net_script :: int
  net_wif :: int
  net_hrp :: string

definition NETWORKS :: "string \<Rightarrow> network option" where
  "NETWORKS net =
     (if net = ''main'' then
        Some \<lparr> net_pubkey = 28, net_script = 22, net_wif = 156, net_hrp = ''corg'' \<rparr>
      else if net = ''test'' then
        Some \<lparr> net_pubkey = 113, net_script = 196, net_wif = 241, net_hrp = ''tcorg'' \<rparr>
      else None)"

definition HD_COIN_TYPE :: int where
  "HD_COIN_TYPE = 99"

definition HARDENED :: int where
  "HARDENED = 0x80000000"

definition hard :: "int \<Rightarrow> int" where
  "hard n = n + HARDENED"

definition SECP_N :: nat where
  "SECP_N = 0xFFFFFFFFFFFFFFFFFFFFFFFFFFFFFFFEBAAEDCE6AF48A03BBFD25E8CD0364141"

section \<open>BIP39\<close>

text \<open>\<open>s.trim()\<close> and \<open>s.split(/\s+/)\<close>.\<close>

definition js_trim :: "string \<Rightarrow> string" where
  "js_trim s = rev (dropWhile js_space (rev (dropWhile js_space s)))"

function js_split :: "string \<Rightarrow> string list" where
  "js_split s =
     (let w = takeWhile (Not \<circ> js_space) s; r = dropWhile (Not \<circ> js_space) s in
      if r = [] then [w] else w # js_split (dropWhile js_space r))"
  by pat_completeness auto
termination
proof (relation "measure length", simp)
  fix s w r :: string
  assume "w = takeWhile (Not \<circ> js_space) s" "r = dropWhile (Not \<circ> js_space) s" "r \<noteq> []"
  then have "js_space (hd r)" using hd_dropWhile [of "Not \<circ> js_space" s] by auto
  then have "length (dropWhile js_space r) < length r"
    using \<open>r \<noteq> []\<close> by (cases r) (auto simp: less_Suc_eq_le length_dropWhile_le)
  also have "\<dots> \<le> length s" using \<open>r = _\<close> by (simp add: length_dropWhile_le)
  finally show "(dropWhile js_space r, s) \<in> measure length" by simp
qed

declare js_split.simps [simp del]

definition validateMnemonicWords :: "string \<Rightarrow> bool" where
  "validateMnemonicWords mnemonic =
     (let words = js_split (js_trim mnemonic) in
      if length words \<notin> {12, 15, 18, 21, 24} then False
      else list_all (\<lambda>w. w \<in> set WORDLIST) words)"

text \<open>The bits of a byte, most significant first, and bit \<open>i\<close> of a digest (\<open>undefined >> n\<close>
  is 0).\<close>

definition bits_of_byte :: "byte \<Rightarrow> nat list" where
  "bits_of_byte b = map (\<lambda>i. unat (drop_bit i b AND 1)) [7, 6, 5, 4, 3, 2, 1, 0]"

definition digest_bit :: "bytes \<Rightarrow> nat \<Rightarrow> nat" where
  "digest_bit h i =
     (if i div 8 < length h then unat (drop_bit (7 - i mod 8) (h ! (i div 8)) AND 1) else 0)"

definition word_index :: "nat list \<Rightarrow> nat \<Rightarrow> nat" where
  "word_index bitsArr i =
     foldl (\<lambda>idx j. push_bit 1 idx OR (if i + j < length bitsArr then bitsArr ! (i + j) else 0))
       0 [0..<11]"

function words_loop :: "nat list \<Rightarrow> nat \<Rightarrow> string list" where
  "words_loop bitsArr i =
     (if i < length bitsArr
      then WORDLIST ! word_index bitsArr i # words_loop bitsArr (i + 11) else [])"
  by pat_completeness auto
termination by (relation "measure (\<lambda>(a, i). length a - i)") auto

declare words_loop.simps [simp del]

fun join :: "string \<Rightarrow> string list \<Rightarrow> string" where
  "join sep [] = []"
| "join sep [w] = w"
| "join sep (w # ws) = w @ sep @ join sep ws"

text \<open>\<open>getRandomValues\<close> refuses more than 65536 bytes (\<open>QuotaExceededError\<close>). The checksum
  loop runs while \<open>i < bits / 32\<close>.\<close>

definition generateMnemonic :: "webcrypto \<Rightarrow> nat \<Rightarrow> string js" where
  "generateMnemonic W bits =
     (if 65536 < bits div 8 then Inl DOMException else
      let ent = getRandomValues W (bits div 8);
          hash = sha256 W ent;
          bitsArr = concat (map bits_of_byte ent);
          bitsArr = bitsArr @ map (digest_bit hash) [0..<(bits + 31) div 32]
      in Inr (join '' '' (words_loop bitsArr 0)))"

definition mnemonicToSeed :: "webcrypto \<Rightarrow> string \<Rightarrow> string \<Rightarrow> bytes js" where
  "mnemonicToSeed W mnemonic passphrase =
     pbkdf2Sha512 W (encode_NFKD W mnemonic) (encode_NFKD W (''mnemonic'' @ passphrase)) 2048 64"

section \<open>BIP32 (private derivation)\<close>

record hd_node =
  node_key :: bytes
  chainCode :: bytes

definition masterFromSeed :: "webcrypto \<Rightarrow> bytes \<Rightarrow> hd_node js" where
  "masterFromSeed W seed =
     js_bind (hmacSha512 W (TextEncoder_encode ''Bitcoin seed'') seed) (\<lambda>I.
     Inr \<lparr> node_key = take 32 I, chainCode = drop 32 I \<rparr>)"

definition ckdPriv :: "webcrypto \<Rightarrow> hd_node \<Rightarrow> int \<Rightarrow> hd_node js" where
  "ckdPriv W node index =
     (let hardened = (HARDENED \<le> index) in
      js_bind (BigInt_hex (toHex (node_key node))) (\<lambda>kpar.
      js_bind (if hardened then Inr (concat_u8 [[0], node_key node, be32 index])
               else js_bind (getPublicKey W (node_key node) True) (\<lambda>pub.
                    Inr (concat_u8 [pub, be32 index]))) (\<lambda>data.
      js_bind (hmacSha512 W (chainCode node) data) (\<lambda>I.
      js_bind (BigInt_hex (toHex (take 32 I))) (\<lambda>il.
      let childKey = (il + kpar) mod SECP_N in
      js_bind (bnTo32 childKey) (\<lambda>key.
      Inr \<lparr> node_key = key, chainCode = drop 32 I \<rparr>))))))"

definition derivePath :: "webcrypto \<Rightarrow> bytes \<Rightarrow> int list \<Rightarrow> hd_node js" where
  "derivePath W seed path =
     js_bind (masterFromSeed W seed) (for_of path (\<lambda>p node. ckdPriv W node p))"

section \<open>Wallet\<close>

record account =
  acc_index :: int
  acc_address :: string
  acc_privKey :: bytes
  acc_pubKey :: bytes

definition deriveAddress :: "webcrypto \<Rightarrow> bytes \<Rightarrow> int \<Rightarrow> string \<Rightarrow> account js" where
  "deriveAddress W seed i net =
     js_bind (derivePath W seed [hard 44, hard HD_COIN_TYPE, hard 0, 0, i]) (\<lambda>node.
     js_bind (getPublicKey W (node_key node) True) (\<lambda>pub.
     case NETWORKS net of None \<Rightarrow> Inl TypeError
     | Some p \<Rightarrow>
         js_bind (base58check W (net_pubkey p) (hash160 W pub)) (\<lambda>addr.
         Inr \<lparr> acc_index = i, acc_address = addr, acc_privKey = node_key node, acc_pubKey = pub \<rparr>)))"

record wallet =
  wal_seed :: bytes
  wal_net :: string
  wal_accounts :: "account list"

definition openWallet :: "webcrypto \<Rightarrow> string \<Rightarrow> string \<Rightarrow> nat \<Rightarrow> string \<Rightarrow> wallet js" where
  "openWallet W mnemonic net count passphrase =
     js_bind (mnemonicToSeed W mnemonic passphrase) (\<lambda>seed.
     js_bind (for_of [0..<count] (\<lambda>i accounts.
        js_bind (deriveAddress W seed (int i) net) (\<lambda>a. Inr (accounts @ [a]))) []) (\<lambda>accounts.
     Inr \<lparr> wal_seed = seed, wal_net = net, wal_accounts = accounts \<rparr>))"

section \<open>Self-test\<close>

record self_test =
  okSeed :: bool
  okRipemd :: bool
  okAddr :: bool
  addr0test :: string

definition selfTest :: "webcrypto \<Rightarrow> self_test js" where
  "selfTest W =
     (let MN = ''abandon abandon abandon abandon abandon abandon abandon abandon abandon abandon abandon about'' in
      js_bind (mnemonicToSeed W MN ''TREZOR'') (\<lambda>seedTrezor.
      let ok_seed = (toHex seedTrezor = ''c55257c360c07c72029aebc1b53c05ed0362ada38ead3e3e9efa3708e53495531f09a6987599d18264c1e1c92f2cf141630c7a3c4ab7c81b2f001698e7463b04'');
          ok_ripemd = (toHex (ripemd160 W []) = ''9c1185a5c5e9fc54612808977ee8f548b2258d31'')
      in js_bind (mnemonicToSeed W MN []) (\<lambda>seed.
         js_bind (deriveAddress W seed 0 ''test'') (\<lambda>a0.
         let ok_addr = (acc_address a0 = ''nZBJuTqg4EkMbntazHGaTPuqpiHnzQe7Lz'')
         in Inr \<lparr> okSeed = ok_seed, okRipemd = ok_ripemd, okAddr = ok_addr,
                  addr0test = acc_address a0 \<rparr>))))"

section \<open>Facts\<close>

lemma js_trim_id: "s \<noteq> [] \<Longrightarrow> \<not> js_space (hd s) \<Longrightarrow> \<not> js_space (last s) \<Longrightarrow> js_trim s = s"
proof -
  assume s: "s \<noteq> []" "\<not> js_space (hd s)" "\<not> js_space (last s)"
  have "dropWhile js_space s = s" using s(1,2) by (cases s) auto
  moreover have "dropWhile js_space (rev s) = rev s" using s by (cases "rev s") (auto simp: hd_rev [symmetric])
  ultimately show ?thesis by (simp add: js_trim_def)
qed

text \<open>What the wallet relies on of HMAC-SHA512.\<close>

locale web_hmac =
  fixes W :: webcrypto
  assumes length_hmac: "length (sign_HMAC_SHA512 W k d) = 64"
begin

lemma masterFromSeed_shape:
  "masterFromSeed W seed = Inr node \<Longrightarrow> length (node_key node) = 32 \<and> length (chainCode node) = 32"
  by (auto simp: masterFromSeed_def hmacSha512_def length_hmac js_bind_eq_Inr split: if_splits)

lemma ckdPriv_shape:
  assumes "ckdPriv W node i = Inr child"
  shows "length (node_key child) = 32 \<and> length (chainCode child) = 32 \<and> be_nat (node_key child) < SECP_N"
proof -
  obtain x d where x: "bnTo32 (x mod SECP_N) = Inr (node_key child)"
      and d: "chainCode child = drop 32 (sign_HMAC_SHA512 W (chainCode node) d)"
    using assms by (auto simp: ckdPriv_def Let_def js_bind_eq_Inr hmacSha512_def split: if_splits)
  have lt: "x mod SECP_N < SECP_N" by (simp add: SECP_N_def)
  then have "x mod SECP_N < 2 ^ 256" by (simp add: SECP_N_def)
  then have "node_key child = nat_be 32 (x mod SECP_N)" "x mod SECP_N mod 256 ^ 32 = x mod SECP_N"
    using x by (simp_all add: bnTo32_eq)
  with lt d show ?thesis by (simp add: be_nat_nat_be length_hmac)
qed

lemma path_shape:
  assumes "for_of path (\<lambda>p node. ckdPriv W node p) x = Inr node"
    and "length (node_key x) = 32 \<and> length (chainCode x) = 32"
  shows "length (node_key node) = 32 \<and> length (chainCode node) = 32
    \<and> (path \<noteq> [] \<or> be_nat (node_key x) < SECP_N \<longrightarrow> be_nat (node_key node) < SECP_N)"
  using assms
proof (induction path arbitrary: x)
  case (Cons p path)
  then obtain y where y: "ckdPriv W x p = Inr y" "for_of path (\<lambda>p node. ckdPriv W node p) y = Inr node"
    by (auto simp: js_bind_eq_Inr)
  with Cons.IH [OF y(2)] ckdPriv_shape [OF y(1)] show ?case by simp
qed simp

end

interpretation web_ref_hmac: web_hmac web_ref
  by unfold_locales (simp add: web_ref_def hmac_ref_def)

section \<open>Properties\<close>

text \<open>
  C21. Derived keys are well-formed: whatever the seed and the path, a node that \<open>derivePath\<close>
  returns has a 32-byte key and a 32-byte chain code, and after at least one derivation step the
  key is a number below the group order.
\<close>

theorem derivePath_shape:
  assumes "web_hmac W" and "derivePath W seed path = Inr node"
  shows "length (node_key node) = 32 \<and> length (chainCode node) = 32
    \<and> (path \<noteq> [] \<longrightarrow> be_nat (node_key node) < SECP_N)"
proof -
  obtain x where "masterFromSeed W seed = Inr x" "for_of path (\<lambda>p node. ckdPriv W node p) x = Inr node"
    using assms(2) by (auto simp: derivePath_def js_bind_eq_Inr)
  then show ?thesis
    using web_hmac.masterFromSeed_shape [OF assms(1)] web_hmac.path_shape [OF assms(1)] by blast
qed

theorem derivePath_shape_witness:
  "\<exists>node. derivePath web_ref [7] [HARDENED] = Inr node \<and> length (node_key node) = 32 \<and> be_nat (node_key node) < SECP_N"
proof -
  note len = web_ref_hmac.length_hmac
  have "\<exists>child. ckdPriv web_ref node HARDENED = Inr child" if "length (node_key node) = 32" "length (chainCode node) = 32" for node
  proof -
    have "x mod SECP_N < 2 ^ 256" for x by (rule less_trans [OF mod_less_divisor]) (simp_all add: SECP_N_def)
    moreover have "take 32 (sign_HMAC_SHA512 web_ref k d) \<noteq> []" for k d using len [of k d] by fastforce
    moreover have "node_key node \<noteq> []" "chainCode node \<noteq> []" using that by auto
    ultimately show ?thesis
      by (simp add: ckdPriv_def Let_def hmacSha512_def BigInt_hex_toHex bnTo32_eq del: take_eq_Nil)
  qed
  moreover obtain m where "masterFromSeed web_ref [7] = Inr m"
    by (simp add: masterFromSeed_def hmacSha512_def TextEncoder_encode_def utf8_char_def)
  moreover note web_ref_hmac.masterFromSeed_shape [OF this]
  ultimately obtain node where "derivePath web_ref [7] [HARDENED] = Inr node"
    by (fastforce simp: derivePath_def)
  with derivePath_shape [OF web_ref_hmac.web_hmac_axioms this] show ?thesis by blast
qed

end
