(* ===== verification/Web_Tx.thy ===== *)
theory Web_Tx
  imports Web_Wallet
begin

text \<open>
  \<open>tx.js\<close> of the browser wallet: serialization of legacy transactions, coin selection, the fee
  rule, and \<open>buildAndSign\<close>, which picks inputs, settles the fee, adds a change output and signs
  every input with \<open>SIGHASH_ALL\<close>. Amounts are \<open>BigInt\<close>s, so integers without bounds.
\<close>

definition COIN_js :: int where
  "COIN_js = 100000000"

definition MIN_TX_FEE_js :: int where
  "MIN_TX_FEE_js = COIN_js"

definition DUST :: int where
  "DUST = COIN_js"

definition SIGHASH_ALL_js :: int where
  "SIGHASH_ALL_js = 1"

section \<open>Byte helpers\<close>

definition le32 :: "int \<Rightarrow> bytes" where
  "le32 n = [byte_at 0 n, byte_at 8 n, byte_at 16 n, byte_at 24 n]"

fun le64_loop :: "nat \<Rightarrow> int \<Rightarrow> bytes" where
  "le64_loop 0 x = []"
| "le64_loop (Suc k) x = word_of_int (x AND 0xff) # le64_loop k (drop_bit 8 x)"

definition le64 :: "int \<Rightarrow> bytes" where
  "le64 v = le64_loop 8 v"

definition varint :: "nat \<Rightarrow> bytes" where
  "varint n =
     (if n < 0xfd then [word_of_nat n]
      else if n \<le> 0xffff then [0xfd, byte_at 0 (int n), byte_at 8 (int n)]
      else concat_u8 [[0xfe], le32 (int n)])"

definition pushData :: "bytes \<Rightarrow> bytes js" where
  "pushData data =
     (if 76 \<le> length data then Inl (Error ''pushData: unexpected large push'')
      else Inr (concat_u8 [[word_of_nat (length data)], data]))"

definition reverse_u8 :: "bytes \<Rightarrow> bytes" where
  "reverse_u8 u8 = rev u8"

section \<open>Scripts\<close>

definition p2pkhScript :: "bytes \<Rightarrow> bytes" where
  "p2pkhScript hash160Bytes = concat_u8 [[0x76, 0xa9, 0x14], hash160Bytes, [0x88, 0xac]]"

definition scriptForAddress :: "webcrypto \<Rightarrow> string \<Rightarrow> string \<Rightarrow> bytes js" where
  "scriptForAddress W addr net =
     js_bind (base58checkDecode W addr) (\<lambda>d.
     case NETWORKS net of None \<Rightarrow> Inl TypeError
     | Some p \<Rightarrow>
         if uint (addr_version d) \<noteq> net_pubkey p then
           if uint (addr_version d) = net_script p
           then Inl (Error ''P2SH addresses aren't supported for sending yet'')
           else Inl (Error (''address is not a valid '' @ net @ '' CorgiCoin address''))
         else if length (addr_hash d) \<noteq> 20 then Inl (Error ''bad address hash length'')
         else Inr (p2pkhScript (addr_hash d)))"

section \<open>Serialization\<close>

record js_txin =
  in_txid :: string
  in_vout :: int
  in_script :: "bytes option"

record js_txout =
  out_value :: int
  out_script :: bytes

record js_tx =
  tx_version :: int
  tx_vin :: "js_txin list"
  tx_vout :: "js_txout list"
  tx_locktime :: int

definition serialize_in :: "js_txin \<Rightarrow> bytes list \<Rightarrow> bytes list js" where
  "serialize_in i parts =
     js_bind (fromHex (in_txid i)) (\<lambda>h.
     let parts = parts @ [reverse_u8 h];
         parts = parts @ [le32 (in_vout i)];
         s = (case in_script i of None \<Rightarrow> [] | Some s \<Rightarrow> s);
         parts = parts @ [varint (length s), s];
         parts = parts @ [le32 0xffffffff]
     in Inr parts)"

definition serialize :: "js_tx \<Rightarrow> bytes js" where
  "serialize tx =
     (let parts = [le32 (tx_version tx)];
          parts = parts @ [varint (length (tx_vin tx))]
      in js_bind (for_of (tx_vin tx) serialize_in parts) (\<lambda>parts.
      let parts = parts @ [varint (length (tx_vout tx))];
          parts = foldl (\<lambda>parts t. parts @ [le64 (out_value t), varint (length (out_script t)), out_script t])
            parts (tx_vout tx);
          parts = parts @ [le32 (tx_locktime tx)]
      in Inr (concat_u8 parts)))"

definition txid :: "webcrypto \<Rightarrow> bytes \<Rightarrow> string" where
  "txid W serialized = toHex (reverse_u8 (sha256d W serialized))"

section \<open>Coin selection\<close>

record utxo =
  utxo_txid :: string
  utxo_vout :: int
  utxo_value :: int

text \<open>An account after \<open>loadUtxos\<close> has attached its unspent outputs.\<close>

record funded_account = account +
  acc_utxos :: "utxo list option"

record coin =
  coin_txid :: string
  coin_vout :: int
  coin_value :: int
  coin_owner :: funded_account

text \<open>\<open>Array.prototype.sort\<close> is stable; the comparison puts larger values first.\<close>

fun pick_loop :: "coin list \<Rightarrow> int \<Rightarrow> coin list \<Rightarrow> int \<Rightarrow> coin list \<times> int" where
  "pick_loop [] target picked sats = (picked, sats)"
| "pick_loop (u # us) target picked sats =
     (let picked = picked @ [u]; sats = sats + coin_value u in
      if target \<le> sats then (picked, sats) else pick_loop us target picked sats)"

definition selectCoins :: "coin list \<Rightarrow> int \<Rightarrow> coin list \<times> int" where
  "selectCoins utxos target =
     (let largest = sort_key (\<lambda>u. - coin_value u) utxos in pick_loop largest target [] 0)"

definition requiredFee :: "nat \<Rightarrow> js_txout list \<Rightarrow> int" where
  "requiredFee nBytes vout =
     foldl (\<lambda>fee t. if out_value t < DUST then fee + MIN_TX_FEE_js else fee)
       ((1 + int (nBytes div 1000)) * MIN_TX_FEE_js) vout"

section \<open>Formatting\<close>

definition strip_zeros :: "string \<Rightarrow> string" where
  "strip_zeros s = rev (dropWhile ((=) CHR ''0'') (rev s))"

definition fmt :: "int \<Rightarrow> string" where
  "fmt sats =
     (let neg = (sats < 0);
          s = padStart 9 (CHR ''0'') (toString10 (nat (if neg then - sats else sats)));
          whole = slice_to_neg 8 s; frac = strip_zeros (slice_neg 8 s)
      in (if neg then ''-'' else []) @ whole @ (if frac \<noteq> [] then ''.'' @ frac else []))"

section \<open>Build and sign\<close>

definition spendable_of :: "funded_account list \<Rightarrow> coin list" where
  "spendable_of accounts =
     foldl (\<lambda>sp a. foldl (\<lambda>sp u. sp @ [\<lparr> coin_txid = utxo_txid u, coin_vout = utxo_vout u,
         coin_value = utxo_value u, coin_owner = a \<rparr>]) sp
       (case acc_utxos a of None \<Rightarrow> [] | Some us \<Rightarrow> us)) [] accounts"

text \<open>The outputs: the payment, and the change when it is not dust. The decoding of the change
  address is passed in, because the two places that build outputs evaluate it differently.\<close>

definition add_change :: "js_txout list \<Rightarrow> int \<Rightarrow> bytes \<Rightarrow> js_txout list" where
  "add_change vout change changeHash =
     vout @ [\<lparr> out_value = change, out_script = p2pkhScript changeHash \<rparr>]"

text \<open>One iteration of the fee loop and at most \<open>k\<close> of them.\<close>

fun fee_loop :: "nat \<Rightarrow> webcrypto \<Rightarrow> coin list \<Rightarrow> int \<Rightarrow> bytes \<Rightarrow> string \<Rightarrow>
    coin list \<Rightarrow> int \<Rightarrow> int \<Rightarrow> (coin list \<times> int \<times> int) js" where
  "fee_loop 0 W spendable amount outScript changeAddr picked sats fee = Inr (picked, sats, fee)"
| "fee_loop (Suc k) W spendable amount outScript changeAddr picked sats fee =
     (let (picked, sats) = selectCoins spendable (amount + fee) in
      if sats < amount + fee
      then Inl (Error (''insufficient funds (need '' @ fmt (amount + fee) @ '' CORG)''))
      else
      let change = sats - amount - fee;
          vout = [\<lparr> out_value = amount, out_script = outScript \<rparr>] in
      js_bind (if DUST \<le> change
               then js_bind (base58checkDecode W changeAddr) (\<lambda>d.
                    Inr (add_change vout change (addr_hash d)))
               else Inr vout) (\<lambda>vout.
      let estBytes = 10 + length picked * 148 + length vout * 34;
          need = requiredFee estBytes vout
      in if need \<le> fee then Inr (picked, sats, fee)
         else fee_loop k W spendable amount outScript changeAddr picked sats need))"

text \<open>The preimage of input \<open>i\<close>: every script empty but that of input \<open>i\<close>.\<close>

definition sighash_preimage :: "js_tx \<Rightarrow> nat \<Rightarrow> bytes \<Rightarrow> bytes js" where
  "sighash_preimage tx i prevScript =
     (let copy = \<lparr> tx_version = tx_version tx,
            tx_vin = map (\<lambda>(j, v). \<lparr> in_txid = in_txid v, in_vout = in_vout v,
               in_script = Some (if j = i then prevScript else []) \<rparr>) (List.enumerate 0 (tx_vin tx)),
            tx_vout = tx_vout tx, tx_locktime = tx_locktime tx \<rparr>
      in js_bind (serialize copy) (\<lambda>s. Inr (concat_u8 [s, le32 SIGHASH_ALL_js])))"

text \<open>One iteration of the signing loop; \<open>owners\<close> are the \<open>_owner\<close> fields of \<open>vin\<close>. The array
  \<open>tx.vin\<close> is \<open>vin\<close> itself, so the scripts already written are seen by later iterations.\<close>

definition sign_step :: "webcrypto \<Rightarrow> funded_account list \<Rightarrow> nat \<Rightarrow> js_tx \<Rightarrow> js_tx js" where
  "sign_step W owners i tx =
     (let owner = owners ! i;
          prevScript = p2pkhScript (hash160 W (acc_pubKey owner)) in
      js_bind (sighash_preimage tx i prevScript) (\<lambda>preimage.
      let sighash = sha256d W preimage in
      js_bind (secp_sign W sighash (acc_privKey owner)) (\<lambda>der.
      let sig = concat_u8 [der, [word_of_int SIGHASH_ALL_js]] in
      js_bind (pushData sig) (\<lambda>p1.
      js_bind (pushData (acc_pubKey owner)) (\<lambda>p2.
      Inr (tx\<lparr> tx_vin := (tx_vin tx)[i := (tx_vin tx ! i)\<lparr> in_script := Some (concat_u8 [p1, p2]) \<rparr>] \<rparr>))))))"

record signed_tx =
  res_hex :: string
  res_txid :: string
  res_fee :: int
  res_change :: int
  res_inputs :: nat
  res_amount :: int

definition buildAndSign :: "webcrypto \<Rightarrow> funded_account list \<Rightarrow> string \<Rightarrow> int \<Rightarrow> string \<Rightarrow> string
    \<Rightarrow> signed_tx js" where
  "buildAndSign W accounts toAddr amountSats net changeAddr =
     (let amount = amountSats in
      if amount \<le> 0 then Inl (Error ''amount must be positive'') else
      js_bind (scriptForAddress W toAddr net) (\<lambda>outScript.
      let spendable = spendable_of accounts in
      if spendable = [] then Inl (Error ''no spendable coins found'') else
      js_bind (fee_loop 4 W spendable amount outScript changeAddr [] 0 MIN_TX_FEE_js)
        (\<lambda>(picked, sats, fee).
      let change = sats - amount - fee in
      if change < 0 then Inl (Error ''fee exceeds inputs'') else
      let vout = [\<lparr> out_value = amount, out_script = outScript \<rparr>] in
      js_bind (base58checkDecode W changeAddr) (\<lambda>d.
      let vout = (if DUST \<le> change then add_change vout change (addr_hash d) else vout);
          vin = map (\<lambda>p. \<lparr> in_txid = coin_txid p, in_vout = coin_vout p, in_script = Some [] \<rparr>) picked;
          tx = \<lparr> tx_version = 1, tx_vin = vin, tx_vout = vout, tx_locktime = 0 \<rparr> in
      js_bind (for_of [0..<length vin] (sign_step W (map coin_owner picked)) tx) (\<lambda>tx.
      js_bind (serialize tx) (\<lambda>raw.
      Inr \<lparr> res_hex = toHex raw, res_txid = txid W raw, res_fee = fee, res_change = change,
            res_inputs = length picked, res_amount = amount \<rparr>))))))"

end
