(* ===== verification/Web_Facts.thy ===== *)
theory Web_Facts
  imports Web_Tx Interp_Facts
begin

text \<open>
  The browser wallet against the daemon: the bytes \<open>tx.js\<close> writes are the bytes \<open>main.h\<close> and
  \<open>script.cpp\<close> read. \<open>CTransaction_of\<close> abstracts a transaction object of the wallet to the
  daemon's \<open>CTransaction\<close>; serialization, signature hashes, scripts and the fee rule commute with
  it. Coin selection and the fee loop are characterised on their own.
\<close>

section \<open>Encodings\<close>

lemma le32_eq: "le32 n = word_le 4 (ToUint32 n)"
  by (simp add: le32_def byte_at_nat word_le_def nat_le_4)

lemma le64_loop_eq: "le64_loop k x = nat_le k (nat (x mod 256 ^ k))"
proof (induction k arbitrary: x)
  case (Suc k)
  have low: "x AND 0xff = x mod 256"
    using take_bit_eq_mask [of 8 x] by (simp add: take_bit_eq_mod mask_eq_exp_minus_1)
  have split: "x mod 256 ^ Suc k = 256 * (x div 256 mod 256 ^ k) + x mod 256"
    using zmod_zmult2_eq [of "256 ^ k" x 256] by simp
  define m where "m = nat (x mod 256 ^ Suc k)"
  have m: "m = 256 * nat (x div 256 mod 256 ^ k) + nat (x mod 256)"
    unfolding m_def split by (simp add: nat_add_distrib nat_mult_distrib)
  have "nat (x mod 256) < 256" by (simp add: nat_less_iff)
  then have "m mod 256 = nat (x mod 256)" "m div 256 = nat (x div 256 mod 256 ^ k)"
    by (simp_all add: m)
  moreover have "le64_loop (Suc k) x = word_of_nat (nat (x mod 256)) # nat_le k (nat (x div 256 mod 256 ^ k))"
    by (simp add: Suc low drop_bit_eq_div)
  ultimately show ?case by (simp only: nat_le.simps m_def [symmetric])
qed simp

lemma le64_eq: "le64 v = word_le 8 (word_of_int v :: u64)"
proof -
  have "unat (word_of_int v :: u64) = nat (v mod 256 ^ 8)"
    by (simp add: unsigned_of_int take_bit_eq_mod)
  then show ?thesis by (simp only: le64_def le64_loop_eq word_le_def)
qed

lemma nat_le_2: "nat_le 2 n = map (\<lambda>k. word_of_nat (n div 2 ^ k mod 256)) [0, 8]"
proof -
  have "nat_le 2 n = nat_le (Suc (Suc 0)) n" by (simp only: numeral_2_eq_2)
  then show ?thesis by simp
qed

lemma varint_eq: "n \<le> 0xffffffff \<Longrightarrow> varint n = WriteCompactSize n"
proof -
  assume n: "n \<le> 0xffffffff"
  then have u: "unat (word_of_nat n :: u32) = n" by (intro unat_of_nat_small) simp
  have "n < 253 \<Longrightarrow> nat_le 1 n = [word_of_nat n]" by simp
  with n show ?thesis
    by (simp add: varint_def WriteCompactSize_def le32_eq word_le_def ToUint32_nat u byte_at_nat nat_le_2)
qed

lemma pushData_eq:
  "pushData d = (if length d < 76 then Inr (push_data d) else Inl (Error ''pushData: unexpected large push''))"
  by (auto simp: pushData_def push_data_def)

lemma p2pkhScript_eq: "length h = 20 \<Longrightarrow> p2pkhScript h = SetDestination (KeyID (le_word h))"
  using word_le_le_word [of h, where ?'a = 160] by (simp add: p2pkhScript_def push_uint160_def)

section \<open>Serialization\<close>

definition txid_ok :: "string \<Rightarrow> bool" where
  "txid_ok s \<longleftrightarrow> all_hex s \<and> length s = 64"

definition hash_of_txid :: "string \<Rightarrow> u256" where
  "hash_of_txid s = word_of_nat (hex_value s)"

definition CTxIn_of :: "js_txin \<Rightarrow> CTxIn" where
  "CTxIn_of i = \<lparr> prevout = \<lparr> op_hash = hash_of_txid (in_txid i), op_n = ToUint32 (in_vout i) \<rparr>,
     scriptSig = (case in_script i of None \<Rightarrow> [] | Some s \<Rightarrow> s), nSequence = 0xffffffff \<rparr>"

definition CTxOut_of :: "js_txout \<Rightarrow> CTxOut" where
  "CTxOut_of t = \<lparr> nValue = word_of_int (out_value t), scriptPubKey = out_script t \<rparr>"

definition CTransaction_of :: "js_tx \<Rightarrow> CTransaction" where
  "CTransaction_of tx = \<lparr> nVersion = ToUint32 (tx_version tx), vin = map CTxIn_of (tx_vin tx),
     vout = map CTxOut_of (tx_vout tx), nLockTime = ToUint32 (tx_locktime tx) \<rparr>"

text \<open>Transaction ids of 64 hexadecimal digits, and lengths that fit the 5-byte form.\<close>

definition js_tx_ok :: "js_tx \<Rightarrow> bool" where
  "js_tx_ok tx \<longleftrightarrow> length (tx_vin tx) \<le> 0xffffffff \<and> length (tx_vout tx) \<le> 0xffffffff
     \<and> (\<forall>i\<in>set (tx_vin tx). txid_ok (in_txid i) \<and> length (scriptSig (CTxIn_of i)) \<le> 0xffffffff)
     \<and> (\<forall>t\<in>set (tx_vout tx). length (out_script t) \<le> 0xffffffff)"

lemma fromHex_txid:
  assumes "txid_ok s"
  shows "\<exists>h. fromHex s = Inr h \<and> rev h = word_le 32 (hash_of_txid s)"
proof -
  have s: "fromHex s = Inr (nat_be 32 (hex_value s))"
    using fromHex_hex [of s] assms by (cases s) (auto simp: txid_ok_def)
  have "hex_value s < 16 ^ length s"
    unfolding hex_value_def using assms hex_value_lt
    by (intro hex.horner_bound [of "map (the \<circ> hex_digit_value) s", simplified length_map])
      (auto simp: all_hex_def txid_ok_def)
  then have "hex_value s < 2 ^ LENGTH(256)" using assms by (simp add: txid_ok_def)
  then have "unat (hash_of_txid s) = hex_value s"
    unfolding hash_of_txid_def by (rule unat_of_nat_small)
  then show ?thesis using s by (simp add: nat_be_def word_le_def)
qed

lemma serialize_in_eq:
  assumes "txid_ok (in_txid i)" and "length (scriptSig (CTxIn_of i)) \<le> 0xffffffff"
  shows "\<exists>ps. serialize_in i parts = Inr (parts @ ps) \<and> concat ps = Serialize_CTxIn (CTxIn_of i)"
proof -
  obtain h where h: "fromHex (in_txid i) = Inr h" "rev h = word_le 32 (hash_of_txid (in_txid i))"
    using fromHex_txid [OF assms(1)] by blast
  define s where "s = scriptSig (CTxIn_of i)"
  have "serialize_in i parts = Inr (parts @ [rev h, le32 (in_vout i), varint (length s), s, le32 0xffffffff])"
    by (simp add: serialize_in_def h reverse_u8_def s_def CTxIn_of_def Let_def)
  moreover have "concat [rev h, le32 (in_vout i), varint (length s), s, le32 0xffffffff]
      = Serialize_CTxIn (CTxIn_of i)"
    using assms(2) h(2)
    by (simp add: Serialize_CTxIn_def Serialize_COutPoint_def Serialize_bytes_def varint_eq le32_eq
        s_def [symmetric]) (simp add: CTxIn_of_def ToUint32_def)
  ultimately show ?thesis by blast
qed

lemma serialize_ins_eq:
  assumes "\<forall>i\<in>set is. txid_ok (in_txid i) \<and> length (scriptSig (CTxIn_of i)) \<le> 0xffffffff"
  shows "\<exists>ps. for_of is serialize_in parts = Inr (parts @ ps)
    \<and> concat ps = concat (map (\<lambda>i. Serialize_CTxIn (CTxIn_of i)) is)"
  using assms
proof (induction "is" arbitrary: parts)
  case (Cons i "is")
  obtain ps where ps: "serialize_in i parts = Inr (parts @ ps)"
      "concat ps = Serialize_CTxIn (CTxIn_of i)"
    using serialize_in_eq [of i parts] Cons.prems by auto
  obtain qs where qs: "for_of is serialize_in (parts @ ps) = Inr ((parts @ ps) @ qs)"
      "concat qs = concat (map (\<lambda>i. Serialize_CTxIn (CTxIn_of i)) is)"
    using Cons.IH [of "parts @ ps"] Cons.prems by auto
  show ?case by (rule exI [of _ "ps @ qs"]) (simp add: ps qs)
qed simp

lemma serialize_outs_eq:
  assumes "\<forall>t\<in>set ts. length (out_script t) \<le> 0xffffffff"
  shows "concat (foldl (\<lambda>parts t. parts @ [le64 (out_value t), varint (length (out_script t)), out_script t])
      parts ts) = concat parts @ concat (map (\<lambda>t. Serialize_CTxOut (CTxOut_of t)) ts)"
  using assms
  by (induction ts arbitrary: parts)
    (simp_all add: Serialize_CTxOut_def CTxOut_of_def Serialize_bytes_def varint_eq le64_eq)

lemma serialize_eq:
  assumes "js_tx_ok tx"
  shows "serialize tx = Inr (Serialize_CTransaction (CTransaction_of tx))"
proof -
  obtain ps where ps: "for_of (tx_vin tx) serialize_in [le32 (tx_version tx), varint (length (tx_vin tx))]
      = Inr ([le32 (tx_version tx), varint (length (tx_vin tx))] @ ps)"
    "concat ps = concat (map (\<lambda>i. Serialize_CTxIn (CTxIn_of i)) (tx_vin tx))"
    using serialize_ins_eq [of "tx_vin tx"] assms unfolding js_tx_ok_def by blast
  show ?thesis
    using assms ps
    by (simp add: serialize_def serialize_outs_eq js_tx_ok_def Serialize_CTransaction_def
        CTransaction_of_def Serialize_vec_def varint_eq le32_eq comp_def)
qed

section \<open>Signature hashes\<close>

lemma fad_skip:
  assumes "GetOp2 pc = Some (opc, v, r)" and "pc = pre @ r" and "hd pc \<noteq> x" and "pc \<noteq> []"
  shows "fad_loop (x # bs) pc = (pre @ fst (fad_loop (x # bs) r), snd (fad_loop (x # bs) r))"
proof -
  have "take (length (x # bs)) pc \<noteq> x # bs" using assms(3,4) by (cases pc) auto
  then have "erase_here (x # bs) pc = (pc, 0)" by (subst erase_here.simps) simp
  then show ?thesis
    using assms by (subst fad_loop.simps) (simp add: split_beta)
qed

lemma fad_Nil: "fad_loop (x # bs) [] = ([], 0)"
  by (subst fad_loop.simps) (simp add: erase_here.simps)

lemma FindAndDelete_P2PKH:
  assumes "x \<notin> {0x76, 0xa9, 0x14, 0x88, 0xac}"
  shows "FindAndDelete (SetDestination (KeyID k)) (x # bs) = (SetDestination (KeyID k), 0)"
proof -
  let ?p = "push_data (word_le 20 k)"
  have g: "GetOp2 (?p @ [OP_EQUALVERIFY, OP_CHECKSIG]) = Some (20, word_le 20 k, [OP_EQUALVERIFY, OP_CHECKSIG])"
    by (rule GetOp2_hash) simp
  have hd: "hd (?p @ r) = 20" for r by (simp add: push_data_def)
  show ?thesis
    unfolding FindAndDelete_def P2PKH_script
    using assms
    by (simp add: fad_skip [where pre = "[OP_DUP]" and opc = OP_DUP]
        fad_skip [where pre = "[OP_HASH160]" and opc = OP_HASH160]
        fad_skip [OF g, where pre = ?p] hd
        fad_skip [where pre = "[OP_EQUALVERIFY]" and opc = OP_EQUALVERIFY]
        fad_skip [where pre = "[OP_CHECKSIG]" and opc = OP_CHECKSIG] fad_Nil)
qed

lemma CTxIn_of_script: "CTxIn_of (i\<lparr> in_script := Some s \<rparr>) = (CTxIn_of i)\<lparr> scriptSig := s \<rparr>"
  by (simp add: CTxIn_of_def)

lemma sighash_preimage_eq:
  assumes ok: "js_tx_ok tx" and i: "i < length (tx_vin tx)" and len: "length script \<le> 0xffffffff"
  shows "sighash_preimage tx i script =
    Inr (Serialize_CTransaction (with_sigs (CTransaction_of tx)
      ((replicate (length (tx_vin tx)) [])[i := script])) @ [1, 0, 0, 0])"
proof -
  let ?in = "\<lambda>(j, v). \<lparr> in_txid = in_txid v, in_vout = in_vout v,
     in_script = Some (if j = i then script else []) \<rparr>"
  define copy where "copy = \<lparr> tx_version = tx_version tx,
     tx_vin = map ?in (List.enumerate 0 (tx_vin tx)),
     tx_vout = tx_vout tx, tx_locktime = tx_locktime tx \<rparr>"
  have "js_tx_ok copy"
    using ok len unfolding js_tx_ok_def copy_def
    by (auto simp: CTxIn_of_def in_set_enumerate_eq)
  then have s: "serialize copy = Inr (Serialize_CTransaction (CTransaction_of copy))"
    by (rule serialize_eq)
  have "map (CTxIn_of \<circ> ?in) (List.enumerate 0 (tx_vin tx)) =
      map2 (\<lambda>v s. v\<lparr> scriptSig := s \<rparr>) (map CTxIn_of (tx_vin tx))
        ((replicate (length (tx_vin tx)) [])[i := script])"
    using i by (auto simp: list_eq_iff_nth_eq nth_enumerate_eq CTxIn_of_def nth_list_update)
  then have "CTransaction_of copy = with_sigs (CTransaction_of tx)
      ((replicate (length (tx_vin tx)) [])[i := script])"
    by (simp add: CTransaction_of_def copy_def with_sigs_def)
  moreover have "le32 SIGHASH_ALL_js = [1, 0, 0, 0]" by code_simp
  ultimately show ?thesis
    using s by (simp add: sighash_preimage_def copy_def [symmetric] Let_def)
qed

end
