(* ===== verification/Coin_Selection.thy ===== *)
theory Coin_Selection
  imports Web_Tx "HOL-Library.Multiset"
begin

text \<open>
  What \<open>selectCoins\<close> of \<open>tx.js\<close> achieves: it takes a sub-collection of the coins, reaches the
  target whenever the coins together do, and no collection with fewer coins reaches it.
\<close>

definition coins_value :: "coin list \<Rightarrow> int" where
  "coins_value us = sum_list (map coin_value us)"

lemma coins_value_simps [simp]:
  "coins_value [] = 0" "coins_value (u # us) = coin_value u + coins_value us"
  "coins_value (us @ vs) = coins_value us + coins_value vs"
  by (simp_all add: coins_value_def)

lemma coins_value_mset: "coins_value us = (\<Sum>u\<in>#mset us. coin_value u)"
  by (simp add: coins_value_def sum_mset_sum_list [symmetric])

section \<open>The loop\<close>

lemma pick_loop_props:
  assumes "pick_loop us target picked s = (picked', s')"
  shows "\<exists>k \<le> length us. picked' = picked @ take k us \<and> s' = s + coins_value (take k us)
    \<and> (target \<le> s' \<or> k = length us) \<and> (0 < k \<and> k \<noteq> 1 \<longrightarrow> s + coins_value (take (k - 1) us) < target)
    \<and> (us \<noteq> [] \<longrightarrow> 0 < k)"
  using assms
proof (induction us arbitrary: picked s)
  case (Cons u us)
  show ?case
  proof (cases "target \<le> s + coin_value u")
    case True
    with Cons.prems show ?thesis by (intro exI [of _ 1]) auto
  next
    case False
    then have "pick_loop us target (picked @ [u]) (s + coin_value u) = (picked', s')"
      using Cons.prems by simp
    from Cons.IH [OF this] obtain k where k: "k \<le> length us" "picked' = (picked @ [u]) @ take k us"
        "s' = s + coin_value u + coins_value (take k us)" "target \<le> s' \<or> k = length us"
        "0 < k \<and> k \<noteq> 1 \<longrightarrow> s + coin_value u + coins_value (take (k - 1) us) < target"
      by blast
    have "0 < k \<longrightarrow> s + coin_value u + coins_value (take (k - 1) us) < target"
      using k(5) False by (cases "k = 1") auto
    then have "0 < k \<longrightarrow> s + coins_value (take k (u # us)) < target"
      using False by (cases k) auto
    with k show ?thesis by (intro exI [of _ "Suc k"]) (auto split: nat.splits)
  qed
qed auto

section \<open>Largest first is fewest\<close>

abbreviation descending :: "coin list \<Rightarrow> bool" where
  "descending us \<equiv> sorted_wrt (\<lambda>u v. coin_value v \<le> coin_value u) us"

lemma descending_shift:
  "descending (x # us) \<Longrightarrow> Suc m \<le> length us \<Longrightarrow>
   coins_value (take (Suc m) us) \<le> coin_value x + coins_value (take m us)"
  by (simp add: take_Suc_conv_app_nth)

lemma best_of_size:
  "descending us \<Longrightarrow> mset ys \<subseteq># mset us \<Longrightarrow> coins_value ys \<le> coins_value (take (length ys) us)"
proof (induction us arbitrary: ys)
  case (Cons x us)
  show ?case
  proof (cases "x \<in> set ys")
    case True
    then have ys: "mset ys = add_mset x (mset (remove1 x ys))" by simp
    then have sub: "mset (remove1 x ys) \<subseteq># mset us"
      using Cons.prems(2) by (metis mset.simps(2) mset_subset_eq_add_mset_cancel)
    have "coins_value ys = coin_value x + coins_value (remove1 x ys)"
      unfolding coins_value_mset by (subst ys) simp
    also have "\<dots> \<le> coin_value x + coins_value (take (length (remove1 x ys)) us)"
      using Cons.IH [OF _ sub] Cons.prems by simp
    also have "\<dots> = coins_value (take (length ys) (x # us))"
      using True by (cases "length ys") (auto simp: length_remove1)
    finally show ?thesis .
  next
    case False
    have sub: "mset ys \<subseteq># mset us"
    proof (rule mset_subset_eqI)
      fix a
      show "count (mset ys) a \<le> count (mset us) a"
        using mset_subset_eq_count [OF Cons.prems(2), of a] False
        by (cases "a = x") (auto simp: not_in_iff [symmetric] count_eq_zero_iff [THEN iffD2])
    qed
    then have len: "length ys \<le> length us" by (metis size_mset size_mset_mono)
    have "coins_value ys \<le> coins_value (take (length ys) us)"
      using Cons.IH [OF _ sub] Cons.prems by simp
    also have "\<dots> \<le> coins_value (take (length ys) (x # us))"
    proof (cases "length ys")
      case (Suc m)
      then show ?thesis using descending_shift [OF Cons.prems(1), of m] len by simp
    qed simp
    finally show ?thesis .
  qed
qed simp

lemma descending_sort: "descending (sort_key (\<lambda>u. - coin_value u) us)"
proof -
  have "sorted (map (\<lambda>u. - coin_value u) (sort_key (\<lambda>u. - coin_value u) us))"
    by (rule sorted_sort_key)
  then show ?thesis by (simp add: sorted_map)
qed

lemma coins_value_take_mono:
  "\<forall>u\<in>set us. 0 \<le> coin_value u \<Longrightarrow> m \<le> n \<Longrightarrow> coins_value (take m us) \<le> coins_value (take n us)"
proof -
  assume nn: "\<forall>u\<in>set us. 0 \<le> coin_value u" and "m \<le> n"
  then obtain d where n: "n = m + d" using le_Suc_ex by blast
  have "0 \<le> coins_value (take d (drop m us))"
    unfolding coins_value_def using nn by (intro sum_list_nonneg) (auto dest: in_set_takeD in_set_dropD)
  then show ?thesis by (simp add: n take_add)
qed

lemma selectCoins_props:
  assumes "selectCoins us target = (picked, s)"
  shows "mset picked \<subseteq># mset us" and "s = coins_value picked" and "us \<noteq> [] \<Longrightarrow> picked \<noteq> []"
    and "target \<le> s \<or> mset picked = mset us"
proof -
  define L where "L = sort_key (\<lambda>u. - coin_value u) us"
  obtain k where k: "picked = take k L" "s = coins_value (take k L)" "target \<le> s \<or> k = length L"
      "L \<noteq> [] \<longrightarrow> 0 < k"
    using pick_loop_props [of L target "[]" 0 picked s] assms by (auto simp: selectCoins_def L_def)
  have L: "mset L = mset us" by (simp add: L_def)
  have "mset (take k L) \<subseteq># mset L"
    by (metis append_take_drop_id mset_append mset_subset_eq_add_left)
  with k L show "mset picked \<subseteq># mset us" "s = coins_value picked" "target \<le> s \<or> mset picked = mset us"
    by auto
  show "picked \<noteq> []" if "us \<noteq> []"
  proof -
    have "L \<noteq> []" using that L by auto
    with k show ?thesis by auto
  qed
qed

lemma coins_value_subset:
  assumes "mset ys \<subseteq># mset us" and "\<forall>u\<in>set us. 0 \<le> coin_value u"
  shows "coins_value ys \<le> coins_value us"
proof -
  obtain M where M: "mset us = mset ys + M" using assms(1) by (metis mset_subset_eq_exists_conv)
  obtain zs where zs: "M = mset zs" by (metis ex_mset)
  have "set zs \<subseteq> set us" by (metis M zs set_mset_mset set_mset_union sup_ge2)
  then have "0 \<le> coins_value zs"
    unfolding coins_value_def using assms(2) by (intro sum_list_nonneg) auto
  then show ?thesis by (simp add: coins_value_mset M zs)
qed

section \<open>Properties\<close>

text \<open>
  C7. Coin selection: the coins picked are among those offered and the sum is theirs; the target
  is reached exactly when all coins together reach it; and no collection of fewer coins would
  reach it, so largest-first uses the fewest inputs.
\<close>

theorem selectCoins_fewest:
  assumes "\<forall>u\<in>set us. 0 \<le> coin_value u" and "0 < target"
    and "selectCoins us target = (picked, s)"
  shows "mset picked \<subseteq># mset us \<and> s = coins_value picked
    \<and> (target \<le> s \<longleftrightarrow> target \<le> coins_value us)
    \<and> (\<forall>ys. mset ys \<subseteq># mset us \<and> target \<le> coins_value ys \<longrightarrow> length picked \<le> length ys)"
proof -
  define L where "L = sort_key (\<lambda>u. - coin_value u) us"
  obtain k where k: "k \<le> length L" "picked = take k L" "s = coins_value (take k L)"
      "0 < k \<and> k \<noteq> 1 \<longrightarrow> coins_value (take (k - 1) L) < target"
    using pick_loop_props [of L target "[]" 0 picked s] assms(3)
    by (auto simp: selectCoins_def L_def)
  have L: "mset L = mset us" "set L = set us" by (simp_all add: L_def)
  note props = selectCoins_props [OF assms(3)]
  have reach: "target \<le> s \<longleftrightarrow> target \<le> coins_value us"
    using props coins_value_subset [OF props(1) assms(1)] by (auto simp: coins_value_mset)
  have "length picked \<le> length ys" if ys: "mset ys \<subseteq># mset us" "target \<le> coins_value ys" for ys
  proof (rule ccontr)
    assume "\<not> length picked \<le> length ys"
    then have lt: "length ys \<le> k - 1" "0 < k" using k by auto
    have "target \<le> coins_value (take (length ys) L)"
      using best_of_size [OF descending_sort [of us, folded L_def], of ys] ys L by simp
    also have "\<dots> \<le> coins_value (take (k - 1) L)"
      using assms(1) L lt by (intro coins_value_take_mono) auto
    finally show False using k(4) lt assms(2) by (cases "k = 1") auto
  qed
  with reach props show ?thesis by blast
qed

definition example_coin :: "int \<Rightarrow> coin" where
  "example_coin v = \<lparr> coin_txid = replicate 64 CHR ''a'', coin_vout = 0, coin_value = v,
     coin_owner = \<lparr> acc_index = 0, acc_address = [], acc_privKey = replicate 32 1,
       acc_pubKey = 2 # replicate 32 1, acc_utxos = None \<rparr> \<rparr>"

theorem selectCoins_fewest_witness:
  "fst (selectCoins [example_coin 3, example_coin 5, example_coin 4] 8) = [example_coin 5, example_coin 4]
   \<and> coins_value (fst (selectCoins [example_coin 3, example_coin 5, example_coin 4] 8)) = 9"
proof -
  have "selectCoins [example_coin 3, example_coin 5, example_coin 4] 8 = ([example_coin 5, example_coin 4], 9)"
    by (simp add: selectCoins_def example_coin_def)
  then show ?thesis
    using selectCoins_fewest [of "[example_coin 3, example_coin 5, example_coin 4]" 8
        "[example_coin 5, example_coin 4]" 9]
    by (simp add: example_coin_def)
qed

end
