(* ===== verification/Web_Send.thy ===== *)
theory Web_Send
  imports Web_Facts Coin_Selection
begin

text \<open>
  \<open>buildAndSign\<close> of \<open>tx.js\<close> end to end: what a returned transaction is, that the daemon accepts
  its scripts and its fee, and when the wallet refuses to build one.
\<close>

section \<open>The fee loop\<close>

text \<open>The outputs for a given change, and the fee the estimate asks for.\<close>

definition outputs :: "int \<Rightarrow> bytes \<Rightarrow> int \<Rightarrow> bytes \<Rightarrow> js_txout list" where
  "outputs amount outScript change changeHash =
     (let vout = [\<lparr> out_value = amount, out_script = outScript \<rparr>] in
      if DUST \<le> change then add_change vout change changeHash else vout)"

definition estimate :: "nat \<Rightarrow> int \<Rightarrow> nat" where
  "estimate n change = 10 + n * 148 + (if DUST \<le> change then 2 else 1) * 34"

definition fee_for :: "nat \<Rightarrow> int \<Rightarrow> int" where
  "fee_for nBytes amount =
     (1 + int (nBytes div 1000) + (if amount < DUST then 1 else 0)) * MIN_TX_FEE_js"

lemma length_outputs: "length (outputs amount s change h) = (if DUST \<le> change then 2 else 1)"
  by (simp add: outputs_def add_change_def Let_def)

lemma requiredFee_outputs: "requiredFee n (outputs amount s change h) = fee_for n amount"
  by (simp add: requiredFee_def outputs_def add_change_def Let_def fee_for_def algebra_simps)

lemma fee_for_mono: "m \<le> n \<Longrightarrow> fee_for m amount \<le> fee_for n amount"
  by (simp add: fee_for_def MIN_TX_FEE_js_def COIN_js_def div_le_mono)

lemma estimate_mono: "m \<le> n \<Longrightarrow> c \<le> d \<Longrightarrow> estimate m c \<le> estimate n d"
  by (auto simp: estimate_def)

text \<open>The change address is decoded only when there is change to send.\<close>

definition decode_change :: "webcrypto \<Rightarrow> string \<Rightarrow> int \<Rightarrow> bytes js" where
  "decode_change W changeAddr change =
     (if DUST \<le> change then js_bind (base58checkDecode W changeAddr) (\<lambda>d. Inr (addr_hash d)) else Inr [])"

lemma fee_loop_step:
  "fee_loop (Suc k) W sp amount s ca p0 s0 fee =
     (let (picked, tot) = selectCoins sp (amount + fee); change = tot - amount - fee in
      if tot < amount + fee
      then Inl (Error (''insufficient funds (need '' @ fmt (amount + fee) @ '' CORG)''))
      else js_bind (decode_change W ca change) (\<lambda>h.
        let need = fee_for (estimate (length picked) change) amount in
        if need \<le> fee then Inr (picked, tot, fee) else fee_loop k W sp amount s ca picked tot need))"
proof -
  obtain picked tot where sel: "selectCoins sp (amount + fee) = (picked, tot)" by fastforce
  define change where "change = tot - amount - fee"
  let ?vout = "[\<lparr> out_value = amount, out_script = s \<rparr>]"
  have eq: "(if DUST \<le> change then js_bind (base58checkDecode W ca) (\<lambda>d. Inr (add_change ?vout change (addr_hash d)))
      else Inr ?vout) = js_bind (decode_change W ca change) (\<lambda>h. Inr (outputs amount s change h))"
    by (cases "base58checkDecode W ca") (simp_all add: decode_change_def outputs_def)
  have est: "10 + length picked * 148 + length (outputs amount s change h) * 34 = estimate (length picked) change" for h
    by (simp add: length_outputs estimate_def)
  show ?thesis
    unfolding fee_loop.simps sel prod.case Let_def change_def [symmetric] eq
    by (cases "decode_change W ca change") (simp_all add: est requiredFee_outputs)
qed

lemma fee_loop_InrD:
  assumes "fee_loop k W sp amount s ca p0 s0 fee0 = Inr (picked, tot, fee)" and "0 < k"
  shows "\<exists>f. fee0 \<le> f \<and> f \<le> fee \<and> selectCoins sp (amount + f) = (picked, tot)
    \<and> amount + f \<le> tot \<and> fee_for (estimate (length picked) (tot - amount - f)) amount \<le> fee"
  using assms
proof (induction k arbitrary: p0 s0 fee0)
  case (Suc k)
  obtain p t where sel: "selectCoins sp (amount + fee0) = (p, t)" by fastforce
  define change where "change = t - amount - fee0"
  define need where "need = fee_for (estimate (length p) change) amount"
  note step = Suc.prems(1) [unfolded fee_loop_step sel prod.case Let_def change_def [symmetric] need_def [symmetric]]
  have enough: "amount + fee0 \<le> t" using step by (auto split: if_splits)
  then obtain h where "decode_change W ca change = Inr h"
      and res: "(if need \<le> fee0 then Inr (p, t, fee0) else fee_loop k W sp amount s ca p t need) = Inr (picked, tot, fee)"
    using step by (auto simp: js_bind_eq_Inr)
  show ?case
  proof (cases "need \<le> fee0")
    case True
    then show ?thesis using res sel enough by (auto simp: need_def change_def)
  next
    case False
    show ?thesis
    proof (cases k)
      case 0
      then have "picked = p" "tot = t" "fee = need" using res False by auto
      then show ?thesis using sel enough False by (intro exI [of _ fee0]) (auto simp: need_def change_def)
    next
      case (Suc k')
      then obtain f where "need \<le> f \<and> f \<le> fee \<and> selectCoins sp (amount + f) = (picked, tot)
        \<and> amount + f \<le> tot \<and> fee_for (estimate (length picked) (tot - amount - f)) amount \<le> fee"
        using Suc.IH [of p t need] res False by auto
      with False show ?thesis by (intro exI [of _ f]) auto
    qed
  qed
qed simp

section \<open>Signing\<close>

text \<open>
  What the wallet and the daemon must have in common: the hash functions, and an ECDSA
  implementation on each side such that what one signs the other verifies. Signatures are
  low-s DER, so at most 71 bytes; one of 19 bytes would need \<open>r\<close> and \<open>s\<close> below \<open>2\<^sup>5\<^sup>6\<close>.
\<close>

locale same_crypto = openssl_digest +
  fixes W :: webcrypto
  assumes same_SHA256: "digest_SHA256 W bs = SHA256 E bs"
    and same_RIPEMD160: "ripemd160 W bs = RIPEMD160 E bs"
begin

lemma sha256d_Hash: "sha256d W bs = word_le 32 (Hash E bs)"
proof -
  have "word_le (length (SHA256 E (SHA256 E bs))) (le_word (SHA256 E (SHA256 E bs)) :: u256) = SHA256 E (SHA256 E bs)"
    by (rule word_le_le_word) (simp add: length_SHA256)
  then show ?thesis by (simp add: sha256d_def sha256_def same_SHA256 Hash_def Let_def length_SHA256)
qed

lemma hash160_Hash160: "hash160 W bs = word_le 20 (Hash160 E bs)"
proof -
  have "word_le (length (RIPEMD160 E (SHA256 E bs))) (le_word (RIPEMD160 E (SHA256 E bs)) :: u160) = RIPEMD160 E (SHA256 E bs)"
    by (rule word_le_le_word) (simp add: length_RIPEMD160)
  then show ?thesis
    by (simp add: hash160_def sha256_def same_SHA256 same_RIPEMD160 Hash160_def Let_def length_RIPEMD160)
qed

lemma p2pkhScript_hash160: "p2pkhScript (hash160 W pub) = SetDestination (KeyID (Hash160 E pub))"
  by (subst p2pkhScript_eq) (simp_all add: hash160_Hash160 le_word_20 del: SetDestination.simps)

end

sublocale same_crypto \<subseteq> web: web_digest W
  by unfold_locales (simp_all add: same_SHA256 same_RIPEMD160 length_SHA256 length_RIPEMD160)

locale signer = same_crypto +
  assumes key_ok: "getPublicKey W k True = Inr pub \<Longrightarrow> length pub = 33 \<and> o2i_ECPublicKey E pub"
    and sign_ok: "getPublicKey W k True = Inr pub \<Longrightarrow> length h = 32 \<Longrightarrow>
      \<exists>der. secp_sign W h k = Inr der \<and> der \<noteq> [] \<and> length der \<le> 71 \<and> length der \<noteq> 19
        \<and> ECDSA_verify E pub h der"

interpretation ref_crypto: same_crypto openssl_ref web_ref
  by unfold_locales (simp_all add: openssl_ref_def web_ref_def)

interpretation ref_signer: signer openssl_ref web_ref
  by unfold_locales (auto simp: openssl_ref_def web_ref_def split: if_splits)

definition account_ok :: "webcrypto \<Rightarrow> funded_account \<Rightarrow> bool" where
  "account_ok W a \<longleftrightarrow> getPublicKey W (acc_privKey a) True = Inr (acc_pubKey a)"

definition spk_of :: "openssl \<Rightarrow> funded_account \<Rightarrow> bytes" where
  "spk_of E a = SetDestination (KeyID (Hash160 E (acc_pubKey a)))"

text \<open>Input \<open>i\<close> carries a valid signature of the owner.\<close>

definition signed_input :: "openssl \<Rightarrow> funded_account \<Rightarrow> CTransaction \<Rightarrow> nat \<Rightarrow> bytes \<Rightarrow> bool" where
  "signed_input E a t i script \<longleftrightarrow>
     (\<exists>der. script = push_data (der @ [1]) @ push_data (acc_pubKey a) \<and> length (acc_pubKey a) = 33
        \<and> length der \<le> 71 \<and> length der \<noteq> 19 \<and> sig_valid E (der @ [1]) (acc_pubKey a) (spk_of E a) t i 0)"

text \<open>Two transactions that differ in input scripts only.\<close>

definition same_shape :: "js_tx \<Rightarrow> js_tx \<Rightarrow> bool" where
  "same_shape tx tx' \<longleftrightarrow> tx_version tx' = tx_version tx \<and> tx_vout tx' = tx_vout tx
     \<and> tx_locktime tx' = tx_locktime tx
     \<and> map (\<lambda>v. v\<lparr> in_script := None \<rparr>) (tx_vin tx') = map (\<lambda>v. v\<lparr> in_script := None \<rparr>) (tx_vin tx)"

lemma same_shape_refl [simp]: "same_shape tx tx"
  by (simp add: same_shape_def)

lemma same_shape_trans: "same_shape a b \<Longrightarrow> same_shape b c \<Longrightarrow> same_shape a c"
  by (simp add: same_shape_def)

lemma same_shape_length: "same_shape tx tx' \<Longrightarrow> length (tx_vin tx') = length (tx_vin tx)"
  unfolding same_shape_def by (metis length_map)

lemma same_shape_update:
  "i < length (tx_vin tx) \<Longrightarrow>
   same_shape tx (tx\<lparr> tx_vin := (tx_vin tx)[i := (tx_vin tx ! i)\<lparr> in_script := s \<rparr>] \<rparr>)"
  by (auto simp: same_shape_def list_eq_iff_nth_eq nth_list_update)

lemma same_shape_with_sigs:
  assumes "same_shape tx tx'"
  shows "CTransaction_of tx' = with_sigs (CTransaction_of tx) (map (\<lambda>i. scriptSig (CTxIn_of i)) (tx_vin tx'))"
proof -
  note len = same_shape_length [OF assms]
  have "CTxIn_of (tx_vin tx' ! i) = (CTxIn_of (tx_vin tx ! i))\<lparr> scriptSig := scriptSig (CTxIn_of (tx_vin tx' ! i)) \<rparr>"
    if "i < length (tx_vin tx)" for i
  proof -
    have "map (\<lambda>v. v\<lparr> in_script := None \<rparr>) (tx_vin tx') ! i = map (\<lambda>v. v\<lparr> in_script := None \<rparr>) (tx_vin tx) ! i"
      using assms by (simp add: same_shape_def)
    then show ?thesis using that len
      by (cases "tx_vin tx' ! i"; cases "tx_vin tx ! i") (simp add: CTxIn_of_def)
  qed
  then have "map CTxIn_of (tx_vin tx') = map2 (\<lambda>v s. v\<lparr> scriptSig := s \<rparr>) (map CTxIn_of (tx_vin tx))
      (map (\<lambda>i. scriptSig (CTxIn_of i)) (tx_vin tx'))"
    using len by (auto simp: list_eq_iff_nth_eq)
  then show ?thesis
    using assms by (simp add: CTransaction_of_def with_sigs_def same_shape_def)
qed

lemma signed_input_shape:
  assumes "same_shape tx tx'"
  shows "signed_input E a (CTransaction_of tx') i s = signed_input E a (CTransaction_of tx) i s"
proof -
  have "SignatureHash E code (CTransaction_of tx') n h = SignatureHash E code (CTransaction_of tx) n h" for code n h
    unfolding same_shape_with_sigs [OF assms]
    by (rule SignatureHash_with_sigs) (simp add: CTransaction_of_def same_shape_length [OF assms])
  then show ?thesis by (simp add: signed_input_def sig_valid_def)
qed

context signer
begin

lemma sign_step_eq:
  assumes ok: "js_tx_ok tx" and i: "i < length (tx_vin tx)" and a: "account_ok W (owners ! i)"
  shows "\<exists>s. sign_step W owners i tx =
      Inr (tx\<lparr> tx_vin := (tx_vin tx)[i := (tx_vin tx ! i)\<lparr> in_script := Some s \<rparr>] \<rparr>)
    \<and> signed_input E (owners ! i) (CTransaction_of tx) i s \<and> length s \<le> 200"
proof -
  define a where "a = owners ! i"
  have pub: "getPublicKey W (acc_privKey a) True = Inr (acc_pubKey a)"
    using a by (simp add: account_ok_def a_def)
  note key = key_ok [OF pub]
  define t where "t = CTransaction_of tx"
  have spk: "p2pkhScript (hash160 W (acc_pubKey a)) = spk_of E a"
    by (simp add: p2pkhScript_hash160 spk_of_def)
  have sep: "fst (FindAndDelete (spk_of E a) [OP_CODESEPARATOR]) = spk_of E a"
    unfolding spk_of_def by (subst FindAndDelete_P2PKH) auto
  have len: "length (spk_of E a) = 25" by (simp add: spk_of_def push_uint160_def)
  define pre where "pre = Serialize_CTransaction (all_preimage (spk_of E a) t i) @ [1, 0, 0, 0]"
  have pre: "sighash_preimage tx i (spk_of E a) = Inr pre"
    using sighash_preimage_eq [OF ok i, of "spk_of E a"] len
    by (simp add: pre_def all_preimage_def sep t_def CTransaction_of_def)
  have one: "word_le 4 (1 :: i32) = [1, 0, 0, 0]" by code_simp
  have hash: "SignatureHash E (spk_of E a) t i 1 = Hash E pre"
    using SignatureHash_ALL [of i t E "spk_of E a"] i
    by (simp add: pre_def one t_def CTransaction_of_def SIGHASH_ALL_def)
  obtain der where der: "secp_sign W (sha256d W pre) (acc_privKey a) = Inr der" "der \<noteq> []"
      "length der \<le> 71" "length der \<noteq> 19" "ECDSA_verify E (acc_pubKey a) (sha256d W pre) der"
    using sign_ok [OF pub, of "sha256d W pre"] by auto
  define s where "s = push_data (der @ [1]) @ push_data (acc_pubKey a)"
  have "sig_valid E (der @ [1]) (acc_pubKey a) (spk_of E a) t i 0"
    using der key by (auto simp: sig_valid_def SetPubKey_def Verify_def hash sha256d_Hash)
  then have si: "signed_input E a t i s"
    using der key by (auto simp: signed_input_def s_def)
  have "length s \<le> 200"
    using der key length_push_data [of "der @ [1]"] length_push_data [of "acc_pubKey a"] by (simp add: s_def)
  moreover have "sign_step W owners i tx =
      Inr (tx\<lparr> tx_vin := (tx_vin tx)[i := (tx_vin tx ! i)\<lparr> in_script := Some s \<rparr>] \<rparr>)"
    using pre der key
    by (simp add: sign_step_def a_def [symmetric] spk Let_def SIGHASH_ALL_js_def pushData_eq s_def)
  ultimately show ?thesis using si by (auto simp: a_def t_def)
qed

lemma sign_loop_eq:
  assumes "js_tx_ok tx" and "length owners = length (tx_vin tx)" and "\<forall>a\<in>set owners. account_ok W a"
    and "m \<le> length (tx_vin tx)"
  shows "\<exists>tx'. for_of [m..<length (tx_vin tx)] (sign_step W owners) tx = Inr tx'
    \<and> js_tx_ok tx' \<and> same_shape tx tx' \<and> (\<forall>i<m. tx_vin tx' ! i = tx_vin tx ! i)
    \<and> (\<forall>i. m \<le> i \<and> i < length (tx_vin tx) \<longrightarrow>
        (\<exists>s. in_script (tx_vin tx' ! i) = Some s \<and> signed_input E (owners ! i) (CTransaction_of tx) i s))"
  using assms
proof (induction "length (tx_vin tx) - m" arbitrary: m tx)
  case 0
  then show ?case by (intro exI [of _ tx]) auto
next
  case (Suc d)
  then have m: "m < length (tx_vin tx)" by simp
  have "account_ok W (owners ! m)" using Suc.prems m by simp
  from sign_step_eq [OF Suc.prems(1) m this] obtain s where
    s: "sign_step W owners m tx = Inr (tx\<lparr> tx_vin := (tx_vin tx)[m := (tx_vin tx ! m)\<lparr> in_script := Some s \<rparr>] \<rparr>)"
      "signed_input E (owners ! m) (CTransaction_of tx) m s" "length s \<le> 200" by blast
  define tx1 where "tx1 = tx\<lparr> tx_vin := (tx_vin tx)[m := (tx_vin tx ! m)\<lparr> in_script := Some s \<rparr>] \<rparr>"
  have shape: "same_shape tx tx1" unfolding tx1_def by (rule same_shape_update [OF m])
  have ok1: "js_tx_ok tx1"
    using Suc.prems(1) s(3) m unfolding js_tx_ok_def tx1_def
    by (auto simp: CTxIn_of_def dest!: set_update_subset_insert [THEN subsetD])
  have len1: "length (tx_vin tx1) = length (tx_vin tx)" by (simp add: tx1_def)
  have d: "d = length (tx_vin tx1) - Suc m" using Suc.hyps(2) len1 by simp
  obtain tx' where tx': "for_of [Suc m..<length (tx_vin tx)] (sign_step W owners) tx1 = Inr tx'"
      "js_tx_ok tx'" "same_shape tx1 tx'" "\<forall>i<Suc m. tx_vin tx' ! i = tx_vin tx1 ! i"
      "\<forall>i. Suc m \<le> i \<and> i < length (tx_vin tx) \<longrightarrow>
        (\<exists>s. in_script (tx_vin tx' ! i) = Some s \<and> signed_input E (owners ! i) (CTransaction_of tx1) i s)"
    using Suc.hyps(1) [OF d] Suc.prems ok1 m len1 by auto
  have "for_of [m..<length (tx_vin tx)] (sign_step W owners) tx = Inr tx'"
    using tx'(1) s(1) m by (simp add: upt_conv_Cons tx1_def [symmetric])
  moreover have "same_shape tx tx'" using same_shape_trans [OF shape tx'(3)] .
  moreover have "\<forall>i<m. tx_vin tx' ! i = tx_vin tx ! i" using tx'(4) by (simp add: tx1_def)
  moreover have "\<exists>s. in_script (tx_vin tx' ! i) = Some s \<and> signed_input E (owners ! i) (CTransaction_of tx) i s"
    if i: "m \<le> i" "i < length (tx_vin tx)" for i
  proof (cases "i = m")
    case True
    then show ?thesis using tx'(4) s(2) m by (simp add: tx1_def)
  next
    case False
    then show ?thesis using tx'(5) i signed_input_shape [OF shape] by auto
  qed
  ultimately show ?case using tx'(2) by blast
qed

end

section \<open>The whole of buildAndSign\<close>

definition accounts_ok :: "webcrypto \<Rightarrow> funded_account list \<Rightarrow> bool" where
  "accounts_ok W accounts \<longleftrightarrow> (\<forall>c\<in>set (spendable_of accounts).
     txid_ok (coin_txid c) \<and> 0 \<le> coin_value c \<and> account_ok W (coin_owner c))
     \<and> length (spendable_of accounts) \<le> 0xffffffff"

text \<open>A base58check text with a 20-byte payload.\<close>

definition address_text :: "webcrypto \<Rightarrow> string \<Rightarrow> bool" where
  "address_text W s \<longleftrightarrow> (case base58checkDecode W s of Inl e \<Rightarrow> False | Inr d \<Rightarrow> length (addr_hash d) = 20)"

definition unsigned_tx :: "coin list \<Rightarrow> js_txout list \<Rightarrow> js_tx" where
  "unsigned_tx picked outs = \<lparr> tx_version = 1,
     tx_vin = map (\<lambda>p. \<lparr> in_txid = coin_txid p, in_vout = coin_vout p, in_script = Some [] \<rparr>) picked,
     tx_vout = outs, tx_locktime = 0 \<rparr>"

definition outpoint_of :: "coin \<Rightarrow> COutPoint" where
  "outpoint_of c = \<lparr> op_hash = hash_of_txid (coin_txid c), op_n = ToUint32 (coin_vout c) \<rparr>"

lemma buildAndSign_eq:
  "buildAndSign W accounts toAddr amount net changeAddr =
     (if amount \<le> 0 then Inl (Error ''amount must be positive'') else
      js_bind (scriptForAddress W toAddr net) (\<lambda>outScript.
      if spendable_of accounts = [] then Inl (Error ''no spendable coins found'') else
      js_bind (fee_loop 4 W (spendable_of accounts) amount outScript changeAddr [] 0 MIN_TX_FEE_js)
        (\<lambda>(picked, tot, fee).
      let change = tot - amount - fee in
      if change < 0 then Inl (Error ''fee exceeds inputs'') else
      js_bind (base58checkDecode W changeAddr) (\<lambda>d.
      js_bind (for_of [0..<length picked] (sign_step W (map coin_owner picked))
          (unsigned_tx picked (outputs amount outScript change (addr_hash d)))) (\<lambda>tx.
      js_bind (serialize tx) (\<lambda>raw.
      Inr \<lparr> res_hex = toHex raw, res_txid = txid W raw, res_fee = fee, res_change = change,
            res_inputs = length picked, res_amount = amount \<rparr>))))))"
  unfolding buildAndSign_def unsigned_tx_def outputs_def Let_def length_map by (rule refl)

lemma buildAndSign_InrD:
  assumes "buildAndSign W accounts toAddr amount net changeAddr = Inr r"
  shows "\<exists>outScript d picked tot fee tx raw.
    0 < amount \<and> scriptForAddress W toAddr net = Inr outScript \<and> spendable_of accounts \<noteq> []
    \<and> fee_loop 4 W (spendable_of accounts) amount outScript changeAddr [] 0 MIN_TX_FEE_js = Inr (picked, tot, fee)
    \<and> 0 \<le> tot - amount - fee \<and> base58checkDecode W changeAddr = Inr d
    \<and> for_of [0..<length picked] (sign_step W (map coin_owner picked))
        (unsigned_tx picked (outputs amount outScript (tot - amount - fee) (addr_hash d))) = Inr tx
    \<and> serialize tx = Inr raw
    \<and> r = \<lparr> res_hex = toHex raw, res_txid = txid W raw, res_fee = fee, res_change = tot - amount - fee,
            res_inputs = length picked, res_amount = amount \<rparr>"
  using assms unfolding buildAndSign_eq Let_def
  by (auto simp: js_bind_eq_Inr split: if_splits)

lemma scriptForAddress_InrD:
  assumes "scriptForAddress W addr net = Inr s"
  shows "\<exists>d p. base58checkDecode W addr = Inr d \<and> NETWORKS net = Some p
    \<and> uint (addr_version d) = net_pubkey p \<and> length (addr_hash d) = 20 \<and> s = p2pkhScript (addr_hash d)"
  using assms unfolding scriptForAddress_def
  by (auto simp: js_bind_eq_Inr split: if_splits option.splits)

lemma length_p2pkhScript [simp]: "length (p2pkhScript h) = length h + 5"
  by (simp add: p2pkhScript_def)

text \<open>Everything a returned transaction satisfies.\<close>

definition built :: "openssl \<Rightarrow> webcrypto \<Rightarrow> funded_account list \<Rightarrow> string \<Rightarrow> int \<Rightarrow> string \<Rightarrow> string
    \<Rightarrow> signed_tx \<Rightarrow> coin list \<Rightarrow> js_tx \<Rightarrow> bool" where
  "built E W accounts toAddr amount net changeAddr r picked tx \<longleftrightarrow>
     (\<exists>outScript changeHash.
        scriptForAddress W toAddr net = Inr outScript \<and> length changeHash = 20 \<and> length outScript = 25
        \<and> (\<exists>v. base58checkDecode W changeAddr = Inr \<lparr> addr_version = v, addr_hash = changeHash \<rparr>)
        \<and> tx_version tx = 1 \<and> tx_locktime tx = 0
        \<and> tx_vout tx = outputs amount outScript (res_change r) changeHash)
     \<and> res_hex r = toHex (Serialize_CTransaction (CTransaction_of tx))
     \<and> res_txid r = txid W (Serialize_CTransaction (CTransaction_of tx))
     \<and> 0 < amount \<and> res_amount r = amount \<and> res_inputs r = length picked \<and> 0 \<le> res_change r
     \<and> coins_value picked = amount + res_fee r + res_change r
     \<and> mset picked \<subseteq># mset (spendable_of accounts)
     \<and> map prevout (vin (CTransaction_of tx)) = map outpoint_of picked
     \<and> fee_for (estimate (length picked) (res_change r)) amount \<le> res_fee r
     \<and> MIN_TX_FEE_js \<le> res_fee r
     \<and> (\<forall>i<length picked. signed_input E (coin_owner (picked ! i)) (CTransaction_of tx) i
          (scriptSig (vin (CTransaction_of tx) ! i)))"

lemma same_shape_prevouts:
  assumes "same_shape tx tx'"
  shows "map prevout (vin (CTransaction_of tx')) = map prevout (vin (CTransaction_of tx))"
  using same_shape_length [OF assms]
  by (subst same_shape_with_sigs [OF assms])
    (auto simp: with_sigs_def CTransaction_of_def list_eq_iff_nth_eq)

context signer
begin

lemma unsigned_ok:
  assumes "accounts_ok W accounts" and "mset picked \<subseteq># mset (spendable_of accounts)"
    and "\<forall>t\<in>set outs. length (out_script t) = 25" and "length outs \<le> 2"
  shows "js_tx_ok (unsigned_tx picked outs) \<and> (\<forall>a\<in>set (map coin_owner picked). account_ok W a)"
proof -
  have "set picked \<subseteq> set (spendable_of accounts)" by (metis assms(2) set_mset_mset set_mset_mono)
  moreover have "length picked \<le> length (spendable_of accounts)" by (metis assms(2) size_mset size_mset_mono)
  ultimately show ?thesis
    using assms unfolding js_tx_ok_def accounts_ok_def unsigned_tx_def by (auto simp: CTxIn_of_def)
qed

lemma buildAndSign_built:
  assumes acc: "accounts_ok W accounts" and chg: "address_text W changeAddr"
    and res: "buildAndSign W accounts toAddr amount net changeAddr = Inr r"
  shows "\<exists>picked tx. built E W accounts toAddr amount net changeAddr r picked tx"
proof -
  obtain outScript d picked tot fee tx raw where
    pos: "0 < amount" and out: "scriptForAddress W toAddr net = Inr outScript"
    and loop: "fee_loop 4 W (spendable_of accounts) amount outScript changeAddr [] 0 MIN_TX_FEE_js = Inr (picked, tot, fee)"
    and ch: "0 \<le> tot - amount - fee" and d: "base58checkDecode W changeAddr = Inr d"
    and sgn: "for_of [0..<length picked] (sign_step W (map coin_owner picked))
        (unsigned_tx picked (outputs amount outScript (tot - amount - fee) (addr_hash d))) = Inr tx"
    and ser: "serialize tx = Inr raw"
    and r: "r = \<lparr> res_hex = toHex raw, res_txid = txid W raw, res_fee = fee, res_change = tot - amount - fee,
            res_inputs = length picked, res_amount = amount \<rparr>"
    using buildAndSign_InrD [OF res] by blast
  have lens: "length outScript = 25" "length (addr_hash d) = 20"
    using scriptForAddress_InrD [OF out] chg d by (auto simp: address_text_def)
  let ?outs = "outputs amount outScript (tot - amount - fee) (addr_hash d)"
  let ?tx0 = "unsigned_tx picked ?outs"
  obtain f where f: "MIN_TX_FEE_js \<le> f" "f \<le> fee" "selectCoins (spendable_of accounts) (amount + f) = (picked, tot)"
      "fee_for (estimate (length picked) (tot - amount - f)) amount \<le> fee"
    using fee_loop_InrD [OF loop] by auto
  note sel = selectCoins_props [OF f(3)]
  have outs: "\<forall>t\<in>set ?outs. length (out_script t) = 25"
    using lens by (auto simp: outputs_def add_change_def Let_def)
  note ok0 = unsigned_ok [OF acc sel(1) outs]
  have len0: "length (tx_vin ?tx0) = length picked" by (simp add: unsigned_tx_def)
  obtain tx' where tx': "for_of [0..<length picked] (sign_step W (map coin_owner picked)) ?tx0 = Inr tx'"
      "js_tx_ok tx'" "same_shape ?tx0 tx'"
      "\<forall>i<length picked. \<exists>s. in_script (tx_vin tx' ! i) = Some s
         \<and> signed_input E (coin_owner (picked ! i)) (CTransaction_of ?tx0) i s"
    using sign_loop_eq [of ?tx0 "map coin_owner picked" 0] ok0 len0 by (auto simp: length_outputs)
  have "tx' = tx" using tx'(1) sgn by simp
  note tx' = tx' [unfolded this]
  have raw: "raw = Serialize_CTransaction (CTransaction_of tx)"
    using serialize_eq [OF tx'(2)] ser by simp
  have "estimate (length picked) (tot - amount - fee) \<le> estimate (length picked) (tot - amount - f)"
    using f(2) by (intro estimate_mono) auto
  then have feeOk: "fee_for (estimate (length picked) (tot - amount - fee)) amount \<le> fee"
    using fee_for_mono f(4) by (meson order_trans)
  have prev: "map prevout (vin (CTransaction_of tx)) = map outpoint_of picked"
    unfolding same_shape_prevouts [OF tx'(3)]
    by (simp add: CTransaction_of_def unsigned_tx_def CTxIn_of_def outpoint_of_def comp_def)
  have lenv: "length (tx_vin tx) = length picked" using same_shape_length [OF tx'(3)] len0 by simp
  have sig: "signed_input E (coin_owner (picked ! i)) (CTransaction_of tx) i (scriptSig (vin (CTransaction_of tx) ! i))"
    if "i < length picked" for i
    using tx'(4) that signed_input_shape [OF tx'(3)] lenv by (auto simp: CTransaction_of_def CTxIn_of_def)
  have "tx_version tx = 1" "tx_locktime tx = 0" "tx_vout tx = ?outs"
    using tx'(3) by (simp_all add: same_shape_def unsigned_tx_def)
  moreover have "\<exists>v. base58checkDecode W changeAddr = Inr \<lparr> addr_version = v, addr_hash = addr_hash d \<rparr>"
    using d by (cases d) simp
  ultimately have "built E W accounts toAddr amount net changeAddr r picked tx"
    unfolding built_def
    using out lens pos ch r raw sel(1) sel(2) prev feeOk f(1,2) sig by auto
  then show ?thesis by blast
qed

end

section \<open>Size and fee\<close>

lemma push_data_small: "length b < 76 \<Longrightarrow> length (push_data b) = length b + 1"
  by (simp add: push_data_def)

lemma signed_input_size:
  assumes "signed_input E a t i (scriptSig v)"
  shows "GetSerializeSize_CTxIn v \<le> 148"
proof -
  obtain der where der: "scriptSig v = push_data (der @ [1]) @ push_data (acc_pubKey a)"
      "length (acc_pubKey a) = 33" "length der \<le> 71"
    using assms by (auto simp: signed_input_def)
  then have "length (scriptSig v) \<le> 107" by (simp add: push_data_small)
  then show ?thesis
    by (simp add: GetSerializeSize_CTxIn_def GetSerializeSize_bytes_def GetSizeOfCompactSize_def)
qed

lemma sum_list_le: "(\<forall>x\<in>set xs. f x \<le> (k::nat)) \<Longrightarrow> sum_list (map f xs) \<le> length xs * k"
  by (induction xs) auto

lemma built_size:
  assumes "built E W accounts toAddr amount net changeAddr r picked tx" and "length picked < 253"
  shows "GetSerializeSize_CTransaction (CTransaction_of tx) \<le> estimate (length picked) (res_change r)"
proof -
  let ?t = "CTransaction_of tx"
  from assms obtain s h where outs: "tx_vout tx = outputs amount s (res_change r) h"
      "length s = 25" "length h = 20"
    and prev: "map prevout (vin ?t) = map outpoint_of picked"
    and sig: "\<forall>i<length picked. signed_input E (coin_owner (picked ! i)) ?t i (scriptSig (vin ?t ! i))"
    unfolding built_def by blast
  have len: "length (vin ?t) = length picked" using prev by (metis length_map)
  have "\<forall>v\<in>set (vin ?t). GetSerializeSize_CTxIn v \<le> 148"
    using sig len by (metis in_set_conv_nth signed_input_size)
  then have ins: "sum_list (map GetSerializeSize_CTxIn (vin ?t)) \<le> length picked * 148"
    using sum_list_le len by metis
  have "sum_list (map GetSerializeSize_CTxOut (vout ?t)) = length (vout ?t) * 34"
    using outs by (simp add: CTransaction_of_def outputs_def add_change_def Let_def CTxOut_of_def
        GetSerializeSize_CTxOut_def GetSerializeSize_bytes_def GetSizeOfCompactSize_def)
  moreover have "length (vout ?t) = (if DUST \<le> res_change r then 2 else 1)"
    using outs by (simp add: CTransaction_of_def length_outputs)
  ultimately show ?thesis
    using ins assms(2) len
    by (simp add: GetSerializeSize_CTransaction_def GetSerializeSize_vec_def GetSizeOfCompactSize_def estimate_def)
qed

lemma sint_of_int_range: "0 \<le> v \<Longrightarrow> v < 2 ^ 63 \<Longrightarrow> sint (word_of_int v :: i64) = v"
  by (simp add: sint_sbintrunc' signed_take_bit_int_eq_self signed_of_int)

lemma built_dust:
  assumes "built E W accounts toAddr amount net changeAddr r picked tx" and "coins_value picked < 2 ^ 63"
  shows "dust_count (CTransaction_of tx) = (if amount < DUST then 1 else 0)"
proof -
  from assms obtain s h where outs: "tx_vout tx = outputs amount s (res_change r) h"
      "0 < amount" "0 \<le> res_change r" "coins_value picked = amount + res_fee r + res_change r"
      "MIN_TX_FEE_js \<le> res_fee r"
    unfolding built_def by blast
  have "0 \<le> res_fee r" using outs(5) by (simp add: MIN_TX_FEE_js_def COIN_js_def)
  then have "sint (word_of_int amount :: i64) = amount" "sint (word_of_int (res_change r) :: i64) = res_change r"
    using outs assms(2) by (auto intro!: sint_of_int_range)
  then show ?thesis
    using outs(1) by (simp add: dust_count_def CTransaction_of_def outputs_def add_change_def Let_def
        CTxOut_of_def sint_COIN DUST_def COIN_js_def)
qed

lemma built_fee:
  assumes b: "built E W accounts toAddr amount net changeAddr r picked tx" and n: "length picked < 253"
    and v: "coins_value picked < 2 ^ 63" and blk: "nBlockSize = 1 \<or> unat nBlockSize < 200000"
  shows "sint (GetMinFee (CTransaction_of tx) nBlockSize fAllowFree mode) \<le> res_fee r"
proof -
  let ?t = "CTransaction_of tx" and ?n = "GetSerializeSize_CTransaction (CTransaction_of tx)"
  have size: "?n \<le> estimate (length picked) (res_change r)" by (rule built_size [OF b n])
  also have "\<dots> \<le> 40000" using n by (simp add: estimate_def)
  finally have small: "?n \<le> 40000" .
  have b1: "unat nBlockSize < 200000" using blk by auto
  have "fee_spec ?t (unat nBlockSize) fAllowFree \<le> min_fee_int ?n (unat nBlockSize) fAllowFree (dust_count ?t)"
    using b1 small by (simp add: fee_spec_def Let_def)
  also have "\<dots> \<le> fee_for ?n amount"
    unfolding built_dust [OF b v]
    by (simp add: min_fee_int_def fee_for_def MIN_TX_FEE_js_def COIN_js_def Let_def)
  also have "\<dots> \<le> res_fee r"
    using fee_for_mono [OF size] b unfolding built_def by (meson order_trans)
  finally show ?thesis
    using GetMinFee_eq [of ?t nBlockSize fAllowFree mode] small b1 by (simp add: MAX_BLOCK_SIZE_def)
qed

section \<open>When the wallet returns\<close>

lemma fee_for_multiple: "\<exists>j. fee_for n amount = j * COIN_js"
  by (auto simp: fee_for_def MIN_TX_FEE_js_def)

lemma address_text_decode: "address_text W ca \<Longrightarrow> \<exists>h. decode_change W ca change = Inr h"
  by (auto simp: address_text_def decode_change_def split: sum.splits)

lemma fee_loop_returns:
  assumes ca: "address_text W ca" and nn: "\<forall>u\<in>set sp. 0 \<le> coin_value u" and amt: "0 < amount"
    and F: "F = fee_for (estimate (length sp) DUST) amount" and funds: "amount + F \<le> coins_value sp"
    and fee0: "fee0 = j * COIN_js" "0 \<le> fee0" "fee0 \<le> F" "F \<le> fee0 + (int k - 1) * COIN_js" and k: "0 < k"
  shows "\<exists>picked tot fee. fee_loop k W sp amount s ca p0 s0 fee0 = Inr (picked, tot, fee) \<and> amount + fee \<le> tot"
  using fee0 k
proof (induction k arbitrary: p0 s0 fee0 j)
  case (Suc k)
  obtain p t where sel: "selectCoins sp (amount + fee0) = (p, t)" by fastforce
  have enough: "amount + fee0 \<le> t"
    using selectCoins_props [OF sel] funds Suc.prems(3) by (auto simp: coins_value_mset)
  have "length p \<le> length sp" using selectCoins_props(1) [OF sel] by (metis size_mset size_mset_mono)
  define change where "change = t - amount - fee0"
  define need where "need = fee_for (estimate (length p) change) amount"
  have "estimate (length p) change \<le> estimate (length sp) DUST"
    using \<open>length p \<le> length sp\<close> by (auto simp: estimate_def)
  then have needF: "need \<le> F" unfolding need_def F by (rule fee_for_mono)
  obtain h where h: "decode_change W ca change = Inr h" using address_text_decode [OF ca] by blast
  have step: "fee_loop (Suc k) W sp amount s ca p0 s0 fee0 =
      (if need \<le> fee0 then Inr (p, t, fee0) else fee_loop k W sp amount s ca p t need)"
    unfolding fee_loop_step sel using enough by (simp add: change_def [symmetric] h need_def)
  show ?case
  proof (cases "need \<le> fee0")
    case True
    then show ?thesis using step enough by auto
  next
    case False
    obtain j' where j': "need = j' * COIN_js" using fee_for_multiple need_def by blast
    have "j * COIN_js < j' * COIN_js" using False Suc.prems(1) j' by simp
    then have "j + 1 \<le> j'" by (simp add: COIN_js_def)
    then have "(j + 1) * COIN_js \<le> j' * COIN_js" by (simp add: COIN_js_def)
    then have up: "fee0 + COIN_js \<le> need" using Suc.prems(1) j' by (simp add: algebra_simps)
    have "0 < k"
      using Suc.prems(4) needF False by (cases k) auto
    moreover have "F \<le> need + (int k - 1) * COIN_js" using Suc.prems(4) up by (simp add: algebra_simps)
    ultimately show ?thesis
      using Suc.IH [OF j' _ needF] step False Suc.prems(2) up by (auto simp: COIN_js_def)
  qed
qed simp

context signer
begin

lemma buildAndSign_Inr:
  assumes acc: "accounts_ok W accounts" and chg: "address_text W changeAddr" and amt: "0 < amount"
    and out: "scriptForAddress W toAddr net = Inr outScript"
    and F: "F = fee_for (estimate (length (spendable_of accounts)) DUST) amount" "F \<le> 4 * MIN_TX_FEE_js"
    and funds: "amount + F \<le> coins_value (spendable_of accounts)"
  shows "\<exists>r. buildAndSign W accounts toAddr amount net changeAddr = Inr r"
proof -
  let ?sp = "spendable_of accounts"
  have Fpos: "MIN_TX_FEE_js \<le> F" by (simp add: F fee_for_def MIN_TX_FEE_js_def COIN_js_def)
  then have ne: "?sp \<noteq> []" using funds amt by (auto simp: MIN_TX_FEE_js_def COIN_js_def)
  obtain picked tot fee where loop: "fee_loop 4 W ?sp amount outScript changeAddr [] 0 MIN_TX_FEE_js = Inr (picked, tot, fee)"
      and en: "amount + fee \<le> tot"
    using fee_loop_returns [OF chg _ amt F(1) funds, where j = 1 and ?fee0.0 = MIN_TX_FEE_js and k = 4
        and s = outScript and ?p0.0 = "[]" and ?s0.0 = 0] acc F(2) Fpos
    by (auto simp: accounts_ok_def MIN_TX_FEE_js_def COIN_js_def)
  obtain d where d: "base58checkDecode W changeAddr = Inr d" "length (addr_hash d) = 20"
    using chg by (auto simp: address_text_def split: sum.splits)
  have "length outScript = 25" using scriptForAddress_InrD [OF out] by auto
  let ?outs = "outputs amount outScript (tot - amount - fee) (addr_hash d)"
  have outs: "\<forall>t\<in>set ?outs. length (out_script t) = 25"
    using \<open>length outScript = 25\<close> d by (auto simp: outputs_def add_change_def Let_def)
  obtain f where "selectCoins ?sp (amount + f) = (picked, tot)" using fee_loop_InrD [OF loop] by auto
  note ok0 = unsigned_ok [OF acc selectCoins_props(1) [OF this] outs]
  obtain tx where tx: "for_of [0..<length picked] (sign_step W (map coin_owner picked))
      (unsigned_tx picked ?outs) = Inr tx" "js_tx_ok tx"
    using sign_loop_eq [of "unsigned_tx picked ?outs" "map coin_owner picked" 0] ok0
    by (auto simp: length_outputs unsigned_tx_def)
  show ?thesis
    using amt out ne loop en d tx serialize_eq [OF tx(2)] by (simp add: buildAndSign_eq)
qed

end

context signer
begin

lemma wallet_digest: "web_digest W"
  by (rule web.web_digest_axioms)

end

section \<open>Properties\<close>

lemma signed_input_verifies:
  assumes "signed_input E a t i s" and "cache_ok E c"
  shows "fst (VerifyScript E c s (spk_of E a) t i p2sh 0)"
proof -
  obtain der where der: "s = push_data (der @ [1]) @ push_data (acc_pubKey a)" "length (acc_pubKey a) = 33"
      "length der \<le> 71" "length der \<noteq> 19" "sig_valid E (der @ [1]) (acc_pubKey a) (spk_of E a) t i 0"
    using assms(1) by (auto simp: signed_input_def)
  have "unat (word_of_nat (Suc (length der)) :: byte) = Suc (length der)"
    using der(3) by (intro unat_byte_of_nat) simp
  then have "(word_of_nat (Suc (length der)) :: byte) \<notin> {0x76, 0xa9, 0x14, 0x88, 0xac}"
    using der(3,4) by (auto dest: arg_cong [where f = unat])
  moreover have "push_data (der @ [1]) = word_of_nat (Suc (length der)) # der @ [1]"
    using der(3) by (simp add: push_data_def)
  ultimately have "fst (FindAndDelete (spk_of E a) (push_data (der @ [1]))) = spk_of E a"
    unfolding spk_of_def by (simp add: FindAndDelete_P2PKH del: SetDestination.simps)
  then show ?thesis
    using P2PKH_spent [OF assms(2), of "der @ [1]" "acc_pubKey a" "Hash160 E (acc_pubKey a)" t i p2sh 0] der
    by (simp add: spk_of_def del: SetDestination.simps)
qed

text \<open>The outputs, as the daemon sees them.\<close>

lemma built_vout:
  assumes b: "built E W accounts toAddr amount net changeAddr r picked tx" and wd: "web_digest W"
  shows "\<exists>h hc v. base58check W (net_pubkey (the (NETWORKS net))) h = Inr toAddr
    \<and> base58check W (uint (v :: byte)) hc = Inr changeAddr
    \<and> vout (CTransaction_of tx) = \<lparr> nValue = word_of_int amount, scriptPubKey = SetDestination (KeyID (le_word h)) \<rparr> #
        (if DUST \<le> res_change r
         then [\<lparr> nValue = word_of_int (res_change r), scriptPubKey = SetDestination (KeyID (le_word hc)) \<rparr>]
         else [])"
proof -
  from b obtain outScript hc v where out: "scriptForAddress W toAddr net = Inr outScript" "length hc = 20"
      and chg: "base58checkDecode W changeAddr = Inr \<lparr> addr_version = v, addr_hash = hc \<rparr>"
      and outs: "tx_vout tx = outputs amount outScript (res_change r) hc"
    unfolding built_def by blast
  obtain d p where d: "base58checkDecode W toAddr = Inr d" "NETWORKS net = Some p"
      "uint (addr_version d) = net_pubkey p" "length (addr_hash d) = 20" "outScript = p2pkhScript (addr_hash d)"
    using scriptForAddress_InrD [OF out(1)] by blast
  have recv: "base58check W (net_pubkey (the (NETWORKS net))) (addr_hash d) = Inr toAddr"
    using web_digest.check_decode [OF wd d(1)] d(2,3) by simp
  have chgA: "base58check W (uint v) hc = Inr changeAddr"
    using web_digest.check_decode [OF wd chg] by simp
  have vo: "vout (CTransaction_of tx) = \<lparr> nValue = word_of_int amount, scriptPubKey = SetDestination (KeyID (le_word (addr_hash d))) \<rparr> #
        (if DUST \<le> res_change r
         then [\<lparr> nValue = word_of_int (res_change r), scriptPubKey = SetDestination (KeyID (le_word hc)) \<rparr>] else [])"
    using p2pkhScript_eq [OF d(4)] p2pkhScript_eq [OF out(2)] outs d(5)
    by (simp add: CTransaction_of_def outputs_def add_change_def Let_def CTxOut_of_def del: SetDestination.simps)
  show ?thesis using recv chgA vo by blast
qed

text \<open>An example: one account with one coin of 10 CORG.\<close>

definition example_account :: funded_account where
  "example_account = \<lparr> acc_index = 0, acc_address = [], acc_privKey = replicate 32 1,
     acc_pubKey = 2 # replicate 32 1,
     acc_utxos = Some [\<lparr> utxo_txid = replicate 64 CHR ''a'', utxo_vout = 0, utxo_value = 1000000000 \<rparr>] \<rparr>"

definition example_address :: string where
  "example_address = b58_text ((28 # replicate 20 3) @ take 4 (sha256d web_ref (28 # replicate 20 3)))"

lemma example_decode:
  "base58checkDecode web_ref example_address = Inr \<lparr> addr_version = 28, addr_hash = replicate 20 3 \<rparr>"
proof -
  have "base58check web_ref 28 (replicate 20 3) = Inr example_address"
    by (simp add: web_ref.base58check_eq example_address_def Let_def)
  from web_ref.decode_check [OF this] show ?thesis by simp
qed

lemma web_ref_key: "length k = 32 \<Longrightarrow> getPublicKey web_ref k True = Inr (2 # k)"
  by (simp add: web_ref_def)

lemma example_facts:
  "accounts_ok web_ref [example_account]" "address_text web_ref example_address"
  "scriptForAddress web_ref example_address ''main'' = Inr (p2pkhScript (replicate 20 3))"
  "coins_value (spendable_of [example_account]) = 1000000000" "length (spendable_of [example_account]) = 1"
  by (simp_all add: accounts_ok_def spendable_of_def example_account_def txid_ok_def all_hex_def
      account_ok_def web_ref_key hex_digit_value_def address_text_def example_decode
      scriptForAddress_def NETWORKS_def)

lemma example_returns:
  "\<exists>r. buildAndSign web_ref [example_account] example_address 500000000 ''main'' example_address = Inr r"
  by (rule ref_signer.buildAndSign_Inr [OF example_facts(1,2) _ example_facts(3) refl])
    (simp_all add: example_facts fee_for_def estimate_def MIN_TX_FEE_js_def COIN_js_def DUST_def)

text \<open>
  C2. The daemon accepts what the wallet signs. When \<open>buildAndSign\<close> returns, the hexadecimal text
  is the daemon's serialization of a transaction \<open>t\<close> and the id its hash; its inputs spend coins
  of the accounts, each at most once; and the daemon's script verification succeeds on every
  input, against the pay-to-public-key-hash script of the coin's owner, whatever is in the
  signature cache.
\<close>

theorem buildAndSign_verifies:
  assumes "signer E W" and "accounts_ok W accounts" and "address_text W changeAddr"
    and "buildAndSign W accounts toAddr amount net changeAddr = Inr r" and "cache_ok E c"
  shows "\<exists>t picked. res_hex r = toHex (Serialize_CTransaction t)
    \<and> res_txid r = toHex (rev (word_le 32 (CTransaction_GetHash E t)))
    \<and> mset picked \<subseteq># mset (spendable_of accounts)
    \<and> map prevout (vin t) = map outpoint_of picked
    \<and> (\<forall>i<length (vin t). fst (VerifyScript E c (scriptSig (vin t ! i))
         (spk_of E (coin_owner (picked ! i))) t i p2sh 0))"
proof -
  obtain picked tx where b: "built E W accounts toAddr amount net changeAddr r picked tx"
    using signer.buildAndSign_built [OF assms(1-4)] by blast
  have sc: "same_crypto E W" using assms(1) by (simp add: signer_def)
  let ?t = "CTransaction_of tx"
  have prev: "map prevout (vin ?t) = map outpoint_of picked" using b by (simp add: built_def)
  then have "length (vin ?t) = length picked" by (metis length_map)
  then have "\<forall>i<length (vin ?t). fst (VerifyScript E c (scriptSig (vin ?t ! i))
      (spk_of E (coin_owner (picked ! i))) ?t i p2sh 0)"
    using b signed_input_verifies [OF _ assms(5)] by (simp add: built_def)
  moreover have "res_txid r = toHex (rev (word_le 32 (CTransaction_GetHash E ?t)))"
    using b by (simp add: built_def txid_def reverse_u8_def same_crypto.sha256d_Hash [OF sc]
        CTransaction_GetHash_def SerializeHash_def)
  ultimately show ?thesis using b prev by (auto simp: built_def)
qed

theorem buildAndSign_verifies_witness:
  "\<exists>r t. buildAndSign web_ref [example_account] example_address 500000000 ''main'' example_address = Inr r
     \<and> res_hex r = toHex (Serialize_CTransaction t)"
  using example_returns buildAndSign_verifies [OF ref_signer.signer_axioms example_facts(1,2) _ cache_ok_empty]
  by blast

text \<open>
  C3. Value is conserved. The transaction pays exactly the amount to the recipient's key hash and,
  when the change is at least \<open>DUST\<close>, the change to the change address, and nothing else; its
  inputs are coins of the accounts, none taken more often than it is listed, and these are worth the
  amount, the reported fee and the reported change together. So the network
  gets the reported fee, plus the change when it is dust: the result then reports a change that
  no output carries.
\<close>

theorem buildAndSign_conserves:
  assumes "signer E W" and "accounts_ok W accounts" and "address_text W changeAddr"
    and "buildAndSign W accounts toAddr amount net changeAddr = Inr r"
  shows "\<exists>t picked h hc v. res_hex r = toHex (Serialize_CTransaction t)
    \<and> mset picked \<subseteq># mset (spendable_of accounts) \<and> map prevout (vin t) = map outpoint_of picked
    \<and> coins_value picked = amount + res_fee r + res_change r
    \<and> MIN_TX_FEE_js \<le> res_fee r \<and> 0 \<le> res_change r \<and> res_amount r = amount
    \<and> base58check W (net_pubkey (the (NETWORKS net))) h = Inr toAddr
    \<and> base58check W (uint (v :: byte)) hc = Inr changeAddr
    \<and> vout t = \<lparr> nValue = word_of_int amount, scriptPubKey = SetDestination (KeyID (le_word h)) \<rparr> #
        (if DUST \<le> res_change r
         then [\<lparr> nValue = word_of_int (res_change r), scriptPubKey = SetDestination (KeyID (le_word hc)) \<rparr>]
         else [])"
proof -
  obtain picked tx where b: "built E W accounts toAddr amount net changeAddr r picked tx"
    using signer.buildAndSign_built [OF assms(1-4)] by blast
  show ?thesis
    by (rule exI [of _ "CTransaction_of tx"], rule exI [of _ picked])
      (use b built_vout [OF b signer.wallet_digest [OF assms(1)]] in \<open>simp add: built_def del: SetDestination.simps\<close>)
qed

theorem buildAndSign_conserves_witness:
  "\<exists>r picked. buildAndSign web_ref [example_account] example_address 500000000 ''main'' example_address = Inr r
     \<and> mset picked \<subseteq># mset (spendable_of [example_account])
     \<and> coins_value picked = 500000000 + res_fee r + res_change r"
  using example_returns buildAndSign_conserves [OF ref_signer.signer_axioms example_facts(1,2)]
  by blast

text \<open>
  C4. The wallet's fee is enough for the daemon. For a transaction with fewer than 253 inputs whose
  coins are worth less than \<open>2\<^sup>6\<^sup>3\<close>, the estimated size is at least the real one and the reported
  fee is at least the daemon's \<open>GetMinFee\<close>, in every mode, with or without the free area, for any
  block that is less than 200000 bytes full.
\<close>

theorem buildAndSign_fee:
  assumes "signer E W" and "accounts_ok W accounts" and "address_text W changeAddr"
    and "buildAndSign W accounts toAddr amount net changeAddr = Inr r"
    and "res_inputs r < 253" and "coins_value (spendable_of accounts) < 2 ^ 63"
    and "nBlockSize = 1 \<or> unat nBlockSize < 200000"
  shows "\<exists>t. res_hex r = toHex (Serialize_CTransaction t)
    \<and> GetSerializeSize_CTransaction t \<le> estimate (res_inputs r) (res_change r)
    \<and> sint (GetMinFee t nBlockSize fAllowFree mode) \<le> res_fee r"
proof -
  obtain picked tx where b: "built E W accounts toAddr amount net changeAddr r picked tx"
    using signer.buildAndSign_built [OF assms(1-4)] by blast
  have "coins_value picked \<le> coins_value (spendable_of accounts)"
    using b assms(2) by (intro coins_value_subset) (auto simp: built_def accounts_ok_def)
  then have v: "coins_value picked < 2 ^ 63" using assms(6) by simp
  have n: "length picked < 253" "res_inputs r = length picked" using b assms(5) by (auto simp: built_def)
  show ?thesis
    using b built_size [OF b n(1)] built_fee [OF b n(1) v assms(7)] n(2) by (auto simp: built_def)
qed

theorem buildAndSign_fee_witness:
  "\<exists>r t. buildAndSign web_ref [example_account] example_address 500000000 ''main'' example_address = Inr r
     \<and> res_hex r = toHex (Serialize_CTransaction t)
     \<and> sint (GetMinFee t 1000 True GMF_RELAY) \<le> res_fee r"
proof -
  obtain r where r: "buildAndSign web_ref [example_account] example_address 500000000 ''main'' example_address = Inr r"
    using example_returns by blast
  obtain picked tx where "built openssl_ref web_ref [example_account] example_address 500000000 ''main'' example_address r picked tx"
    using ref_signer.buildAndSign_built [OF example_facts(1,2) r] by blast
  then have "res_inputs r = length picked" "length picked \<le> 1"
    using size_mset_mono [of "mset picked" "mset (spendable_of [example_account])"] example_facts(5)
    by (auto simp: built_def)
  then have "res_inputs r < 253" by simp
  moreover have "unat (1000 :: u32) < 200000" by simp
  ultimately show ?thesis
    using buildAndSign_fee [OF ref_signer.signer_axioms example_facts(1,2) r, of 1000 True GMF_RELAY] example_facts(4) r
    by auto
qed

text \<open>
  C5. The wallet returns. With a valid recipient, change address and keys, and coins that hold the
  amount and the fee for spending all of them, \<open>buildAndSign\<close> returns a transaction as long as
  that fee is at most 4 CORG: at most 26 coins when the amount is at least 1 CORG, and at most 19
  below that, where the fee has a surcharge of 1 CORG. The fee rises by at least 1 CORG per pass, so
  the four passes reach it.
\<close>

theorem buildAndSign_returns:
  assumes "signer E W" and "accounts_ok W accounts" and "address_text W changeAddr" and "0 < amount"
    and "scriptForAddress W toAddr net = Inr outScript"
    and "fee_for (estimate (length (spendable_of accounts)) DUST) amount \<le> 4 * MIN_TX_FEE_js"
    and "amount + fee_for (estimate (length (spendable_of accounts)) DUST) amount
      \<le> coins_value (spendable_of accounts)"
  shows "\<exists>r. buildAndSign W accounts toAddr amount net changeAddr = Inr r"
  by (rule signer.buildAndSign_Inr [OF assms(1-5) refl assms(6,7)])

theorem buildAndSign_returns_witness:
  "\<exists>r. buildAndSign web_ref [example_account] example_address 500000000 ''main'' example_address = Inr r"
  by (rule buildAndSign_returns [OF ref_signer.signer_axioms example_facts(1,2) _ example_facts(3)])
    (simp_all add: example_facts fee_for_def estimate_def MIN_TX_FEE_js_def COIN_js_def DUST_def)

text \<open>
  C6. Refusals, in the order of the code: an amount that is not positive; a recipient whose address
  does not resolve (with the error of \<open>scriptForAddress\<close>); no coins; coins that together do not
  hold the amount and the minimum fee. In each case nothing is signed.
\<close>

theorem buildAndSign_refuses:
  "(amount \<le> 0 \<longrightarrow>
      buildAndSign W accounts toAddr amount net changeAddr = Inl (Error ''amount must be positive''))
   \<and> (0 < amount \<and> scriptForAddress W toAddr net = Inl e \<longrightarrow>
      buildAndSign W accounts toAddr amount net changeAddr = Inl e)
   \<and> (0 < amount \<and> scriptForAddress W toAddr net = Inr s \<and> spendable_of accounts = [] \<longrightarrow>
      buildAndSign W accounts toAddr amount net changeAddr = Inl (Error ''no spendable coins found''))
   \<and> (0 < amount \<and> scriptForAddress W toAddr net = Inr s \<and> spendable_of accounts \<noteq> []
      \<and> (\<forall>u\<in>set (spendable_of accounts). 0 \<le> coin_value u)
      \<and> coins_value (spendable_of accounts) < amount + MIN_TX_FEE_js \<longrightarrow>
      buildAndSign W accounts toAddr amount net changeAddr =
        Inl (Error (''insufficient funds (need '' @ fmt (amount + MIN_TX_FEE_js) @ '' CORG)'')))"
proof -
  have short: "fee_loop 4 W sp amount s changeAddr [] 0 MIN_TX_FEE_js =
      Inl (Error (''insufficient funds (need '' @ fmt (amount + MIN_TX_FEE_js) @ '' CORG)''))"
    if nn: "\<forall>u\<in>set sp. 0 \<le> coin_value u" and lt: "coins_value sp < amount + MIN_TX_FEE_js" for sp
  proof -
    obtain p t where sel: "selectCoins sp (amount + MIN_TX_FEE_js) = (p, t)" by fastforce
    have "t < amount + MIN_TX_FEE_js"
      using selectCoins_props [OF sel] coins_value_subset [OF _ nn, of p] lt by fastforce
    then show ?thesis
      using fee_loop_step [of 3 W sp amount s changeAddr "[]" 0 MIN_TX_FEE_js] sel by simp
  qed
  show ?thesis using short [of "spendable_of accounts"] by (auto simp: buildAndSign_eq)
qed

theorem buildAndSign_refuses_witness:
  "buildAndSign web_ref [example_account] example_address 0 ''main'' example_address
     = Inl (Error ''amount must be positive'')
   \<and> buildAndSign web_ref [] example_address 5 ''main'' example_address
     = Inl (Error ''no spendable coins found'')
   \<and> buildAndSign web_ref [example_account] example_address 1000000000 ''main'' example_address
     = Inl (Error ''insufficient funds (need 11 CORG)'')"
proof -
  have "digits 10 1100000000 = [1, 1, 0, 0, 0, 0, 0, 0, 0, 0]" by (simp add: digits.simps)
  then have f: "fmt 1100000000 = ''11''"
    by (simp add: fmt_def toString10_def numeral_text_def padStart_def slice_to_neg_def slice_neg_def strip_zeros_def
        DEC_def [symmetric]) (simp add: DEC_def)
  have nn: "\<forall>u\<in>set (spendable_of [example_account]). 0 \<le> coin_value u" "spendable_of [example_account] \<noteq> []"
    using example_facts(1,5) by (auto simp: accounts_ok_def)
  note refuses = buildAndSign_refuses [where W = web_ref and net = "''main''"]
  have "buildAndSign web_ref [example_account] example_address 0 ''main'' example_address
     = Inl (Error ''amount must be positive'')"
    by (rule mp [OF conjunct1 [OF refuses]]) simp
  moreover have "buildAndSign web_ref [] example_address 5 ''main'' example_address
     = Inl (Error ''no spendable coins found'')"
    by (rule mp [OF conjunct1 [OF conjunct2 [OF conjunct2 [OF refuses]]]])
      (simp add: example_facts(3) spendable_of_def)
  moreover have "buildAndSign web_ref [example_account] example_address 1000000000 ''main'' example_address
     = Inl (Error (''insufficient funds (need '' @ fmt (1000000000 + MIN_TX_FEE_js) @ '' CORG)''))"
    by (rule mp [OF conjunct2 [OF conjunct2 [OF conjunct2 [OF refuses]]]])
      (use nn in \<open>simp add: example_facts MIN_TX_FEE_js_def COIN_js_def\<close>)
  ultimately show ?thesis by (simp add: MIN_TX_FEE_js_def COIN_js_def f)
qed

text \<open>
  C8. Recipients: an address resolves to a script exactly when it is the base58check text of the
  network's public-key version and a 20-byte hash, and the script is the daemon's
  pay-to-public-key-hash script for it. Script addresses and addresses of the other network throw.
\<close>

theorem scriptForAddress_iff:
  assumes "web_digest W"
  shows "scriptForAddress W addr net = Inr s \<longleftrightarrow>
    (\<exists>p h. NETWORKS net = Some p \<and> length h = 20 \<and> base58check W (net_pubkey p) h = Inr addr
       \<and> s = SetDestination (KeyID (le_word h)))"
proof
  assume "scriptForAddress W addr net = Inr s"
  from scriptForAddress_InrD [OF this] obtain d p where
    d: "base58checkDecode W addr = Inr d" "NETWORKS net = Some p" "uint (addr_version d) = net_pubkey p"
      "length (addr_hash d) = 20" "s = p2pkhScript (addr_hash d)" by blast
  then show "\<exists>p h. NETWORKS net = Some p \<and> length h = 20 \<and> base58check W (net_pubkey p) h = Inr addr
       \<and> s = SetDestination (KeyID (le_word h))"
    using web_digest.check_decode [OF assms d(1)] p2pkhScript_eq [OF d(4)]
    by (intro exI [of _ p] exI [of _ "addr_hash d"]) (simp del: SetDestination.simps)
next
  assume "\<exists>p h. NETWORKS net = Some p \<and> length h = 20 \<and> base58check W (net_pubkey p) h = Inr addr
       \<and> s = SetDestination (KeyID (le_word h))"
  then obtain p h where ph: "NETWORKS net = Some p" "length h = 20"
      "base58check W (net_pubkey p) h = Inr addr" "s = SetDestination (KeyID (le_word h))" by blast
  have "uint (word_of_int (net_pubkey p) :: byte) = net_pubkey p"
    using ph(1) by (auto simp: NETWORKS_def split: if_splits)
  then show "scriptForAddress W addr net = Inr s"
    using web_digest.decode_check [OF assms ph(3)] p2pkhScript_eq [OF ph(2)] ph(1,2,4)
    by (simp add: scriptForAddress_def del: SetDestination.simps)
qed

theorem scriptForAddress_iff_witness:
  "scriptForAddress web_ref example_address ''main'' = Inr (SetDestination (KeyID (le_word (replicate 20 3))))"
  unfolding scriptForAddress_iff [OF web_ref.web_digest_axioms]
  by (rule exI [of _ "\<lparr> net_pubkey = 28, net_script = 22, net_wif = 156, net_hrp = ''corg'' \<rparr>"],
      rule exI [of _ "replicate 20 3"])
    (simp add: NETWORKS_def web_ref.base58check_eq example_address_def Let_def del: SetDestination.simps)

section \<open>A wallet of scattered coins\<close>

text \<open>Where the loop of \<open>selectCoins\<close> stops when the coins are not negative.\<close>

lemma pick_loop_take:
  assumes "\<forall>u\<in>set us. 0 \<le> coin_value u" and "k < length us"
    and "coins_value (take k us) < target" and "target \<le> coins_value (take (Suc k) us)"
  shows "pick_loop us target [] 0 = (take (Suc k) us, coins_value (take (Suc k) us))"
proof -
  obtain p s where ps: "pick_loop us target [] 0 = (p, s)" by fastforce
  from pick_loop_props [OF ps] obtain j where j: "j \<le> length us" "p = take j us" "s = coins_value (take j us)"
      "target \<le> s \<or> j = length us" "0 < j \<and> j \<noteq> 1 \<longrightarrow> coins_value (take (j - 1) us) < target" by auto
  note mono = coins_value_take_mono [OF assms(1)]
  have "\<not> j \<le> k" using j(3,4) assms(2,3) mono [of j k] by auto
  moreover have "\<not> Suc k < j"
  proof
    assume "Suc k < j"
    then have "Suc k \<le> j - 1" "coins_value (take (j - 1) us) < target" using j(5) by simp_all
    then show False using assms(4) mono [of "Suc k" "j - 1"] by simp
  qed
  ultimately have "j = Suc k" by simp
  then show ?thesis using ps j(2,3) by simp
qed

definition scattered :: "nat \<Rightarrow> coin list \<Rightarrow> bool" where
  "scattered n us \<longleftrightarrow>
     image_mset coin_value (mset us) = replicate_mset 7 100000000 + replicate_mset n 15000000"

abbreviation by_value :: "coin list \<Rightarrow> coin list" where
  "by_value us \<equiv> sort_key (\<lambda>u. - coin_value u) us"

lemma scattered_sorted:
  assumes "scattered n us"
  shows "map coin_value (by_value us) = replicate 7 100000000 @ replicate n 15000000"
proof -
  let ?neg = "replicate 7 (- 100000000 :: int) @ replicate n (- 15000000)"
  have "mset (map (\<lambda>u. - coin_value u) (by_value us)) = image_mset uminus (image_mset coin_value (mset us))"
    by (simp add: image_mset.compositionality comp_def)
  also have "\<dots> = mset ?neg" unfolding assms [unfolded scattered_def] by simp
  finally have "sort (map (\<lambda>u. - coin_value u) (by_value us)) = ?neg"
    by (intro properties_for_sort) (simp_all add: sorted_append)
  then have "map (\<lambda>u. - coin_value u) (by_value us) = ?neg"
    using sorted_sort_id [OF sorted_sort_key] by metis
  then have "map uminus (map (\<lambda>u. - coin_value u) (by_value us)) = map uminus ?neg" by (rule arg_cong)
  then show ?thesis by (simp add: comp_def)
qed

lemma scattered_values:
  assumes "scattered n us" and "k \<le> n"
  shows "length (by_value us) = 7 + n" and "coins_value (take (7 + k) (by_value us)) = 700000000 + int k * 15000000"
    and "coins_value (take 6 (by_value us)) = 600000000" and "\<forall>u\<in>set (by_value us). 0 \<le> coin_value u"
proof -
  note L = scattered_sorted [OF assms(1)]
  show "length (by_value us) = 7 + n" using arg_cong [OF L, of length] by simp
  have sums: "coins_value (take j (by_value us)) = sum_list (take j (replicate 7 100000000 @ replicate n 15000000))" for j
    unfolding coins_value_def take_map [symmetric] L ..
  have rep: "sum_list (replicate j x) = int j * x" for j and x :: int by (simp add: sum_list_replicate)
  show "coins_value (take (7 + k) (by_value us)) = 700000000 + int k * 15000000"
    using assms(2) by (simp add: sums rep min_def del: replicate.simps)
  show "coins_value (take 6 (by_value us)) = 600000000"
    by (simp add: sums rep del: replicate.simps)
  have "coin_value u \<in> set (replicate 7 100000000 @ replicate n 15000000)" if "u \<in> set (by_value us)" for u
    unfolding L [symmetric] using that by auto
  then show "\<forall>u\<in>set (by_value us). 0 \<le> coin_value u" by fastforce
qed

lemma selectCoins_scattered:
  assumes "scattered n us" and "700000000 + int k * 15000000 < target"
    and "target \<le> 700000000 + int (Suc k) * 15000000" and "k < n"
  shows "selectCoins us target = (take (8 + k) (by_value us), 700000000 + int (Suc k) * 15000000)"
  using pick_loop_take [OF scattered_values(4) [OF assms(1) order.refl], of "7 + k" target]
    scattered_values(1) [OF assms(1) order.refl] scattered_values(2) [OF assms(1), of k]
    scattered_values(2) [OF assms(1), of "Suc k"] assms
  by (simp add: selectCoins_def)

text \<open>One pass over the scattered coins.\<close>

lemma scattered_pass:
  assumes "scattered n us" and "700000000 + int k * 15000000 < 600000000 + fee"
    and "600000000 + fee \<le> 700000000 + int (Suc k) * 15000000"
    and "k < n" and "700000000 + int (Suc k) * 15000000 - 600000000 - fee < DUST"
    and "need = fee_for (44 + (8 + k) * 148) 600000000" and "fee < need"
  shows "fee_loop (Suc j) W us 600000000 s ca p0 s0 fee =
    fee_loop j W us 600000000 s ca (take (8 + k) (by_value us)) (700000000 + int (Suc k) * 15000000) need"
proof -
  note sel = selectCoins_scattered [OF assms(1-4)]
  have est: "estimate (length (take (8 + k) (by_value us))) (700000000 + int (Suc k) * 15000000 - 600000000 - fee)
      = 44 + (8 + k) * 148"
    using assms(4,5) scattered_values(1) [OF assms(1) order.refl] by (simp add: estimate_def)
  show ?thesis
    unfolding fee_loop_step sel prod.case Let_def est assms(6) [symmetric]
    using assms(3,5,7) by (simp add: decode_change_def)
qed

lemma scattered_loop:
  assumes "scattered n us" and "60 \<le> n"
  shows "fee_loop 4 W us 600000000 s ca [] 0 MIN_TX_FEE_js = Inr (take 27 (by_value us), 1000000000, 500000000)"
proof -
  note defs = fee_for_def MIN_TX_FEE_js_def COIN_js_def DUST_def
  note vals = scattered_values [OF assms(1)]
  have "selectCoins us 700000000 = (take 7 (by_value us), 700000000)"
    using pick_loop_take [OF vals(4) [OF order.refl], of 6 700000000] vals(1) [OF order.refl]
      vals(2) [of 0] vals(3) [OF order.refl] by (simp add: selectCoins_def)
  moreover have "estimate (length (take 7 (by_value us))) 0 = 44 + 7 * 148"
    using vals(1) [OF order.refl] by (simp add: estimate_def DUST_def COIN_js_def)
  ultimately have first: "fee_loop (Suc (Suc (Suc (Suc 0)))) W us 600000000 s ca [] 0 100000000 =
      fee_loop (Suc (Suc (Suc 0))) W us 600000000 s ca (take 7 (by_value us)) 700000000 200000000"
    unfolding fee_loop_step by (simp add: decode_change_def defs)
  let ?d = "\<lambda>k. take (8 + k) (by_value us)" and ?t = "\<lambda>k. 700000000 + int (Suc k) * 15000000"
  have "fee_loop (Suc (Suc (Suc 0))) W us 600000000 s ca (take 7 (by_value us)) 700000000 200000000 =
      fee_loop (Suc (Suc 0)) W us 600000000 s ca (?d 6) (?t 6) 300000000"
    using assms(2) by (intro scattered_pass [OF assms(1)]) (simp_all add: defs)
  moreover have "fee_loop (Suc (Suc 0)) W us 600000000 s ca (?d 6) (?t 6) 300000000 =
      fee_loop (Suc 0) W us 600000000 s ca (?d 13) (?t 13) 400000000"
    using assms(2) by (intro scattered_pass [OF assms(1)]) (simp_all add: defs)
  moreover have "fee_loop (Suc 0) W us 600000000 s ca (?d 13) (?t 13) 400000000 =
      fee_loop 0 W us 600000000 s ca (?d 19) (?t 19) 500000000"
    using assms(2) by (intro scattered_pass [OF assms(1)]) (simp_all add: defs)
  ultimately have "fee_loop (Suc (Suc (Suc (Suc 0)))) W us 600000000 s ca [] 0 100000000 = Inr (?d 19, ?t 19, 500000000)"
    using first by (simp only: fee_loop.simps)
  moreover have "Suc (Suc (Suc (Suc 0))) = 4" "8 + 19 = (27 :: nat)" by simp_all
  ultimately show ?thesis by (simp only: MIN_TX_FEE_js_def COIN_js_def) simp
qed

definition scattered_account :: funded_account where
  "scattered_account = \<lparr> acc_index = 0, acc_address = [], acc_privKey = replicate 32 1,
     acc_pubKey = 2 # replicate 32 1,
     acc_utxos = Some (map (\<lambda>i. \<lparr> utxo_txid = replicate 64 CHR ''a'', utxo_vout = int i,
        utxo_value = (if i < 7 then 100000000 else 15000000) \<rparr>) [0..<67]) \<rparr>"

lemma foldl_snoc_map: "foldl (\<lambda>acc u. acc @ [f u]) acc us = acc @ map f us"
  by (induction us arbitrary: acc) auto

lemma spendable_one: "spendable_of [a] = map (\<lambda>u. \<lparr> coin_txid = utxo_txid u, coin_vout = utxo_vout u,
     coin_value = utxo_value u, coin_owner = a \<rparr>) (case acc_utxos a of None \<Rightarrow> [] | Some us \<Rightarrow> us)"
  by (simp add: spendable_of_def foldl_snoc_map)

lemma scattered_spendable:
  "scattered 60 (spendable_of [scattered_account])" "distinct (map outpoint_of (spendable_of [scattered_account]))"
proof -
  have eq: "spendable_of [scattered_account] = map (\<lambda>i. \<lparr> coin_txid = replicate 64 CHR ''a'', coin_vout = int i,
      coin_value = (if i < 7 then 100000000 else 15000000), coin_owner = scattered_account \<rparr>) [0..<67]"
    unfolding spendable_one by (simp add: scattered_account_def)
  have "map coin_value (spendable_of [scattered_account]) = replicate 7 100000000 @ replicate 60 15000000"
    by (rule nth_equalityI) (auto simp: eq nth_append)
  then show "scattered 60 (spendable_of [scattered_account])"
    unfolding scattered_def by (metis mset_append mset_map mset_replicate)
  show "distinct (map outpoint_of (spendable_of [scattered_account]))"
  proof -
    have "x = y" if "x < 67" "y < 67" "ToUint32 (int x) = ToUint32 (int y)" for x y
      using that word_of_nat_eq_iff [of x y, where 'a = 32] by (simp add: ToUint32_def take_bit_nat_eq_self)
    then show ?thesis unfolding eq by (auto simp: distinct_map inj_on_def outpoint_of_def intro!: inj_onI)
  qed
qed

text \<open>
  C11. The fee loop gives up after four passes. A wallet with 7 coins of 1 CORG and at least 60 coins of
  0.15 CORG can pay 6 CORG to any recipient with 67 coins and the fee of 10 CORG that their size asks
  for; but \<open>buildAndSign\<close> raises the fee one step per pass, leaves the loop with inputs chosen for a
  smaller fee, and throws. So the bound on the fee under which the wallet returns cannot be dropped.
\<close>

theorem buildAndSign_gives_up:
  assumes "scriptForAddress W toAddr net = Inr outScript" and "scattered n (spendable_of accounts)" and "60 \<le> n"
  shows "buildAndSign W accounts toAddr 600000000 net changeAddr = Inl (Error ''fee exceeds inputs'')
   \<and> (\<exists>picked. mset picked \<subseteq># mset (spendable_of accounts)
        \<and> coins_value picked = 600000000 + requiredFee (10 + length picked * 148 + 34)
            [\<lparr> out_value = 600000000, out_script = outScript \<rparr>])"
proof
  have "spendable_of accounts \<noteq> []" using assms(2) by (auto simp: scattered_def)
  then show "buildAndSign W accounts toAddr 600000000 net changeAddr = Inl (Error ''fee exceeds inputs'')"
    by (simp add: buildAndSign_eq assms(1) scattered_loop [OF assms(2,3)])
  let ?p = "take 67 (by_value (spendable_of accounts))"
  note vals = scattered_values [OF assms(2)]
  have "mset ?p \<subseteq># mset (by_value (spendable_of accounts))"
    by (metis append_take_drop_id mset_append mset_subset_eq_add_left)
  moreover have "coins_value ?p = 1600000000" using vals(2) [OF assms(3)] by simp
  moreover have "length ?p = 67" using vals(1) [OF order.refl] assms(3) by simp
  ultimately show "\<exists>picked. mset picked \<subseteq># mset (spendable_of accounts)
        \<and> coins_value picked = 600000000 + requiredFee (10 + length picked * 148 + 34)
            [\<lparr> out_value = 600000000, out_script = outScript \<rparr>]"
    by (intro exI [of _ ?p]) (simp add: requiredFee_def MIN_TX_FEE_js_def COIN_js_def DUST_def)
qed

theorem buildAndSign_gives_up_witness:
  "distinct (map outpoint_of (spendable_of [scattered_account]))
   \<and> buildAndSign web_ref [scattered_account] example_address 600000000 ''main'' example_address
     = Inl (Error ''fee exceeds inputs'')"
  using buildAndSign_gives_up [OF example_facts(3) scattered_spendable(1)] scattered_spendable(2) by simp

end
