(* ===== verification/Web_Ui.thy ===== *)
theory Web_Ui
  imports Web_Tx
begin

text \<open>
  The amount field of the wallet's page (\<open>index.html\<close>): \<open>parseCorg\<close> reads what \<open>fmt\<close> of \<open>tx.js\<close>
  writes into it. The rest of the page is DOM and \<open>fetch\<close> glue.
\<close>

definition js_digit :: "char \<Rightarrow> bool" where
  "js_digit c \<longleftrightarrow> c \<in> set DEC"

definition padEnd :: "nat \<Rightarrow> char \<Rightarrow> string \<Rightarrow> string" where
  "padEnd k c s = s @ replicate (k - length s) c"

text \<open>\<open>BigInt\<close> of a string of decimal digits.\<close>

definition BigInt_dec :: "string \<Rightarrow> int" where
  "BigInt_dec s = int (horner 10 (map (\<lambda>c. the (index_of c DEC)) s))"

text \<open>The expression \<open>/^\d+(\.\d{1,8})?$/\<close> and the two parts of \<open>s.split(".")\<close>.\<close>

definition amount_parts :: "string \<Rightarrow> (string \<times> string) option" where
  "amount_parts s =
     (let whole = takeWhile js_digit s; rest = dropWhile js_digit s in
      if whole = [] then None
      else if rest = [] then Some (whole, [])
      else if hd rest = CHR ''.'' \<and> list_all js_digit (tl rest)
              \<and> 1 \<le> length (tl rest) \<and> length (tl rest) \<le> 8
      then Some (whole, tl rest) else None)"

definition parseCorg :: "string \<Rightarrow> int js" where
  "parseCorg str =
     (case amount_parts (js_trim str) of
        None \<Rightarrow> Inl (Error ''Enter an amount like 12.5 (up to 8 decimals).'')
      | Some (whole, frac) \<Rightarrow> Inr (BigInt_dec whole * COIN_js + BigInt_dec (padEnd 8 (CHR ''0'') frac)))"

section \<open>Facts\<close>

lemma DEC_0: "DEC ! 0 = CHR ''0''" "index_of (CHR ''0'') DEC = Some 0"
  by (simp_all add: DEC_def)

lemma digit_not_space: "js_digit c \<Longrightarrow> \<not> js_space c"
proof -
  have "list_all (\<lambda>c. \<not> js_space c) DEC" by code_simp
  then show "js_digit c \<Longrightarrow> ?thesis" by (simp add: js_digit_def list_all_iff)
qed

lemma zero_digit: "js_digit (CHR ''0'')" "\<not> js_digit (CHR ''.'')" "\<not> js_digit (CHR ''-'')"
    "\<not> js_space (CHR ''-'')"
  by (simp_all add: js_digit_def DEC_def js_space_def)

lemma BigInt_dec_append: "BigInt_dec (s @ t) = BigInt_dec s * 10 ^ length t + BigInt_dec t"
  by (simp add: BigInt_dec_def horner_append)

lemma BigInt_dec_zeros: "BigInt_dec (replicate k (CHR ''0'') @ s) = BigInt_dec s"
  by (simp add: BigInt_dec_def DEC_0)

lemma toString10_props: "list_all js_digit (toString10 n) \<and> BigInt_dec (toString10 n) = int n"
proof (cases "n = 0")
  case False
  have "map (\<lambda>c. the (index_of c DEC)) (numeral_text DEC n) = digits 10 n"
    using dec.digits_lt [of _ n] by (auto simp: numeral_text_def dec.index_digit intro!: map_idI)
  moreover have "list_all js_digit (numeral_text DEC n)"
    using dec.set_numeral [of n] by (auto simp: list_all_iff js_digit_def)
  ultimately show ?thesis using False by (simp add: toString10_def BigInt_dec_def)
qed (simp add: toString10_def BigInt_dec_def DEC_0 js_digit_def horner_Cons, simp add: DEC_def)

lemma strip_pad: "length f = k \<Longrightarrow> padEnd k (CHR ''0'') (strip_zeros f) = f"
proof -
  assume len: "length f = k"
  let ?r = "takeWhile ((=) (CHR ''0'')) (rev f)"
  have "rev f = replicate (length ?r) (CHR ''0'') @ dropWhile ((=) (CHR ''0'')) (rev f)"
    using split_leading [of "CHR ''0''" "rev f"] by simp
  then have "f = strip_zeros f @ replicate (length ?r) (CHR ''0'')"
    unfolding strip_zeros_def by (metis rev_append rev_replicate rev_rev_ident)
  moreover then have "length ?r = k - length (strip_zeros f)" using len
    by (metis add_diff_cancel_left' length_append length_replicate)
  ultimately show ?thesis by (simp add: padEnd_def)
qed

lemma set_strip_zeros: "set (strip_zeros f) \<subseteq> set f"
  by (auto simp: strip_zeros_def dest: set_dropWhileD)

text \<open>The two parts of a printed amount.\<close>

lemma fmt_parts:
  "\<exists>w t. fmt sats = (if sats < 0 then ''-'' else []) @ w @ (if t \<noteq> [] then ''.'' @ t else [])
    \<and> w \<noteq> [] \<and> list_all js_digit w \<and> list_all js_digit t \<and> length t \<le> 8
    \<and> BigInt_dec w * COIN_js + BigInt_dec (padEnd 8 (CHR ''0'') t) = \<bar>sats\<bar>"
proof -
  define n where "n = nat \<bar>sats\<bar>"
  define s where "s = padStart 9 (CHR ''0'') (toString10 n)"
  define w where "w = slice_to_neg 8 s"
  define f where "f = slice_neg 8 s"
  have s: "list_all js_digit s" "BigInt_dec s = int n" "9 \<le> length s"
    using toString10_props [of n] zero_digit(1) by (auto simp: s_def padStart_def BigInt_dec_zeros list_all_iff)
  have wf: "s = w @ f" "length f = 8" "w \<noteq> []"
    using s(3) by (auto simp: w_def f_def slice_to_neg_def slice_neg_def)
  then have wd: "list_all js_digit w" "list_all js_digit f" using s(1) by auto
  define t where "t = strip_zeros f"
  have "list_all js_digit t" using wd(2) set_strip_zeros [of f] by (auto simp: t_def list_all_iff)
  moreover have "length t \<le> 8" using wf(2) length_dropWhile_le [of _ "rev f"] by (simp add: t_def strip_zeros_def)
  moreover have "padEnd 8 (CHR ''0'') t = f" unfolding t_def using wf(2) by (intro strip_pad)
  then have "BigInt_dec w * COIN_js + BigInt_dec (padEnd 8 (CHR ''0'') t) = \<bar>sats\<bar>"
    using BigInt_dec_append [of w f] s(2) wf by (simp add: COIN_js_def n_def)
  moreover have "fmt sats = (if sats < 0 then ''-'' else []) @ w @ (if t \<noteq> [] then ''.'' @ t else [])"
    by (simp add: fmt_def t_def w_def f_def s_def n_def Let_def)
  ultimately show ?thesis using wf(3) wd(1) by blast
qed

section \<open>Properties\<close>

text \<open>
  C20. Amounts survive the page: \<open>parseCorg\<close> reads back exactly the number of satoshis that \<open>fmt\<close>
  printed, for every amount that is not negative, and refuses the text of a negative amount.
\<close>

theorem parseCorg_fmt:
  "parseCorg (fmt sats) = (if 0 \<le> sats then Inr sats
     else Inl (Error ''Enter an amount like 12.5 (up to 8 decimals).''))"
proof -
  obtain w t where fmt: "fmt sats = (if sats < 0 then ''-'' else []) @ w @ (if t \<noteq> [] then ''.'' @ t else [])"
    and w: "w \<noteq> []" "list_all js_digit w" and t: "list_all js_digit t" "length t \<le> 8"
    and val: "BigInt_dec w * COIN_js + BigInt_dec (padEnd 8 (CHR ''0'') t) = \<bar>sats\<bar>"
    using fmt_parts [of sats] by blast
  define u where "u = w @ (if t \<noteq> [] then ''.'' @ t else [])"
  have "js_digit (hd w)" "js_digit (last w)" "t \<noteq> [] \<Longrightarrow> js_digit (last t)"
    using w t by (auto simp: list_all_iff)
  then have u: "u \<noteq> []" "\<not> js_space (hd u)" "\<not> js_space (last u)"
    using digit_not_space w(1) by (auto simp: u_def)
  show ?thesis
  proof (cases "sats < 0")
    case True
    have "js_trim (CHR ''-'' # u) = CHR ''-'' # u"
      using u zero_digit(4) by (intro js_trim_id) auto
    then show ?thesis using True fmt zero_digit(3) by (simp add: parseCorg_def amount_parts_def u_def)
  next
    case False
    have "takeWhile js_digit u = w \<and> dropWhile js_digit u = (if t \<noteq> [] then CHR ''.'' # t else [])"
      using w(2) zero_digit(2) by (auto simp: u_def list_all_iff takeWhile_append2 dropWhile_append2 takeWhile_eq_all_conv)
    then have "amount_parts u = Some (w, t)"
      using w(1) t by (auto simp: amount_parts_def Let_def Suc_le_eq)
    then show ?thesis using False fmt val js_trim_id [OF u] by (simp add: parseCorg_def u_def)
  qed
qed

end
