(* ===== verification/Base58.thy ===== *)
theory Base58
  imports Positional Bignum Uint256 Script
begin

text \<open>
  \<open>base58.h\<close>: base58 text of byte vectors, its checked form, and the address and secret-key
  classes built on it. The encoding loop divides a \<open>CBigNum\<close>, the decoding loop multiplies one;
  both are shown to compute the base58 bijection of \<open>Positional\<close>. The bech32 form of addresses
  is not part of this theory.
\<close>

definition pszBase58 :: string where
  "pszBase58 = ''123456789ABCDEFGHJKLMNPQRSTUVWXYZabcdefghijkmnopqrstuvwxyz''"

section \<open>Base58\<close>

text \<open>The loop over \<open>BN_div\<close>, appending the least significant digit first.\<close>

function encode_digits :: "int \<Rightarrow> string \<Rightarrow> string" where
  "encode_digits bn str =
     (if bn > 0 then encode_digits (bn div 58) (str @ [pszBase58 ! nat (bn mod 58)]) else str)"
  by pat_completeness auto
termination
  by (relation "measure (\<lambda>(bn, s). nat bn)") (auto intro: int_div_less_self)

declare encode_digits.simps [simp del]

fun append_zeros :: "bytes \<Rightarrow> string \<Rightarrow> string" where
  "append_zeros [] str = str"
| "append_zeros (b # p) str = (if b = 0 then append_zeros p (str @ [pszBase58 ! 0]) else str)"

definition EncodeBase58 :: "openssl \<Rightarrow> bytes \<Rightarrow> string" where
  "EncodeBase58 E vch =
     (let vchTmp = rev vch @ [0];
          bn = setvch E vchTmp;
          str = encode_digits bn [];
          str = append_zeros vch str
      in rev str)"

text \<open>A C string ends at the first NUL; \<open>None\<close> is the result \<open>false\<close>.\<close>

definition c_str :: "string \<Rightarrow> string" where
  "c_str s = takeWhile (\<lambda>c. c \<noteq> CHR 0x00) s"

fun decode_chars :: "string \<Rightarrow> int \<Rightarrow> int option" where
  "decode_chars [] bn = Some bn"
| "decode_chars (c # p) bn =
     (case index_of c pszBase58 of
        None \<Rightarrow> (if dropWhile is_space (c # p) \<noteq> [] then None else Some bn)
      | Some i \<Rightarrow> decode_chars p (bn * 58 + int i))"

definition trim_sign :: "bytes \<Rightarrow> bytes" where
  "trim_sign vchTmp =
     (if 2 \<le> length vchTmp \<and> vchTmp ! (length vchTmp - 1) = 0 \<and> 0x80 \<le> vchTmp ! (length vchTmp - 2)
      then butlast vchTmp else vchTmp)"

definition DecodeBase58 :: "openssl \<Rightarrow> string \<Rightarrow> bytes option" where
  "DecodeBase58 E str =
     (let psz = dropWhile is_space (c_str str) in
      case decode_chars psz 0 of None \<Rightarrow> None
      | Some bn \<Rightarrow>
          (let vchTmp = trim_sign (getvch E bn);
               nLeadingZeros = length (takeWhile (\<lambda>c. c = pszBase58 ! 0) psz)
           in Some (replicate nLeadingZeros 0 @ rev vchTmp)))"

definition EncodeBase58Check :: "openssl \<Rightarrow> bytes \<Rightarrow> string" where
  "EncodeBase58Check E vchIn = EncodeBase58 E (vchIn @ take 4 (word_le 32 (Hash E vchIn)))"

definition DecodeBase58Check :: "openssl \<Rightarrow> string \<Rightarrow> bytes option" where
  "DecodeBase58Check E str =
     (case DecodeBase58 E str of None \<Rightarrow> None
      | Some vchRet \<Rightarrow>
          if length vchRet < 4 then None
          else let data = take (length vchRet - 4) vchRet in
            if take 4 (word_le 32 (Hash E data)) \<noteq> drop (length vchRet - 4) vchRet then None
            else Some data)"

section \<open>Versioned data\<close>

record CBase58Data =
  nVersion58 :: byte
  vchData :: bytes

definition SetData :: "int \<Rightarrow> bytes \<Rightarrow> CBase58Data" where
  "SetData nVersionIn pdata = \<lparr> nVersion58 = word_of_int nVersionIn, vchData = pdata \<rparr>"

text \<open>\<open>SetString\<close> returns the object and whether it succeeded; on failure the object is cleared.\<close>

definition SetString :: "openssl \<Rightarrow> string \<Rightarrow> bool \<times> CBase58Data" where
  "SetString E psz =
     (case DecodeBase58Check E psz of
        None \<Rightarrow> (False, \<lparr> nVersion58 = 0, vchData = [] \<rparr>)
      | Some [] \<Rightarrow> (False, \<lparr> nVersion58 = 0, vchData = [] \<rparr>)
      | Some (v # r) \<Rightarrow> (True, \<lparr> nVersion58 = v, vchData = r \<rparr>))"

definition ToString58 :: "openssl \<Rightarrow> CBase58Data \<Rightarrow> string" where
  "ToString58 E d = EncodeBase58Check E (nVersion58 d # vchData d)"

definition CompareTo :: "CBase58Data \<Rightarrow> CBase58Data \<Rightarrow> int" where
  "CompareTo a b =
     (if nVersion58 a < nVersion58 b then - 1 else if nVersion58 a > nVersion58 b then 1
      else if (vchData a, vchData b) \<in> lexord {(x, y). x < y} then - 1
      else if (vchData b, vchData a) \<in> lexord {(x, y). x < y} then 1 else 0)"

section \<open>Addresses\<close>

definition PUBKEY_ADDRESS :: int where "PUBKEY_ADDRESS = 28"
definition SCRIPT_ADDRESS :: int where "SCRIPT_ADDRESS = 22"
definition PUBKEY_ADDRESS_TEST :: int where "PUBKEY_ADDRESS_TEST = 113"
definition SCRIPT_ADDRESS_TEST :: int where "SCRIPT_ADDRESS_TEST = 196"

text \<open>\<open>Set\<close> for each destination; the flag is the result. \<open>addr\<close> is the object before the call.\<close>

fun SetAddress :: "bool \<Rightarrow> CTxDestination \<Rightarrow> CBase58Data \<Rightarrow> bool \<times> CBase58Data" where
  "SetAddress fTestNet (KeyID i) addr =
     (True, SetData (if fTestNet then PUBKEY_ADDRESS_TEST else PUBKEY_ADDRESS) (word_le 20 i))"
| "SetAddress fTestNet (ScriptID i) addr =
     (True, SetData (if fTestNet then SCRIPT_ADDRESS_TEST else SCRIPT_ADDRESS) (word_le 20 i))"
| "SetAddress fTestNet CNoDestination addr = (False, addr)"

definition IsValidAddress :: "bool \<Rightarrow> CBase58Data \<Rightarrow> bool" where
  "IsValidAddress fTestNet a =
     (let v = uint (nVersion58 a) in
      if v = PUBKEY_ADDRESS \<or> v = SCRIPT_ADDRESS then \<not> fTestNet \<and> length (vchData a) = 20
      else if v = PUBKEY_ADDRESS_TEST \<or> v = SCRIPT_ADDRESS_TEST then fTestNet \<and> length (vchData a) = 20
      else False)"

definition GetAddress :: "bool \<Rightarrow> CBase58Data \<Rightarrow> CTxDestination" where
  "GetAddress fTestNet a =
     (if \<not> IsValidAddress fTestNet a then CNoDestination
      else let v = uint (nVersion58 a) in
        if v = PUBKEY_ADDRESS \<or> v = PUBKEY_ADDRESS_TEST then KeyID (le_word (vchData a))
        else if v = SCRIPT_ADDRESS \<or> v = SCRIPT_ADDRESS_TEST then ScriptID (le_word (vchData a))
        else CNoDestination)"

definition GetKeyID58 :: "bool \<Rightarrow> CBase58Data \<Rightarrow> u160 option" where
  "GetKeyID58 fTestNet a =
     (if \<not> IsValidAddress fTestNet a then None
      else let v = uint (nVersion58 a) in
        if v = PUBKEY_ADDRESS \<or> v = PUBKEY_ADDRESS_TEST then Some (le_word (vchData a)) else None)"

definition IsScript58 :: "bool \<Rightarrow> CBase58Data \<Rightarrow> bool" where
  "IsScript58 fTestNet a =
     (if \<not> IsValidAddress fTestNet a then False
      else uint (nVersion58 a) = SCRIPT_ADDRESS \<or> uint (nVersion58 a) = SCRIPT_ADDRESS_TEST)"

section \<open>Secret keys\<close>

definition PRIVKEY_ADDRESS :: int where "PRIVKEY_ADDRESS = PUBKEY_ADDRESS + 128"
definition PRIVKEY_ADDRESS_TEST :: int where "PRIVKEY_ADDRESS_TEST = PUBKEY_ADDRESS_TEST + 128"

text \<open>\<open>None\<close> is the failed assertion.\<close>

definition SetSecret58 :: "bool \<Rightarrow> bytes \<Rightarrow> bool \<Rightarrow> CBase58Data option" where
  "SetSecret58 fTestNet vchSecret fCompressed =
     (if length vchSecret \<noteq> 32 then None
      else let d = SetData (if fTestNet then PRIVKEY_ADDRESS_TEST else PRIVKEY_ADDRESS) vchSecret
           in Some (if fCompressed then d\<lparr> vchData := vchData d @ [1] \<rparr> else d))"

definition GetSecret58 :: "CBase58Data \<Rightarrow> bytes \<times> bool" where
  "GetSecret58 d = (take 32 (vchData d), length (vchData d) = 33)"

definition IsValidSecret :: "bool \<Rightarrow> CBase58Data \<Rightarrow> bool" where
  "IsValidSecret fTestNet d =
     (let v = uint (nVersion58 d);
          len = (length (vchData d) = 32 \<or> (length (vchData d) = 33 \<and> vchData d ! 32 = 1)) in
      if v = PRIVKEY_ADDRESS then \<not> fTestNet \<and> len
      else if v = PRIVKEY_ADDRESS_TEST then fTestNet \<and> len
      else False)"

definition SetString_secret :: "openssl \<Rightarrow> bool \<Rightarrow> string \<Rightarrow> bool \<times> CBase58Data" where
  "SetString_secret E fTestNet s = (let (ok, d) = SetString E s in (ok \<and> IsValidSecret fTestNet d, d))"

section \<open>Facts\<close>

lemma pszBase58_B58: "pszBase58 = B58"
  by (simp add: pszBase58_def B58_def)

lemma encode_digits_eq: "encode_digits (int n) str = str @ rev (numeral_text B58 n)"
proof (induction n arbitrary: str rule: b58.radix_induct)
  case (step n)
  have "int n div 58 = int (n div 58)" "nat (int n mod 58) = n mod 58"
    by (simp_all add: zdiv_int nat_mod_as_int)
  with step show ?case
    by (subst encode_digits.simps) (simp add: numeral_text_def b58.digits_pos [of n] pszBase58_B58)
qed (simp add: encode_digits.simps numeral_text_def)

lemma append_zeros_eq:
  "append_zeros vch str = str @ replicate (length (takeWhile ((=) 0) vch)) (CHR ''1'')"
  by (induction vch arbitrary: str) (auto simp: pszBase58_B58)

lemma decode_chars_eq:
  "set psz \<subseteq> set B58 \<Longrightarrow>
   decode_chars psz (int x) = Some (int (foldl (\<lambda>x d. x * 58 + d) x (map (\<lambda>c. the (index_of c B58)) psz)))"
proof (induction psz arbitrary: x)
  case (Cons c psz)
  then obtain i where i: "index_of c B58 = Some i" using index_of_None [of c B58] by auto
  with Cons.prems Cons.IH [of "x * 58 + i"] show ?case by (simp add: pszBase58_B58)
qed simp

lemma trim_sign_body: "trim_sign (rev (mpi_body (int n))) = rev (mag_be n)"
proof (cases "mag_be n")
  case (Cons b r)
  have "mpi_body (int n) = (if 0x80 \<le> b then 0 # b # r else b # r)"
    using Cons by (simp add: mpi_body_def)
  moreover have "b \<noteq> 0" using hd_mag_be [of n] Cons by (cases "n = 0") auto
  ultimately show ?thesis
    using Cons by (auto simp: trim_sign_def nth_append butlast_append)
qed (simp add: mpi_body_def trim_sign_def)

lemma b58_value_bound: "set s \<subseteq> set B58 \<Longrightarrow> b58_value s < 58 ^ length s"
  unfolding b58_value_def
  using b58.horner_bound [of "map (\<lambda>c. the (index_of c B58)) s"] index_values_lt [of s] by simp

lemma b58_chars: "c \<in> set B58 \<Longrightarrow> \<not> is_space c \<and> c \<noteq> CHR 0x00"
proof -
  have "list_all (\<lambda>c. \<not> is_space c \<and> c \<noteq> CHR 0x00) B58" by code_simp
  then show "c \<in> set B58 \<Longrightarrow> ?thesis" by (simp add: list_all_iff)
qed

lemma c_str_b58: "set s \<subseteq> set B58 \<Longrightarrow> dropWhile is_space (c_str s) = s"
proof -
  assume s: "set s \<subseteq> set B58"
  then have "c_str s = s" unfolding c_str_def using b58_chars by (subst takeWhile_eq_all_conv) auto
  with s show ?thesis using b58_chars by (cases s) auto
qed

context openssl_mpi
begin

lemma EncodeBase58_eq: "length vch < 2 ^ 31 - 1 \<Longrightarrow> EncodeBase58 E vch = b58_text vch"
proof -
  assume "length vch < 2 ^ 31 - 1"
  then have "setvch E (rev vch @ [0]) = mpi_value (0 # vch)"
    by (subst setvch_value) simp_all
  also have "\<dots> = int (be_nat vch)" by (simp add: mpi_value_def be_nat_Cons)
  finally show ?thesis
    by (simp add: EncodeBase58_def encode_digits_eq append_zeros_eq b58_text_def Let_def)
qed

lemma DecodeBase58_eq:
  assumes "set s \<subseteq> set B58" and "length s < 2 ^ 31 - 1"
  shows "DecodeBase58 E s = Some (b58_bytes s)"
proof -
  have "b58_value s < 256 ^ length s"
    using b58_value_bound [OF assms(1)] power_mono [of "58::nat" 256 "length s"] by simp
  then have "\<bar>int (b58_value s)\<bar> < 256 ^ length s" by (simp flip: of_nat_power)
  from mpi_body_small [OF this assms(2)] have "getvch E (int (b58_value s)) = rev (mpi_body (int (b58_value s)))"
    by (rule getvch_value)
  moreover have "decode_chars s 0 = Some (int (b58_value s))"
    using decode_chars_eq [OF assms(1), of 0] by (simp add: b58_value_def horner_def)
  moreover have "(\<lambda>c. c = pszBase58 ! 0) = (=) (CHR ''1'')" by (auto simp: pszBase58_B58)
  ultimately show ?thesis
    by (simp add: DecodeBase58_def c_str_b58 [OF assms(1)] trim_sign_body b58_bytes_def Let_def)
qed

end

locale base58_host = openssl_mpi E + openssl_digest E for E
begin

lemma EncodeBase58Check_eq:
  "length vch < 2 ^ 30 \<Longrightarrow> EncodeBase58Check E vch = b58_text (vch @ take 4 (word_le 32 (Hash E vch)))"
  unfolding EncodeBase58Check_def by (rule EncodeBase58_eq) simp

text \<open>What was encoded is decoded, for data short enough that its text is no longer than a
  \<open>BIGNUM\<close> can be.\<close>

lemma DecodeBase58Check_text:
  assumes "length (b58_text (vch @ take 4 (word_le 32 (Hash E vch)))) < 2 ^ 31 - 1"
  shows "DecodeBase58Check E (b58_text (vch @ take 4 (word_le 32 (Hash E vch)))) = Some vch"
  using DecodeBase58_eq [OF set_b58_text assms]
  by (simp add: DecodeBase58Check_def b58_bytes_text Let_def)

lemma DecodeBase58Check_eq:
  assumes "set s \<subseteq> set B58" and "length s < 2 ^ 31 - 1"
  shows "DecodeBase58Check E s =
    (let raw = b58_bytes s; data = take (length raw - 4) raw in
     if length raw < 4 \<or> drop (length raw - 4) raw \<noteq> take 4 (word_le 32 (Hash E data)) then None else Some data)"
  using DecodeBase58_eq [OF assms] by (auto simp: DecodeBase58Check_def Let_def)

end

lemma length_b58_text: "length (b58_text bs) \<le> 2 * length bs"
proof -
  let ?z = "length (takeWhile ((=) 0) bs)"
  have split: "bs = replicate ?z 0 @ dropWhile ((=) 0) bs" using split_leading [of 0 bs] by simp
  have zero: "be_nat (replicate k 0 @ xs) = be_nat xs" for k xs
    by (induction k) (simp_all add: be_nat_Cons)
  have le: "?z + length (dropWhile ((=) 0) bs) = length bs"
    by (metis length_append takeWhile_dropWhile_id)
  have "be_nat bs = be_nat (dropWhile ((=) 0) bs)" by (subst split) (rule zero)
  also have "\<dots> < 256 ^ length (dropWhile ((=) 0) bs)" by (rule be_nat_bound)
  also have "\<dots> \<le> (58 ^ 2) ^ length (dropWhile ((=) 0) bs)" by (rule power_mono) simp_all
  finally have "be_nat bs < 58 ^ (2 * length (dropWhile ((=) 0) bs))" by (simp add: power_mult)
  from b58.length_digits [OF this] le show ?thesis by (simp add: b58_text_def numeral_text_def)
qed

interpretation ref_base58: base58_host openssl_ref
  by unfold_locales

section \<open>Properties\<close>

text \<open>
  Address round trip: for a key or script destination, reading the text of its address gives
  back the address object, which is valid for the network and yields the destination; on the
  other network it is not valid and yields no destination.
\<close>

theorem CBitcoinAddress_roundtrip:
  assumes "base58_host E" and "dest \<noteq> CNoDestination" and "SetAddress fTestNet dest a0 = (ok, a)"
  shows "ok \<and> SetString E (ToString58 E a) = (True, a)
    \<and> IsValidAddress fTestNet a \<and> GetAddress fTestNet a = dest
    \<and> \<not> IsValidAddress (\<not> fTestNet) a \<and> GetAddress (\<not> fTestNet) a = CNoDestination"
proof -
  have a: "ok" "length (vchData a) = 20"
    using assms(2,3) by (cases dest; auto simp: SetData_def)+
  let ?v = "nVersion58 a # vchData a"
  let ?s = "b58_text (?v @ take 4 (word_le 32 (Hash E ?v)))"
  have "length ?s < 2 ^ 31 - 1"
    using length_b58_text [of "?v @ take 4 (word_le 32 (Hash E ?v))"] a by simp
  then have "DecodeBase58Check E ?s = Some ?v" by (rule base58_host.DecodeBase58Check_text [OF assms(1)])
  moreover have "ToString58 E a = ?s"
    unfolding ToString58_def using base58_host.EncodeBase58Check_eq [OF assms(1), of ?v] a by simp
  ultimately have "SetString E (ToString58 E a) = (True, a)" by (simp add: SetString_def)
  moreover have "IsValidAddress fTestNet a \<and> GetAddress fTestNet a = dest
      \<and> \<not> IsValidAddress (\<not> fTestNet) a \<and> GetAddress (\<not> fTestNet) a = CNoDestination"
    using assms(2,3)
    by (cases dest; cases fTestNet)
      (auto simp: SetData_def IsValidAddress_def GetAddress_def PUBKEY_ADDRESS_def SCRIPT_ADDRESS_def
        PUBKEY_ADDRESS_TEST_def SCRIPT_ADDRESS_TEST_def le_word_word_le)
  ultimately show ?thesis using a by blast
qed

theorem CBitcoinAddress_roundtrip_witness:
  "SetString openssl_ref (ToString58 openssl_ref (SetData 28 (word_le 20 (7 :: u160))))
     = (True, SetData 28 (word_le 20 (7 :: u160)))"
  using CBitcoinAddress_roundtrip [OF ref_base58.base58_host_axioms, of "KeyID 7" False _ True "SetData 28 (word_le 20 (7 :: u160))"]
  by (simp add: PUBKEY_ADDRESS_def)

end
