(* ===== verification/Hd.thy ===== *)
theory Hd
  imports Base58 Wordlist Bignum
begin

text \<open>
  The daemon's HD wallet core: BIP39 mnemonics (\<open>bip39.cpp\<close>), BIP32 private derivation
  (\<open>bip32.cpp\<close>, on \<open>CKey\<close> of \<open>key.cpp\<close>) and the derivation path of \<open>wallet.cpp\<close>.

  OpenSSL's HMAC, PBKDF2 and elliptic-curve primitives extend the record of \<open>Externals\<close>;
  \<open>i2o_ECPublicKey\<close> stands for the multiplication of the generator and the encoding of the point.
\<close>

record openssl_hd =
  ssl :: openssl
  HMAC_SHA512 :: "bytes \<Rightarrow> bytes \<Rightarrow> bytes"
  PKCS5_PBKDF2_HMAC_SHA512 :: "bytes \<Rightarrow> bytes \<Rightarrow> nat \<Rightarrow> nat \<Rightarrow> bytes"
  i2o_ECPublicKey :: "nat \<Rightarrow> bool \<Rightarrow> bytes"

section \<open>Keys\<close>

record CKey =
  key_bn :: nat
  fCompressedPubKey :: bool

text \<open>\<open>None\<close> is the \<open>key_error\<close> exception. The key starts out as \<open>CKey()\<close>, uncompressed.\<close>

definition SetSecret :: "bytes \<Rightarrow> bool \<Rightarrow> CKey option" where
  "SetSecret vchSecret fCompressed =
     (if length vchSecret \<noteq> 32 then None
      else Some \<lparr> key_bn = be_nat vchSecret, fCompressedPubKey = fCompressed \<rparr>)"

definition GetSecret :: "CKey \<Rightarrow> bytes \<times> bool" where
  "GetSecret k = (let b = mag_be (key_bn k) in (replicate (32 - length b) 0 @ b, fCompressedPubKey k))"

definition GetPubKey :: "openssl_hd \<Rightarrow> CKey \<Rightarrow> bytes" where
  "GetPubKey E k = i2o_ECPublicKey E (key_bn k) (fCompressedPubKey k)"

section \<open>BIP32\<close>

definition BIP32_HARDENED :: u32 where "BIP32_HARDENED = 0x80000000"

definition SECP256K1_ORDER :: nat where
  "SECP256K1_ORDER = 0xFFFFFFFFFFFFFFFFFFFFFFFFFFFFFFFEBAAEDCE6AF48A03BBFD25E8CD0364141"

definition BNToBytes32 :: "nat \<Rightarrow> bytes" where
  "BNToBytes32 bn = (let b = mag_be bn in replicate (32 - length b) 0 @ b)"

definition WriteBE32 :: "u32 \<Rightarrow> bytes" where
  "WriteBE32 x = [ucast (drop_bit 24 x AND 0xff), ucast (drop_bit 16 x AND 0xff),
     ucast (drop_bit 8 x AND 0xff), ucast (drop_bit 0 x AND 0xff)]"

definition ReadBE32 :: "bytes \<Rightarrow> u32" where
  "ReadBE32 p = push_bit 24 (ucast (p ! 0)) OR push_bit 16 (ucast (p ! 1))
     OR push_bit 8 (ucast (p ! 2)) OR ucast (p ! 3)"

record CExtKey =
  nDepth :: byte
  vchFingerprint :: bytes
  nChild :: u32
  vchChainCode :: bytes
  ext_key :: CKey

definition SetSeed :: "openssl_hd \<Rightarrow> bytes \<Rightarrow> CExtKey option" where
  "SetSeed E seed =
     (let I = HMAC_SHA512 E (map (word_of_nat \<circ> of_char) ''Bitcoin seed'') seed in
      map_option (\<lambda>k. \<lparr> nDepth = 0, vchFingerprint = [0, 0, 0, 0], nChild = 0,
         vchChainCode = take 32 (drop 32 I), ext_key = k \<rparr>) (SetSecret (take 32 I) True))"

definition Derive :: "openssl_hd \<Rightarrow> CExtKey \<Rightarrow> u32 \<Rightarrow> CExtKey option" where
  "Derive E x nChildIn =
     (let pubbytes = GetPubKey E (ext_key x);
          h = Hash160 (ssl E) pubbytes;
          fHardened = (nChildIn AND BIP32_HARDENED \<noteq> 0);
          parentSecret = fst (GetSecret (ext_key x)) in
      if \<not> fHardened \<and> length pubbytes \<noteq> 33 then None else
      let data = (if fHardened then 0 # parentSecret else pubbytes) @ WriteBE32 nChildIn;
          I = HMAC_SHA512 E (vchChainCode x) data;
          n = SECP256K1_ORDER;
          il = be_nat (take 32 I);
          kpar = be_nat parentSecret;
          child = (il + kpar) mod n in
      if n \<le> il then None
      else if child = 0 then None
      else map_option (\<lambda>k. \<lparr> nDepth = nDepth x + 1, vchFingerprint = take 4 (word_le 20 h),
             nChild = nChildIn, vchChainCode = take 32 (drop 32 I), ext_key = k \<rparr>)
           (SetSecret (BNToBytes32 child) True))"

definition ToBase58 :: "openssl_hd \<Rightarrow> CExtKey \<Rightarrow> bytes \<Rightarrow> string" where
  "ToBase58 E x vchVersion =
     EncodeBase58Check (ssl E) (vchVersion @ [nDepth x] @ vchFingerprint x @ WriteBE32 (nChild x)
       @ vchChainCode x @ [0] @ fst (GetSecret (ext_key x)))"

text \<open>The key and the version, or \<open>None\<close> where the code returns \<open>false\<close>.\<close>

definition SetBase58 :: "openssl_hd \<Rightarrow> string \<Rightarrow> (CExtKey \<times> bytes) option" where
  "SetBase58 E str =
     (case DecodeBase58Check (ssl E) str of None \<Rightarrow> None
      | Some v \<Rightarrow>
          if length v \<noteq> 4 + 1 + 4 + 4 + 32 + 33 then None
          else let p = drop 4 v in
            map_option (\<lambda>k. (\<lparr> nDepth = p ! 0, vchFingerprint = take 4 (drop 1 p), nChild = ReadBE32 (drop 5 p),
                vchChainCode = take 32 (drop 9 p), ext_key = k \<rparr>, take 4 v))
              (SetSecret (take 32 (drop 42 p)) True))"

section \<open>The wallet's path\<close>

definition HD_COIN_TYPE_cpp :: u32 where "HD_COIN_TYPE_cpp = 99"

definition DeriveHDChild :: "openssl_hd \<Rightarrow> CExtKey \<Rightarrow> u32 \<Rightarrow> CKey option" where
  "DeriveHDChild E master nIndex =
     Option.bind (Derive E master (44 OR BIP32_HARDENED)) (\<lambda>a.
     Option.bind (Derive E a (HD_COIN_TYPE_cpp OR BIP32_HARDENED)) (\<lambda>b.
     Option.bind (Derive E b (0 OR BIP32_HARDENED)) (\<lambda>c.
     Option.bind (Derive E c 0) (\<lambda>external.
     Option.bind (Derive E external nIndex) (\<lambda>child. Some (ext_key child))))))"

section \<open>BIP39\<close>

text \<open>\<open>iss >> w\<close> until it fails.\<close>

function Split :: "string \<Rightarrow> string list" where
  "Split s =
     (let s = dropWhile is_space s in
      if s = [] then [] else takeWhile (Not \<circ> is_space) s # Split (dropWhile (Not \<circ> is_space) s))"
  by pat_completeness auto
termination
proof (relation "measure length", simp)
  fix s t :: string
  assume t: "t = dropWhile is_space s" "t \<noteq> []"
  then have "\<not> is_space (hd t)" using hd_dropWhile [of is_space s] by auto
  then have "length (dropWhile (Not \<circ> is_space) t) < length t"
    using t(2) by (cases t) (auto simp: less_Suc_eq_le length_dropWhile_le)
  also have "\<dots> \<le> length s" using t(1) by (simp add: length_dropWhile_le)
  finally show "(dropWhile (Not \<circ> is_space) t, s) \<in> measure length" by simp
qed

declare Split.simps [simp del]

fun find_word :: "string \<Rightarrow> string list \<Rightarrow> nat option" where
  "find_word w [] = None"
| "find_word w (x # xs) =
     (case find_word w xs of Some i \<Rightarrow> Some (Suc i) | None \<Rightarrow> (if x = w then Some 0 else None))"

text \<open>\<open>WordIndex().find(w)\<close>: a later word would overwrite an earlier one.\<close>

definition WordIndex :: "string \<Rightarrow> nat option" where
  "WordIndex w = find_word w BIP39_WORDLIST"

definition bit_of :: "bytes \<Rightarrow> nat \<Rightarrow> nat" where
  "bit_of v i = unat (drop_bit (7 - i mod 8) (v ! (i div 8)) AND 1)"

definition bitAt :: "bytes \<Rightarrow> bytes \<Rightarrow> nat \<Rightarrow> nat" where
  "bitAt entropy hash i =
     (if i < length entropy * 8 then bit_of entropy i else bit_of hash (i - length entropy * 8))"

function mnemonic_loop :: "(nat \<Rightarrow> nat) \<Rightarrow> nat \<Rightarrow> nat \<Rightarrow> string \<Rightarrow> string" where
  "mnemonic_loop bitf totalBits i out =
     (if i < totalBits then
        (let idx = foldl (\<lambda>idx b. push_bit 1 idx OR bitf (i + b)) 0 [0..<11];
             out = (if out \<noteq> [] then out @ '' '' else out)
         in mnemonic_loop bitf totalBits (i + 11) (out @ BIP39_WORDLIST ! idx))
      else out)"
  by pat_completeness auto
termination by (relation "measure (\<lambda>(b, t, i, s). t - i)") auto

declare mnemonic_loop.simps [simp del]

definition MnemonicFromEntropy :: "openssl_hd \<Rightarrow> bytes \<Rightarrow> string" where
  "MnemonicFromEntropy E entropy =
     (let entBytes = length entropy in
      if entBytes < 16 \<or> entBytes > 32 \<or> entBytes mod 4 \<noteq> 0 then []
      else let hash = SHA256 (ssl E) entropy;
               entBits = entBytes * 8;
               csBits = entBits div 32;
               totalBits = entBits + csBits
           in mnemonic_loop (bitAt entropy hash) totalBits 0 [])"

text \<open>\<open>rng\<close> returns \<open>None\<close> when the random source fails.\<close>

definition GenerateMnemonic :: "openssl_hd \<Rightarrow> (nat \<Rightarrow> bytes option) \<Rightarrow> int \<Rightarrow> string" where
  "GenerateMnemonic E rng nStrengthBits =
     (if nStrengthBits < 128 \<or> nStrengthBits > 256 \<or> nStrengthBits mod 32 \<noteq> 0 then []
      else case rng (nat (nStrengthBits div 8)) of None \<Rightarrow> []
        | Some entropy \<Rightarrow> MnemonicFromEntropy E entropy)"

text \<open>The inner and outer packing loops of \<open>CheckMnemonic\<close>; \<open>None\<close> is an unknown word.\<close>

definition set_bit_at :: "bytes \<Rightarrow> nat \<Rightarrow> bytes" where
  "set_bit_at bits pos = bits[pos div 8 := (bits ! (pos div 8)) OR push_bit (7 - pos mod 8) 1]"

definition pack_index :: "nat \<Rightarrow> bytes \<times> nat \<Rightarrow> bytes \<times> nat" where
  "pack_index idx st =
     foldl (\<lambda>(bits, pos) b. (if drop_bit b idx AND 1 \<noteq> 0 then set_bit_at bits pos else bits, pos + 1))
       st (rev [0..<11])"

fun pack_words :: "string list \<Rightarrow> bytes \<times> nat \<Rightarrow> (bytes \<times> nat) option" where
  "pack_words [] st = Some st"
| "pack_words (w # ws) st =
     (case WordIndex w of None \<Rightarrow> None | Some idx \<Rightarrow> pack_words ws (pack_index idx st))"

definition CheckMnemonic :: "openssl_hd \<Rightarrow> string \<Rightarrow> bool" where
  "CheckMnemonic E mnemonic =
     (let words = Split mnemonic; n = length words in
      if n < 12 \<or> n > 24 \<or> n mod 3 \<noteq> 0 then False
      else let totalBits = n * 11;
               csBits = totalBits div 33;
               entBits = totalBits - csBits;
               bits = replicate ((totalBits + 7) div 8) 0
           in case pack_words words (bits, 0) of None \<Rightarrow> False
              | Some (bits, pos) \<Rightarrow>
                  (let entBytes = entBits div 8;
                       hash = SHA256 (ssl E) (take entBytes bits)
                   in list_all (\<lambda>i. bit_of bits (entBits + i) = bit_of hash i) [0..<csBits]))"

text \<open>The bytes of a \<open>std::string\<close>.\<close>

definition str_bytes :: "string \<Rightarrow> bytes" where
  "str_bytes s = map (\<lambda>c. word_of_nat (of_char c)) s"

definition MnemonicToSeed :: "openssl_hd \<Rightarrow> string \<Rightarrow> string \<Rightarrow> bytes" where
  "MnemonicToSeed E mnemonic passphrase =
     (let salt = ''mnemonic'' @ passphrase in
      PKCS5_PBKDF2_HMAC_SHA512 E (str_bytes mnemonic) (str_bytes salt) 2048 64)"

end
