(* ===== verification/Web_Hd.thy ===== *)
theory Web_Hd
  imports Web_Send Hd
begin

text \<open>
  The browser wallet and the daemon derive the same keys: BIP39 phrases, BIP32 nodes and the
  addresses on the path \<open>m/44'/99'/0'/0/i\<close> agree, under the assumption that both sides'
  primitives implement the same standards (locale \<open>same_hd\<close>).
\<close>

section \<open>BIP32\<close>

locale same_hd = base58_host "ssl E" + same_crypto "ssl E" W for E :: openssl_hd and W :: webcrypto +
  assumes same_HMAC: "sign_HMAC_SHA512 W k d = HMAC_SHA512 E k d"
    and length_HMAC: "length (HMAC_SHA512 E k d) = 64"
    and same_PBKDF2: "deriveBits_PBKDF2_SHA512 W pw salt n (len * 8) = PKCS5_PBKDF2_HMAC_SHA512 E pw salt n len"
    and NFKD_ascii: "list_all (\<lambda>c. of_char c < (128 :: nat)) s \<Longrightarrow> encode_NFKD W s = str_bytes s"
    and same_pubkey: "length k = 32 \<Longrightarrow> 0 < be_nat k \<Longrightarrow> be_nat k < SECP_N \<Longrightarrow>
      getPublicKey W k True = Inr (i2o_ECPublicKey E (be_nat k) True)"
    and length_pubkey: "0 < n \<Longrightarrow> n < SECP_N \<Longrightarrow> length (i2o_ECPublicKey E n True) = 33"

definition ext_ok :: "CExtKey \<Rightarrow> bool" where
  "ext_ok x \<longleftrightarrow> 0 < key_bn (ext_key x) \<and> key_bn (ext_key x) < SECP_N \<and> fCompressedPubKey (ext_key x)
     \<and> length (vchChainCode x) = 32"

definition node_of :: "CExtKey \<Rightarrow> hd_node" where
  "node_of x = \<lparr> node_key = nat_be 32 (key_bn (ext_key x)), chainCode = vchChainCode x \<rparr>"

lemma SECP_N_lt: "SECP_N < 2 ^ 256" "0 < SECP_N" "SECP256K1_ORDER = SECP_N"
  by (simp_all add: SECP_N_def SECP256K1_ORDER_def)

lemma pad_mag_be:
  assumes "n < 256 ^ k"
  shows "replicate (k - length (mag_be n)) 0 @ mag_be n = nat_be k n"
proof -
  have zero: "be_nat (replicate j 0 @ xs) = be_nat xs" for j xs
    by (induction j) (simp_all add: be_nat_Cons)
  let ?x = "replicate (k - length (mag_be n)) 0 @ mag_be n"
  have "length ?x = k" using mag_be_length_bound [OF assms] by simp
  moreover have "be_nat ?x = n" by (simp add: zero)
  ultimately show ?thesis using nat_be_be_nat [of ?x] by simp
qed

lemma BNToBytes32_eq: "n < 2 ^ 256 \<Longrightarrow> BNToBytes32 n = nat_be 32 n"
  using pad_mag_be [of n 32] by (simp add: BNToBytes32_def Let_def)

lemma GetSecret_eq: "key_bn k < 2 ^ 256 \<Longrightarrow> fst (GetSecret k) = nat_be 32 (key_bn k)"
  using pad_mag_be [of "key_bn k" 32] by (simp add: GetSecret_def Let_def)

lemma SetSecret_nat_be: "n < 2 ^ 256 \<Longrightarrow> SetSecret (nat_be 32 n) c = Some \<lparr> key_bn = n, fCompressedPubKey = c \<rparr>"
  by (simp add: SetSecret_def be_nat_nat_be)

lemma WriteBE32_eq: "WriteBE32 i = be32 (uint i)"
  by (simp add: WriteBE32_def be32_def byte_at_def ToUint32_def)

lemma hardened_bit: "(i AND BIP32_HARDENED \<noteq> 0) \<longleftrightarrow> HARDENED \<le> uint i"
proof -
  have H: "BIP32_HARDENED = 2 ^ 31" by (simp add: BIP32_HARDENED_def)
  have lt: "uint i < 2 ^ 32" using uint_lt2p [of i] by simp
  have "(i AND BIP32_HARDENED \<noteq> 0) \<longleftrightarrow> bit i 31"
    unfolding H by (simp only: and_exp_eq_0_iff_not_bit simp_thms)
  also have "\<dots> \<longleftrightarrow> bit (uint i) 31" by (simp add: bit_uint_iff)
  also have "\<dots> \<longleftrightarrow> odd (uint i div 2 ^ 31)" by (rule bit_iff_odd)
  also have "\<dots> \<longleftrightarrow> 2 ^ 31 \<le> uint i"
  proof (cases "2 ^ 31 \<le> uint i")
    case True
    then have "uint i div 2 ^ 31 = 1" using lt by (intro int_div_pos_eq [where r = "uint i - 2 ^ 31"]) auto
    with True show ?thesis by simp
  next
    case False
    then have "uint i div 2 ^ 31 = 0" by (intro div_pos_pos_trivial) auto
    with False show ?thesis by simp
  qed
  finally show ?thesis by (simp add: HARDENED_def)
qed

lemma hard_eq: "n < 2 ^ 31 \<Longrightarrow> uint (word_of_nat n OR BIP32_HARDENED) = hard (int n)"
proof -
  assume n: "n < 2 ^ 31"
  let ?w = "word_of_nat n :: u32"
  have u: "uint ?w = int n" using n by (simp add: unsigned_of_nat take_bit_nat_eq_self)
  have "?w AND BIP32_HARDENED = 0" using hardened_bit [of ?w] u n by (simp add: HARDENED_def)
  then have "?w OR BIP32_HARDENED = ?w + BIP32_HARDENED" by (rule disjunctive_add_eq_or [symmetric])
  then show ?thesis
    using n u by (simp add: uint_word_ariths hard_def HARDENED_def BIP32_HARDENED_def)
qed

context same_hd
begin

lemma pubkey_nat_be:
  "0 < n \<Longrightarrow> n < SECP_N \<Longrightarrow> getPublicKey W (nat_be 32 n) True = Inr (i2o_ECPublicKey E n True)"
  using same_pubkey [of "nat_be 32 n"] SECP_N_lt by (simp add: be_nat_nat_be)

lemma Derive_eq:
  fixes i :: u32
  assumes x: "ext_ok x"
  defines "data \<equiv> (if HARDENED \<le> uint i then 0 # nat_be 32 (key_bn (ext_key x))
      else i2o_ECPublicKey E (key_bn (ext_key x)) True) @ be32 (uint i)"
  defines "I \<equiv> HMAC_SHA512 E (vchChainCode x) data"
  defines "child \<equiv> (be_nat (take 32 I) + key_bn (ext_key x)) mod SECP_N"
  shows "ckdPriv W (node_of x) (uint i) = Inr \<lparr> node_key = nat_be 32 child, chainCode = drop 32 I \<rparr>"
    and "Derive E x i = (if SECP_N \<le> be_nat (take 32 I) \<or> child = 0 then None
      else Some \<lparr> nDepth = nDepth x + 1, vchFingerprint =
             take 4 (word_le 20 (Hash160 (ssl E) (GetPubKey E (ext_key x)))),
           nChild = i, vchChainCode = drop 32 I, ext_key = \<lparr> key_bn = child, fCompressedPubKey = True \<rparr> \<rparr>)"
proof -
  have k: "0 < key_bn (ext_key x)" "key_bn (ext_key x) < SECP_N" "fCompressedPubKey (ext_key x)"
    using x by (auto simp: ext_ok_def)
  then have k256: "key_bn (ext_key x) < 2 ^ 256" using SECP_N_lt by simp
  have c256: "child < 2 ^ 256" using SECP_N_lt mod_less_divisor [OF SECP_N_lt(2)] unfolding child_def by (meson less_trans)
  have I: "length I = 64" by (simp add: I_def length_HMAC)
  have cc: "vchChainCode x \<noteq> []" using x by (auto simp: ext_ok_def)
  have ne: "nat_be 32 m \<noteq> []" for m by (metis length_nat_be list.size(3) zero_neq_numeral)
  have tI: "take 32 I \<noteq> []" using I by (cases I) auto
  have d: "(if HARDENED \<le> uint i then Inr (concat_u8 [[0], nat_be 32 (key_bn (ext_key x)), be32 (uint i)])
      else js_bind (getPublicKey W (nat_be 32 (key_bn (ext_key x))) True) (\<lambda>pub. Inr (concat_u8 [pub, be32 (uint i)])))
      = Inr data"
    using k by (simp add: data_def pubkey_nat_be)
  have h: "hmacSha512 W (vchChainCode x) data = Inr I" using cc by (simp add: hmacSha512_def same_HMAC I_def)
  have b: "BigInt_hex (toHex (nat_be 32 (key_bn (ext_key x)))) = Inr (key_bn (ext_key x))"
    using ne k256 by (simp add: BigInt_hex_toHex be_nat_nat_be)
  show "ckdPriv W (node_of x) (uint i) = Inr \<lparr> node_key = nat_be 32 child, chainCode = drop 32 I \<rparr>"
    unfolding ckdPriv_def node_of_def hd_node.simps Let_def b js_bind_simps d h BigInt_hex_toHex [OF tI]
      child_def [symmetric] bnTo32_eq [OF c256] by (rule refl)
  show "Derive E x i = (if SECP_N \<le> be_nat (take 32 I) \<or> child = 0 then None
      else Some \<lparr> nDepth = nDepth x + 1, vchFingerprint =
             take 4 (word_le 20 (Hash160 (ssl E) (GetPubKey E (ext_key x)))),
           nChild = i, vchChainCode = drop 32 I, ext_key = \<lparr> key_bn = child, fCompressedPubKey = True \<rparr> \<rparr>)"
    using k k256 length_pubkey [OF k(1,2)] I
    by (simp add: Derive_def hardened_bit GetPubKey_def GetSecret_eq be_nat_nat_be WriteBE32_eq SECP_N_lt(3)
        data_def [symmetric] I_def [symmetric] child_def [symmetric] BNToBytes32_eq [OF c256]
        SetSecret_nat_be [OF c256] Let_def)
qed

lemma Derive_ckdPriv:
  assumes "ext_ok x" and "Derive E x i = Some y"
  shows "ckdPriv W (node_of x) (uint i) = Inr (node_of y) \<and> ext_ok y"
  using Derive_eq [OF assms(1), of i] assms(2) mod_less_divisor [OF SECP_N_lt(2)]
  by (auto simp: node_of_def ext_ok_def length_HMAC split: if_splits)

lemma masterFromSeed_SetSeed:
  assumes "SetSeed E seed = Some x"
  shows "masterFromSeed W seed = Inr (node_of x)"
proof -
  define I where "I = HMAC_SHA512 E (map (word_of_nat \<circ> of_char) ''Bitcoin seed'') seed"
  have I: "length I = 64" by (simp add: I_def length_HMAC)
  have enc: "TextEncoder_encode ''Bitcoin seed'' = map (word_of_nat \<circ> of_char) ''Bitcoin seed''"
    by (simp add: TextEncoder_encode_def utf8_char_def)
  have "x = \<lparr> nDepth = 0, vchFingerprint = [0, 0, 0, 0], nChild = 0, vchChainCode = take 32 (drop 32 I),
      ext_key = \<lparr> key_bn = be_nat (take 32 I), fCompressedPubKey = True \<rparr> \<rparr>"
    using assms I unfolding SetSeed_def I_def [symmetric] Let_def by (simp add: SetSecret_def)
  moreover have "nat_be 32 (be_nat (take 32 I)) = take 32 I"
    using nat_be_be_nat [of "take 32 I"] I by simp
  moreover have "hmacSha512 W (TextEncoder_encode ''Bitcoin seed'') seed = Inr I"
    unfolding enc by (simp add: hmacSha512_def same_HMAC I_def)
  ultimately show ?thesis using I by (simp add: masterFromSeed_def node_of_def)
qed

lemma path_DeriveHDChild:
  assumes m: "SetSeed E seed = Some m" "ext_ok m" and c: "DeriveHDChild E m i = Some key"
  shows "\<exists>x. derivePath W seed [hard 44, hard HD_COIN_TYPE, hard 0, 0, uint i] = Inr (node_of x)
    \<and> ext_ok x \<and> ext_key x = key"
proof -
  obtain x1 x2 x3 x4 x5 where d: "Derive E m (44 OR BIP32_HARDENED) = Some x1"
      "Derive E x1 (HD_COIN_TYPE_cpp OR BIP32_HARDENED) = Some x2" "Derive E x2 (0 OR BIP32_HARDENED) = Some x3"
      "Derive E x3 0 = Some x4" "Derive E x4 i = Some x5" and key: "key = ext_key x5"
    using c by (auto simp: DeriveHDChild_def bind_eq_Some_conv)
  have h: "uint (44 OR BIP32_HARDENED) = hard 44" "uint (HD_COIN_TYPE_cpp OR BIP32_HARDENED) = hard HD_COIN_TYPE"
      "uint (0 OR BIP32_HARDENED) = hard 0"
    using hard_eq [of 44] hard_eq [of 99] hard_eq [of 0] by (simp_all add: HD_COIN_TYPE_cpp_def HD_COIN_TYPE_def)
  note s1 = Derive_ckdPriv [OF m(2) d(1), unfolded h]
  note s2 = Derive_ckdPriv [OF conjunct2 [OF s1] d(2), unfolded h]
  note s3 = Derive_ckdPriv [OF conjunct2 [OF s2] d(3), unfolded h]
  note s4 = Derive_ckdPriv [OF conjunct2 [OF s3] d(4)]
  note s5 = Derive_ckdPriv [OF conjunct2 [OF s4] d(5)]
  have "derivePath W seed [hard 44, hard HD_COIN_TYPE, hard 0, 0, uint i] = Inr (node_of x5)"
    using s1 s2 s3 s4 s5 by (simp add: derivePath_def masterFromSeed_SetSeed [OF m(1)])
  with s5 key show ?thesis by blast
qed

text \<open>The address the daemon shows for a key.\<close>

lemma base58check_address:
  assumes "net = ''main'' \<or> net = ''test''"
  shows "\<exists>p. NETWORKS net = Some p \<and> base58check W (net_pubkey p) (hash160 W pub) =
    Inr (ToString58 (ssl E) (snd (SetAddress (net = ''test'') (KeyID (Hash160 (ssl E) pub)) a0)))"
proof -
  define v :: int where "v = (if net = ''test'' then PUBKEY_ADDRESS_TEST else PUBKEY_ADDRESS)"
  obtain p where p: "NETWORKS net = Some p" "net_pubkey p = v"
    using assms by (auto simp: NETWORKS_def v_def PUBKEY_ADDRESS_def PUBKEY_ADDRESS_TEST_def)
  let ?d = "word_of_int v # word_le 20 (Hash160 (ssl E) pub)"
  have "base58check W v (hash160 W pub) = Inr (b58_text (?d @ take 4 (word_le 32 (Hash (ssl E) ?d))))"
    by (simp add: web.base58check_eq hash160_Hash160 sha256d_Hash Let_def)
  moreover have "EncodeBase58Check (ssl E) ?d = b58_text (?d @ take 4 (word_le 32 (Hash (ssl E) ?d)))"
    by (rule EncodeBase58Check_eq) simp
  ultimately show ?thesis using p by (auto simp: ToString58_def SetData_def v_def)
qed

lemma deriveAddress_eq:
  assumes "SetSeed E seed = Some m" "ext_ok m" "DeriveHDChild E m i = Some key"
    and "net = ''main'' \<or> net = ''test''"
  shows "deriveAddress W seed (uint i) net = Inr \<lparr> acc_index = uint i,
      acc_address = ToString58 (ssl E) (snd (SetAddress (net = ''test'') (KeyID (Hash160 (ssl E) (GetPubKey E key))) a0)),
      acc_privKey = fst (GetSecret key), acc_pubKey = GetPubKey E key \<rparr>"
proof -
  obtain x where x: "derivePath W seed [hard 44, hard HD_COIN_TYPE, hard 0, 0, uint i] = Inr (node_of x)"
      "ext_ok x" "ext_key x = key"
    using path_DeriveHDChild [OF assms(1-3)] by blast
  have key: "0 < key_bn key" "key_bn key < SECP_N" "fCompressedPubKey key" using x by (auto simp: ext_ok_def)
  then have "fst (GetSecret key) = nat_be 32 (key_bn key)" using GetSecret_eq [of key] SECP_N_lt by simp
  then have node: "node_key (node_of x) = fst (GetSecret key)" by (simp add: node_of_def x(3))
  have pub: "getPublicKey W (fst (GetSecret key)) True = Inr (GetPubKey E key)"
    using pubkey_nat_be [OF key(1,2)] key(3) node x(3) by (simp add: node_of_def GetPubKey_def)
  obtain p where "NETWORKS net = Some p" "base58check W (net_pubkey p) (hash160 W (GetPubKey E key)) =
      Inr (ToString58 (ssl E) (snd (SetAddress (net = ''test'') (KeyID (Hash160 (ssl E) (GetPubKey E key))) a0)))"
    using base58check_address [OF assms(4), of "GetPubKey E key" a0] by blast
  then show ?thesis by (simp add: deriveAddress_def x(1) node pub del: SetAddress.simps)
qed

lemma seed_eq:
  assumes "list_all (\<lambda>c. of_char c < (128 :: nat)) mn" and "list_all (\<lambda>c. of_char c < (128 :: nat)) pass"
  shows "mnemonicToSeed W mn pass = Inr (MnemonicToSeed E mn pass)"
  using NFKD_ascii [OF assms(1)] NFKD_ascii [of "''mnemonic'' @ pass"] assms(2) same_PBKDF2 [of _ _ 2048 64]
  by (simp add: mnemonicToSeed_def MnemonicToSeed_def pbkdf2Sha512_def)

lemma accounts_loop:
  assumes "\<And>i. i < n \<Longrightarrow> deriveAddress W seed (int i) net = Inr (f i)" and "m \<le> n"
  shows "for_of [m..<n] (\<lambda>i accounts. js_bind (deriveAddress W seed (int i) net) (\<lambda>a. Inr (accounts @ [a]))) acc
    = Inr (acc @ map f [m..<n])"
  using assms(2)
proof (induction "n - m" arbitrary: m acc)
  case (Suc d)
  then have m: "m < n" by simp
  with Suc assms(1) [OF m] show ?case by (simp add: upt_conv_Cons)
qed simp

end

definition openssl_hd_ref :: openssl_hd where
  "openssl_hd_ref = \<lparr> ssl = openssl_ref, HMAC_SHA512 = hmac_ref,
     PKCS5_PBKDF2_HMAC_SHA512 = (\<lambda>pw salt n len. digest_ref len (pw @ salt)),
     i2o_ECPublicKey = (\<lambda>n c. if c then 2 # nat_be 32 n else 4 # nat_be 32 n @ nat_be 32 n) \<rparr>"

interpretation ref_hd: same_hd openssl_hd_ref web_ref
proof -
  have utf: "TextEncoder_encode s = str_bytes s" if "list_all (\<lambda>c. of_char c < (128 :: nat)) s" for s
    using that by (induction s) (simp_all add: TextEncoder_encode_def str_bytes_def utf8_char_def)
  have len: "length (hmac_ref k d) = 64" for k d by (simp add: hmac_ref_def)
  have key: "nat_be 32 (be_nat k) = k" if "length k = 32" for k using that by (metis nat_be_be_nat)
  have bh: "base58_host (ssl openssl_hd_ref)"
    using ref_base58.base58_host_axioms by (simp add: openssl_hd_ref_def)
  have sc: "same_crypto (ssl openssl_hd_ref) web_ref"
    using ref_crypto.same_crypto_axioms by (simp add: openssl_hd_ref_def)
  show "same_hd openssl_hd_ref web_ref"
    by (intro same_hd.intro same_hd_axioms.intro bh sc)
      (simp_all add: openssl_hd_ref_def web_ref_def utf len key)
qed

section \<open>Properties\<close>

definition ascii :: "string \<Rightarrow> bool" where
  "ascii s \<longleftrightarrow> list_all (\<lambda>c. of_char c < (128 :: nat)) s"

text \<open>
  C9. The same recovery phrase gives the same wallet. For an ASCII phrase without passphrase, when
  the daemon's master key is valid and it derives its first \<open>num\<close> keys, \<open>openWallet\<close> returns
  \<open>num\<close> accounts, and account \<open>i\<close> has the daemon's secret key, public key and address of index
  \<open>i\<close>, on either network.
\<close>

theorem openWallet_addresses:
  assumes "same_hd E W" and "net = ''main'' \<or> net = ''test''" and "ascii mn"
    and "SetSeed E (MnemonicToSeed E mn []) = Some m" and "ext_ok m"
    and "\<forall>i<num. DeriveHDChild E m (word_of_nat i) = Some (key i)" and "num \<le> 2 ^ 32"
  shows "\<exists>w. openWallet W mn net num [] = Inr w \<and> length (wal_accounts w) = num
    \<and> (\<forall>i<num. acc_privKey (wal_accounts w ! i) = fst (GetSecret (key i))
        \<and> acc_pubKey (wal_accounts w ! i) = GetPubKey E (key i)
        \<and> acc_address (wal_accounts w ! i) = ToString58 (ssl E)
            (snd (SetAddress (net = ''test'') (KeyID (Hash160 (ssl E) (GetPubKey E (key i)))) a0)))"
proof -
  let ?seed = "MnemonicToSeed E mn []"
  let ?acc = "\<lambda>i. \<lparr> acc_index = int i,
      acc_address = ToString58 (ssl E) (snd (SetAddress (net = ''test'') (KeyID (Hash160 (ssl E) (GetPubKey E (key i)))) a0)),
      acc_privKey = fst (GetSecret (key i)), acc_pubKey = GetPubKey E (key i) \<rparr>"
  have "deriveAddress W ?seed (int i) net = Inr (?acc i)" if "i < num" for i
  proof -
    have "uint (word_of_nat i :: u32) = int i"
      using that assms(7) by (simp add: unsigned_of_nat take_bit_nat_eq_self)
    then show ?thesis
      using same_hd.deriveAddress_eq [OF assms(1,4,5) _ assms(2), of "word_of_nat i" "key i" a0] assms(6) that
      by (simp del: SetAddress.simps)
  qed
  then have "for_of [0..<num] (\<lambda>i accounts. js_bind (deriveAddress W ?seed (int i) net) (\<lambda>a. Inr (accounts @ [a]))) []
      = Inr ([] @ map ?acc [0..<num])"
    by (rule same_hd.accounts_loop [OF assms(1)]) auto
  moreover have "mnemonicToSeed W mn [] = Inr ?seed"
    using same_hd.seed_eq [OF assms(1), of mn "[]"] assms(3) by (simp add: ascii_def)
  ultimately have "openWallet W mn net num [] =
      Inr \<lparr> wal_seed = ?seed, wal_net = net, wal_accounts = map ?acc [0..<num] \<rparr>"
    by (simp add: openWallet_def del: SetAddress.simps)
  then show ?thesis by (simp del: SetAddress.simps)
qed

lemma derive_ref:
  assumes "ext_ok x" and "key_bn (ext_key x) < 1000"
  shows "\<exists>y. Derive openssl_hd_ref x i = Some y \<and> ext_ok y \<and> key_bn (ext_key y) = key_bn (ext_key x) + 33"
proof -
  let ?d = "(if HARDENED \<le> uint i then 0 # nat_be 32 (key_bn (ext_key x))
      else i2o_ECPublicKey openssl_hd_ref (key_bn (ext_key x)) True) @ be32 (uint i)"
  have "be_nat (take 32 (HMAC_SHA512 openssl_hd_ref (vchChainCode x) ?d)) = 33"
    using assms(1) by (simp add: openssl_hd_ref_def hmac_ref_def ext_ok_def be_nat_nat_be)
  moreover have "(33 + key_bn (ext_key x)) mod SECP_N = key_bn (ext_key x) + 33"
    using assms(2) by (simp add: SECP_N_def)
  ultimately show ?thesis
    using ref_hd.Derive_eq(2) [OF assms(1), of i] assms
    by (auto simp: ext_ok_def ref_hd.length_HMAC SECP_N_def)
qed

lemma ref_master:
  "\<exists>m key. SetSeed openssl_hd_ref seed = Some m \<and> ext_ok m \<and> DeriveHDChild openssl_hd_ref m 0 = Some key"
proof -
  obtain m where m: "SetSeed openssl_hd_ref seed = Some m" "ext_ok m" "key_bn (ext_key m) = 13"
    by (simp add: SetSeed_def openssl_hd_ref_def hmac_ref_def SetSecret_def be_nat_nat_be ext_ok_def SECP_N_def)
  obtain x1 where x1: "Derive openssl_hd_ref m (44 OR BIP32_HARDENED) = Some x1" "ext_ok x1" "key_bn (ext_key x1) = 46"
    using derive_ref [OF m(2), of "44 OR BIP32_HARDENED"] m(3) by auto
  obtain x2 where x2: "Derive openssl_hd_ref x1 (HD_COIN_TYPE_cpp OR BIP32_HARDENED) = Some x2" "ext_ok x2" "key_bn (ext_key x2) = 79"
    using derive_ref [OF x1(2), of "HD_COIN_TYPE_cpp OR BIP32_HARDENED"] x1(3) by auto
  obtain x3 where x3: "Derive openssl_hd_ref x2 (0 OR BIP32_HARDENED) = Some x3" "ext_ok x3" "key_bn (ext_key x3) = 112"
    using derive_ref [OF x2(2), of "0 OR BIP32_HARDENED"] x2(3) by auto
  obtain x4 where x4: "Derive openssl_hd_ref x3 0 = Some x4" "ext_ok x4" "key_bn (ext_key x4) = 145"
    using derive_ref [OF x3(2), of 0] x3(3) by auto
  obtain x5 where "Derive openssl_hd_ref x4 0 = Some x5"
    using derive_ref [OF x4(2), of 0] x4(3) by auto
  then have "DeriveHDChild openssl_hd_ref m 0 = Some (ext_key x5)"
    using x1 x2 x3 x4 by (simp add: DeriveHDChild_def)
  with m show ?thesis by blast
qed

theorem openWallet_addresses_witness:
  "\<exists>w. openWallet web_ref ''legal winner'' ''main'' 1 [] = Inr w \<and> length (wal_accounts w) = 1"
proof -
  obtain m key where m: "SetSeed openssl_hd_ref (MnemonicToSeed openssl_hd_ref ''legal winner'' []) = Some m"
      "ext_ok m" "DeriveHDChild openssl_hd_ref m 0 = Some key"
    using ref_master by blast
  have "ascii ''legal winner''" by (simp add: ascii_def)
  from openWallet_addresses [OF ref_hd.same_hd_axioms _ this m(1,2), where net = "''main''" and num = 1 and key = "\<lambda>i. key"]
  show ?thesis using m(3) by auto
qed

end
