(* ===== verification/Mnemonic.thy ===== *)
theory Mnemonic
  imports Web_Hd
begin

text \<open>
  Recovery phrases: the phrase the browser wallet generates is the phrase the daemon would make
  from the same entropy, both sides' validation accept it, and the daemon's checksum test
  recovers the entropy bit for bit.
\<close>

section \<open>Bits\<close>

lemma unat_bit: "unat (drop_bit k (b :: byte) AND 1) = of_bool (bit b k)"
  by (cases "bit b k") (simp_all add: and_one_eq odd_iff_mod_2_eq_one bit_iff_odd_drop_bit)

lemma bit_of_eq: "bit_of v p = of_bool (bit (v ! (p div 8)) (7 - p mod 8))"
  by (simp only: bit_of_def unat_bit)

lemma length_bits_of_byte [simp]: "length (bits_of_byte b) = 8"
  by (simp add: bits_of_byte_def)

lemma bits_of_byte_nth:
  assumes "i < 8"
  shows "bits_of_byte b ! i = of_bool (bit b (7 - i))"
proof -
  have "[7, 6, 5, 4, 3, 2, 1, 0] ! i = 7 - i"
    using assms by (auto simp: less_Suc_eq numeral_eq_Suc)
  moreover have "bits_of_byte b ! i = of_bool (bit b ([7, 6, 5, 4, 3, 2, 1, 0] ! i))"
    unfolding bits_of_byte_def unat_bit using assms by (intro nth_map) simp
  ultimately show ?thesis by (simp only:)
qed

lemma entropy_bits_nth:
  "i < 8 * length ent \<Longrightarrow> concat (map bits_of_byte ent) ! i = bit_of ent i"
proof (induction ent arbitrary: i)
  case (Cons b ent)
  show ?case
  proof (cases "i < 8")
    case True
    then show ?thesis by (simp add: nth_append bits_of_byte_nth bit_of_eq)
  next
    case False
    then have "i div 8 = Suc ((i - 8) div 8)" "i mod 8 = (i - 8) mod 8"
      by (simp_all add: le_div_geq le_mod_geq)
    with False Cons show ?thesis by (simp add: nth_append bit_of_eq)
  qed
qed simp

lemma length_entropy_bits [simp]: "length (concat (map bits_of_byte ent)) = 8 * length ent"
  by (induction ent) auto

lemma bytes_eqI:
  assumes "length u = length v" and "\<And>p. p < 8 * length v \<Longrightarrow> bit_of u p = bit_of v p"
  shows "u = v"
proof (rule nth_equalityI [OF assms(1)])
  fix i assume i: "i < length u"
  show "u ! i = v ! i"
  proof (rule bit_word_eqI)
    fix n assume "n < LENGTH(8)"
    then have n: "n < 8" by simp
    define k where "k = 7 - n"
    have k: "k < 8" "n = 7 - k" using n by (auto simp: k_def)
    have "bit_of u (8 * i + k) = bit_of v (8 * i + k)"
      using i assms(1) k by (intro assms(2)) auto
    moreover have "(8 * i + k) div 8 = i" "(8 * i + k) mod 8 = k" using k by auto
    ultimately show "bit (u ! i) n = bit (v ! i) n" using k by (auto simp: bit_of_eq of_bool_def split: if_splits)
  qed
qed

section \<open>Eleven-bit indices\<close>

definition is_bits :: "nat list \<Rightarrow> bool" where
  "is_bits ds \<longleftrightarrow> (\<forall>d\<in>set ds. d < 2)"

interpretation b2: radix 2
  by unfold_locales simp

lemma mult_or: "d < 2 \<Longrightarrow> x * 2 OR d = x * 2 + (d :: nat)"
proof -
  assume "d < 2"
  then have "d = 0 \<or> d = 1" by auto
  moreover have "x * 2 OR 1 = x * 2 + 1" by (simp only: or_one_eq) simp
  ultimately show ?thesis by auto
qed

lemma index_horner:
  assumes "is_bits bs" and "i + k \<le> length bs"
  shows "foldl (\<lambda>idx j. push_bit 1 idx OR (if i + j < length bs then bs ! (i + j) else 0)) 0 [0..<k]
    = horner 2 (take k (drop i bs))"
  using assms(2)
proof (induction k)
  case (Suc k)
  then have lt: "i + k < length bs" by simp
  then have "bs ! (i + k) < 2" using assms(1) by (simp add: is_bits_def)
  moreover have "take (Suc k) (drop i bs) = take k (drop i bs) @ [bs ! (i + k)]"
    using lt by (simp add: take_Suc_conv_app_nth)
  ultimately show ?case using Suc lt by (simp add: mult_or push_bit_eq_mult)
qed simp

lemma bits_of_horner:
  "is_bits ds \<Longrightarrow> map (\<lambda>b. drop_bit b (horner 2 ds) AND 1) (rev [0..<length ds]) = ds"
proof (induction ds rule: rev_induct)
  case (snoc d ds)
  have d: "d < 2" "is_bits ds" using snoc.prems by (auto simp: is_bits_def)
  have "[0..<Suc (length ds)] = 0 # map Suc [0..<length ds]"
    by (simp add: upt_conv_Cons map_Suc_upt del: upt_Suc)
  moreover have "drop_bit (Suc b) (horner 2 ds * 2 + d) = drop_bit b (horner 2 ds)" for b
    using d(1) by (simp add: drop_bit_Suc)
  moreover have "(horner 2 ds * 2 + d) AND 1 = d" using d(1) by (simp add: and_one_eq)
  ultimately show ?case
    using snoc.IH [OF d(2)] by (simp add: rev_map comp_def del: upt_Suc)
qed simp

lemma chunk_index_lt: "is_bits ds \<Longrightarrow> length ds = 11 \<Longrightarrow> horner 2 ds < 2048"
  using b2.horner_bound [of ds] by (simp add: is_bits_def)

section \<open>Packing\<close>

definition put :: "bytes \<times> nat \<Rightarrow> nat \<Rightarrow> bytes \<times> nat" where
  "put st d = (case st of (bits, pos) \<Rightarrow> (if d \<noteq> 0 then set_bit_at bits pos else bits, pos + 1))"

lemma pack_index_put:
  assumes "is_bits ds" and "length ds = 11"
  shows "pack_index (horner 2 ds) st = foldl put st ds"
proof -
  have "pack_index (horner 2 ds) st =
      foldl put st (map (\<lambda>b. drop_bit b (horner 2 ds) AND 1) (rev [0..<11]))"
    unfolding pack_index_def foldl_map
    by (rule arg_cong [where f = "\<lambda>f. foldl f st (rev [0..<11])"]) (auto simp: fun_eq_iff put_def)
  then show ?thesis using bits_of_horner [OF assms(1)] assms(2) by simp
qed

lemma length_set_bit_at [simp]: "length (set_bit_at v p) = length v"
  by (simp add: set_bit_at_def)

lemma bit_of_set_bit_at:
  assumes "p < 8 * length v" and "q < 8 * length v"
  shows "bit_of (set_bit_at v q) p = (if p = q then 1 else bit_of v p)"
proof (cases "p div 8 = q div 8")
  case True
  have "p = q \<longleftrightarrow> p mod 8 = q mod 8" using True by (metis div_mult_mod_eq)
  moreover have "p mod 8 \<le> 7" "q mod 8 \<le> 7" using mod_less_divisor [of 8 p] mod_less_divisor [of 8 q] by linarith+
  ultimately have "p = q \<longleftrightarrow> 7 - p mod 8 = 7 - q mod 8" by linarith
  moreover have "q div 8 < length v" using assms(2) by auto
  moreover have "7 - p mod 8 < 8" by simp
  ultimately show ?thesis
    using True by (auto simp: set_bit_at_def bit_of_eq bit_simps)
next
  case False
  then have "p \<noteq> q" by auto
  with False show ?thesis by (simp add: set_bit_at_def bit_of_eq)
qed

lemma put_bits:
  assumes "foldl put (v, pos) ds = (v', pos')" and "pos + length ds \<le> 8 * length v"
    and "\<And>p. pos \<le> p \<Longrightarrow> p < 8 * length v \<Longrightarrow> bit_of v p = 0" and "is_bits ds"
  shows "length v' = length v \<and> pos' = pos + length ds
    \<and> (\<forall>p < 8 * length v. bit_of v' p = (if pos \<le> p \<and> p < pos + length ds then ds ! (p - pos) else bit_of v p))"
  using assms
proof (induction ds arbitrary: v pos)
  case (Cons d ds)
  define v1 where "v1 = (if d \<noteq> 0 then set_bit_at v pos else v)"
  have len: "length v1 = length v" by (simp add: v1_def)
  have d: "d < 2" "is_bits ds" using Cons.prems(4) by (auto simp: is_bits_def)
  have pos: "pos < 8 * length v" using Cons.prems(2) by simp
  have b1: "bit_of v1 p = (if p = pos then d else bit_of v p)" if "p < 8 * length v" for p
    using that pos d(1) Cons.prems(3) [of pos] by (auto simp: v1_def bit_of_set_bit_at)
  have "put (v, pos) d = (v1, pos + 1)" by (simp add: put_def v1_def)
  then have "foldl put (v1, pos + 1) ds = (v', pos')" using Cons.prems(1) by simp
  moreover have "pos + 1 + length ds \<le> 8 * length v1" using Cons.prems(2) len by simp
  moreover have "bit_of v1 p = 0" if "pos + 1 \<le> p" "p < 8 * length v1" for p
    using b1 [of p] Cons.prems(3) [of p] that len by auto
  ultimately have IH: "length v' = length v1 \<and> pos' = pos + 1 + length ds
    \<and> (\<forall>p < 8 * length v1. bit_of v' p = (if pos + 1 \<le> p \<and> p < pos + 1 + length ds then ds ! (p - (pos + 1)) else bit_of v1 p))"
    using Cons.IH d(2) by blast
  show ?case
    using IH len b1 by (auto simp: nth_Cons split: nat.splits) (metis Suc_diff_Suc Suc_le_eq diff_Suc_Suc le_neq_implies_less nat.inject)+
qed simp

section \<open>Words\<close>

lemma lower_not_space: "lower c \<Longrightarrow> \<not> is_space c \<and> \<not> js_space c"
proof -
  assume l: "lower c"
  obtain b0 b1 b2 b3 b4 b5 b6 b7 where c: "c = Char b0 b1 b2 b3 b4 b5 b6 b7" by (cases c)
  have "(of_char c :: nat) = horner_sum of_bool 2 [b0, b1, b2, b3, b4, b5, b6, b7]"
    by (simp add: of_char_def c)
  then have "96 \<le> (of_char c :: nat)" "(of_char c :: nat) < 128"
    using l by (auto simp: c of_bool_def)
  then show ?thesis by (auto simp: is_space_def js_space_def)
qed

definition plain_word :: "string \<Rightarrow> bool" where
  "plain_word w \<longleftrightarrow> w \<noteq> [] \<and> list_all (\<lambda>c. \<not> is_space c \<and> \<not> js_space c) w"

lemma WORDLIST_plain: "w \<in> set WORDLIST \<Longrightarrow> plain_word w"
  using WORDLIST_lower [of w] lower_not_space by (auto simp: plain_word_def list_all_iff)

lemma space_chars: "is_space (CHR '' '') \<and> js_space (CHR '' '')"
  by (simp add: is_space_def js_space_def)

lemma takeWhile_word:
  "list_all P w \<Longrightarrow> \<not> P c \<Longrightarrow> takeWhile P (w @ c # s) = w \<and> dropWhile P (w @ c # s) = c # s"
  "list_all P w \<Longrightarrow> takeWhile P w = w \<and> dropWhile P w = []"
  by (induction w) auto

lemma Split_join: "list_all plain_word ws \<Longrightarrow> Split (join '' '' ws) = ws"
proof (induction "'' ''" ws rule: join.induct)
  case 1
  then show ?case by (simp add: Split.simps)
next
  case (2 w)
  then have w: "w \<noteq> []" "list_all (Not \<circ> is_space) w" "dropWhile is_space w = w"
    by (cases w; auto simp: plain_word_def list_all_iff)+
  then show ?case
    using takeWhile_word(2) [of "Not \<circ> is_space" w]
    by (simp add: Split.simps [of w] Split.simps [of "[]"] del: dropWhile_eq_Nil_conv takeWhile_eq_all_conv)
next
  case (3 w v ws)
  let ?r = "join '' '' (v # ws)"
  have w: "w \<noteq> []" "list_all (Not \<circ> is_space) w" "dropWhile is_space (w @ CHR '' '' # ?r) = w @ CHR '' '' # ?r"
    using 3(2) by (cases w; auto simp: plain_word_def list_all_iff)+
  have "Split (w @ CHR '' '' # ?r) = w # Split (CHR '' '' # ?r)"
    using takeWhile_word(1) [of "Not \<circ> is_space" w "CHR '' ''" ?r] w space_chars
    by (subst Split.simps) simp
  also have "Split (CHR '' '' # ?r) = Split ?r"
    using space_chars by (subst (1 2) Split.simps) simp
  finally show ?case using 3 by simp
qed

lemma js_split_join: "list_all plain_word ws \<Longrightarrow> ws \<noteq> [] \<Longrightarrow> js_split (join '' '' ws) = ws"
proof (induction "'' ''" ws rule: join.induct)
  case (2 w)
  then show ?case
    using takeWhile_word(2) [of "Not \<circ> js_space" w]
    by (subst js_split.simps) (simp add: plain_word_def list_all_iff)
next
  case (3 w v ws)
  let ?r = "join '' '' (v # ws)"
  have "\<not> js_space (hd ?r)" "?r \<noteq> []"
    using 3(2) by (cases ws; cases v; auto simp: plain_word_def list_all_iff)+
  then have r: "dropWhile js_space (CHR '' '' # ?r) = ?r"
    using space_chars by (cases ?r) auto
  have "js_split (w @ CHR '' '' # ?r) = w # js_split ?r"
    using takeWhile_word(1) [of "Not \<circ> js_space" w "CHR '' ''" ?r] 3(2) space_chars r
    by (subst js_split.simps) (auto simp: plain_word_def list_all_iff Let_def)
  then show ?case using 3 by simp
qed simp

lemma join_ends:
  "list_all plain_word ws \<Longrightarrow> ws \<noteq> [] \<Longrightarrow> join '' '' ws \<noteq> [] \<and> \<not> js_space (hd (join '' '' ws))
    \<and> \<not> js_space (last (join '' '' ws))"
proof (induction "'' ''" ws rule: join.induct)
  case (2 w)
  then show ?case by (auto simp: plain_word_def list_all_iff)
next
  case (3 w v ws)
  then have "w \<noteq> []" "\<not> js_space (hd w)" by (auto simp: plain_word_def list_all_iff)
  with 3 show ?case by simp
qed simp

lemma find_word_nth: "distinct xs \<Longrightarrow> i < length xs \<Longrightarrow> find_word (xs ! i) xs = Some i"
proof (induction xs arbitrary: i)
  case (Cons x xs)
  have none: "w \<notin> set xs \<Longrightarrow> find_word w xs = None" for w xs by (induction xs) auto
  from Cons show ?case by (cases i) (auto simp: none)
qed simp

lemma WordIndex_nth: "i < 2048 \<Longrightarrow> WordIndex (WORDLIST ! i) = Some i"
  unfolding WordIndex_def BIP39_WORDLIST_def by (rule find_word_nth) (simp_all add: distinct_WORDLIST)

section \<open>The phrase\<close>

text \<open>The words of a bit stream of \<open>11 * n\<close> bits.\<close>

definition chunk :: "nat list \<Rightarrow> nat \<Rightarrow> nat list" where
  "chunk bs j = take 11 (drop (11 * j) bs)"

definition phrase :: "nat list \<Rightarrow> nat \<Rightarrow> string list" where
  "phrase bs n = map (\<lambda>j. WORDLIST ! horner 2 (chunk bs j)) [0..<n]"

lemma chunk_props:
  "is_bits bs \<Longrightarrow> length bs = 11 * n \<Longrightarrow> j < n \<Longrightarrow> is_bits (chunk bs j) \<and> length (chunk bs j) = 11"
  by (auto simp: chunk_def is_bits_def dest: in_set_takeD in_set_dropD)

lemma concat_chunks: "length bs = 11 * n \<Longrightarrow> concat (map (chunk bs) [0..<n]) = bs"
proof (induction n arbitrary: bs)
  case (Suc n)
  have "map (chunk bs) [0..<Suc n] = take 11 bs # map (chunk (drop 11 bs)) [0..<n]"
    by (simp add: upt_conv_Cons map_Suc_upt [symmetric] chunk_def add.commute comp_def del: upt_Suc)
  then show ?case using Suc by simp
qed simp

lemma phrase_words:
  assumes "is_bits bs" and "length bs = 11 * n"
  shows "set (phrase bs n) \<subseteq> set WORDLIST" and "length (phrase bs n) = n"
proof -
  have "horner 2 (chunk bs j) < 2048" if "j < n" for j
    using chunk_index_lt chunk_props [OF assms that] by blast
  then show "set (phrase bs n) \<subseteq> set WORDLIST" by (auto simp: phrase_def)
qed (simp add: phrase_def)

lemma words_loop_phrase:
  assumes "is_bits bs" and "length bs = 11 * n" and "m \<le> n"
  shows "words_loop bs (11 * m) = drop m (phrase bs n)"
  using assms(3)
proof (induction "n - m" arbitrary: m)
  case 0
  then show ?case using assms(2) by (simp add: words_loop.simps phrase_def)
next
  case (Suc d)
  then have m: "m < n" by simp
  have "word_index bs (11 * m) = horner 2 (chunk bs m)"
    unfolding word_index_def chunk_def using m assms(2) by (intro index_horner assms(1)) simp
  moreover have "11 * m + 11 = 11 * Suc m" by simp
  ultimately have "words_loop bs (11 * m) = WORDLIST ! horner 2 (chunk bs m) # words_loop bs (11 * Suc m)"
    using m assms(2) by (subst words_loop.simps) (simp add: add.commute)
  moreover have "drop m (phrase bs n) = WORDLIST ! horner 2 (chunk bs m) # drop (Suc m) (phrase bs n)"
    using m by (simp add: phrase_def Cons_nth_drop_Suc [symmetric])
  ultimately show ?case using Suc.hyps(1) [of "Suc m"] Suc.hyps(2) m by simp
qed

lemma join_Cons: "join '' '' (w # ws) = w @ concat (map ((#) (CHR '' '')) ws)"
proof (induction ws arbitrary: w)
  case (Cons v ws)
  then show ?case by simp
qed simp

lemma mnemonic_loop_phrase:
  assumes "is_bits bs" and "length bs = 11 * n" and "\<And>i. i < 11 * n \<Longrightarrow> bitf i = bs ! i" and "m \<le> n"
  shows "mnemonic_loop bitf (11 * n) (11 * m) out =
    (if out = [] then join '' '' (drop m (phrase bs n))
     else out @ concat (map ((#) (CHR '' '')) (drop m (phrase bs n))))"
  using assms(4)
proof (induction "n - m" arbitrary: m out)
  case 0
  then show ?case by (simp add: mnemonic_loop.simps phrase_def)
next
  case (Suc d)
  then have m: "m < n" by simp
  let ?w = "WORDLIST ! horner 2 (chunk bs m)"
  have fold: "foldl (\<lambda>idx b. push_bit 1 idx OR bitf (11 * m + b)) 0 [0..<11] =
      foldl (\<lambda>idx j. push_bit 1 idx OR (if 11 * m + j < length bs then bs ! (11 * m + j) else 0)) 0 [0..<11]"
    using m assms(2,3) by (intro foldl_cong) auto
  have idx: "foldl (\<lambda>idx b. push_bit 1 idx OR bitf (11 * m + b)) 0 [0..<11] = horner 2 (chunk bs m)"
    unfolding fold chunk_def using m assms(2) by (intro index_horner assms(1)) simp
  have dp: "drop m (phrase bs n) = ?w # drop (Suc m) (phrase bs n)"
    using m by (simp add: phrase_def Cons_nth_drop_Suc [symmetric])
  have ne: "?w \<noteq> []"
  proof -
    have "?w \<in> set WORDLIST" using chunk_index_lt chunk_props [OF assms(1,2) m] by simp
    then show ?thesis using WORDLIST_lower by blast
  qed
  have suc: "11 * m + 11 = 11 * Suc m" and lt: "(11 * m < 11 * n) = True" using m by simp_all
  have "mnemonic_loop bitf (11 * n) (11 * m) out = mnemonic_loop bitf (11 * n) (11 * Suc m)
      ((if out \<noteq> [] then out @ '' '' else out) @ ?w)"
    using m suc by (subst mnemonic_loop.simps) (simp only: Let_def idx BIP39_WORDLIST_def if_True suc lt)
  also have "\<dots> = ((if out \<noteq> [] then out @ '' '' else out) @ ?w) @ concat (map ((#) (CHR '' '')) (drop (Suc m) (phrase bs n)))"
    using Suc.hyps(1) [of "Suc m"] Suc.hyps(2) m ne by simp
  finally show ?case by (simp add: dp join_Cons)
qed

lemma pack_phrase:
  assumes "is_bits bs" and "length bs = 11 * n" and "set js \<subseteq> {0..<n}"
  shows "pack_words (map (\<lambda>j. WORDLIST ! horner 2 (chunk bs j)) js) st =
    Some (foldl put st (concat (map (chunk bs) js)))"
  using assms(3)
proof (induction js arbitrary: st)
  case (Cons j js)
  then have c: "is_bits (chunk bs j)" "length (chunk bs j) = 11" using chunk_props [OF assms(1,2), of j] by auto
  then have "WordIndex (WORDLIST ! horner 2 (chunk bs j)) = Some (horner 2 (chunk bs j))"
    using WordIndex_nth chunk_index_lt by blast
  with Cons c show ?case by (simp add: pack_index_put)
qed simp

text \<open>The stream of an entropy of \<open>4 * k\<close> bytes: its bits and \<open>k\<close> bits of its hash.\<close>

definition stream_of :: "bytes \<Rightarrow> bytes \<Rightarrow> nat \<Rightarrow> nat list" where
  "stream_of ent hash k = concat (map bits_of_byte ent) @ map (digest_bit hash) [0..<k]"

lemma digest_bit_of: "i < 8 * length h \<Longrightarrow> digest_bit h i = bit_of h i"
  by (auto simp: digest_bit_def bit_of_def)

lemma stream_props:
  assumes "length ent = 4 * k" and "length hash = 32" and "k \<le> 8"
  shows "is_bits (stream_of ent hash k)" and "length (stream_of ent hash k) = 33 * k"
    and "i < 33 * k \<Longrightarrow> stream_of ent hash k ! i = bitAt ent hash i"
proof -
  show len: "length (stream_of ent hash k) = 33 * k" using assms by (simp add: stream_of_def)
  show nth: "stream_of ent hash k ! i = bitAt ent hash i" if "i < 33 * k" for i
    using that assms by (auto simp: stream_of_def bitAt_def nth_append entropy_bits_nth digest_bit_of)
  have "bitAt ent hash i < 2" for i by (simp add: bitAt_def bit_of_eq)
  with nth show "is_bits (stream_of ent hash k)"
    unfolding is_bits_def by (auto simp: in_set_conv_nth len)
qed

lemma check_stream:
  assumes len: "length ent = 4 * k" and hash: "length hash = 32" and k: "4 \<le> k" "k \<le> 8"
  defines "bs \<equiv> stream_of ent hash k"
  assumes v: "foldl put (replicate ((33 * k + 7) div 8) 0, 0) bs = (v, pos)"
  shows "take (4 * k) v = ent" and "\<forall>i<k. bit_of v (32 * k + i) = bit_of hash i"
proof -
  let ?z = "replicate ((33 * k + 7) div 8) (0 :: byte)"
  note st = stream_props [OF len hash k(2), folded bs_def]
  have z: "bit_of ?z p = 0" if "p < 8 * length ?z" for p
    using that by (simp add: bit_of_eq less_mult_imp_div_less mult.commute)
  have res: "length v = length ?z" "\<forall>p < 8 * length ?z. bit_of v p = (if p < 33 * k then bs ! p else bit_of ?z p)"
    using put_bits [OF v _ _ st(1)] st(2) z by auto
  have lz: "33 * k \<le> 8 * length ?z" by simp
  have bit: "bit_of v p = bitAt ent hash p" if "p < 33 * k" for p
    using res(2) st(3) [OF that] that lz by auto
  have lv: "4 * k \<le> length v" using res(1) by simp
  show "take (4 * k) v = ent"
  proof (rule bytes_eqI)
    show "length (take (4 * k) v) = length ent" using lv len by simp
    fix p assume p: "p < 8 * length ent"
    then have "bit_of (take (4 * k) v) p = bit_of v p" using len by (simp add: bit_of_def less_mult_imp_div_less mult.commute)
    also have "\<dots> = bit_of ent p" using bit [of p] p len by (simp add: bitAt_def)
    finally show "bit_of (take (4 * k) v) p = bit_of ent p" .
  qed
  show "\<forall>i<k. bit_of v (32 * k + i) = bit_of hash i"
    using bit len by (auto simp: bitAt_def)
qed

section \<open>Properties\<close>

text \<open>
  C10. Recovery phrases agree. For 128, 160, 192, 224 or 256 bits, \<open>generateMnemonic\<close> returns the
  phrase that the daemon's \<open>MnemonicFromEntropy\<close> makes of the same random bytes; the wallet's
  word check and the daemon's \<open>CheckMnemonic\<close>, checksum included, both accept it.
\<close>

theorem generateMnemonic_valid:
  assumes "same_hd E W" and "length (getRandomValues W (4 * k)) = 4 * k" and "4 \<le> k" and "k \<le> 8"
  shows "\<exists>m. generateMnemonic W (32 * k) = Inr m
    \<and> m = MnemonicFromEntropy E (getRandomValues W (4 * k))
    \<and> validateMnemonicWords m \<and> CheckMnemonic E m"
proof -
  define ent where "ent = getRandomValues W (4 * k)"
  define hash where "hash = SHA256 (ssl E) ent"
  define bs where "bs = stream_of ent hash k"
  define n where "n = 3 * k"
  have sc: "same_crypto (ssl E) W" using assms(1) by (simp add: same_hd_def)
  have sha: "sha256 W ent = hash" using same_crypto.same_SHA256 [OF sc] by (simp add: sha256_def hash_def)
  have hl: "length hash = 32"
    using sc by (auto simp: hash_def same_crypto_def openssl_digest_def)
  have el: "length ent = 4 * k" using assms(2) by (simp add: ent_def)
  note st = stream_props [OF el hl assms(4), folded bs_def]
  have bits: "is_bits bs" "length bs = 11 * n" using st by (simp_all add: n_def)
  define m where "m = join '' '' (phrase bs n)"
  note ph = phrase_words [OF bits]
  have plain: "list_all plain_word (phrase bs n)" "phrase bs n \<noteq> []"
    using ph WORDLIST_plain assms(3) by (auto simp: list_all_iff n_def)
  have gen: "generateMnemonic W (32 * k) = Inr m"
    using words_loop_phrase [OF bits, of 0] assms(4)
    by (simp add: generateMnemonic_def m_def ent_def [symmetric] sha Let_def bs_def stream_of_def)
  have from_ent: "MnemonicFromEntropy E ent = m"
    using mnemonic_loop_phrase [OF bits _, of "bitAt ent hash" 0 "[]"] st(3) el assms(3,4)
    by (simp add: MnemonicFromEntropy_def hash_def [symmetric] m_def n_def Let_def)
  have val: "validateMnemonicWords m"
    using js_split_join [OF plain] join_ends [OF plain] js_trim_id [of m] ph assms(3,4)
    by (auto simp: validateMnemonicWords_def m_def n_def list_all_iff Let_def)
  obtain v pos where v: "foldl put (replicate ((33 * k + 7) div 8) 0, 0) bs = (v, pos)" by fastforce
  have pack: "pack_words (phrase bs n) (replicate ((33 * k + 7) div 8) 0, 0) = Some (v, pos)"
    using pack_phrase [OF bits, of "[0..<n]"] concat_chunks [OF bits(2)] v by (simp add: phrase_def)
  note chk = check_stream [OF el hl assms(3,4), folded bs_def, OF v]
  have ar: "n * 11 = 33 * k" "33 * k div 33 = k" "33 * k - k = 32 * k" "32 * k div 8 = 4 * k"
    by (simp_all add: n_def)
  have "CheckMnemonic E m"
    unfolding CheckMnemonic_def m_def Split_join [OF plain(1)] ph(2) Let_def ar pack option.case prod.case chk(1) hash_def [symmetric]
    using chk(2) assms(3,4) by (auto simp: list_all_iff n_def mod_mult_self1_is_0)
  with gen from_ent val show ?thesis by (auto simp: ent_def)
qed

theorem generateMnemonic_valid_witness:
  "\<exists>m. generateMnemonic web_ref 128 = Inr m \<and> CheckMnemonic openssl_hd_ref m"
  using generateMnemonic_valid [OF ref_hd.same_hd_axioms, of 4] by (auto simp: web_ref_def)

end
