(* ===== verification/Bech32.thy ===== *)
theory Bech32
  imports Positional
begin

text \<open>
  \<open>bech32.cpp\<close>: the bech32 and bech32m string encodings. The checksum is linear over the two-element
  field (\<open>PolyMod\<close> is a shift register), which gives both that a created checksum verifies and
  that corrupted strings do not. \<open>ConvertBits\<close> re-packs the digits of one number in another base.
  The use of this encoding for addresses is in \<open>Bech32_Address\<close>.
\<close>

section \<open>Checksum\<close>

definition CHARSET :: string where
  "CHARSET = ''qpzry9x8gf2tvdw0s3jn54khce6mua7l''"

definition CHARSET_REV :: "int list" where
  "CHARSET_REV =
    [-1, -1, -1, -1, -1, -1, -1, -1, -1, -1, -1, -1, -1, -1, -1, -1,
     -1, -1, -1, -1, -1, -1, -1, -1, -1, -1, -1, -1, -1, -1, -1, -1,
     -1, -1, -1, -1, -1, -1, -1, -1, -1, -1, -1, -1, -1, -1, -1, -1,
     15, -1, 10, 17, 21, 20, 26, 30,  7,  5, -1, -1, -1, -1, -1, -1,
     -1, 29, -1, 24, 13, 25,  9,  8, 23, -1, 18, 22, 31, 27, 19, -1,
      1,  0,  3, 16, 11, 28, 12, 14,  6,  4,  2, -1, -1, -1, -1, -1,
     -1, 29, -1, 24, 13, 25,  9,  8, 23, -1, 18, 22, 31, 27, 19, -1,
      1,  0,  3, 16, 11, 28, 12, 14,  6,  4,  2, -1, -1, -1, -1, -1]"

definition BECH32_CONST :: u32 where "BECH32_CONST = 1"
definition BECH32M_CONST :: u32 where "BECH32M_CONST = 0x2bc830a3"

text \<open>The body of the loop of \<open>PolyMod\<close>, and the loop.\<close>

definition polymod_step :: "u32 \<Rightarrow> byte \<Rightarrow> u32" where
  "polymod_step c v_i =
     (let c0 = ucast (drop_bit 25 c) :: byte;
          c = push_bit 5 (c AND 0x1ffffff) XOR ucast v_i;
          c = (if c0 AND 1 \<noteq> 0 then c XOR 0x3b6a57b2 else c);
          c = (if c0 AND 2 \<noteq> 0 then c XOR 0x26508e6d else c);
          c = (if c0 AND 4 \<noteq> 0 then c XOR 0x1ea119fa else c);
          c = (if c0 AND 8 \<noteq> 0 then c XOR 0x3d4233dd else c);
          c = (if c0 AND 16 \<noteq> 0 then c XOR 0x2a1462b3 else c)
      in c)"

definition PolyMod :: "bytes \<Rightarrow> u32" where
  "PolyMod v = foldl polymod_step 1 v"

text \<open>A \<open>char\<close> as a byte; \<open>c >> 5\<close> is the arithmetic shift of the promoted signed value.\<close>

definition char_byte :: "char \<Rightarrow> byte" where
  "char_byte c = of_char c"

definition ExpandHRP :: "string \<Rightarrow> bytes" where
  "ExpandHRP hrp =
     map (\<lambda>c. signed_drop_bit 5 (char_byte c)) hrp @ [0] @ map (\<lambda>c. char_byte c AND 0x1f) hrp"

datatype Encoding = INVALID | BECH32 | BECH32M

definition VerifyChecksum :: "string \<Rightarrow> bytes \<Rightarrow> Encoding" where
  "VerifyChecksum hrp vals =
     (let check = PolyMod (ExpandHRP hrp @ vals) in
      if check = BECH32_CONST then BECH32
      else if check = BECH32M_CONST then BECH32M
      else INVALID)"

definition checksum_const :: "Encoding \<Rightarrow> u32" where
  "checksum_const encoding = (if encoding = BECH32M then BECH32M_CONST else BECH32_CONST)"

definition CreateChecksum :: "Encoding \<Rightarrow> string \<Rightarrow> bytes \<Rightarrow> bytes" where
  "CreateChecksum encoding hrp vals =
     (let enc = ExpandHRP hrp @ vals @ replicate 6 0;
          m = PolyMod enc XOR checksum_const encoding
      in map (\<lambda>i. ucast (drop_bit (5 * (5 - i)) m AND 0x1f)) [0..<6])"

section \<open>Encoding and decoding\<close>

definition is_upper :: "char \<Rightarrow> bool" where
  "is_upper c = (char_byte (CHR ''A'') \<le> char_byte c \<and> char_byte c \<le> char_byte (CHR ''Z''))"

definition is_lower :: "char \<Rightarrow> bool" where
  "is_lower c = (char_byte (CHR ''a'') \<le> char_byte c \<and> char_byte c \<le> char_byte (CHR ''z''))"

text \<open>\<open>tolower\<close> in the C locale.\<close>

definition tolower :: "char \<Rightarrow> char" where
  "tolower c = (if is_upper c then char_of (of_char c + 32 :: int) else c)"

definition Encode :: "Encoding \<Rightarrow> string \<Rightarrow> bytes \<Rightarrow> string" where
  "Encode encoding hrp vals =
     (if encoding = INVALID \<or> hrp = [] then []
      else if \<exists>c\<in>set hrp. sint (char_byte c) < 33 \<or> sint (char_byte c) > 126 \<or> is_upper c then []
      else if length hrp + 1 + length vals + 6 > 90 then []
      else if \<exists>v\<in>set vals. drop_bit 5 v \<noteq> 0 then []
      else
        (let checksum = CreateChecksum encoding hrp vals
         in hrp @ ''1'' @ map (\<lambda>v. CHARSET ! unat v) vals @ map (\<lambda>v. CHARSET ! unat v) checksum))"

record DecodeResult =
  dr_encoding :: Encoding
  dr_hrp :: string
  dr_data :: bytes

definition no_result :: DecodeResult where
  "no_result = \<lparr> dr_encoding = INVALID, dr_hrp = [], dr_data = [] \<rparr>"

text \<open>\<open>std::string::rfind\<close> of a character; \<open>None\<close> is \<open>npos\<close>.\<close>

fun rfind :: "char \<Rightarrow> string \<Rightarrow> nat option" where
  "rfind c [] = None"
| "rfind c (d # s) =
     (case rfind c s of Some i \<Rightarrow> Some (Suc i) | None \<Rightarrow> (if d = c then Some 0 else None))"

text \<open>The loop over the data part; \<open>None\<close> is a character that is not in the charset.\<close>

fun rev_values :: "string \<Rightarrow> bytes option" where
  "rev_values [] = Some []"
| "rev_values (c # s) =
     (let r = CHARSET_REV ! unat (char_byte c) in
      if r = - 1 then None else map_option ((#) (word_of_int r)) (rev_values s))"

definition Decode :: "string \<Rightarrow> DecodeResult" where
  "Decode str =
     (if length str > 90 then no_result
      else if \<exists>c\<in>set str. char_byte c < 33 \<or> char_byte c > 126 then no_result
      else if (\<exists>c\<in>set str. is_lower c) \<and> (\<exists>c\<in>set str. is_upper c) then no_result
      else case rfind (CHR ''1'') str of None \<Rightarrow> no_result
      | Some pos \<Rightarrow>
          if pos = 0 \<or> pos + 7 > length str then no_result
          else
            (let h = map tolower (take pos str) in
             case rev_values (drop (pos + 1) str) of None \<Rightarrow> no_result
             | Some vals \<Rightarrow>
                 (let e = VerifyChecksum h vals in
                  if e = INVALID then no_result
                  else \<lparr> dr_encoding = e, dr_hrp = h, dr_data = take (length vals - 6) vals \<rparr>)))"

section \<open>Re-packing bits\<close>

text \<open>
  \<open>emit_groups\<close> is the inner loop, which appends groups while enough bits are there (a group has at
  least one bit in every call, so the loop ends). The result is the flag and the vector \<open>out\<close>,
  to which groups have been appended also when the flag is \<open>False\<close>.
\<close>

function emit_groups :: "nat \<Rightarrow> u32 \<Rightarrow> nat \<Rightarrow> bytes \<Rightarrow> nat \<times> bytes" where
  "emit_groups tobits acc bits out =
     (if 0 < tobits \<and> tobits \<le> bits
      then emit_groups tobits acc (bits - tobits)
             (out @ [ucast (drop_bit (bits - tobits) acc AND (push_bit tobits 1 - 1))])
      else (bits, out))"
  by pat_completeness auto
termination by (relation "measure (\<lambda>(t, a, b, l). b)") auto

declare emit_groups.simps [simp del]

fun convert_loop :: "nat \<Rightarrow> nat \<Rightarrow> bytes \<Rightarrow> u32 \<Rightarrow> nat \<Rightarrow> bytes \<Rightarrow> bool \<times> u32 \<times> nat \<times> bytes" where
  "convert_loop frombits tobits [] acc bits out = (True, acc, bits, out)"
| "convert_loop frombits tobits (v # vs) acc bits out =
     (if drop_bit frombits v \<noteq> 0 then (False, acc, bits, out)
      else
        (let acc = (push_bit frombits acc OR ucast v) AND (push_bit (frombits + tobits - 1) 1 - 1);
             (bits, out) = emit_groups tobits acc (bits + frombits) out
         in convert_loop frombits tobits vs acc bits out))"

definition ConvertBits :: "nat \<Rightarrow> nat \<Rightarrow> bool \<Rightarrow> bytes \<Rightarrow> bytes \<Rightarrow> bool \<times> bytes" where
  "ConvertBits frombits tobits pad out vin =
     (let (ok, acc, bits, out) = convert_loop frombits tobits vin 0 0 out;
          last = push_bit (tobits - bits) acc AND (push_bit tobits 1 - 1)
      in if \<not> ok then (False, out)
         else if pad then (True, if bits \<noteq> 0 then out @ [ucast last] else out)
         else if frombits \<le> bits \<or> last \<noteq> 0 then (False, out)
         else (True, out))"

section \<open>The checksum register is linear\<close>

text \<open>The feedback that the five bits shifted out select.\<close>

definition feedback :: "u32 \<Rightarrow> u32" where
  "feedback c =
     (if bit c 25 then 0x3b6a57b2 else 0) XOR (if bit c 26 then 0x26508e6d else 0)
       XOR (if bit c 27 then 0x1ea119fa else 0) XOR (if bit c 28 then 0x3d4233dd else 0)
       XOR (if bit c 29 then 0x2a1462b3 else 0)"

lemma shifted_out:
  fixes c :: u32
  shows "ucast (drop_bit 25 c) AND (1::byte) \<noteq> 0 \<longleftrightarrow> bit c 25"
    and "ucast (drop_bit 25 c) AND (2::byte) \<noteq> 0 \<longleftrightarrow> bit c 26"
    and "ucast (drop_bit 25 c) AND (4::byte) \<noteq> 0 \<longleftrightarrow> bit c 27"
    and "ucast (drop_bit 25 c) AND (8::byte) \<noteq> 0 \<longleftrightarrow> bit c 28"
    and "ucast (drop_bit 25 c) AND (16::byte) \<noteq> 0 \<longleftrightarrow> bit c 29"
proof -
  have t: "w AND 2 ^ n \<noteq> 0 \<longleftrightarrow> bit w n" for w :: byte and n
    by (simp add: and_exp_eq_0_iff_not_bit)
  have b: "bit (ucast (drop_bit 25 c) :: byte) n \<longleftrightarrow> n < 8 \<and> bit c (25 + n)" for n
    by (auto simp: bit_simps)
  show "ucast (drop_bit 25 c) AND (1::byte) \<noteq> 0 \<longleftrightarrow> bit c 25" using t [of _ 0] b by simp
  show "ucast (drop_bit 25 c) AND (2::byte) \<noteq> 0 \<longleftrightarrow> bit c 26" using t [of _ 1] b by simp
  show "ucast (drop_bit 25 c) AND (4::byte) \<noteq> 0 \<longleftrightarrow> bit c 27" using t [of _ 2] b by simp
  show "ucast (drop_bit 25 c) AND (8::byte) \<noteq> 0 \<longleftrightarrow> bit c 28" using t [of _ 3] b by simp
  show "ucast (drop_bit 25 c) AND (16::byte) \<noteq> 0 \<longleftrightarrow> bit c 29" using t [of _ 4] b by simp
qed

lemma polymod_step_eq:
  "polymod_step c v = push_bit 5 (c AND 0x1ffffff) XOR ucast v XOR feedback c"
  unfolding polymod_step_def feedback_def Let_def shifted_out by (simp add: xor.assoc)

lemma feedback_xor: "feedback (c XOR d) = feedback c XOR feedback d"
  by (simp add: feedback_def bit_xor_iff ac_simps)

lemma polymod_step_xor: "polymod_step (c XOR d) (v XOR w) = polymod_step c v XOR polymod_step d w"
  unfolding polymod_step_eq feedback_xor
  by (rule bit_eqI) (auto simp: bit_simps)

lemma polymod_xor:
  "length xs = length ys \<Longrightarrow>
     foldl polymod_step (c XOR d) (map2 (XOR) xs ys) = foldl polymod_step c xs XOR foldl polymod_step d ys"
  by (induction xs ys arbitrary: c d rule: list_induct2) (simp_all add: polymod_step_xor)

section \<open>Five-bit values and 30-bit states\<close>

lemma take_bit_self_iff: "take_bit k w = w \<longleftrightarrow> unat w < 2 ^ k" for w :: "'a::len word"
proof -
  have "take_bit k w = w \<longleftrightarrow> unat (take_bit k w) = unat w" by (auto dest: injD [OF inj_unsigned])
  also have "\<dots> \<longleftrightarrow> take_bit k (unat w) = unat w" by (simp add: unsigned_take_bit_eq)
  finally show ?thesis by (simp add: take_bit_nat_eq_self_iff)
qed

lemma unat_less_exp_iff: "unat w < 2 ^ k \<longleftrightarrow> (\<forall>n. k \<le> n \<longrightarrow> \<not> bit w n)" for w :: "'a::len word"
proof -
  have "take_bit k w = w \<longleftrightarrow> (\<forall>n. k \<le> n \<longrightarrow> \<not> bit w n)"
    unfolding bit_eq_iff by (auto simp: bit_take_bit_iff not_le dest: bit_imp_le_length)
  then show ?thesis by (simp add: take_bit_self_iff)
qed

lemma drop_bit_eq_0_iff: "drop_bit k w = 0 \<longleftrightarrow> unat w < 2 ^ k" for w :: "'a::len word"
proof -
  have "drop_bit k w = 0 \<longleftrightarrow> (\<forall>n. \<not> bit w (k + n))"
    by (simp add: bit_eq_iff [of "drop_bit k w"] bit_drop_bit_eq)
      (metis bit_imp_le_length le_add2 le_less_trans)
  also have "\<dots> \<longleftrightarrow> (\<forall>n. k \<le> n \<longrightarrow> \<not> bit w n)" by (auto dest: le_Suc_ex)
  finally show ?thesis by (simp add: unat_less_exp_iff)
qed

lemma unat_xor_less: "unat v < 2 ^ k \<Longrightarrow> unat w < 2 ^ k \<Longrightarrow> unat (v XOR w) < 2 ^ k" for v w :: "'a::len word"
  by (simp add: unat_less_exp_iff bit_simps)

lemma xor_eq_0_iff: "v XOR w = 0 \<longleftrightarrow> v = w" for v w :: "'a::len word"
  by (metis xor.left_neutral xor.right_neutral xor_self_eq xor.assoc)

lemma mask25: "(0x1ffffff :: u32) = mask 25"
  by (simp add: mask_eq_decr_exp)

lemma feedback_small: "unat c < 2 ^ 25 \<Longrightarrow> feedback c = 0"
  by (simp add: unat_less_exp_iff feedback_def del: power_numeral)

lemma feedback_lt: "unat (feedback c) < 2 ^ 30"
  unfolding feedback_def by (intro unat_xor_less) simp_all

lemma polymod_step_lt:
  assumes "unat v < 32" 
  shows "unat (polymod_step c v) < 2 ^ 30"
  unfolding polymod_step_eq mask25
proof (intro unat_xor_less feedback_lt)
  show "unat (push_bit 5 (c AND mask 25)) < 2 ^ 30"
    unfolding unat_less_exp_iff by (auto simp: bit_simps)
  show "unat (ucast v :: u32) < 2 ^ 30" using assms by (simp add: unsigned_ucast_eq take_bit_nat_eq_self)
qed

lemma polymod_step_small:
  assumes "unat c < 2 ^ 25" and "unat v < 32"
  shows "unat (polymod_step c v) = unat c * 32 + unat v"
proof -
  have c: "c AND 0x1ffffff = c"
    using assms(1) by (simp add: mask25 take_bit_self_iff flip: take_bit_eq_mask)
  have v: "\<not> bit v n" if "5 \<le> n" for n
    using assms(2) that unat_less_exp_iff [of v 5] by simp
  have "push_bit 5 c AND ucast v = 0"
    using v by (intro bit_eqI) (auto simp: bit_simps)
  then have "polymod_step c v = push_bit 5 c + ucast v"
    unfolding polymod_step_eq c feedback_small [OF assms(1)]
    by (metis disjunctive_xor_eq_or xor.right_neutral disjunctive_add_eq_or)
  also have "\<dots> = word_of_nat (unat c * 32 + unat v)"
    by (simp add: push_bit_eq_mult unsigned_ucast_eq)
  finally have "unat (polymod_step c v) = unat (word_of_nat (unat c * 32 + unat v) :: u32)" by (rule arg_cong)
  also have "\<dots> = unat c * 32 + unat v" by (rule unat_of_nat_small) (use assms in simp)
  finally show ?thesis .
qed

lemma polymod_zero_inj:
  assumes "unat d < 2 ^ 30" and "polymod_step d 0 = 0"
  shows "d = 0"
proof -
  have "push_bit 5 (d AND 0x1ffffff) XOR feedback d = 0"
    using assms(2) by (simp only: polymod_step_eq) simp
  then have f: "feedback d = push_bit 5 (d AND 0x1ffffff)" by (simp only: xor_eq_0_iff)
  have low: "feedback d AND mask 5 = 0"
    unfolding f by (rule bit_eqI) (auto simp: bit_simps)
  then have b: "\<not> bit d 25 \<and> \<not> bit d 26 \<and> \<not> bit d 27 \<and> \<not> bit d 28 \<and> \<not> bit d 29"
    unfolding feedback_def 
    by (cases "bit d 25"; cases "bit d 26"; cases "bit d 27"; cases "bit d 28"; cases "bit d 29"; simp add: mask_eq_decr_exp)
  then have p: "push_bit 5 (d AND 0x1ffffff) = 0" using f by (simp add: feedback_def)
  have "\<not> bit d n" for n
  proof (cases "n < 25")
    case True
    then show ?thesis using arg_cong [OF p, of "\<lambda>w. bit w (n + 5)"] unfolding mask25 by (simp add: bit_simps)
  next
    case False
    then consider "n = 25" | "n = 26" | "n = 27" | "n = 28" | "n = 29" | "30 \<le> n" by linarith
    then show ?thesis using b assms(1) unfolding unat_less_exp_iff by cases auto
  qed
  then show ?thesis by (simp add: bit_eq_iff)
qed

context radix
begin

lemma horner_inj:
  assumes "length xs = length ys" and "\<forall>d\<in>set xs. d < b" and "\<forall>d\<in>set ys. d < b"
    and "horner b xs = horner b ys"
  shows "xs = ys"
  using assms
proof (induction xs ys rule: rev_induct2)
  case (4 x xs y ys)
  then have lt: "x < b" "y < b" and eq: "horner b xs * b + x = horner b ys * b + y" by simp_all
  have "x = y" using lt arg_cong [OF eq, of "\<lambda>n. n mod b"] by simp
  moreover have "horner b xs = horner b ys" using lt arg_cong [OF eq, of "\<lambda>n. n div b"] by simp
  ultimately show ?case using 4 by simp
qed simp_all

end

interpretation b32: alphabet 32 CHARSET
  by unfold_locales (simp_all add: CHARSET_def)

abbreviation fives :: "bytes \<Rightarrow> bool" where
  "fives vs \<equiv> \<forall>v\<in>set vs. unat v < 32"

lemma polymod_lt: "unat c < 2 ^ 30 \<Longrightarrow> fives vs \<Longrightarrow> unat (foldl polymod_step c vs) < 2 ^ 30"
  by (induction vs arbitrary: c) (simp_all add: polymod_step_lt [simplified])

text \<open>From the zero state, up to six values are simply shifted in.\<close>

lemma polymod_pack: "length vs \<le> 6 \<Longrightarrow> fives vs \<Longrightarrow> unat (foldl polymod_step 0 vs) = horner 32 (map unat vs)"
proof (induction vs rule: rev_induct)
  case (snoc v vs)
  have "horner 32 (map unat vs) < 32 ^ length vs" using b32.horner_bound [of "map unat vs"] snoc.prems by simp
  also have "\<dots> \<le> 32 ^ 5" using snoc.prems by (intro power_increasing) simp_all
  finally have "unat (foldl polymod_step 0 vs) < 2 ^ 25" using snoc by simp
  then show ?case using snoc polymod_step_small by simp
qed simp

lemma polymod_zeros_inj:
  "unat d < 2 ^ 30 \<Longrightarrow> foldl polymod_step d (replicate k 0) = 0 \<Longrightarrow> d = 0"
  by (induction k arbitrary: d) (auto dest: polymod_zero_inj [simplified] simp: polymod_step_lt [simplified])

lemma polymod_differ:
  assumes "length vs = length ws" "length vs \<le> 6" "fives vs" "fives ws" "vs \<noteq> ws"
  shows "foldl polymod_step c (vs @ tl_vs) \<noteq> foldl polymod_step c (ws @ tl_vs)"
proof
  let ?d = "map2 (XOR) vs ws"
  have z: "map2 (XOR) xs xs = replicate (length xs) (0 :: byte)" for xs by (induction xs) auto
  have fd: "fives ?d"
    using assms(3,4) unat_xor_less [of _ 5] by (auto simp: in_set_zip intro!: unat_xor_less [of _ 5, simplified])
  assume "foldl polymod_step c (vs @ tl_vs) = foldl polymod_step c (ws @ tl_vs)"
  then have "foldl polymod_step (c XOR c) (map2 (XOR) (vs @ tl_vs) (ws @ tl_vs)) = 0"
    by (subst polymod_xor) (simp_all add: assms(1))
  then have "foldl polymod_step (foldl polymod_step 0 ?d) (replicate (length tl_vs) 0) = 0"
    by (simp add: assms(1) z)
  then have "foldl polymod_step 0 ?d = 0"
    by (rule polymod_zeros_inj [rotated]) (simp add: polymod_lt [simplified] fd del: foldl_map)
  then have "horner 32 (map unat ?d) = 0"
    using polymod_pack [of ?d] assms(1,2) fd by simp
  then have "horner 32 (map unat ?d) = horner 32 (replicate (length ?d) 0)"
    using horner_replicate_0 [of 32 "length ?d" "[]"] by simp
  then have "map unat ?d = replicate (length ?d) 0"
    using fd by (intro b32.horner_inj) auto
  then have eq: "map unat ?d ! i = replicate (length ?d) 0 ! i" for i by (rule arg_cong)
  have "vs ! i XOR ws ! i = 0" if "i < length vs" for i
    using eq [of i] that assms(1) by (simp add: unat_eq_0)
  then have "vs = ws" using assms(1) by (intro nth_equalityI) (simp_all add: xor_eq_0_iff)
  then show False using assms(5) by contradiction
qed

lemma horner_base32_digits:
  "horner 32 (map (\<lambda>i. n div 32 ^ (k - Suc i) mod 32) [0..<k]) = n mod 32 ^ k"
proof (induction k arbitrary: n)
  case (Suc k)
  have "map (\<lambda>i. n div 32 ^ (Suc k - Suc i) mod 32) [0..<k]
      = map (\<lambda>i. (n div 32) div 32 ^ (k - Suc i) mod 32) [0..<k]"
    by (auto simp: Suc_diff_Suc div_mult2_eq [symmetric] simp flip: power_Suc)
  then have "horner 32 (map (\<lambda>i. n div 32 ^ (Suc k - Suc i) mod 32) [0..<Suc k])
      = (n div 32) mod 32 ^ k * 32 + n mod 32"
    by (simp only: Suc upt_Suc zero_le if_True map_append list.map horner_snoc diff_self_eq_0 power_0 div_by_1)
  also have "\<dots> = n mod 32 ^ Suc k" by (simp add: mod_mult2_eq)
  finally show ?case .
qed simp

definition digits6 :: "u32 \<Rightarrow> bytes" where
  "digits6 m = map (\<lambda>i. ucast (drop_bit (5 * (5 - i)) m AND 0x1f)) [0..<6]"

lemma take_bit_unat [simp]: "take_bit 32 (unat (m :: u32)) = unat m"
  by (rule take_bit_nat_eq_self) (use unat_lt_2p [of m] in simp)

lemma unat_digit5: "unat (ucast (drop_bit (5 * j) (m :: u32) AND 0x1f) :: byte) = unat m div 32 ^ j mod 32"
proof -
  have "(0x1f :: u32) = mask 5" by (simp add: mask_eq_decr_exp)
  then have "drop_bit (5 * j) m AND 0x1f = take_bit 5 (drop_bit (5 * j) m)" by (simp add: take_bit_eq_mask)
  then have "unat (ucast (drop_bit (5 * j) m AND 0x1f) :: byte) = take_bit 8 (take_bit 5 (drop_bit (5 * j) (unat m)))"
    by (simp only: unsigned_ucast_eq unsigned_take_bit_eq unsigned_drop_bit_eq) simp
  then show ?thesis by (simp add: drop_bit_eq_div take_bit_eq_mod power_mult)
qed

lemma digits6_fives [simp]: "fives (digits6 m)"
  by (simp only: digits6_def set_map ball_simps unat_digit5) simp

lemma length_digits6 [simp]: "length (digits6 m) = 6"
  by (simp add: digits6_def)

lemma horner_digits6: "unat m < 2 ^ 30 \<Longrightarrow> horner 32 (map unat (digits6 m)) = unat m"
  using horner_base32_digits [of "unat m" 6] by (simp add: digits6_def comp_def unat_digit5 [of "5 - _"] del: upt_rec_numeral)

lemma polymod_created:
  assumes "fives enc" and "unat k < 2 ^ 30"
  shows "PolyMod (enc @ digits6 (PolyMod (enc @ replicate 6 0) XOR k)) = k"
proof -
  let ?s = "foldl polymod_step 1 enc" and ?z = "replicate 6 (0 :: byte)"
  let ?m = "foldl polymod_step ?s ?z XOR k"
  have x: "map2 (XOR) (replicate n 0) xs = xs" if "n = length xs" for n and xs :: bytes
    using that by (induction xs arbitrary: n) auto
  have s: "unat ?s < 2 ^ 30" using assms(1) by (intro polymod_lt) simp_all
  then have m: "unat ?m < 2 ^ 30" using assms(2) by (intro unat_xor_less polymod_lt [OF s]) auto
  then have "unat (foldl polymod_step 0 (digits6 ?m)) = unat ?m"
    using polymod_pack [of "digits6 ?m"] horner_digits6 [OF m] digits6_fives by simp
  then have pack: "foldl polymod_step 0 (digits6 ?m) = ?m" by (simp only: word_unat_eq_iff)
  have "foldl polymod_step ?s (digits6 ?m) = foldl polymod_step (?s XOR 0) (map2 (XOR) ?z (digits6 ?m))"
    by (simp only: x length_digits6 xor.right_neutral)
  also have "\<dots> = foldl polymod_step ?s ?z XOR ?m"
    by (subst polymod_xor) (simp_all only: length_digits6 length_replicate pack)
  also have "\<dots> = k" by (simp only: xor.assoc [symmetric] xor_self_eq xor.left_neutral)
  finally show ?thesis by (simp only: PolyMod_def foldl_append)
qed

section \<open>Characters\<close>

abbreviation printable :: "char \<Rightarrow> bool" where
  "printable c \<equiv> 33 \<le> char_byte c \<and> char_byte c \<le> 126"

lemma char_cases: "list_all P Enum.enum \<Longrightarrow> P (c :: char)"
  by (simp add: list_all_iff enum_UNIV)

lemma printable_signed: "\<not> (sint (char_byte c) < 33 \<or> sint (char_byte c) > 126) \<longleftrightarrow> printable c"
  by (rule char_cases [where c = c]) code_simp

lemma expand_small: "printable c \<longrightarrow> unat (signed_drop_bit 5 (char_byte c)) < 32 \<and> unat (char_byte c AND 0x1f) < 32"
  by (rule char_cases [where c = c]) code_simp

lemma char_byte_tolower: "is_upper c \<Longrightarrow> char_byte (tolower c) = char_byte c + 32"
proof -
  have "char_byte (char_of k) = word_of_int k" for k :: int
  proof -
    have "char_byte (char_of k) = of_int (of_char (char_of k) :: int)"
      by (simp only: char_byte_def of_int_of_char)
    also have "\<dots> = word_of_int (k mod 256)" by (simp only: of_char_of)
    finally show ?thesis by (simp add: word_of_int_eq_iff take_bit_eq_mod)
  qed
  then show "is_upper c \<Longrightarrow> ?thesis" by (simp add: tolower_def) (simp add: char_byte_def of_int_of_char)
qed

lemma upper_bytes: "is_upper c \<longleftrightarrow> 65 \<le> unat (char_byte c) \<and> unat (char_byte c) \<le> 90"
  and lower_bytes: "is_lower c \<longleftrightarrow> 97 \<le> unat (char_byte c) \<and> unat (char_byte c) \<le> 122"
  by (simp_all add: is_upper_def is_lower_def char_byte_def word_le_nat_alt)

lemma tolower_printable: "printable c \<Longrightarrow> printable (tolower c)"
 and tolower_not_upper [simp]: "\<not> is_upper (tolower c)"
 and tolower_upper: "is_upper c \<Longrightarrow> is_lower (tolower c)"
proof -
  have u: "unat (char_byte (tolower c)) = unat (char_byte c) + 32" if "is_upper c"
    using that char_byte_tolower [OF that] by (simp add: upper_bytes unat_word_ariths)
  show "printable c \<Longrightarrow> printable (tolower c)" using u by (cases "is_upper c") (auto simp: tolower_def upper_bytes word_le_nat_alt)
  show "\<not> is_upper (tolower c)" using u by (cases "is_upper c") (auto simp: tolower_def upper_bytes word_le_nat_alt)
  show "is_upper c \<Longrightarrow> is_lower (tolower c)" using u by (auto simp: lower_bytes upper_bytes word_le_nat_alt)
qed

lemma tolower_id: "\<not> is_upper c \<Longrightarrow> tolower c = c"
  by (simp add: tolower_def)

lemma charset_rev:
  "printable c \<longrightarrow> CHARSET_REV ! unat (char_byte c)
     = (case index_of (tolower c) CHARSET of None \<Rightarrow> - 1 | Some i \<Rightarrow> int i)"
  by (rule char_cases [where c = c]) code_simp

lemma charset_char: "c \<in> set CHARSET \<Longrightarrow> printable c \<and> \<not> is_upper c \<and> c \<noteq> CHR ''1''"
proof -
  have "list_all (\<lambda>c. printable c \<and> \<not> is_upper c \<and> c \<noteq> CHR ''1'') CHARSET" by code_simp
  then show "c \<in> set CHARSET \<Longrightarrow> ?thesis" by (simp add: list_all_iff)
qed


lemma tolower_one [simp]: "tolower c = CHR ''1'' \<longleftrightarrow> c = CHR ''1''"
proof -
  have "\<not> is_lower (CHR ''1'')" "\<not> is_upper (CHR ''1'')" by code_simp+
  then show ?thesis using tolower_upper [of c] by (cases "is_upper c") (auto simp: tolower_id)
qed

section \<open>Encoding and decoding are inverse\<close>

definition chr5 :: "byte \<Rightarrow> char" where
  "chr5 v = CHARSET ! unat v"

lemma chr5_in: "unat v < 32 \<Longrightarrow> chr5 v \<in> set CHARSET"
  by (simp add: chr5_def b32.size_abc)

lemma chr5_index: "unat v < 32 \<Longrightarrow> index_of (chr5 v) CHARSET = Some (unat v)"
  unfolding chr5_def by (rule b32.index_digit)

lemma rev_values_iff:
  "\<forall>c\<in>set s. printable c \<Longrightarrow> rev_values s = Some vals \<longleftrightarrow> fives vals \<and> map tolower s = map chr5 vals"
proof (induction s arbitrary: vals)
  case Nil
  then show ?case by (cases vals) auto
next
  case (Cons c s)
  have c: "printable c" using Cons.prems by simp
  have rev: "CHARSET_REV ! unat (char_byte c)
     = (case index_of (tolower c) CHARSET of None \<Rightarrow> - 1 | Some i \<Rightarrow> int i)"
    using charset_rev c by blast
  show ?case
  proof (cases "index_of (tolower c) CHARSET")
    case None
    then have "tolower c \<notin> set CHARSET" by (simp add: index_of_None)
    then show ?thesis using rev None by (cases vals) (auto dest: chr5_in)
  next
    case (Some i)
    then have i: "i < 32" "CHARSET ! i = tolower c" using b32.index_lt by auto
    have "unat (word_of_nat i :: byte) = i" using i by simp
    then have w: "word_of_nat i = v \<longleftrightarrow> unat v < 32 \<and> chr5 v = tolower c" for v
      using i chr5_index [of v] Some by (auto simp: chr5_def)
    show ?thesis using rev Some Cons w by (cases vals) (auto simp: Let_def)
  qed
qed

lemma rfind_append: "c \<notin> set t \<Longrightarrow> rfind c (h @ c # t) = Some (length h)"
proof (induction h)
  case Nil
  have "c \<notin> set t \<Longrightarrow> rfind c t = None" for t by (induction t) auto
  with Nil show ?case by simp
qed simp

lemma rfind_SomeD: "rfind c s = Some i \<Longrightarrow> i < length s \<and> s ! i = c \<and> c \<notin> set (drop (Suc i) s)"
proof (induction s arbitrary: i)
  case (Cons d s)
  have none: "rfind c t = None \<Longrightarrow> c \<notin> set t" for t
    by (induction t) (auto split: option.splits if_splits)
  from Cons show ?case by (auto split: option.splits if_splits dest: none)
qed simp

lemma ExpandHRP_fives: "\<forall>c\<in>set h. printable c \<Longrightarrow> fives (ExpandHRP h)"
  unfolding ExpandHRP_def using expand_small by auto

lemma checksum_const_lt: "unat (checksum_const e) < 2 ^ 30"
  by (simp add: checksum_const_def BECH32_CONST_def BECH32M_CONST_def)

lemma CreateChecksum_eq:
  "CreateChecksum e h vals = digits6 (PolyMod ((ExpandHRP h @ vals) @ replicate 6 0) XOR checksum_const e)"
  by (simp only: CreateChecksum_def digits6_def Let_def append_assoc)

lemma VerifyChecksum_iff: "e \<noteq> INVALID \<Longrightarrow> VerifyChecksum h vals = e \<longleftrightarrow> PolyMod (ExpandHRP h @ vals) = checksum_const e"
  by (cases e) (auto simp: VerifyChecksum_def checksum_const_def Let_def BECH32_CONST_def BECH32M_CONST_def)

text \<open>The six values that verify after given data are the created ones, and no others.\<close>

lemma checksum_unique:
  assumes "e \<noteq> INVALID" "\<forall>c\<in>set h. printable c" "fives d" "fives cs" "length cs = 6"
  shows "VerifyChecksum h (d @ cs) = e \<longleftrightarrow> cs = CreateChecksum e h d"
proof -
  let ?enc = "ExpandHRP h @ d" and ?new = "CreateChecksum e h d"
  have "PolyMod (?enc @ ?new) = checksum_const e"
    unfolding CreateChecksum_eq
    using assms ExpandHRP_fives by (intro polymod_created checksum_const_lt) auto
  moreover have "PolyMod (?enc @ cs) \<noteq> PolyMod (?enc @ ?new)" if "cs \<noteq> ?new"
    using polymod_differ [of cs ?new "foldl polymod_step 1 ?enc" "[]"] that assms
    by (simp add: PolyMod_def CreateChecksum_eq)
  ultimately show ?thesis using VerifyChecksum_iff [OF assms(1), of h "d @ cs"] by auto
qed

section \<open>Re-packing\<close>

abbreviation groups :: "nat \<Rightarrow> bytes \<Rightarrow> bool" where
  "groups k vs \<equiv> \<forall>v\<in>set vs. unat v < 2 ^ k"

abbreviation val :: "nat \<Rightarrow> bytes \<Rightarrow> nat" where
  "val k vs \<equiv> horner (2 ^ k) (map unat vs)"

lemma mask_push: "push_bit k 1 - 1 = (mask k :: 'a::len word)"
  by (simp add: mask_eq_decr_exp push_bit_eq_mult)

lemma unat_group:
  assumes "t \<le> 8"
  shows "unat (ucast (drop_bit s (acc :: u32) AND (push_bit t 1 - 1)) :: byte) = unat acc div 2 ^ s mod 2 ^ t"
proof -
  have "unat (ucast (take_bit t (drop_bit s acc)) :: byte) = take_bit 8 (take_bit t (drop_bit s (unat acc)))"
    by (simp only: unsigned_ucast_eq unsigned_take_bit_eq unsigned_drop_bit_eq) (simp add: min.commute)
  moreover have "drop_bit s acc AND (push_bit t 1 - 1) = take_bit t (drop_bit s acc)"
    by (simp only: mask_push take_bit_eq_mask)
  ultimately show ?thesis using assms by (simp only: take_bit_take_bit min_absorb1 min_absorb2)
    (simp only: drop_bit_eq_div take_bit_eq_mod)
qed

lemma mod_exp_split: "(n :: nat) mod 2 ^ (s + t) = n div 2 ^ s mod 2 ^ t * 2 ^ s + n mod 2 ^ s"
  by (simp add: power_add mod_mult2_eq mult.commute)

lemma emit_groups:
  assumes "0 < t" "t \<le> 8"
  shows "\<exists>gs. emit_groups t acc bits out = (bits mod t, out @ gs) \<and> groups t gs \<and> length gs = bits div t
    \<and> val t gs * 2 ^ (bits mod t) + unat acc mod 2 ^ (bits mod t) = unat acc mod 2 ^ bits"
proof (induction bits arbitrary: out rule: less_induct)
  case (less bits)
  show ?case
  proof (cases "t \<le> bits")
    case False
    then show ?thesis by (simp add: emit_groups.simps)
  next
    case True
    let ?g = "ucast (drop_bit (bits - t) acc AND (push_bit t 1 - 1)) :: byte"
    have g: "unat ?g = unat acc div 2 ^ (bits - t) mod 2 ^ t" by (rule unat_group [OF assms(2)])
    from less [of "bits - t" "out @ [?g]"] True assms obtain gs where
      gs: "emit_groups t acc (bits - t) (out @ [?g]) = ((bits - t) mod t, (out @ [?g]) @ gs)" "groups t gs"
        "length gs = (bits - t) div t"
        "val t gs * 2 ^ ((bits - t) mod t) + unat acc mod 2 ^ ((bits - t) mod t) = unat acc mod 2 ^ (bits - t)"
      by auto
    have m: "(bits - t) mod t = bits mod t" using True by (simp add: le_mod_geq)
    have l: "Suc (length gs) = bits div t" using gs(3) True assms(1) by (simp add: le_div_geq)
    have "val t (?g # gs) * 2 ^ (bits mod t) + unat acc mod 2 ^ (bits mod t)
        = unat ?g * (2 ^ t) ^ length gs * 2 ^ (bits mod t) + unat acc mod 2 ^ (bits - t)"
      using gs(4) m by (simp add: horner_Cons algebra_simps)
    also have "(2 ^ t) ^ length gs * 2 ^ (bits mod t) = (2 ^ (bits - t) :: nat)"
      using gs(3) m mult_div_mod_eq [of t "bits - t"] by (simp flip: power_mult power_add)
    then have "unat ?g * (2 ^ t) ^ length gs * 2 ^ (bits mod t) = unat ?g * 2 ^ (bits - t)" by (simp only: mult.assoc)
    also have "unat ?g * 2 ^ (bits - t) + unat acc mod 2 ^ (bits - t) = unat acc mod 2 ^ bits"
      unfolding g using mod_exp_split [of "unat acc" "bits - t" t] True by simp
    finally have v: "val t (?g # gs) * 2 ^ (bits mod t) + unat acc mod 2 ^ (bits mod t) = unat acc mod 2 ^ bits" .
    have "emit_groups t acc bits out = (bits mod t, out @ ?g # gs)"
      using gs(1) m True assms(1) by (subst emit_groups.simps) simp
    moreover have "groups t (?g # gs)" using gs(2) by (simp only: list.set ball_simps g) simp
    ultimately show ?thesis using v l by (intro exI [of _ "?g # gs"]) simp
  qed
qed


lemma shift_in:
  assumes "unat v < 2 ^ f" and "bits + f \<le> f + t - 1" and "bits + f \<le> 32"
  shows "unat ((push_bit f acc OR ucast (v :: byte)) AND (push_bit (f + t - 1) 1 - 1) :: u32) mod 2 ^ (bits + f)
    = unat acc mod 2 ^ bits * 2 ^ f + unat v"
proof -
  let ?w = "(push_bit f acc OR ucast v) AND mask (f + t - 1) :: u32"
  have v: "n < f" if "bit v n" for n using assms(1) that by (metis unat_less_exp_iff not_le)
  have "take_bit (bits + f) ?w = push_bit f (take_bit bits acc) OR ucast v"
    using assms by (intro bit_eqI) (auto simp: bit_simps dest: v)
  moreover have "push_bit f (take_bit bits acc) AND ucast v = 0"
    by (intro bit_eqI) (auto simp: bit_simps dest: v)
  ultimately have "take_bit (bits + f) ?w = push_bit f (take_bit bits acc) + ucast v"
    by (simp add: disjunctive_add_eq_or)
  also have "take_bit bits acc = word_of_nat (unat acc mod 2 ^ bits)"
  proof -
    have "unat acc mod 2 ^ bits = unat (take_bit bits acc)"
      by (simp add: unsigned_take_bit_eq) (simp add: take_bit_eq_mod)
    then show ?thesis by (simp only: of_nat_unat ucast_id)
  qed
  also have "push_bit f (word_of_nat (unat acc mod 2 ^ bits)) + ucast v
      = (word_of_nat (unat acc mod 2 ^ bits * 2 ^ f + unat v) :: u32)"
    by (simp only: push_bit_eq_mult of_nat_add of_nat_mult of_nat_power of_nat_numeral of_nat_unat)
  finally have "unat (take_bit (bits + f) ?w) = unat (word_of_nat (unat acc mod 2 ^ bits * 2 ^ f + unat v) :: u32)"
    by (rule arg_cong)
  also have "\<dots> = unat acc mod 2 ^ bits * 2 ^ f + unat v"
  proof (rule unat_of_nat_small)
    have "unat acc mod 2 ^ bits * 2 ^ f + unat v < (unat acc mod 2 ^ bits + 1) * 2 ^ f" using assms(1) by simp
    also have "\<dots> \<le> 2 ^ bits * 2 ^ f" by (intro mult_right_mono) (simp_all add: Suc_leI)
    also have "\<dots> \<le> (2 ^ 32 :: nat)"
      unfolding power_add [symmetric] by (rule power_increasing [OF assms(3)]) simp
    finally show "unat acc mod 2 ^ bits * 2 ^ f + unat v < 2 ^ LENGTH(32)" by simp
  qed
  finally show ?thesis by (simp only: mask_push unsigned_take_bit_eq take_bit_eq_mod [of _ "unat _"])
qed


lemma convert_loop_ok:
  assumes "0 < f" "f \<le> 8" "0 < t" "t \<le> 8" "bits < t" "groups f vs"
  shows "\<exists>gs acc'. convert_loop f t vs acc bits out = (True, acc', (bits + f * length vs) mod t, out @ gs)
    \<and> groups t gs \<and> length gs = (bits + f * length vs) div t
    \<and> val t gs * 2 ^ ((bits + f * length vs) mod t) + unat acc' mod 2 ^ ((bits + f * length vs) mod t)
        = unat acc mod 2 ^ bits * 2 ^ (f * length vs) + val f vs"
  using assms(5,6)
proof (induction vs arbitrary: acc bits out)
  case (Cons v vs)
  let ?acc = "(push_bit f acc OR ucast v) AND (push_bit (f + t - 1) 1 - 1) :: u32"
  let ?b = "(bits + f) mod t"
  have v: "drop_bit f v = 0" using Cons.prems by (simp add: drop_bit_eq_0_iff)
  have acc: "unat ?acc mod 2 ^ (bits + f) = unat acc mod 2 ^ bits * 2 ^ f + unat v"
    using Cons.prems assms by (intro shift_in) auto
  obtain gs where gs: "emit_groups t ?acc (bits + f) out = (?b, out @ gs)" "groups t gs" "length gs = (bits + f) div t"
    "val t gs * 2 ^ ?b + unat ?acc mod 2 ^ ?b = unat ?acc mod 2 ^ (bits + f)"
    using emit_groups [OF assms(3,4), of ?acc "bits + f" out] by blast
  let ?r = "(?b + f * length vs) mod t"
  have n: "(bits + f * length (v # vs)) mod t = ?r" by (simp add: mod_simps add.assoc)
  have q: "(?b + f * length vs) div t + (bits + f) div t = (bits + f * length (v # vs)) div t"
  proof -
    have "bits + f * length (v # vs) = (bits + f) div t * t + (?b + f * length vs)" by simp
    then show ?thesis using assms(3) by (simp only: div_mult_self3)
  qed
  obtain gs' acc' where gs': "convert_loop f t vs ?acc ?b (out @ gs) = (True, acc', ?r, (out @ gs) @ gs')"
    "groups t gs'" "length gs' = (?b + f * length vs) div t"
    "val t gs' * 2 ^ ?r + unat acc' mod 2 ^ ?r = unat ?acc mod 2 ^ ?b * 2 ^ (f * length vs) + val f vs"
    using Cons.IH [of ?b ?acc "out @ gs"] Cons.prems assms(3) by auto
  have pw: "(2 ^ t) ^ length gs' * 2 ^ ?r = 2 ^ ?b * (2 ^ (f * length vs) :: nat)"
    using gs'(3) mult_div_mod_eq [of t "?b + f * length vs"] by (simp flip: power_mult power_add)
  have "val t (gs @ gs') * 2 ^ ?r + unat acc' mod 2 ^ ?r
      = val t gs * ((2 ^ t) ^ length gs' * 2 ^ ?r) + (val t gs' * 2 ^ ?r + unat acc' mod 2 ^ ?r)"
    by (simp add: horner_append algebra_simps)
  also have "\<dots> = (val t gs * 2 ^ ?b + unat ?acc mod 2 ^ ?b) * 2 ^ (f * length vs) + val f vs"
    unfolding pw gs'(4) by (simp add: algebra_simps)
  also have "\<dots> = unat acc mod 2 ^ bits * 2 ^ (f * length (v # vs)) + val f (v # vs)"
    unfolding gs(4) acc by (simp add: horner_Cons algebra_simps power_add flip: power_mult)
  finally show ?case
    unfolding n using gs gs' v q by (intro exI [of _ "gs @ gs'"] exI [of _ acc']) (auto simp: Let_def)
qed (simp add: assms)

lemma convert_loop_bad:
  "\<not> groups f vs \<Longrightarrow> \<exists>a b out'. convert_loop f t vs acc bits out = (False, a, b, out')"
  by (induction vs arbitrary: acc bits out) (auto simp: drop_bit_eq_0_iff Let_def split: prod.split)


interpretation r5: radix "2 ^ 5"
  by unfold_locales simp

interpretation r8: radix "2 ^ 8"
  by unfold_locales simp

lemma map_unat_inj: "map unat xs = map unat ys \<longleftrightarrow> xs = (ys :: bytes)"
  by (rule inj_map_eq_map) (simp add: inj_unsigned)

lemma bytes_groups: "groups 8 bs"
  using unat_byte_lt by simp

text \<open>The bits left over, shifted up into a last group.\<close>

lemma unat_last_group:
  assumes "r < t" "t \<le> 8"
  shows "unat (push_bit (t - r) (acc :: u32) AND (push_bit t 1 - 1)) = unat acc mod 2 ^ r * 2 ^ (t - r)"
proof -
  have "push_bit (t - r) acc AND (push_bit t 1 - 1) = take_bit t (push_bit (t - r) acc)"
    by (simp only: mask_push take_bit_eq_mask)
  also have "\<dots> = push_bit (t - r) (take_bit r acc)"
    using assms(1) by (simp add: take_bit_push_bit)
  finally have "unat (push_bit (t - r) acc AND (push_bit t 1 - 1)) = unat (push_bit (t - r) (take_bit r acc))" by simp
  also have "\<dots> = take_bit 32 (push_bit (t - r) (take_bit r (unat acc)))"
    by (simp only: unsigned_push_bit_eq unsigned_take_bit_eq) simp
  also have "\<dots> = push_bit (t - r) (take_bit r (unat acc))"
    using assms by (auto simp: take_bit_push_bit min_def)
  finally show ?thesis by (simp only: push_bit_eq_mult take_bit_eq_mod)
qed

lemma ceil5: "n mod 5 \<noteq> 0 \<Longrightarrow> (n + 4) div 5 = Suc (n div 5)" for n :: nat
  by presburger

lemma ceil5_diff: "5 + 5 * (n div 5) - n = 5 - n mod 5" for n :: nat
  using mult_div_mod_eq [of 5 n] by arith

lemma pack_eq:
  "\<exists>ds. ConvertBits 8 5 True out bs = (True, out @ ds) \<and> groups 5 ds \<and> length ds = (8 * length bs + 4) div 5
     \<and> val 5 ds = val 8 bs * 2 ^ (5 * length ds - 8 * length bs)"
proof -
  let ?n = "8 * length bs" and ?r = "8 * length bs mod 5"
  obtain gs acc where gs: "convert_loop 8 5 bs 0 0 out = (True, acc, ?r, out @ gs)" "groups 5 gs"
    "length gs = ?n div 5" "val 5 gs * 2 ^ ?r + unat acc mod 2 ^ ?r = val 8 bs"
    using convert_loop_ok [of 8 5 0 bs 0 out] bytes_groups by auto
  show ?thesis
  proof (cases "?r = 0")
    case True
    moreover have "(?n + 4) div 5 = ?n div 5" "5 * (?n div 5) = ?n"
      using True mult_div_mod_eq [of 5 ?n] by simp_all
    ultimately show ?thesis using gs by (auto simp: ConvertBits_def)
  next
    case False
    let ?l = "push_bit (5 - ?r) acc AND (push_bit 5 1 - 1) :: u32"
    have l: "unat ?l = unat acc mod 2 ^ ?r * 2 ^ (5 - ?r)" by (rule unat_last_group) simp_all
    have "unat acc mod 2 ^ ?r * 2 ^ (5 - ?r) < 2 ^ ?r * 2 ^ (5 - ?r)" by simp
    also have "\<dots> = (2 :: nat) ^ 5" by (simp flip: power_add)
    finally have lt: "unat ?l < 2 ^ 5" using l by simp
    then have u: "unat (ucast ?l :: byte) = unat ?l"
      by (simp add: unsigned_ucast_eq take_bit_nat_eq_self)
    let ?ds = "gs @ [ucast ?l]"
    have len: "length ?ds = (?n + 4) div 5" "5 * length ?ds - ?n = 5 - ?r" 
      using gs(3) False ceil5 [of ?n] ceil5_diff [of ?n] by simp_all
    have "val 5 ?ds = (val 5 gs * 2 ^ ?r) * 2 ^ (5 - ?r) + unat acc mod 2 ^ ?r * 2 ^ (5 - ?r)"
      using u l by (simp flip: power_add)
    also have "\<dots> = val 8 bs * 2 ^ (5 - ?r)" by (simp only: distrib_right [symmetric] gs(4))
    finally show ?thesis
      using gs False len lt u by (intro exI [of _ ?ds]) (auto simp: ConvertBits_def Let_def)
  qed
qed

definition pack :: "bytes \<Rightarrow> bytes" where
  "pack bs = snd (ConvertBits 8 5 True [] bs)"

lemma ConvertBits_pack: "ConvertBits 8 5 True out bs = (True, out @ pack bs)"
  and pack_groups: "groups 5 (pack bs)"
  and length_pack: "length (pack bs) = (8 * length bs + 4) div 5"
  and val_pack: "val 5 (pack bs) = val 8 bs * 2 ^ (5 * length (pack bs) - 8 * length bs)"
proof -
  obtain ds where ds: "ConvertBits 8 5 True [] bs = (True, ds)" "groups 5 ds" "length ds = (8 * length bs + 4) div 5"
     "val 5 ds = val 8 bs * 2 ^ (5 * length ds - 8 * length bs)"
    using pack_eq [of "[]" bs] by auto
  then show "groups 5 (pack bs)" "length (pack bs) = (8 * length bs + 4) div 5"
    "val 5 (pack bs) = val 8 bs * 2 ^ (5 * length (pack bs) - 8 * length bs)" by (simp_all add: pack_def)
  obtain es where es: "ConvertBits 8 5 True out bs = (True, out @ es)" "groups 5 es" "length es = (8 * length bs + 4) div 5"
     "val 5 es = val 8 bs * 2 ^ (5 * length es - 8 * length bs)"
    using pack_eq [of out bs] by auto
  have "map unat es = map unat ds" using ds es by (intro r5.horner_inj) auto
  then have "es = ds" by (simp add: map_unat_inj)
  then show "ConvertBits 8 5 True out bs = (True, out @ pack bs)" using es ds by (simp add: pack_def)
qed

lemma unpack_eq:
  "ConvertBits 5 8 False [] ds = (True, bs) \<longleftrightarrow>
     groups 5 ds \<and> length bs = 5 * length ds div 8 \<and> 5 * length ds mod 8 < 5
       \<and> val 5 ds = val 8 bs * 2 ^ (5 * length ds mod 8)"
proof (cases "groups 5 ds")
  case False
  then obtain a b out where "convert_loop 5 8 ds 0 0 [] = (False, a, b, out)" using convert_loop_bad by blast
  then show ?thesis using False by (auto simp: ConvertBits_def Let_def)
next
  case True
  let ?r = "5 * length ds mod 8"
  obtain gs acc where gs: "convert_loop 5 8 ds 0 0 [] = (True, acc, ?r, gs)"
    "length gs = 5 * length ds div 8" "val 8 gs * 2 ^ ?r + unat acc mod 2 ^ ?r = val 5 ds"
    using convert_loop_ok [of 5 8 0 ds 0 "[]"] True by auto
  have "unat (push_bit (8 - ?r) acc AND (push_bit 8 1 - 1)) = unat acc mod 2 ^ ?r * 2 ^ (8 - ?r)"
    by (rule unat_last_group) simp_all
  then have last: "push_bit (8 - ?r) acc AND (push_bit 8 1 - 1) = 0 \<longleftrightarrow> unat acc mod 2 ^ ?r = 0"
    by (simp flip: unat_eq_0)
  have conv: "ConvertBits 5 8 False [] ds = (True, bs) \<longleftrightarrow> gs = bs \<and> ?r < 5 \<and> unat acc mod 2 ^ ?r = 0"
    using gs(1) last by (auto simp: ConvertBits_def Let_def simp del: unat_eq_0)
  have "gs = bs \<and> unat acc mod 2 ^ ?r = 0 \<longleftrightarrow> length bs = length gs \<and> val 5 ds = val 8 bs * 2 ^ ?r"
  proof
    assume *: "length bs = length gs \<and> val 5 ds = val 8 bs * 2 ^ ?r"
    then have eq: "val 8 gs * 2 ^ ?r + unat acc mod 2 ^ ?r = val 8 bs * 2 ^ ?r" using gs(3) by simp
    have "val 8 gs = val 8 bs" using arg_cong [OF eq, of "\<lambda>n. n div 2 ^ ?r"] by simp
    then have "map unat gs = map unat bs" using * bytes_groups by (intro r8.horner_inj) auto
    then show "gs = bs \<and> unat acc mod 2 ^ ?r = 0" using eq by (simp add: map_unat_inj)
  qed (use gs(3) in auto)
  then show ?thesis using conv gs(2) True by auto
qed

text \<open>The sizes at which five-bit groups hold whole bytes and fewer than five bits of padding.\<close>

lemma whole_bytes:
  fixes m n :: nat
  shows "n = 5 * m div 8 \<and> 5 * m mod 8 < 5 \<longleftrightarrow> m = (8 * n + 4) div 5" (is "?a \<longleftrightarrow> ?b")
    and "m = (8 * n + 4) div 5 \<Longrightarrow> 5 * m mod 8 = 5 * m - 8 * n"
proof -
  let ?q = "5 * m div 8" and ?r = "5 * m mod 8" and ?p = "(8 * n + 4) div 5" and ?s = "(8 * n + 4) mod 5"
  have m: "5 * m = 8 * ?q + ?r" "?r < 8" and p: "8 * n + 4 = 5 * ?p + ?s" "?s < 5"
    by (simp_all only: mult_div_mod_eq)
  show "?a \<longleftrightarrow> ?b"
  proof
    assume ?a
    then have "?q = n" "?r < 5" by simp_all
    with m p show ?b by linarith
  next
    assume ?b
    then have "?p = m" by simp
    with m p have q: "?q = n" by linarith
    with m(1) p(1) \<open>?p = m\<close> have "?r + ?s = 4" by linarith
    with q show ?a by simp
  qed
  then show "?b \<Longrightarrow> 5 * m mod 8 = 5 * m - 8 * n" using m(1) by linarith
qed

lemma unpack_iff: "ConvertBits 5 8 False [] ds = (True, bs) \<longleftrightarrow> ds = pack bs"
proof -
  have "ds = pack bs \<longleftrightarrow> groups 5 ds \<and> length ds = length (pack bs) \<and> val 5 ds = val 5 (pack bs)"
    using pack_groups [of bs] r5.horner_inj [of "map unat ds" "map unat (pack bs)"]
    by (auto simp: map_unat_inj)
  also have "\<dots> \<longleftrightarrow> ConvertBits 5 8 False [] ds = (True, bs)"
  proof (cases "length ds = (8 * length bs + 4) div 5")
    case True
    with whole_bytes(1) [of "length bs" "length ds"] show ?thesis
      unfolding unpack_eq val_pack length_pack whole_bytes(2) [OF True] by (simp only: True refl simp_thms)
  next
    case False
    with whole_bytes(1) [of "length bs" "length ds"] show ?thesis
      unfolding unpack_eq length_pack by blast
  qed
  finally show ?thesis by simp
qed

definition mixed_case :: "string \<Rightarrow> bool" where
  "mixed_case str \<longleftrightarrow> (\<exists>c\<in>set str. is_lower c) \<and> (\<exists>c\<in>set str. is_upper c)"

lemma Encode_eq:
  "Encode e h d =
     (if e \<noteq> INVALID \<and> h \<noteq> [] \<and> (\<forall>c\<in>set h. printable c \<and> \<not> is_upper c) \<and> length h + length d \<le> 83 \<and> fives d
      then h @ CHR ''1'' # map chr5 (d @ CreateChecksum e h d) else [])"
proof -
  have fits: "drop_bit 5 v \<noteq> 0 \<longleftrightarrow> \<not> unat v < 32" for v :: byte
    using drop_bit_eq_0_iff [of 5 v] by simp
  have chars: "(\<exists>c\<in>set h. sint (char_byte c) < 33 \<or> sint (char_byte c) > 126 \<or> is_upper c)
      \<longleftrightarrow> \<not> (\<forall>c\<in>set h. printable c \<and> \<not> is_upper c)" using printable_signed by blast
  show ?thesis
    unfolding Encode_def fits chars by (simp add: Let_def chr5_def [abs_def])
qed

lemma Decode_eq:
  "Decode str =
     (if length str \<le> 90 \<and> (\<forall>c\<in>set str. printable c) \<and> \<not> mixed_case str then
        case rfind (CHR ''1'') str of None \<Rightarrow> no_result
        | Some pos \<Rightarrow>
          if pos = 0 \<or> pos + 7 > length str then no_result
          else
            (let h = map tolower (take pos str) in
             case rev_values (drop (pos + 1) str) of None \<Rightarrow> no_result
             | Some vals \<Rightarrow>
                 (let e = VerifyChecksum h vals in
                  if e = INVALID then no_result
                  else \<lparr> dr_encoding = e, dr_hrp = h, dr_data = take (length vals - 6) vals \<rparr>))
      else no_result)"
proof -
  have "(\<exists>c\<in>set str. char_byte c < 33 \<or> char_byte c > 126) \<longleftrightarrow> \<not> (\<forall>c\<in>set str. printable c)"
    by (auto simp: not_le)
  then show ?thesis unfolding Decode_def mixed_case_def by (auto simp: not_less)
qed

lemma Decode_Encode:
  assumes "Encode e h d \<noteq> []" and "map tolower str = Encode e h d" and "\<not> mixed_case str"
    and "\<forall>c\<in>set str. printable c"
  shows "Decode str = \<lparr> dr_encoding = e, dr_hrp = h, dr_data = d \<rparr>"
proof -
  let ?cs = "CreateChecksum e h d"
  have ok: "e \<noteq> INVALID" "h \<noteq> []" "\<forall>c\<in>set h. printable c \<and> \<not> is_upper c" "length h + length d \<le> 83" "fives d"
    and enc: "Encode e h d = h @ CHR ''1'' # map chr5 (d @ ?cs)"
    using assms(1) by (auto simp: Encode_eq split: if_splits)
  have cs: "fives ?cs" "length ?cs = 6" by (simp_all add: CreateChecksum_eq)
  have str: "map tolower str = h @ CHR ''1'' # map chr5 (d @ ?cs)" using assms(2) enc by simp
  let ?p = "take (length h) str" and ?t = "drop (Suc (length h)) str"
  have len: "length str = length h + length d + 7" using arg_cong [OF str, of length] cs by simp
  have p: "map tolower ?p = h" and t: "map tolower ?t = map chr5 (d @ ?cs)"
    using arg_cong [OF str, of "take (length h)"] arg_cong [OF str, of "drop (Suc (length h))"]
    by (simp_all add: take_map drop_map)
  have "map tolower str ! length h = CHR ''1''" unfolding str by simp
  then have one: "str ! length h = CHR ''1''" using len by simp
  have "CHR ''1'' \<notin> set (map tolower ?t)"
    unfolding t using ok cs chr5_in charset_char by fastforce
  then have "CHR ''1'' \<notin> set ?t" by (metis image_eqI list.set_map tolower_one)
  moreover have split: "str = ?p @ CHR ''1'' # ?t" using one len by (metis id_take_nth_drop less_add_same_cancel1 add.assoc zero_less_numeral trans_less_add2)
  moreover have pr: "\<forall>c\<in>set ?t. printable c" using assms(4) by (meson in_set_dropD)
  ultimately have "rfind (CHR ''1'') str = Some (length h)"
    using rfind_append [of "CHR ''1''" ?t ?p] len by simp
  moreover have "rev_values ?t = Some (d @ ?cs)"
    using rev_values_iff [of ?t "d @ ?cs"] pr t ok cs by auto
  moreover have "VerifyChecksum h (d @ ?cs) = e"
    using checksum_unique ok cs by blast
  ultimately show ?thesis
    unfolding Decode_eq using assms(3,4) ok len cs p by (simp add: Let_def)
qed

lemma Encode_Decode:
  assumes "Decode str = \<lparr> dr_encoding = e, dr_hrp = h, dr_data = d \<rparr>" and "e \<noteq> INVALID"
  shows "Encode e h d \<noteq> [] \<and> map tolower str = Encode e h d \<and> \<not> mixed_case str \<and> (\<forall>c\<in>set str. printable c)"
proof -
  have guards: "length str \<le> 90" "\<forall>c\<in>set str. printable c" "\<not> mixed_case str"
    using assms by (auto simp: Decode_eq no_result_def split: if_splits)
  with assms obtain pos vals where pos: "rfind (CHR ''1'') str = Some pos" "pos \<noteq> 0" "pos + 7 \<le> length str"
    and vals: "rev_values (drop (pos + 1) str) = Some vals"
    and h: "h = map tolower (take pos str)" and e: "VerifyChecksum h vals = e" and d: "d = take (length vals - 6) vals"
    by (auto simp: Decode_eq no_result_def Let_def not_less split: if_splits option.splits)
  have one: "pos < length str" "str ! pos = CHR ''1''" using rfind_SomeD [OF pos(1)] by auto
  have pr: "\<forall>c\<in>set (drop (pos + 1) str). printable c" using guards(2) by (meson in_set_dropD)
  have t: "fives vals" "map tolower (drop (pos + 1) str) = map chr5 vals"
    using rev_values_iff [OF pr, of vals] vals by auto
  have len: "length vals = length str - pos - 1" using arg_cong [OF t(2), of length] by simp
  define cs where "cs = drop (length vals - 6) vals"
  have cs: "vals = d @ cs" "length cs = 6" using len pos(3) by (simp_all add: cs_def d)
  have hp: "\<forall>c\<in>set h. printable c \<and> \<not> is_upper c"
    using guards(2) tolower_printable by (auto simp: h dest: in_set_takeD)
  have "cs = CreateChecksum e h d"
    using checksum_unique [of e h d cs] assms(2) hp t cs e by auto
  moreover have "str = take pos str @ CHR ''1'' # drop (pos + 1) str"
    using one id_take_nth_drop [of pos str] by simp
  then have "map tolower str = h @ CHR ''1'' # map chr5 vals"
    using t(2) h by (metis list.simps(9) map_append tolower_one)
  ultimately show ?thesis
    using guards assms(2) hp t(1) cs pos len h by (auto simp: Encode_eq)
qed


lemma Encode_printable: "c \<in> set (Encode e h d) \<Longrightarrow> printable c"
proof -
  have "fives (CreateChecksum e h d)" by (simp add: CreateChecksum_eq)
  moreover have "printable (CHR ''1'')" by code_simp
  ultimately show "c \<in> set (Encode e h d) \<Longrightarrow> ?thesis"
    by (auto simp: Encode_eq split: if_splits dest: charset_char [OF chr5_in])
qed

lemma Encode_lower: "c \<in> set (Encode e h d) \<Longrightarrow> \<not> is_upper c"
proof -
  have "fives (CreateChecksum e h d)" by (simp add: CreateChecksum_eq)
  moreover have "\<not> is_upper (CHR ''1'')" by code_simp
  ultimately show "c \<in> set (Encode e h d) \<Longrightarrow> ?thesis"
    by (auto simp: Encode_eq split: if_splits dest: charset_char [OF chr5_in])
qed

lemma printable_of_tolower: "printable (tolower c) \<Longrightarrow> printable c"
  by (cases "is_upper c") (auto simp: tolower_id upper_bytes word_le_nat_alt)

lemma Decode_Encode_text:
  assumes "Encode e h d \<noteq> []" and "map tolower str = Encode e h d" and "\<not> mixed_case str"
  shows "Decode str = \<lparr> dr_encoding = e, dr_hrp = h, dr_data = d \<rparr>"
proof -
  have "\<forall>c\<in>set str. printable c"
    using assms(2) Encode_printable printable_of_tolower by (metis image_eqI list.set_map)
  then show ?thesis using Decode_Encode assms by blast
qed

section \<open>Properties\<close>

text \<open>
  C30. A string decodes to an encoding, a prefix and data exactly when it is, up to case, the
  encoding of them and does not mix cases. So decoding inverts encoding, and every accepted
  string has one canonical form.
\<close>

theorem Decode_iff:
  assumes "e \<noteq> INVALID"
  shows "Decode str = \<lparr> dr_encoding = e, dr_hrp = h, dr_data = d \<rparr> \<longleftrightarrow>
    Encode e h d \<noteq> [] \<and> map tolower str = Encode e h d
      \<and> \<not> ((\<exists>c\<in>set str. is_lower c) \<and> (\<exists>c\<in>set str. is_upper c))"
proof
  assume "Encode e h d \<noteq> [] \<and> map tolower str = Encode e h d
    \<and> \<not> ((\<exists>c\<in>set str. is_lower c) \<and> (\<exists>c\<in>set str. is_upper c))"
  then show "Decode str = \<lparr> dr_encoding = e, dr_hrp = h, dr_data = d \<rparr>"
    using Decode_Encode_text mixed_case_def by blast
next
  assume "Decode str = \<lparr> dr_encoding = e, dr_hrp = h, dr_data = d \<rparr>"
  then show "Encode e h d \<noteq> [] \<and> map tolower str = Encode e h d
    \<and> \<not> ((\<exists>c\<in>set str. is_lower c) \<and> (\<exists>c\<in>set str. is_upper c))"
    using Encode_Decode [OF _ assms] mixed_case_def by blast
qed

theorem Decode_iff_witness:
  "Decode ''A1LQFN3A'' = \<lparr> dr_encoding = BECH32M, dr_hrp = ''a'', dr_data = [] \<rparr>"
proof -
  have "Encode BECH32M ''a'' [] = ''a1lqfn3a''" by code_simp
  moreover have "map tolower ''A1LQFN3A'' = ''a1lqfn3a''" by code_simp
  moreover have "\<not> (\<exists>c\<in>set ''A1LQFN3A''. is_lower c)" by code_simp
  ultimately show ?thesis using Decode_iff [of BECH32M "''A1LQFN3A''" "''a''" "[]"] by simp
qed

end
