(* ===== verification/Bech32_Address.thy ===== *)
theory Bech32_Address
  imports Bech32 Base58
begin

text \<open>
  The bech32m form of addresses in \<open>CBitcoinAddress\<close> (\<open>base58.h\<close>): writing it, reading it, and the
  \<open>SetString\<close> that accepts either form. An address has exactly one bech32m text up to case, the two
  forms cannot be confused, and a burst of up to six wrong characters is always noticed.
\<close>

definition Bech32HRP :: "bool \<Rightarrow> string" where
  "Bech32HRP fTestNet = (if fTestNet then ''tcorg'' else ''corg'')"

definition ToBech32 :: "bool \<Rightarrow> CBase58Data \<Rightarrow> string" where
  "ToBech32 fTestNet a =
     (if \<not> IsValidAddress fTestNet a then []
      else
        (let v = uint (nVersion58 a);
             type = (if v = PUBKEY_ADDRESS \<or> v = PUBKEY_ADDRESS_TEST then 0 else 1) :: byte;
             (ok, data) = ConvertBits 8 5 True [type] (vchData a)
         in Encode BECH32M (Bech32HRP fTestNet) data))"

text \<open>\<open>None\<close> is the result \<open>false\<close>, which leaves the object as it was.\<close>

definition SetBech32 :: "bool \<Rightarrow> string \<Rightarrow> CBase58Data option" where
  "SetBech32 fTestNet str =
     (let dec = Decode str in
      if dr_encoding dec \<noteq> BECH32M \<or> dr_hrp dec \<noteq> Bech32HRP fTestNet \<or> dr_data dec = [] then None
      else
        (let type = dr_data dec ! 0 in
         if type > 1 then None
         else
           (let (ok, hash) = ConvertBits 5 8 False [] (drop 1 (dr_data dec)) in
            if \<not> ok then None
            else if length hash \<noteq> 20 then None
            else if type = 0 then
              Some (SetData (if fTestNet then PUBKEY_ADDRESS_TEST else PUBKEY_ADDRESS) hash)
            else
              Some (SetData (if fTestNet then SCRIPT_ADDRESS_TEST else SCRIPT_ADDRESS) hash))))"

definition SetString_address :: "openssl \<Rightarrow> bool \<Rightarrow> string \<Rightarrow> bool \<times> CBase58Data" where
  "SetString_address E fTestNet str =
     (case SetBech32 fTestNet str of Some a \<Rightarrow> (True, a) | None \<Rightarrow> SetString E str)"

section \<open>Facts\<close>

lemmas address_versions =
  PUBKEY_ADDRESS_def SCRIPT_ADDRESS_def PUBKEY_ADDRESS_TEST_def SCRIPT_ADDRESS_TEST_def

definition addr_type :: "CBase58Data \<Rightarrow> byte" where
  "addr_type a = (if uint (nVersion58 a) = PUBKEY_ADDRESS \<or> uint (nVersion58 a) = PUBKEY_ADDRESS_TEST then 0 else 1)"

lemma ToBech32_eq:
  "IsValidAddress fTestNet a \<Longrightarrow>
     ToBech32 fTestNet a = Encode BECH32M (Bech32HRP fTestNet) (addr_type a # pack (vchData a))"
  by (simp add: ToBech32_def addr_type_def Let_def ConvertBits_pack)

lemma hrp_ok: "Bech32HRP t \<noteq> [] \<and> (\<forall>c\<in>set (Bech32HRP t). printable c \<and> \<not> is_upper c) \<and> length (Bech32HRP t) \<le> 5"
proof -
  have "list_all (\<lambda>h. h \<noteq> [] \<and> (\<forall>c\<in>set h. printable c \<and> \<not> is_upper c) \<and> length h \<le> 5) [''tcorg'', ''corg'']"
    by code_simp
  then show ?thesis by (simp only: Bech32HRP_def list.pred_inject split: if_split) simp
qed

lemma address_data:
  assumes "IsValidAddress fTestNet a"
  shows "fives (addr_type a # pack (vchData a)) \<and> length (pack (vchData a)) = 32"
  using assms pack_groups [of "vchData a"] length_pack [of "vchData a"]
  by (auto simp: IsValidAddress_def addr_type_def Let_def split: if_splits)

lemma ToBech32_nonempty: "IsValidAddress fTestNet a \<Longrightarrow> ToBech32 fTestNet a \<noteq> []"
  using hrp_ok [of fTestNet] address_data [of fTestNet a] by (auto simp: ToBech32_eq Encode_eq)

text \<open>The object that \<open>SetBech32\<close> builds from a type and a hash.\<close>

definition bech32_object :: "bool \<Rightarrow> byte \<Rightarrow> bytes \<Rightarrow> CBase58Data" where
  "bech32_object fTestNet type hash =
     SetData (if type = 0 then if fTestNet then PUBKEY_ADDRESS_TEST else PUBKEY_ADDRESS
              else if fTestNet then SCRIPT_ADDRESS_TEST else SCRIPT_ADDRESS) hash"

lemma bech32_object_valid:
  "IsValidAddress fTestNet a \<longleftrightarrow> length (vchData a) = 20 \<and> a = bech32_object fTestNet (addr_type a) (vchData a)"
proof -
  have w: "v = word_of_int k \<longleftrightarrow> uint v = k" if "0 \<le> k" "k < 256" for v :: byte and k
    using that by (auto simp: uint_word_of_int take_bit_eq_mod)
  show ?thesis
    by (cases a; cases fTestNet)
      (auto simp: bech32_object_def SetData_def IsValidAddress_def addr_type_def address_versions w Let_def)
qed

lemma addr_type_object: "t \<le> 1 \<Longrightarrow> addr_type (bech32_object fTestNet t h) = t \<and> vchData (bech32_object fTestNet t h) = h"
proof -
  assume "t \<le> 1"
  then have "t = 0 \<or> t = 1" by (simp add: word_le_nat_alt le_Suc_eq) (metis One_nat_def unat_1 unat_0 word_unat_eq_iff)
  then show ?thesis by (auto simp: bech32_object_def SetData_def addr_type_def address_versions)
qed


lemma SetBech32_Some:
  "SetBech32 fTestNet str = Some a \<longleftrightarrow>
     (\<exists>type hash. Decode str = \<lparr> dr_encoding = BECH32M, dr_hrp = Bech32HRP fTestNet, dr_data = type # pack hash \<rparr>
        \<and> type \<le> 1 \<and> length hash = 20 \<and> a = bech32_object fTestNet type hash)" (is "_ \<longleftrightarrow> ?r")
proof
  assume "SetBech32 fTestNet str = Some a"
  then obtain type rest hash where "dr_encoding (Decode str) = BECH32M" "dr_hrp (Decode str) = Bech32HRP fTestNet"
    "dr_data (Decode str) = type # rest" "ConvertBits 5 8 False [] rest = (True, hash)" "type \<le> 1" "length hash = 20"
    "a = bech32_object fTestNet type hash"
    by (cases "dr_data (Decode str)")
      (auto simp: SetBech32_def Let_def bech32_object_def not_less split: if_splits prod.splits)
  then show ?r by (cases "Decode str") (auto simp: unpack_iff)
next
  have conv: "ConvertBits 5 8 False [] (pack hash) = (True, hash)" for hash by (simp add: unpack_iff)
  assume ?r
  then show "SetBech32 fTestNet str = Some a"
    by (auto simp: SetBech32_def Let_def conv bech32_object_def not_less)
qed

text \<open>The values of the data part, checksum included, determine the text and verify.\<close>

lemma SetBech32_values:
  assumes "SetBech32 fTestNet str = Some a"
  obtains vals where "map tolower str = Bech32HRP fTestNet @ CHR ''1'' # map chr5 vals" "fives vals"
    "PolyMod (ExpandHRP (Bech32HRP fTestNet) @ vals) = BECH32M_CONST"
proof -
  let ?h = "Bech32HRP fTestNet"
  from assms obtain type hash
    where dec: "Decode str = \<lparr> dr_encoding = BECH32M, dr_hrp = ?h, dr_data = type # pack hash \<rparr>"
    by (auto simp: SetBech32_Some)
  let ?d = "type # pack hash"
  let ?cs = "CreateChecksum BECH32M ?h ?d"
  have str: "map tolower str = Encode BECH32M ?h ?d" "Encode BECH32M ?h ?d \<noteq> []" using Encode_Decode [OF dec] by auto
  then have d: "fives ?d" and enc: "map tolower str = ?h @ CHR ''1'' # map chr5 (?d @ ?cs)"
    by (auto simp: Encode_eq split: if_splits)
  have cs: "fives ?cs" "length ?cs = 6" by (simp_all add: CreateChecksum_eq)
  have "VerifyChecksum ?h (?d @ ?cs) = BECH32M"
    using checksum_unique [of BECH32M ?h ?d ?cs] hrp_ok [of fTestNet] d cs by auto
  then have "PolyMod (ExpandHRP ?h @ ?d @ ?cs) = BECH32M_CONST"
    by (simp add: VerifyChecksum_iff checksum_const_def)
  then show ?thesis using that [of "?d @ ?cs"] enc d cs by auto
qed

lemma unat_char_byte: "unat (char_byte c) = of_char c"
proof -
  have "unat (char_byte c) = unat (of_nat (of_char c) :: byte)" by (simp only: char_byte_def of_nat_of_char)
  also have "\<dots> = of_char c mod 256" by (simp add: unat_of_nat)
  finally show ?thesis by simp
qed

lemma char_byte_inj: "char_byte c = char_byte d \<Longrightarrow> c = d"
proof -
  assume "char_byte c = char_byte d"
  then have "(of_char c :: nat) = of_char d" by (simp only: unat_char_byte [symmetric])
  then show ?thesis by (simp only: of_char_eq_iff)
qed

lemma tolower_inj:
  assumes "tolower x = tolower y" and "\<not> is_upper x \<and> \<not> is_upper y \<or> \<not> is_lower x \<and> \<not> is_lower y"
  shows "x = y"
proof (cases "is_upper x")
  case True
  then have "is_upper y" using assms tolower_upper [of x] by (metis tolower_id)
  then have "char_byte x + 32 = char_byte y + 32" using True assms(1) char_byte_tolower by metis
  then show ?thesis by (intro char_byte_inj) (simp only: add_right_cancel)
next
  case False
  then have "\<not> is_upper y" using assms tolower_upper [of y] by (metis tolower_id)
  then show ?thesis using False assms(1) by (simp add: tolower_id)
qed

text \<open>Strings that share a letter, do not mix cases and agree up to case are equal.\<close>

lemma same_case:
  assumes "\<not> mixed_case s" "\<not> mixed_case s'" "z \<in> set s" "z \<in> set s'" "is_lower z \<or> is_upper z"
    and "map tolower s = map tolower s'"
  shows "s = s'"
proof (rule nth_equalityI)
  show len: "length s = length s'" using map_eq_imp_length_eq [OF assms(6)] .
  fix i assume i: "i < length s"
  have eq: "tolower (s ! i) = tolower (s' ! i)"
    using i len nth_map [of i s tolower] nth_map [of i s' tolower] assms(6) by simp
  have "s ! i \<in> set s" "s' ! i \<in> set s'" using i len by simp_all
  then have "\<not> is_upper (s ! i) \<and> \<not> is_upper (s' ! i) \<or> \<not> is_lower (s ! i) \<and> \<not> is_lower (s' ! i)"
    using assms unfolding mixed_case_def by blast
  then show "s ! i = s' ! i" using eq tolower_inj by blast
qed

lemma chr5_inj: "fives vs \<Longrightarrow> fives ws \<Longrightarrow> map chr5 vs = map chr5 ws \<Longrightarrow> vs = ws"
proof (rule map_inj_on [of chr5])
  show "fives vs \<Longrightarrow> fives ws \<Longrightarrow> inj_on chr5 (set vs \<union> set ws)"
    using chr5_index by (intro inj_onI) (metis UnE option.inject word_unat_eq_iff)
qed

lemma SetBech32_text:
  assumes "SetBech32 fTestNet str = Some a"
  shows "IsValidAddress fTestNet a \<and> map tolower str = ToBech32 fTestNet a \<and> \<not> mixed_case str"
proof -
  from assms obtain type hash
    where dec: "Decode str = \<lparr> dr_encoding = BECH32M, dr_hrp = Bech32HRP fTestNet, dr_data = type # pack hash \<rparr>"
    and ok: "type \<le> 1" "length hash = 20" "a = bech32_object fTestNet type hash"
    by (auto simp: SetBech32_Some)
  have a: "addr_type a = type" "vchData a = hash" using addr_type_object ok by auto
  then have "IsValidAddress fTestNet a" using ok by (simp add: bech32_object_valid)
  then show ?thesis using Encode_Decode [OF dec] a by (auto simp: ToBech32_eq)
qed

lemma SetBech32_of_text:
  assumes v: "IsValidAddress fTestNet a" and str: "map tolower str = ToBech32 fTestNet a" "\<not> mixed_case str"
  shows "SetBech32 fTestNet str = Some a"
proof -
  from Decode_Encode_text [OF _ str(1) [unfolded ToBech32_eq [OF v]] str(2)]
  have "Decode str = \<lparr> dr_encoding = BECH32M, dr_hrp = Bech32HRP fTestNet, dr_data = addr_type a # pack (vchData a) \<rparr>"
    using ToBech32_nonempty [OF v] v by (simp add: ToBech32_eq)
  then show ?thesis
    using v by (auto simp: SetBech32_Some bech32_object_valid addr_type_def)
qed

section \<open>Properties\<close>

text \<open>
  A string is read as the bech32m form of an address exactly when the address is valid for
  the network and the string is its bech32m text, in lower or in upper case throughout. So the text
  of a valid address reads back to it, no other string does, and nothing else is accepted.
\<close>

theorem SetBech32_iff:
  "SetBech32 fTestNet str = Some a \<longleftrightarrow>
     IsValidAddress fTestNet a \<and> map tolower str = ToBech32 fTestNet a
       \<and> \<not> ((\<exists>c\<in>set str. is_lower c) \<and> (\<exists>c\<in>set str. is_upper c))"
  using SetBech32_text SetBech32_of_text mixed_case_def by blast

text \<open>
  C31. Burst errors are noticed: if a string is read as an address and up to six adjacent characters
  of its data part are replaced by others, the result is not read as any address.
\<close>

theorem SetBech32_burst:
  assumes "SetBech32 fTestNet (p @ u @ s) = Some a" and "length (Bech32HRP fTestNet) < length p"
    and "length u' = length u" and "length u \<le> 6" and "u' \<noteq> u"
  shows "SetBech32 fTestNet (p @ u' @ s) = None"
proof (rule ccontr)
  assume "SetBech32 fTestNet (p @ u' @ s) \<noteq> None"
  then obtain a' where b: "SetBech32 fTestNet (p @ u' @ s) = Some a'" by blast
  let ?h = "Bech32HRP fTestNet"
  obtain vs where v: "map tolower (p @ u @ s) = ?h @ CHR ''1'' # map chr5 vs" "fives vs"
    "PolyMod (ExpandHRP ?h @ vs) = BECH32M_CONST" using SetBech32_values [OF assms(1)] .
  obtain ws where w: "map tolower (p @ u' @ s) = ?h @ CHR ''1'' # map chr5 ws" "fives ws"
    "PolyMod (ExpandHRP ?h @ ws) = BECH32M_CONST" using SetBech32_values [OF b] .
  let ?k = "length p - Suc (length ?h)" and ?n = "length u"
  have part: "map chr5 xs = drop (Suc (length ?h)) (map tolower (p @ y @ s))"
    if "map tolower (p @ y @ s) = ?h @ CHR ''1'' # map chr5 xs" for xs y using that by simp
  have pv: "map chr5 (take ?k vs) = map chr5 (take ?k ws)"
    unfolding take_map [symmetric] part [OF v(1)] part [OF w(1)] using assms(2) by (simp add: drop_map take_map)
  have sv: "map chr5 (drop (?k + ?n) vs) = map chr5 (drop (?k + ?n) ws)"
    unfolding drop_map [symmetric] part [OF v(1)] part [OF w(1)] using assms(2,3) by (simp add: drop_map)
  have uv: "map chr5 (take ?n (drop ?k vs)) = map tolower u" "map chr5 (take ?n (drop ?k ws)) = map tolower u'"
    unfolding drop_map [symmetric] take_map [symmetric] part [OF v(1)] part [OF w(1)]
    using assms(2,3) by (simp_all add: drop_map)
  let ?vu = "take ?n (drop ?k vs)" and ?wu = "take ?n (drop ?k ws)"
  have fv: "fives (take i vs)" "fives (drop i vs)" "fives (take i ws)" "fives (drop i ws)" "fives ?vu" "fives ?wu" for i
    using v(2) w(2) by (meson in_set_takeD in_set_dropD)+
  have split: "xs = take ?k xs @ take ?n (drop ?k xs) @ drop (?k + ?n) xs" for xs :: bytes
    by (metis append_take_drop_id drop_drop add.commute)
  have fold: "PolyMod (ExpandHRP ?h @ xs) = foldl polymod_step (foldl polymod_step 1 (ExpandHRP ?h @ take ?k xs))
      (take ?n (drop ?k xs) @ drop (?k + ?n) xs)" for xs
    using arg_cong [OF split [of xs, symmetric], of "\<lambda>l. PolyMod (ExpandHRP ?h @ l)"]
    by (simp only: PolyMod_def foldl_append)
  have "take ?k vs = take ?k ws" "drop (?k + ?n) vs = drop (?k + ?n) ws"
    using chr5_inj [OF fv(1,3) pv] chr5_inj [OF fv(2,4) sv] by blast+
  then have "foldl polymod_step (foldl polymod_step 1 (ExpandHRP ?h @ take ?k vs)) (?vu @ drop (?k + ?n) vs)
      = foldl polymod_step (foldl polymod_step 1 (ExpandHRP ?h @ take ?k vs)) (?wu @ drop (?k + ?n) vs)"
    using v(3) w(3) fold [of vs] fold [of ws] by simp
  then have "?vu = ?wu"
    using polymod_differ fv(5,6) assms(3,4) map_eq_imp_length_eq [OF uv(1)] map_eq_imp_length_eq [OF uv(2)] by metis
  then have eq: "map tolower (p @ u @ s) = map tolower (p @ u' @ s)" using uv by simp
  have "p \<noteq> []" "?h \<noteq> []" using assms(2) hrp_ok [of fTestNet] by auto
  then have "tolower (hd p) = hd ?h" using v(1) by (metis hd_append2 list.map_sel(1) map_append Nil_is_map_conv)
  moreover have "is_lower (hd ?h)" by (cases fTestNet; simp add: Bech32HRP_def lower_bytes char_byte_def)
  ultimately have "is_lower (hd p) \<or> is_upper (hd p)" by (metis tolower_id)
  with same_case [OF SetBech32_text [OF assms(1), THEN conjunct2, THEN conjunct2] SetBech32_text [OF b, THEN conjunct2, THEN conjunct2], of "hd p", OF _ _ _ eq] \<open>p \<noteq> []\<close>
  have "p @ u @ s = p @ u' @ s" by simp
  then show False using assms(5) by simp
qed


theorem SetBech32_burst_witness:
  "SetBech32 False ''corg1pqurswpc8qurswpc8qurswpc8qurswpc8yaww6m'' = None"
proof -
  let ?s = "''qurswpc8qurswpc8qurswpc8qurswpc8yaww6m''"
  have "SetBech32 False (''corg1'' @ ''q'' @ ?s) = Some (SetData 28 (replicate 20 7))" by code_simp
  from SetBech32_burst [OF this, of "''p''"] show ?thesis by (simp add: Bech32HRP_def)
qed

lemma b58_address_length:
  assumes "length bs \<le> 25" and "bs \<noteq> []" and "hd bs \<noteq> 0"
  shows "length (b58_text bs) \<le> 35"
proof -
  have "be_nat bs < 256 ^ length bs" by (rule be_nat_bound)
  also have "\<dots> \<le> 256 ^ 25" using assms(1) by (intro power_increasing) simp_all
  also have "\<dots> < 58 ^ 35" by simp
  finally have "length (digits 58 (be_nat bs)) \<le> 35" by (rule b58.length_digits)
  moreover have "takeWhile ((=) 0) bs = []" using assms(2,3) by (cases bs) auto
  ultimately show ?thesis by (simp add: b58_text_def numeral_text_def)
qed

lemma bech32_length: "IsValidAddress fTestNet a \<Longrightarrow> 44 \<le> length (ToBech32 fTestNet a)"
proof -
  assume v: "IsValidAddress fTestNet a"
  have "4 \<le> length (Bech32HRP fTestNet)" by (simp add: Bech32HRP_def)
  then show ?thesis
    using ToBech32_nonempty [OF v] address_data [OF v] unfolding ToBech32_eq [OF v] Encode_eq
    by (auto simp: CreateChecksum_eq split: if_splits)
qed

text \<open>
  C32. A valid address is read back from either of its texts: \<open>SetString\<close> takes the base58 text
  as base58 (it is too short to be taken for bech32m) and the bech32m text, in lower case, as
  bech32m.
\<close>

theorem CBitcoinAddress_texts:
  assumes "base58_host E" and "IsValidAddress fTestNet a"
  shows "SetString_address E fTestNet (ToString58 E a) = (True, a)
    \<and> SetString_address E fTestNet (ToBech32 fTestNet a) = (True, a)"
proof
  let ?v = "nVersion58 a # vchData a"
  let ?b = "?v @ take 4 (word_le 32 (Hash E ?v))"
  have a: "length (vchData a) = 20" "nVersion58 a \<noteq> 0"
    using assms(2) by (auto simp: IsValidAddress_def address_versions Let_def split: if_splits)
  have len: "length (b58_text ?b) \<le> 35" using a by (intro b58_address_length) simp_all
  have s: "ToString58 E a = b58_text ?b"
    unfolding ToString58_def using base58_host.EncodeBase58Check_eq [OF assms(1), of ?v] a by simp
  have "SetBech32 fTestNet (b58_text ?b) = None"
  proof (rule ccontr)
    assume "SetBech32 fTestNet (b58_text ?b) \<noteq> None"
    then obtain a' where "SetBech32 fTestNet (b58_text ?b) = Some a'" by blast
    then have "IsValidAddress fTestNet a'" "map tolower (b58_text ?b) = ToBech32 fTestNet a'"
      using SetBech32_text by blast+
    then have "44 \<le> length (b58_text ?b)" using bech32_length by (metis length_map)
    then show False using len by simp
  qed
  moreover have "DecodeBase58Check E (b58_text ?b) = Some ?v"
    using len by (intro base58_host.DecodeBase58Check_text [OF assms(1)]) simp
  ultimately show "SetString_address E fTestNet (ToString58 E a) = (True, a)"
    unfolding s by (simp add: SetString_address_def SetString_def)
  have low: "\<forall>c\<in>set (ToBech32 fTestNet a). \<not> is_upper c"
    using Encode_lower by (auto simp: ToBech32_eq [OF assms(2)])
  then have "map tolower (ToBech32 fTestNet a) = ToBech32 fTestNet a" by (simp add: tolower_id map_idI)
  then show "SetString_address E fTestNet (ToBech32 fTestNet a) = (True, a)"
    using SetBech32_of_text [OF assms(2), of "ToBech32 fTestNet a"] low by (simp add: SetString_address_def mixed_case_def)
qed

theorem CBitcoinAddress_texts_witness:
  "SetString_address openssl_ref False (ToString58 openssl_ref (SetData 28 (replicate 20 7)))
     = (True, SetData 28 (replicate 20 7))"
proof -
  have "IsValidAddress False (SetData 28 (replicate 20 7))"
    by (simp add: IsValidAddress_def SetData_def address_versions)
  from CBitcoinAddress_texts [OF ref_base58.base58_host_axioms this] show ?thesis by simp
qed

end
