(* ===== verification/Pow.thy ===== *)
theory Pow
  imports Bignum
begin

text \<open>
  Proof of work and difficulty (\<open>main.cpp\<close>, \<open>main.h\<close>): the required target of the next block
  before and after the LWMA fork, the minimum work a checkpoint implies, the check of a hash
  against its target, the work of a block and the median of past times.

  The chain of a \<open>CBlockIndex\<close> is the list of it and its ancestors, newest first: the null pointer
  is the empty list and \<open>pprev\<close> is the tail. The result \<open>None\<close> is a failed assertion or a null
  pointer that is followed. Targets are \<open>CBigNum\<close>s, which are integers. The \<open>int64\<close> sums are
  integers too; the bounds proved below show that they stay far inside 64 bits.
\<close>

section \<open>Parameters\<close>

definition nTargetTimespan :: int where "nTargetTimespan = 4 * 60 * 60"
definition nTargetSpacing :: int where "nTargetSpacing = 60"
definition nInterval :: int where "nInterval = nTargetTimespan div nTargetSpacing"
definition LWMA_FORK_HEIGHT_MAINNET :: int where "LWMA_FORK_HEIGHT_MAINNET = 34000"
definition LWMA_FORK_HEIGHT_TESTNET :: int where "LWMA_FORK_HEIGHT_TESTNET = 100"
definition LWMA_WINDOW :: int where "LWMA_WINDOW = 90"

definition GetLwmaForkHeight :: "bool \<Rightarrow> int" where
  "GetLwmaForkHeight fTestNet = (if fTestNet then LWMA_FORK_HEIGHT_TESTNET else LWMA_FORK_HEIGHT_MAINNET)"

text \<open>The limit as the program starts with it and as \<open>LoadBlockIndex\<close> sets it for the other networks
  (\<open>-regtest\<close> implies \<open>-testnet\<close>).\<close>

definition bnProofOfWorkLimit :: "openssl \<Rightarrow> bool \<Rightarrow> bool \<Rightarrow> int" where
  "bnProofOfWorkLimit E fTestNet fRegTest =
     setuint256 E (drop_bit (if fRegTest then 1 else if fTestNet then 16 else 20) (NOT 0))"

text \<open>\<open>CBigNum\<close> division is \<open>BN_div\<close>, which truncates.\<close>

definition bn_div :: "int \<Rightarrow> int \<Rightarrow> int" where
  "bn_div a b = sgn a * sgn b * (\<bar>a\<bar> div \<bar>b\<bar>)"

section \<open>Block index\<close>

text \<open>The members but for the two links: \<open>pprev\<close> is the tail of the chain and \<open>pnext\<close> is not used by
  what follows. \<open>phashBlock\<close> is the hash it points to.\<close>

record CBlockIndex =
  phashBlock :: u256
  nFile :: u32
  nBlockPos :: u32
  nHeight :: int
  bnChainWork :: int
  idx_nVersion :: i32
  idx_hashMerkleRoot :: u256
  nTime :: u32
  nBits :: u32
  idx_nNonce :: u32
  fFailedChain :: bool

definition CBlockIndex_init :: CBlockIndex where
  "CBlockIndex_init = \<lparr> phashBlock = 0, nFile = 0, nBlockPos = 0, nHeight = 0, bnChainWork = 0, idx_nVersion = 0,
     idx_hashMerkleRoot = 0, nTime = 0, nBits = 0, idx_nNonce = 0, fFailedChain = False \<rparr>"

type_synonym chain = "CBlockIndex list"

definition GetBlockTime :: "CBlockIndex \<Rightarrow> int" where
  "GetBlockTime b = uint (nTime b)"

definition GetBlockWork :: "openssl \<Rightarrow> CBlockIndex \<Rightarrow> int" where
  "GetBlockWork E b =
     (let bnTarget = SetCompact E (nBits b) in
      if bnTarget \<le> 0 then 0 else bn_div (2 ^ 256) (bnTarget + 1))"

definition nMedianTimeSpan :: nat where "nMedianTimeSpan = 11"

text \<open>The array is filled from its end, so \<open>pbegin\<close> points to the oldest of the times taken.\<close>

definition GetMedianTimePast :: "chain \<Rightarrow> int" where
  "GetMedianTimePast pindex =
     (let pmedian = sort (rev (map GetBlockTime (take nMedianTimeSpan pindex)))
      in pmedian ! (length pmedian div 2))"

section \<open>LWMA\<close>

text \<open>The loop that fills \<open>window[N..0]\<close> following \<open>pprev\<close>; \<open>None\<close> when the chain is too short.\<close>

fun walk_back :: "nat \<Rightarrow> chain \<Rightarrow> CBlockIndex list option" where
  "walk_back 0 pindex = Some []"
| "walk_back (Suc n) [] = None"
| "walk_back (Suc n) (b # pprev) =
     (case walk_back n pprev of None \<Rightarrow> None | Some w \<Rightarrow> Some (w @ [b]))"

text \<open>The loop over \<open>window[1..N]\<close>: previous time, weighted sum, sum of targets.\<close>

fun lwma_loop :: "openssl \<Rightarrow> int \<Rightarrow> CBlockIndex list \<Rightarrow> int \<Rightarrow> int \<Rightarrow> int \<Rightarrow> int \<times> int" where
  "lwma_loop E i [] nPrevTime nSum bnSumTarget = (nSum, bnSumTarget)"
| "lwma_loop E i (b # window) nPrevTime nSum bnSumTarget =
     (let nThisTime = max (GetBlockTime b) (nPrevTime + 1);
          nSolvetime = min (nThisTime - nPrevTime) (6 * nTargetSpacing)
      in lwma_loop E (i + 1) window nThisTime (nSum + nSolvetime * i) (bnSumTarget + SetCompact E (nBits b)))"

definition CalculateNextWorkRequiredLWMA :: "openssl \<Rightarrow> bool \<Rightarrow> bool \<Rightarrow> chain \<Rightarrow> u32 option" where
  "CalculateNextWorkRequiredLWMA E fTestNet fRegTest pindexLast =
     (let N = LWMA_WINDOW; T = nTargetSpacing; k = N * (N + 1) div 2 * T;
          limit = bnProofOfWorkLimit E fTestNet fRegTest in
      if pindexLast = [] \<or> nHeight (hd pindexLast) < N then Some (GetCompact E limit)
      else
        (case walk_back (nat N + 1) pindexLast of
           None \<Rightarrow> None
         | Some window \<Rightarrow>
             (let (nSumWeightedSolvetime, bnSumTarget) =
                    lwma_loop E 1 (drop 1 window) (GetBlockTime (window ! 0)) 0 0;
                  bnNew = bn_div (bnSumTarget * nSumWeightedSolvetime) (N * k);
                  bnNew = (if bnNew > limit then limit else bnNew)
              in Some (GetCompact E bnNew))))"

section \<open>The interval retarget and the choice between the two\<close>

text \<open>
  The loop of \<open>ComputeMinWork\<close>; \<open>nTime\<close> falls by sixteen hours in each pass.
\<close>

function min_work_loop :: "int \<Rightarrow> int \<Rightarrow> int \<Rightarrow> int" where
  "min_work_loop limit bnResult t =
     (if t > 0 \<and> bnResult < limit then min_work_loop limit (bnResult * 4) (t - nTargetTimespan * 4)
      else bnResult)"
  by pat_completeness auto
termination
  by (relation "measure (\<lambda>(l, b, t). nat t)") (auto simp: nTargetTimespan_def)

declare min_work_loop.simps [simp del]

definition ComputeMinWork :: "openssl \<Rightarrow> bool \<Rightarrow> bool \<Rightarrow> u32 \<Rightarrow> int \<Rightarrow> u32" where
  "ComputeMinWork E fTestNet fRegTest nBase t =
     (let limit = bnProofOfWorkLimit E fTestNet fRegTest in
      if fTestNet \<and> t > nTargetSpacing * 2 then GetCompact E limit
      else
        (let bnResult = min_work_loop limit (SetCompact E nBase) t in
         GetCompact E (if bnResult > limit then limit else bnResult)))"

text \<open>The last block that is not a testnet minimum-difficulty block.\<close>

fun last_non_special :: "u32 \<Rightarrow> chain \<Rightarrow> CBlockIndex option" where
  "last_non_special limit [] = None"
| "last_non_special limit [b] = Some b"
| "last_non_special limit (b # pprev) =
     (if nHeight b mod nInterval \<noteq> 0 \<and> nBits b = limit then last_non_special limit pprev else Some b)"

definition clamp_timespan :: "int \<Rightarrow> int \<Rightarrow> int" where
  "clamp_timespan nextHeight nActualTimespan =
     (let d = (if nextHeight > 10000 then 4 else if nextHeight > 5000 then 8 else 16);
          t = (if nActualTimespan < nTargetTimespan div d then nTargetTimespan div d else nActualTimespan)
      in if t > nTargetTimespan * 4 then nTargetTimespan * 4 else t)"

definition GetNextWorkRequired :: "openssl \<Rightarrow> bool \<Rightarrow> bool \<Rightarrow> chain \<Rightarrow> u32 \<Rightarrow> u32 option" where
  "GetNextWorkRequired E fTestNet fRegTest pindexLast blockTime =
     (let limit = bnProofOfWorkLimit E fTestNet fRegTest;
          nProofOfWorkLimit = GetCompact E limit in
      case pindexLast of [] \<Rightarrow> Some nProofOfWorkLimit
      | tip # pprev \<Rightarrow>
        if fRegTest then Some nProofOfWorkLimit
        else if nHeight tip + 1 \<ge> GetLwmaForkHeight fTestNet
        then CalculateNextWorkRequiredLWMA E fTestNet fRegTest pindexLast
        else if (nHeight tip + 1) mod nInterval \<noteq> 0 then
          (if fTestNet then
             (if uint blockTime > uint (nTime tip) + nTargetSpacing * 2 then Some nProofOfWorkLimit
              else map_option nBits (last_non_special nProofOfWorkLimit pindexLast))
           else Some (nBits tip))
        else
          (let blockstogoback = (if nHeight tip + 1 \<noteq> nInterval then nInterval else nInterval - 1) in
           case drop (nat blockstogoback) pindexLast of [] \<Rightarrow> None
           | first # _ \<Rightarrow>
             (let nActualTimespan = clamp_timespan (nHeight tip + 1) (GetBlockTime tip - GetBlockTime first);
                  bnNew = bn_div (SetCompact E (nBits tip) * nActualTimespan) nTargetTimespan;
                  bnNew = (if bnNew > limit then limit else bnNew)
              in Some (GetCompact E bnNew))))"

definition CheckProofOfWork :: "openssl \<Rightarrow> bool \<Rightarrow> bool \<Rightarrow> u256 \<Rightarrow> u32 \<Rightarrow> bool" where
  "CheckProofOfWork E fTestNet fRegTest hash bits =
     (let bnTarget = SetCompact E bits in
      if bnTarget \<le> 0 \<or> bnTarget > bnProofOfWorkLimit E fTestNet fRegTest then False
      else if hash > getuint256 E bnTarget then False
      else True)"

section \<open>Facts\<close>

lemmas pow_params = nTargetTimespan_def nTargetSpacing_def nInterval_def LWMA_WINDOW_def

lemma bn_div_nonneg: "0 \<le> a \<Longrightarrow> 0 < b \<Longrightarrow> bn_div a b = a div b"
  by (cases "a = 0") (auto simp: bn_div_def)

definition limit_bits :: "bool \<Rightarrow> bool \<Rightarrow> nat" where
  "limit_bits fTestNet fRegTest = (if fRegTest then 255 else if fTestNet then 240 else 236)"

context openssl_mpi
begin

lemma limit_eq: "bnProofOfWorkLimit E t r = 2 ^ limit_bits t r - 1"
  by (simp add: bnProofOfWorkLimit_def setuint256_eq limit_bits_def mask_eq_exp_minus_1)

lemma limit_range: "2 ^ 236 - 1 \<le> bnProofOfWorkLimit E t r" "bnProofOfWorkLimit E t r < 2 ^ 256"
  by (simp_all add: limit_eq limit_bits_def)

lemma compact_target:
  assumes "0 < z" "z < 2 ^ 256"
  shows "0 < SetCompact E (GetCompact E z)" and "SetCompact E (GetCompact E z) \<le> z"
proof -
  have "length (mpi_body z) < 256" using length_mpi_body [of z 32] assms by simp
  note e = GetCompact_error [OF _ this]
  show "SetCompact E (GetCompact E z) \<le> z" using e(1) assms by simp
  show "0 < SetCompact E (GetCompact E z)" using e(2,3) assms by (cases "SetCompact E (GetCompact E z) = 0") auto
qed

end

lemma walk_back_eq: "n \<le> length c \<Longrightarrow> walk_back n c = Some (rev (take n c))"
  by (induction n c rule: walk_back.induct) auto

text \<open>The sum of the weights \<open>i, i + 1, ...\<close> of a window.\<close>

fun weights :: "int \<Rightarrow> nat \<Rightarrow> int" where
  "weights i 0 = 0"
| "weights i (Suc m) = i + weights (i + 1) m"

lemma weights_nonneg: "0 \<le> i \<Longrightarrow> 0 \<le> weights i m"
  by (induction m arbitrary: i) auto

lemma weights_90: "weights 1 90 = 4095"
  by (simp add: numeral_eq_Suc)

lemma lwma_loop_sum:
  "snd (lwma_loop E i w p s t) = t + sum_list (map (\<lambda>b. SetCompact E (nBits b)) w)"
  by (induction w arbitrary: i p s t) (simp_all add: Let_def)

lemma lwma_loop_bounds:
  "0 \<le> i \<Longrightarrow> s + weights i (length w) \<le> fst (lwma_loop E i w p s t)
     \<and> fst (lwma_loop E i w p s t) \<le> s + 360 * weights i (length w)"
proof (induction w arbitrary: i p s t)
  case (Cons b w)
  let ?now = "max (GetBlockTime b) (p + 1)"
  let ?v = "min (?now - p) (6 * nTargetSpacing)"
  have v: "1 \<le> ?v" "?v \<le> 360" by (simp_all add: pow_params)
  have "i \<le> ?v * i" "?v * i \<le> 360 * i"
    using v Cons.prems by (simp add: mult_le_cancel_right1) (rule mult_right_mono [OF v(2) Cons.prems])
  with Cons.IH [of "i + 1" "s + ?v * i" ?now "t + SetCompact E (nBits b)"] Cons.prems
  show ?case by (simp add: Let_def)
qed simp

lemma lwma_loop_steady:
  assumes "\<forall>j<length w. GetBlockTime (w ! j) = p + 60 * (int j + 1)"
  shows "fst (lwma_loop E i w p s t) = s + 60 * weights i (length w)"
  using assms
proof (induction w arbitrary: i p s t)
  case (Cons b w)
  have b: "GetBlockTime b = p + 60" using Cons.prems [rule_format, of 0] by simp
  have "\<forall>j<length w. GetBlockTime (w ! j) = (p + 60) + 60 * (int j + 1)"
    using Cons.prems by (metis Suc_less_eq add.assoc length_Cons nth_Cons_Suc of_nat_Suc mult.right_neutral distrib_left add.commute)
  from Cons.IH [OF this] b show ?case by (simp add: Let_def pow_params)
qed simp


text \<open>
  A chain down to the genesis block, and targets that are within the limit and not absurdly small
  (mainnet's easiest target has 236 bits; 60 leaves room for the steepest single rise in
  difficulty).
\<close>

definition wf_chain :: "chain \<Rightarrow> bool" where
  "wf_chain c \<longleftrightarrow> (\<forall>i<length c. nHeight (c ! i) = int (length c) - 1 - int i)"

definition target_ok :: "openssl \<Rightarrow> bool \<Rightarrow> bool \<Rightarrow> u32 \<Rightarrow> bool" where
  "target_ok E fTestNet fRegTest bits \<longleftrightarrow>
     60 \<le> SetCompact E bits \<and> SetCompact E bits \<le> bnProofOfWorkLimit E fTestNet fRegTest"

definition target_sum :: "openssl \<Rightarrow> chain \<Rightarrow> int" where
  "target_sum E c = sum_list (map (\<lambda>b. SetCompact E (nBits b)) c)"

definition lwma_weighted :: "openssl \<Rightarrow> chain \<Rightarrow> int" where
  "lwma_weighted E c = fst (lwma_loop E 1 (rev (take 90 c)) (GetBlockTime (c ! 90)) 0 0)"

lemma tip_height: "wf_chain (b # c) \<Longrightarrow> nHeight b = int (length c)"
  unfolding wf_chain_def by (metis One_nat_def add_diff_cancel_right' diff_zero length_Cons list.size(4) nth_Cons_0 of_nat_0 of_nat_1 of_nat_add zero_less_Suc)

lemma lwma_weighted_bounds:
  assumes "90 < length c"
  shows "4095 \<le> lwma_weighted E c" and "lwma_weighted E c \<le> 1474200"
  using lwma_loop_bounds [of 1 0 "rev (take 90 c)" E "GetBlockTime (c ! 90)" 0] assms
  by (simp_all add: lwma_weighted_def min_def weights_90)

lemma LWMA_eq:
  assumes "wf_chain c" and "90 < length c" and "0 \<le> target_sum E (take 90 c)"
  shows "CalculateNextWorkRequiredLWMA E t r c = Some (GetCompact E
    (min (bnProofOfWorkLimit E t r) (target_sum E (take 90 c) * lwma_weighted E c div 22113000)))"
proof -
  have ne: "c \<noteq> []" using assms(2) by auto
  then have h: "\<not> nHeight (hd c) < 90"
    using assms(1,2) tip_height [of "hd c" "tl c"] by simp
  have "take 91 c = take 90 c @ [c ! 90]"
    using take_Suc_conv_app_nth [OF assms(2)] by simp
  then have w: "walk_back 91 c = Some (c ! 90 # rev (take 90 c))"
    using walk_back_eq [of 91 c] assms(2) by simp
  have s: "snd (lwma_loop E 1 (rev (take 90 c)) (GetBlockTime (c ! 90)) 0 0) = target_sum E (take 90 c)"
    by (simp add: lwma_loop_sum target_sum_def flip: rev_map)
  have "0 \<le> target_sum E (take 90 c) * lwma_weighted E c"
    using assms(3) lwma_weighted_bounds [OF assms(2), of E] by simp
  then show ?thesis
    using ne h w s unfolding CalculateNextWorkRequiredLWMA_def lwma_weighted_def
    by (auto simp: Let_def pow_params bn_div_nonneg min_def split: prod.split)
qed

lemma target_sum_bounds:
  "\<forall>b\<in>set c. lo \<le> SetCompact E (nBits b) \<and> SetCompact E (nBits b) \<le> hi \<Longrightarrow>
     lo * int (length c) \<le> target_sum E c \<and> target_sum E c \<le> hi * int (length c)"
  unfolding target_sum_def by (induction c) (auto simp: algebra_simps)

lemma clamp_bounds: "900 \<le> clamp_timespan h t" "clamp_timespan h t \<le> 57600"
  by (auto simp: clamp_timespan_def Let_def pow_params)

lemma last_non_special_in: "c \<noteq> [] \<Longrightarrow> \<exists>b\<in>set c. last_non_special k c = Some b"
  by (induction k c rule: last_non_special.induct) auto

context openssl_mpi
begin

lemma min_limit_ok:
  assumes "1 \<le> z"
  shows "0 < SetCompact E (GetCompact E (min (bnProofOfWorkLimit E t r) z))"
    and "SetCompact E (GetCompact E (min (bnProofOfWorkLimit E t r) z)) \<le> bnProofOfWorkLimit E t r"
  using compact_target [of "min (bnProofOfWorkLimit E t r) z"] limit_range [of t r] assms by auto

lemma LWMA_ok:
  assumes "wf_chain c" "90 < length c" "\<forall>b\<in>set c. target_ok E t r (nBits b)"
  obtains bits where "CalculateNextWorkRequiredLWMA E t r c = Some bits" "0 < SetCompact E bits"
    "SetCompact E bits \<le> bnProofOfWorkLimit E t r"
proof -
  let ?s = "target_sum E (take 90 c)" and ?w = "lwma_weighted E c"
  have "\<forall>b\<in>set (take 90 c). 60 \<le> SetCompact E (nBits b) \<and> SetCompact E (nBits b) \<le> bnProofOfWorkLimit E t r"
    using assms(3) by (auto simp: target_ok_def dest: in_set_takeD)
  from target_sum_bounds [OF this] have s: "5400 \<le> ?s" using assms(2) by simp
  have "5400 * 4095 \<le> ?s * ?w"
    using s lwma_weighted_bounds(1) [OF assms(2), of E] by (intro mult_mono) simp_all
  then have "1 \<le> ?s * ?w div 22113000" by (simp add: int_one_le_iff_zero_less pos_imp_zdiv_pos_iff)
  from min_limit_ok [OF this] that show thesis using LWMA_eq [OF assms(1,2), of E t r] s by simp
qed

lemma legacy_ok:
  assumes "wf_chain (b # c)" "target_ok E t r (nBits b)" "(nHeight b + 1) mod nInterval = 0"
    "\<not> r" "nHeight b + 1 < GetLwmaForkHeight t"
  obtains bits where "GetNextWorkRequired E t r (b # c) bt = Some bits" "0 < SetCompact E bits"
    "SetCompact E bits \<le> bnProofOfWorkLimit E t r"
proof -
  let ?k = "nat (if nHeight b + 1 \<noteq> nInterval then nInterval else nInterval - 1)"
  have h: "nHeight b = int (length c)" by (rule tip_height [OF assms(1)])
  then obtain q where q: "int (length c) + 1 = 240 * q"
    using assms(3) by (auto simp: pow_params dvd_def mod_eq_0_iff_dvd)
  then have "1 \<le> q" by linarith
  then have "?k < length (b # c)" using h q by (auto simp: pow_params)
  then obtain f fs where drop: "drop ?k (b # c) = f # fs"
    by (metis Cons_nth_drop_Suc)
  let ?ts = "clamp_timespan (nHeight b + 1) (GetBlockTime b - GetBlockTime f)"
  have o: "60 \<le> SetCompact E (nBits b)" using assms(2) by (simp add: target_ok_def)
  have "60 * 900 \<le> SetCompact E (nBits b) * ?ts" using o clamp_bounds(1) by (intro mult_mono) simp_all
  then have one: "1 \<le> SetCompact E (nBits b) * ?ts div 14400"
    by (simp add: int_one_le_iff_zero_less pos_imp_zdiv_pos_iff)
  have "GetNextWorkRequired E t r (b # c) bt = Some (GetCompact E
      (min (bnProofOfWorkLimit E t r) (SetCompact E (nBits b) * ?ts div 14400)))"
    using assms(3-5) drop one \<open>60 * 900 \<le> _\<close>
    unfolding GetNextWorkRequired_def Let_def
    by (auto simp: bn_div_nonneg nTargetTimespan_def min_def)
  then show thesis using min_limit_ok [OF one] that by blast
qed

lemma GetNextWorkRequired_ok:
  assumes "wf_chain c" "\<forall>b\<in>set c. target_ok E t r (nBits b)"
  shows "\<exists>bits. GetNextWorkRequired E t r c bt = Some bits \<and> 0 < SetCompact E bits
    \<and> SetCompact E bits \<le> bnProofOfWorkLimit E t r"
proof -
  have limit: "0 < SetCompact E (GetCompact E (bnProofOfWorkLimit E t r))"
    "SetCompact E (GetCompact E (bnProofOfWorkLimit E t r)) \<le> bnProofOfWorkLimit E t r"
    using compact_target [of "bnProofOfWorkLimit E t r"] limit_range [of t r] by auto
  have ok: "0 < SetCompact E (nBits b) \<and> SetCompact E (nBits b) \<le> bnProofOfWorkLimit E t r" if "b \<in> set c" for b
    using assms(2) that by (auto simp: target_ok_def)
  show ?thesis
  proof (cases c)
    case Nil
    then show ?thesis using limit by (simp add: GetNextWorkRequired_def)
  next
    case (Cons b bs)
    have h: "nHeight b = int (length bs)" using tip_height assms(1) Cons by blast
    consider "r" | "\<not> r" "nHeight b + 1 \<ge> GetLwmaForkHeight t"
      | "\<not> r" "nHeight b + 1 < GetLwmaForkHeight t" "(nHeight b + 1) mod nInterval \<noteq> 0"
      | "\<not> r" "nHeight b + 1 < GetLwmaForkHeight t" "(nHeight b + 1) mod nInterval = 0" by linarith
    then show ?thesis
    proof cases
      case 1
      then show ?thesis using limit Cons by (simp add: GetNextWorkRequired_def)
    next
      case 2
      then have "90 < length c"
        using h Cons by (auto simp: GetLwmaForkHeight_def LWMA_FORK_HEIGHT_MAINNET_def LWMA_FORK_HEIGHT_TESTNET_def split: if_splits)
      moreover have "GetNextWorkRequired E t r c bt = CalculateNextWorkRequiredLWMA E t r c"
        using 2 Cons by (simp add: GetNextWorkRequired_def Let_def)
      ultimately show ?thesis using LWMA_ok [OF assms(1) _ assms(2)] by metis
    next
      case 3
      obtain d where "d \<in> set c" "last_non_special (GetCompact E (bnProofOfWorkLimit E t r)) c = Some d"
        using last_non_special_in [of c] Cons by blast
      then show ?thesis using 3 limit ok Cons by (auto simp: GetNextWorkRequired_def Let_def)
    next
      case 4
      show ?thesis using legacy_ok [of b bs t r bt] assms 4 Cons by auto
    qed
  qed
qed

lemma CheckProofOfWork_eq:
  "CheckProofOfWork E t r hash bits \<longleftrightarrow>
     0 < SetCompact E bits \<and> SetCompact E bits \<le> bnProofOfWorkLimit E t r \<and> uint hash \<le> SetCompact E bits"
proof (cases "0 < SetCompact E bits \<and> SetCompact E bits \<le> bnProofOfWorkLimit E t r")
  case True
  then have "getuint256 E (SetCompact E bits) = word_of_int (SetCompact E bits)"
    using limit_range [of t r] by (intro getuint256_eq) auto
  moreover have "uint (word_of_int (SetCompact E bits) :: u256) = SetCompact E bits"
    using True limit_range [of t r] by (simp add: uint_word_of_int take_bit_eq_mod)
  ultimately show ?thesis using True by (simp add: CheckProofOfWork_def Let_def word_less_def not_less)
qed (auto simp: CheckProofOfWork_def Let_def)

end

lemma lwma_raw_bounds:
  assumes "90 < length c" and "0 \<le> target_sum E (take 90 c)"
  shows "target_sum E (take 90 c) div 5400 \<le> target_sum E (take 90 c) * lwma_weighted E c div 22113000"
    and "target_sum E (take 90 c) * lwma_weighted E c div 22113000 \<le> target_sum E (take 90 c) div 15"
proof -
  let ?s = "target_sum E (take 90 c)" and ?w = "lwma_weighted E c"
  have "?s * 4095 div 22113000 = ?s div 5400" "?s * 1474200 div 22113000 = ?s div 15"
    using div_mult_mult1 [of 4095 ?s 5400] div_mult_mult1 [of 1474200 ?s 15] by (simp_all add: mult.commute)
  moreover have "?s * 4095 \<le> ?s * ?w" "?s * ?w \<le> ?s * 1474200"
    using lwma_weighted_bounds [OF assms(1), of E] assms(2) by (simp_all add: mult_left_mono)
  ultimately show "?s div 5400 \<le> ?s * ?w div 22113000" "?s * ?w div 22113000 \<le> ?s div 15"
    by (metis zdiv_mono1 zero_less_numeral)+
qed

lemma lwma_weighted_steady:
  assumes "90 < length c" and "\<forall>i<90. GetBlockTime (c ! i) = GetBlockTime (c ! Suc i) + 60"
  shows "lwma_weighted E c = 245700"
proof -
  have times: "GetBlockTime (c ! (90 - k)) = GetBlockTime (c ! 90) + 60 * int k" if "k \<le> 90" for k
    using that
  proof (induction k)
    case (Suc k)
    then have "GetBlockTime (c ! (90 - Suc k)) = GetBlockTime (c ! Suc (90 - Suc k)) + 60" using assms(2) by simp
    moreover have "Suc (90 - Suc k) = 90 - k" using Suc.prems by simp
    ultimately show ?case using Suc by simp
  qed simp
  have "\<forall>j<length (rev (take 90 c)). GetBlockTime (rev (take 90 c) ! j) = GetBlockTime (c ! 90) + 60 * (int j + 1)"
    using assms(1) times [of "Suc _"] by (auto simp: rev_nth min_def)
  from lwma_loop_steady [OF this] show ?thesis
    using assms(1) by (simp add: lwma_weighted_def min_def weights_90)
qed

lemma min_work_loop_min:
  assumes "0 < b"
  shows "min limit (min_work_loop limit b t) = min limit (b * 4 ^ nat ((t + 57599) div 57600))"
  using assms
proof (induction limit b t rule: min_work_loop.induct)
  case (1 limit b t)
  show ?case
  proof (cases "t > 0 \<and> b < limit")
    case True
    have "(t + 57599) div 57600 = 1 + (t - 57600 + 57599) div 57600" by simp
    moreover have "0 \<le> (t - 57600 + 57599) div 57600" using True by (simp add: pos_imp_zdiv_nonneg_iff)
    ultimately have n: "nat ((t + 57599) div 57600) = Suc (nat ((t - 57600 + 57599) div 57600))" by linarith
    have "min limit (min_work_loop limit b t) = min limit (min_work_loop limit (b * 4) (t - 57600))"
      using True by (subst min_work_loop.simps) (simp add: pow_params)
    also have "\<dots> = min limit (b * 4 * 4 ^ nat ((t - 57600 + 57599) div 57600))"
      using 1 True by (simp add: pow_params)
    finally show ?thesis unfolding n by (simp add: mult.assoc)
  next
    case False
    then have stop: "min_work_loop limit b t = b" by (subst min_work_loop.simps) auto
    show ?thesis
    proof (cases "t > 0")
      case True
      have "b * 1 \<le> b * 4 ^ nat ((t + 57599) div 57600)" using "1.prems" by (intro mult_left_mono) simp_all
      then show ?thesis using stop False True by simp
    next
      case neg: False
      then have "(t + 57599) div 57600 \<le> 0" by simp
      then show ?thesis using stop by simp
    qed
  qed
qed


text \<open>A concrete target for the examples.\<close>

lemma example_target: "SetCompact openssl_ref 0x1e0ffff0 = 0xffff0 * 256 ^ 27"
proof -
  have size: "compact_size 0x1e0ffff0 = 30" by code_simp
  have "ucast (drop_bit 16 (0x1e0ffff0 :: u32) AND 0xff) = (0x0f :: byte)"
    "ucast (drop_bit 8 (0x1e0ffff0 :: u32) AND 0xff) = (0xff :: byte)"
    "ucast (drop_bit 0 (0x1e0ffff0 :: u32) AND 0xff) = (0xf0 :: byte)" by code_simp+
  then have "compact_body 0x1e0ffff0 = [0x0f, 0xff, 0xf0] @ replicate 27 0"
    unfolding compact_body_def size by (simp only: append_Cons append_Nil) (simp add: numeral_eq_Suc)
  then show ?thesis
    by (simp add: ref_bn.SetCompact_eq mpi_value_def be_nat_Cons)
qed

definition steady_chain :: "nat \<Rightarrow> chain" where
  "steady_chain n = map (\<lambda>h. CBlockIndex_init\<lparr> nHeight := int h, nTime := word_of_nat (60 * h), nBits := 0x1e0ffff0 \<rparr>) (rev [0..<n])"

lemma length_steady [simp]: "length (steady_chain n) = n"
  by (simp add: steady_chain_def)

lemma steady_chain_nth:
  "i < n \<Longrightarrow> steady_chain n ! i =
     CBlockIndex_init\<lparr> nHeight := int (n - 1 - i), nTime := word_of_nat (60 * (n - 1 - i)), nBits := 0x1e0ffff0 \<rparr>"
  by (simp add: steady_chain_def rev_nth)

lemma steady_chain_wf: "wf_chain (steady_chain n)"
  by (auto simp: wf_chain_def steady_chain_nth)

lemma steady_chain_time: "i < 91 \<Longrightarrow> GetBlockTime (steady_chain 91 ! i) = 60 * int (90 - i)"
proof -
  assume i: "i < 91"
  have small: "uint (word_of_nat m :: u32) = int m" if "m < 2 ^ 32" for m
    using that by (simp add: unsigned_of_nat take_bit_nat_eq_self)
  have "GetBlockTime (steady_chain 91 ! i) = uint (word_of_nat (60 * (90 - i)) :: u32)"
    unfolding GetBlockTime_def steady_chain_nth [OF i] by simp
  also have "\<dots> = int (60 * (90 - i))" by (rule small) simp
  finally show ?thesis by simp
qed

lemma steady_chain_bits: "b \<in> set (take k (steady_chain n)) \<Longrightarrow> nBits b = 0x1e0ffff0"
  by (auto simp: steady_chain_def dest!: in_set_takeD)

section \<open>Properties\<close>

text \<open>
  C23. The difficulty required of the next block can always be met: on every network and for every
  chain whose targets are in range, \<open>GetNextWorkRequired\<close> returns, no assertion fails and no null
  pointer is followed, and \<open>CheckProofOfWork\<close> accepts the returned bits for exactly the hashes
  that are at most their (positive) target.
\<close>

theorem GetNextWorkRequired_acceptable:
  assumes "openssl_mpi E" and "wf_chain c" and "\<forall>b\<in>set c. target_ok E fTestNet fRegTest (nBits b)"
  shows "\<exists>bits. GetNextWorkRequired E fTestNet fRegTest c blockTime = Some bits \<and> 0 < SetCompact E bits
    \<and> (\<forall>hash. CheckProofOfWork E fTestNet fRegTest hash bits \<longleftrightarrow> uint hash \<le> SetCompact E bits)"
  using openssl_mpi.GetNextWorkRequired_ok [OF assms] openssl_mpi.CheckProofOfWork_eq [OF assms(1)] by meson

theorem GetNextWorkRequired_acceptable_witness:
  "\<exists>bits. GetNextWorkRequired openssl_ref False False [CBlockIndex_init\<lparr> nHeight := 0, nTime := 1389688315, nBits := 0x1e0ffff0 \<rparr>] 0 = Some bits
     \<and> 0 < SetCompact openssl_ref bits"
proof -
  have "target_ok openssl_ref False False 0x1e0ffff0"
    by (simp add: target_ok_def ref_bn.limit_eq limit_bits_def example_target)
  then show ?thesis
    using GetNextWorkRequired_acceptable [OF ref_bn.openssl_mpi_axioms, of "[CBlockIndex_init\<lparr> nHeight := 0, nTime := 1389688315, nBits := 0x1e0ffff0 \<rparr>]" False False 0]
    by (auto simp: wf_chain_def)
qed

text \<open>
  C24. One LWMA step is bounded whatever the timestamps are: before rounding to compact bits the
  next target is between a sixtieth and six times the average target of the window, and never
  above the limit.
\<close>

theorem LWMA_step_bounds:
  assumes "wf_chain c" and "90 < length c" and "0 \<le> target_sum E (take 90 c)"
  shows "\<exists>raw. CalculateNextWorkRequiredLWMA E fTestNet fRegTest c
      = Some (GetCompact E (min (bnProofOfWorkLimit E fTestNet fRegTest) raw))
    \<and> target_sum E (take 90 c) div (90 * 60) \<le> raw \<and> raw \<le> target_sum E (take 90 c) * 6 div 90"
  using LWMA_eq [OF assms] lwma_raw_bounds [OF assms(2,3)] div_mult_mult1 [of 6 "target_sum E (take 90 c)" 15]
  by (auto simp: mult.commute)

theorem LWMA_step_bounds_witness:
  "\<exists>raw. CalculateNextWorkRequiredLWMA openssl_ref False False (steady_chain 91)
      = Some (GetCompact openssl_ref (min (bnProofOfWorkLimit openssl_ref False False) raw))
    \<and> 1 \<le> raw"
proof -
  have s: "target_sum openssl_ref (take 90 (steady_chain 91)) = 90 * (0xffff0 * 256 ^ 27)"
    using target_sum_bounds [of "take 90 (steady_chain 91)" "0xffff0 * 256 ^ 27" openssl_ref "0xffff0 * 256 ^ 27"]
      steady_chain_bits example_target by simp
  then show ?thesis
    using LWMA_step_bounds [OF steady_chain_wf, of 91 openssl_ref False False] by fastforce
qed

text \<open>
  A steady chain keeps its difficulty: when the last 90 blocks are exactly one target spacing
  apart and have the same normalised bits, the next block has these bits too.
\<close>

theorem LWMA_steady_state:
  assumes "openssl_mpi E" and "wf_chain c" and "90 < length c"
    and "\<forall>i<90. GetBlockTime (c ! i) = GetBlockTime (c ! Suc i) + nTargetSpacing"
    and "\<forall>b\<in>set (take 90 c). nBits b = bits"
    and "3 \<le> unat (drop_bit 24 bits)" and "0x8000 \<le> unat bits mod 2 ^ 24" and "unat bits mod 2 ^ 24 < 0x800000"
    and "0 \<le> SetCompact E bits" and "SetCompact E bits \<le> bnProofOfWorkLimit E fTestNet fRegTest"
  shows "CalculateNextWorkRequiredLWMA E fTestNet fRegTest c = Some bits"
proof -
  have "target_sum E (take 90 c) = SetCompact E bits * 90"
    using target_sum_bounds [of "take 90 c" "SetCompact E bits" E "SetCompact E bits"] assms(3,5) by simp
  moreover have "lwma_weighted E c = 245700"
    using lwma_weighted_steady assms(3,4) by (simp add: nTargetSpacing_def)
  ultimately have "CalculateNextWorkRequiredLWMA E fTestNet fRegTest c = Some (GetCompact E (SetCompact E bits))"
    using LWMA_eq [OF assms(2,3), of E fTestNet fRegTest] assms(9,10) by simp
  then show ?thesis
    using openssl_mpi.GetCompact_SetCompact [OF assms(1)] assms(6-8) by (simp add: compact_size_def)
qed

theorem LWMA_steady_state_witness:
  "CalculateNextWorkRequiredLWMA openssl_ref False False (steady_chain 91) = Some 0x1e0ffff0"
proof (rule LWMA_steady_state [OF ref_bn.openssl_mpi_axioms steady_chain_wf])
  show "\<forall>i<90. GetBlockTime (steady_chain 91 ! i) = GetBlockTime (steady_chain 91 ! Suc i) + nTargetSpacing"
    by (simp add: steady_chain_time nTargetSpacing_def of_nat_diff)
  show "\<forall>b\<in>set (take 90 (steady_chain 91)). nBits b = 0x1e0ffff0" using steady_chain_bits by blast
  show "SetCompact openssl_ref 0x1e0ffff0 \<le> bnProofOfWorkLimit openssl_ref False False"
    by (simp add: ref_bn.limit_eq limit_bits_def example_target)
qed (simp_all add: example_target drop_bit_eq_div)

text \<open>
  \<open>ComputeMinWork\<close> ends and quadruples the base target once for every started sixteen hours,
  up to the limit.
\<close>

theorem ComputeMinWork_eq:
  assumes "0 < SetCompact E nBase" and "\<not> (fTestNet \<and> nTargetSpacing * 2 < t)"
  shows "ComputeMinWork E fTestNet fRegTest nBase t = GetCompact E
    (min (bnProofOfWorkLimit E fTestNet fRegTest)
      (SetCompact E nBase * 4 ^ nat ((t + (4 * nTargetTimespan - 1)) div (4 * nTargetTimespan))))"
  using min_work_loop_min [OF assms(1), of "bnProofOfWorkLimit E fTestNet fRegTest" t] assms(2)
  by (auto simp: ComputeMinWork_def Let_def pow_params min_def split: if_splits)


theorem ComputeMinWork_eq_witness:
  "ComputeMinWork openssl_ref False False 0x1e0ffff0 60000
     = GetCompact openssl_ref (bnProofOfWorkLimit openssl_ref False False)"
  using ComputeMinWork_eq [of openssl_ref "0x1e0ffff0" False 60000 False]
  by (simp add: example_target pow_params ref_bn.limit_eq limit_bits_def)

end
