(* ===== verification/Merkle.thy ===== *)
theory Merkle
  imports Tx
begin

text \<open>
  The hash tree of a block (\<open>CBlock\<close> in \<open>main.h\<close>): \<open>BuildMerkleTree\<close> lays all rows of the tree out in
  one array, \<open>GetMerkleBranch\<close> reads a branch from it and \<open>CheckMerkleBranch\<close> folds a hash up a branch.
  They are related to the recursive tree over lists: the array is its rows, every branch leads to
  the root, and, as far as the hash has no collision on the pairs involved, only the branch of a
  leaf does.
\<close>

section \<open>The array\<close>

definition HashPair :: "openssl \<Rightarrow> u256 \<Rightarrow> u256 \<Rightarrow> u256" where
  "HashPair E a b = Hash2 E (word_le 32 a) (word_le 32 b)"

text \<open>The inner loop; it reads entries below \<open>j + nSize\<close>, which the entries it appends do not touch.\<close>

definition merkle_row :: "openssl \<Rightarrow> u256 list \<Rightarrow> nat \<Rightarrow> nat \<Rightarrow> u256 list" where
  "merkle_row E tree j nSize =
     map (\<lambda>k. let i = 2 * k; i2 = min (i + 1) (nSize - 1) in HashPair E (tree ! (j + i)) (tree ! (j + i2)))
       [0..<(nSize + 1) div 2]"

function merkle_loop :: "openssl \<Rightarrow> u256 list \<Rightarrow> nat \<Rightarrow> nat \<Rightarrow> u256 list" where
  "merkle_loop E tree j nSize =
     (if nSize > 1 then merkle_loop E (tree @ merkle_row E tree j nSize) (j + nSize) ((nSize + 1) div 2)
      else tree)"
  by pat_completeness auto
termination by (relation "measure (\<lambda>(E, t, j, n). n)") auto

declare merkle_loop.simps [simp del]

text \<open>The result and the member \<open>vMerkleTree\<close> after the call.\<close>

definition BuildMerkleTree :: "openssl \<Rightarrow> CTransaction list \<Rightarrow> u256 \<times> u256 list" where
  "BuildMerkleTree E vtx =
     (let vMerkleTree = merkle_loop E (map (CTransaction_GetHash E) vtx) 0 (length vtx)
      in (if vMerkleTree = [] then 0 else last vMerkleTree, vMerkleTree))"

function branch_loop :: "u256 list \<Rightarrow> nat \<Rightarrow> nat \<Rightarrow> nat \<Rightarrow> u256 list" where
  "branch_loop tree j nSize nIndex =
     (if nSize > 1 then
        tree ! (j + min (nIndex XOR 1) (nSize - 1)) # branch_loop tree (j + nSize) ((nSize + 1) div 2) (drop_bit 1 nIndex)
      else [])"
  by pat_completeness auto
termination by (relation "measure (\<lambda>(t, j, n, i). n)") auto

declare branch_loop.simps [simp del]

definition GetMerkleBranch :: "openssl \<Rightarrow> CTransaction list \<Rightarrow> u256 list \<Rightarrow> nat \<Rightarrow> u256 list" where
  "GetMerkleBranch E vtx vMerkleTree nIndex =
     (let vMerkleTree = (if vMerkleTree = [] then snd (BuildMerkleTree E vtx) else vMerkleTree)
      in branch_loop vMerkleTree 0 (length vtx) nIndex)"

text \<open>\<open>nIndex\<close> is an \<open>int\<close>; the shift of a negative one is arithmetic.\<close>

fun check_loop :: "openssl \<Rightarrow> u256 \<Rightarrow> u256 list \<Rightarrow> i32 \<Rightarrow> u256" where
  "check_loop E hash [] nIndex = hash"
| "check_loop E hash (otherside # vMerkleBranch) nIndex =
     (let hash = (if nIndex AND 1 \<noteq> 0 then HashPair E otherside hash else HashPair E hash otherside)
      in check_loop E hash vMerkleBranch (signed_drop_bit 1 nIndex))"

definition CheckMerkleBranch :: "openssl \<Rightarrow> u256 \<Rightarrow> u256 list \<Rightarrow> i32 \<Rightarrow> u256" where
  "CheckMerkleBranch E hash vMerkleBranch nIndex =
     (if nIndex = - 1 then 0 else check_loop E hash vMerkleBranch nIndex)"

section \<open>The tree over lists\<close>

fun pair_up :: "('a \<Rightarrow> 'a \<Rightarrow> 'a) \<Rightarrow> 'a list \<Rightarrow> 'a list" where
  "pair_up H [] = []"
| "pair_up H [a] = [H a a]"
| "pair_up H (a # b # r) = H a b # pair_up H r"

lemma length_pair_up [simp, termination_simp]: "length (pair_up H xs) = (length xs + 1) div 2"
  by (induction H xs rule: pair_up.induct) auto

function tree_root :: "('a \<Rightarrow> 'a \<Rightarrow> 'a) \<Rightarrow> 'a list \<Rightarrow> 'a" where
  "tree_root H row = (if 1 < length row then tree_root H (pair_up H row) else hd row)"
  by pat_completeness auto
termination by (relation "measure (\<lambda>(H, r). length r)") auto

function tree_branch :: "('a \<Rightarrow> 'a \<Rightarrow> 'a) \<Rightarrow> 'a list \<Rightarrow> nat \<Rightarrow> 'a list" where
  "tree_branch H row i =
     (if 1 < length row then row ! min (i XOR 1) (length row - 1) # tree_branch H (pair_up H row) (i div 2) else [])"
  by pat_completeness auto
termination by (relation "measure (\<lambda>(H, r, i). length r)") auto

text \<open>All rows of the tree, from the leaves up to the root.\<close>

function tree_rows :: "('a \<Rightarrow> 'a \<Rightarrow> 'a) \<Rightarrow> 'a list \<Rightarrow> 'a list list" where
  "tree_rows H row = row # (if 1 < length row then tree_rows H (pair_up H row) else [])"
  by pat_completeness auto
termination by (relation "measure (\<lambda>(H, r). length r)") auto

declare tree_root.simps [simp del] tree_branch.simps [simp del] tree_rows.simps [simp del]

fun tree_fold :: "('a \<Rightarrow> 'a \<Rightarrow> 'a) \<Rightarrow> 'a \<Rightarrow> 'a list \<Rightarrow> nat \<Rightarrow> 'a" where
  "tree_fold H h [] i = h"
| "tree_fold H h (x # b) i = tree_fold H (if odd i then H x h else H h x) b (i div 2)"

lemma pair_up_nth:
  "k < (length xs + 1) div 2 \<Longrightarrow> pair_up H xs ! k = H (xs ! (2 * k)) (xs ! min (2 * k + 1) (length xs - 1))"
proof (induction H xs arbitrary: k rule: pair_up.induct)
  case (3 H a b r)
  then show ?case by (cases k) (auto simp: min_def nth_Cons split: nat.splits)
qed auto

lemma xor_one: "(i :: nat) XOR Suc 0 = (if odd i then i - 1 else Suc i)"
  using xor_one_eq [of i] by (auto simp: of_bool_def)

lemma pair_up_step:
  assumes "1 < length row" "i < length row"
  shows "pair_up H row ! (i div 2) =
    (if odd i then H (row ! min (i XOR 1) (length row - 1)) (row ! i)
     else H (row ! i) (row ! min (i XOR 1) (length row - 1)))" and "i div 2 < length (pair_up H row)"
proof -
  show lt: "i div 2 < length (pair_up H row)" using assms by simp
  show "pair_up H row ! (i div 2) =
    (if odd i then H (row ! min (i XOR 1) (length row - 1)) (row ! i)
     else H (row ! i) (row ! min (i XOR 1) (length row - 1)))"
    using pair_up_nth [of "i div 2" row H] lt assms
    by (auto simp: xor_one min_def elim!: oddE evenE)
qed

lemma tree_fold_branch:
  "i < length row \<Longrightarrow> tree_fold H (row ! i) (tree_branch H row i) i = tree_root H row"
proof (induction H row i rule: tree_branch.induct)
  case (1 H row i)
  show ?case
  proof (cases "1 < length row")
    case True
    then show ?thesis
      using 1 pair_up_step [OF True "1.prems", of H] by (subst tree_branch.simps, subst tree_root.simps) (simp del: One_nat_def split: if_splits)
  next
    case False
    then have "row = [row ! 0]" "i = 0" using "1.prems" by (cases row; simp)+
    then show ?thesis by (metis False hd_conv_nth list.distinct(1) tree_branch.simps tree_fold.simps(1) tree_root.simps)
  qed
qed

section \<open>The array holds the rows of the tree\<close>

lemma merkle_row_eq: "merkle_row E (pre @ row) (length pre) (length row) = pair_up (HashPair E) row"
proof (rule nth_equalityI)
  fix k assume "k < length (merkle_row E (pre @ row) (length pre) (length row))"
  then have k: "k < (length row + 1) div 2" by (simp add: merkle_row_def)
  then have "2 * k < length row" "min (2 * k + 1) (length row - 1) < length row" by auto
  then show "merkle_row E (pre @ row) (length pre) (length row) ! k = pair_up (HashPair E) row ! k"
    using k pair_up_nth [OF k, of "HashPair E"] by (simp add: merkle_row_def nth_append Let_def)
qed (simp add: merkle_row_def)

lemma merkle_loop_step:
  "1 < length row \<Longrightarrow> merkle_loop E (pre @ row) (length pre) (length row)
     = merkle_loop E ((pre @ row) @ pair_up (HashPair E) row) (length (pre @ row)) (length (pair_up (HashPair E) row))"
  by (subst merkle_loop.simps) (simp add: merkle_row_eq)

lemma merkle_loop_stop: "\<not> 1 < n \<Longrightarrow> merkle_loop E t j n = t"
  by (subst merkle_loop.simps) simp

lemma merkle_loop_extends: "\<exists>ext. merkle_loop E t j n = t @ ext"
proof (induction E t j n rule: merkle_loop.induct)
  case (1 E t j n)
  then show ?case by (cases "1 < n") (auto simp: merkle_loop_stop merkle_loop.simps [of E t j n])
qed

lemma merkle_loop_rows:
  "merkle_loop E (pre @ row) (length pre) (length row) = pre @ concat (tree_rows (HashPair E) row)"
proof (induction "length row" arbitrary: pre row rule: less_induct)
  case less
  show ?case
  proof (cases "1 < length row")
    case True
    then have "length (pair_up (HashPair E) row) < length row" by simp
    from less.hyps [OF this, of "pre @ row"] show ?thesis
      using True merkle_loop_step [OF True, of E pre] by (simp add: tree_rows.simps [of _ row])
  next
    case False
    then show ?thesis by (simp add: merkle_loop_stop tree_rows.simps)
  qed
qed

lemma merkle_loop_root:
  "row \<noteq> [] \<Longrightarrow> last (merkle_loop E (pre @ row) (length pre) (length row)) = tree_root (HashPair E) row"
proof (induction "length row" arbitrary: pre row rule: less_induct)
  case less
  let ?up = "pair_up (HashPair E) row"
  show ?case
  proof (cases "1 < length row")
    case True
    then have "length ?up < length row" by simp
    moreover have "0 < length ?up" using True by (simp add: div_greater_zero_iff)
    then have "?up \<noteq> []" by (rule length_greater_0_conv [THEN iffD1])
    ultimately show ?thesis
      using less.hyps [of ?up "pre @ row"] True merkle_loop_step [OF True, of E pre]
      by (simp add: tree_root.simps [of _ row])
  next
    case False
    then have "last (pre @ row) = hd row" using less.prems by (cases row) auto
    then show ?thesis using False by (simp add: merkle_loop_stop tree_root.simps)
  qed
qed

lemma branch_loop_eq:
  "branch_loop (merkle_loop E (pre @ row) (length pre) (length row)) (length pre) (length row) i
     = tree_branch (HashPair E) row i"
proof (induction "length row" arbitrary: pre row i rule: less_induct)
  case less
  let ?up = "pair_up (HashPair E) row" and ?t = "merkle_loop E (pre @ row) (length pre) (length row)"
  show ?case
  proof (cases "1 < length row")
    case True
    obtain ext where ext: "?t = (pre @ row) @ ext" using merkle_loop_extends by blast
    have "?t ! (length pre + min (i XOR 1) (length row - 1)) = row ! min (i XOR 1) (length row - 1)"
      unfolding ext using True min.strict_coboundedI2 [of "length row - 1" "length row" "i XOR 1"] by (simp add: nth_append)
    moreover have "branch_loop ?t (length (pre @ row)) (length ?up) (i div 2) = tree_branch (HashPair E) ?up (i div 2)"
      unfolding merkle_loop_step [OF True] by (rule less.hyps) (use True in simp)
    ultimately show ?thesis
      using True by (subst branch_loop.simps, subst tree_branch.simps) (simp add: drop_bit_Suc)
  next
    case False
    then show ?thesis by (simp add: branch_loop.simps tree_branch.simps)
  qed
qed

lemma length_tree_branch_pos: "1 < length row \<Longrightarrow> tree_branch H row i \<noteq> []"
  by (subst tree_branch.simps) simp

lemma BuildMerkleTree_root: "vtx \<noteq> [] \<Longrightarrow> fst (BuildMerkleTree E vtx) = tree_root (HashPair E) (map (CTransaction_GetHash E) vtx)"
  using merkle_loop_root [of "map (CTransaction_GetHash E) vtx" E "[]"] merkle_loop_extends [of E "map (CTransaction_GetHash E) vtx" 0 "length vtx"]
  by (auto simp: BuildMerkleTree_def Let_def)

lemma GetMerkleBranch_eq: "GetMerkleBranch E vtx [] i = tree_branch (HashPair E) (map (CTransaction_GetHash E) vtx) i"
  using branch_loop_eq [of E "[]" "map (CTransaction_GetHash E) vtx" i]
  by (simp add: GetMerkleBranch_def BuildMerkleTree_def Let_def)

lemma GetMerkleBranch_cached: "GetMerkleBranch E vtx (snd (BuildMerkleTree E vtx)) i = GetMerkleBranch E vtx [] i"
  by (simp add: GetMerkleBranch_def Let_def)

lemma check_loop_eq: "i < 2 ^ 31 \<Longrightarrow> check_loop E h b (word_of_nat i) = tree_fold (HashPair E) h b i"
proof (induction b arbitrary: h i)
  case (Cons x b)
  have top: "\<not> bit i n" if "31 \<le> n" for n
    using Cons.prems that by (metis bit_take_bit_iff not_le take_bit_nat_eq_self_iff)
  have "(word_of_nat i :: i32) AND 1 \<noteq> 0 \<longleftrightarrow> odd i"
    using and_exp_eq_0_iff_not_bit [of "word_of_nat i :: i32" 0] by (simp add: bit_of_nat_iff_bit bit_0)
  moreover have "signed_drop_bit 1 (word_of_nat i :: i32) = word_of_nat (i div 2)"
    by (rule bit_eqI) (auto simp: bit_simps bit_signed_drop_bit_iff top simp flip: bit_Suc)
  ultimately show ?case using Cons by simp
qed simp

section \<open>Branches determine leaves\<close>

text \<open>The pairs that folding a hash up a branch hashes.\<close>

fun fold_pairs :: "('a \<Rightarrow> 'a \<Rightarrow> 'a) \<Rightarrow> 'a \<Rightarrow> 'a list \<Rightarrow> nat \<Rightarrow> ('a \<times> 'a) set" where
  "fold_pairs H h [] i = {}"
| "fold_pairs H h (x # b) i =
     insert (if odd i then (x, h) else (h, x)) (fold_pairs H (if odd i then H x h else H h x) b (i div 2))"

definition no_collision :: "('a \<Rightarrow> 'a \<Rightarrow> 'a) \<Rightarrow> ('a \<times> 'a) set \<Rightarrow> bool" where
  "no_collision H P \<longleftrightarrow> inj_on (\<lambda>(a, b). H a b) P"

lemma no_collisionD: "no_collision H P \<Longrightarrow> (a, b) \<in> P \<Longrightarrow> (c, d) \<in> P \<Longrightarrow> H a b = H c d \<Longrightarrow> a = c \<and> b = d"
  unfolding no_collision_def using inj_onD [of "\<lambda>(a, b). H a b" P "(a, b)" "(c, d)"] by simp

lemma no_collision_mono: "no_collision H P \<Longrightarrow> Q \<subseteq> P \<Longrightarrow> no_collision H Q"
  unfolding no_collision_def by (rule inj_on_subset)

lemma tree_fold_inj:
  assumes "length b = length c" and "tree_fold H h b i = tree_fold H g c i"
    and "no_collision H (fold_pairs H h b i \<union> fold_pairs H g c i)"
  shows "h = g \<and> b = c"
  using assms
proof (induction b c arbitrary: h g i rule: list_induct2)
  case (Cons x b y c)
  let ?h = "if odd i then H x h else H h x" and ?g = "if odd i then H y g else H g y"
  let ?P = "fold_pairs H h (x # b) i \<union> fold_pairs H g (y # c) i"
  have "no_collision H (fold_pairs H ?h b (i div 2) \<union> fold_pairs H ?g c (i div 2))"
    by (rule no_collision_mono [OF Cons.prems(2)]) auto
  then have eq: "?h = ?g" "b = c"
    using Cons.IH [of ?h "i div 2" ?g] Cons.prems(1) by simp_all
  show ?case
  proof (cases "odd i")
    case True
    then have "(x, h) \<in> ?P" "(y, g) \<in> ?P" "H x h = H y g" using eq(1) by simp_all
    from no_collisionD [OF Cons.prems(2) this] eq(2) show ?thesis by simp
  next
    case False
    then have "(h, x) \<in> ?P" "(g, y) \<in> ?P" "H h x = H g y" using eq(1) by simp_all
    from no_collisionD [OF Cons.prems(2) this] eq(2) show ?thesis by simp
  qed
qed simp

section \<open>Distinct leaves are determined by the root\<close>

fun row_pairs :: "'a list \<Rightarrow> ('a \<times> 'a) list" where
  "row_pairs [] = []"
| "row_pairs [a] = [(a, a)]"
| "row_pairs (a # b # r) = (a, b) # row_pairs r"

lemma pair_up_map: "pair_up H xs = map (\<lambda>(a, b). H a b) (row_pairs xs)"
  by (induction xs rule: row_pairs.induct) auto

lemma row_pairs_elems: "(a, b) \<in> set (row_pairs xs) \<Longrightarrow> a \<in> set xs \<and> b \<in> set xs"
  by (induction xs rule: row_pairs.induct) auto

lemma row_pairs_inj: "distinct xs \<Longrightarrow> distinct ys \<Longrightarrow> row_pairs xs = row_pairs ys \<Longrightarrow> xs = ys"
proof (induction xs arbitrary: ys rule: row_pairs.induct)
  case 1
  then show ?case by (cases ys rule: row_pairs.cases) auto
next
  case (2 a)
  then show ?case by (cases ys rule: row_pairs.cases) auto
next
  case (3 a b r)
  then show ?case by (cases ys rule: row_pairs.cases) auto
qed

lemma distinct_row_pairs: "distinct xs \<Longrightarrow> distinct (row_pairs xs)"
  by (induction xs rule: row_pairs.induct) (auto dest: row_pairs_elems)

text \<open>All pairs hashed in building a tree.\<close>

function tree_pairs :: "('a \<Rightarrow> 'a \<Rightarrow> 'a) \<Rightarrow> 'a list \<Rightarrow> ('a \<times> 'a) set" where
  "tree_pairs H row = (if 1 < length row then set (row_pairs row) \<union> tree_pairs H (pair_up H row) else {})"
  by pat_completeness auto
termination by (relation "measure (\<lambda>(H, r). length r)") auto

declare tree_pairs.simps [simp del]

lemma pair_up_distinct:
  assumes "distinct xs" and "no_collision H (set (row_pairs xs))"
  shows "distinct (pair_up H xs)"
  using assms distinct_row_pairs by (auto simp: pair_up_map distinct_map no_collision_def)

lemma branch_pairs: "row \<noteq> [] \<Longrightarrow> fold_pairs H (row ! 0) (tree_branch H row 0) 0 \<subseteq> tree_pairs H row"
proof (induction "length row" arbitrary: row rule: less_induct)
  case less
  show ?case
  proof (cases "1 < length row")
    case True
    then obtain a b r where row: "row = a # b # r" by (cases row rule: row_pairs.cases) auto
    have "length (pair_up H row) < length row" "pair_up H row \<noteq> []" using True row by auto
    from less.hyps [OF this] show ?thesis
      using row by (simp add: tree_branch.simps [of H "a # b # r"] tree_pairs.simps [of H "a # b # r"] subset_iff)
  qed (simp add: tree_branch.simps)
qed

text \<open>The length of the leftmost branch is the height; it only depends on the number of leaves.\<close>

lemma tree_height_pos: "tree_branch H row i = [] \<longleftrightarrow> \<not> 1 < length row"
  by (subst tree_branch.simps) simp

lemma fold_snoc: "tree_fold H h (b @ [x]) 0 = H (tree_fold H h b 0) x"
proof -
  have "tree_fold H h (b @ [x]) i = (if odd (i div 2 ^ length b) then H x (tree_fold H h b i) else H (tree_fold H h b i) x)" for i h
    by (induction b arbitrary: h i) (auto simp: div_mult2_eq [symmetric] mult.commute)
  from this [where i = 0] show ?thesis by simp
qed

lemma fold_pairs_snoc:
  "fold_pairs H h (b @ [x]) 0 = insert (tree_fold H h b 0, x) (fold_pairs H h b 0)"
proof -
  have "fold_pairs H h (b @ [x]) i = insert (if odd (i div 2 ^ length b) then (x, tree_fold H h b i) else (tree_fold H h b i, x)) (fold_pairs H h b i)" for i h
    by (induction b arbitrary: h i) (auto simp: div_mult2_eq [symmetric] mult.commute)
  from this [where i = 0] show ?thesis by simp
qed

lemma same_height:
  assumes "tree_fold H h b 0 = tree_fold H g c 0" and "no_collision H P"
    and "fold_pairs H h b 0 \<union> fold_pairs H g c 0 \<subseteq> P" and "\<forall>(x, y)\<in>P. H x y \<noteq> h \<and> H x y \<noteq> g"
  shows "length b = length c"
  using assms
proof (induction b arbitrary: c rule: rev_induct)
  case Nil
  then show ?case by (cases c rule: rev_cases) (auto simp: fold_snoc fold_pairs_snoc)
next
  case (snoc x b)
  show ?case
  proof (cases c rule: rev_cases)
    case Nil
    then show ?thesis using snoc.prems by (auto simp: fold_snoc fold_pairs_snoc)
  next
    case (snoc c' y)
    then have "H (tree_fold H h b 0) x = H (tree_fold H g c' 0) y"
      "(tree_fold H h b 0, x) \<in> P" "(tree_fold H g c' 0, y) \<in> P"
      using snoc.prems by (auto simp: fold_snoc fold_pairs_snoc)
    from no_collisionD [OF snoc.prems(2) this(2,3,1)] show ?thesis
      using snoc.IH [of c'] snoc.prems snoc by (auto simp: fold_pairs_snoc)
  qed
qed

lemma same_height_inj:
  assumes "distinct xs" "distinct ys" "xs \<noteq> []" "ys \<noteq> []" "tree_root H xs = tree_root H ys"
    and "length (tree_branch H xs 0) = length (tree_branch H ys 0)"
    and "no_collision H (tree_pairs H xs \<union> tree_pairs H ys)"
  shows "xs = ys"
  using assms
proof (induction "length xs" arbitrary: xs ys rule: less_induct)
  case less
  show ?case
  proof (cases "1 < length xs")
    case True
    then have ys: "1 < length ys" using less.prems(6) tree_height_pos [of H xs 0] tree_height_pos [of H ys 0] by auto
    let ?P = "tree_pairs H xs \<union> tree_pairs H ys"
    have sub: "set (row_pairs xs) \<union> set (row_pairs ys) \<subseteq> ?P" "tree_pairs H (pair_up H xs) \<union> tree_pairs H (pair_up H ys) \<subseteq> ?P"
      using True ys by (auto simp: tree_pairs.simps [of H xs] tree_pairs.simps [of H ys])
    note nc = no_collision_mono [OF less.prems(7)]
    have "pair_up H xs = pair_up H ys"
    proof (rule less.hyps)
      show "length (pair_up H xs) < length xs" using True by simp
      show "distinct (pair_up H xs)" "distinct (pair_up H ys)"
        using less.prems(1,2) sub(1) by (auto intro!: pair_up_distinct nc)
      show "pair_up H xs \<noteq> []" "pair_up H ys \<noteq> []" using True ys by (auto simp: pair_up_map elim: row_pairs.elims)
      show "tree_root H (pair_up H xs) = tree_root H (pair_up H ys)"
        using less.prems(5) True ys by (simp add: tree_root.simps [of H xs] tree_root.simps [of H ys])
      show "length (tree_branch H (pair_up H xs) 0) = length (tree_branch H (pair_up H ys) 0)"
        using less.prems(6) True ys by (simp add: tree_branch.simps [of H xs] tree_branch.simps [of H ys])
      show "no_collision H (tree_pairs H (pair_up H xs) \<union> tree_pairs H (pair_up H ys))" by (rule nc [OF sub(2)])
    qed
    then have "row_pairs xs = row_pairs ys"
      unfolding pair_up_map using nc [OF sub(1)] by (auto simp: no_collision_def intro: map_inj_on)
    then show ?thesis using row_pairs_inj less.prems(1,2) by blast
  next
    case False
    then have "\<not> 1 < length ys" using less.prems(6) tree_height_pos [of H xs 0] tree_height_pos [of H ys 0] by auto
    with False less.prems(3,4) obtain x y where "xs = [x]" "ys = [y]"
      by (cases xs rule: row_pairs.cases; cases ys rule: row_pairs.cases) auto
    then show ?thesis using less.prems(5) by (simp add: tree_root.simps)
  qed
qed

text \<open>
  Two lists of distinct leaves with the same root are equal, provided that no two pairs that are
  hashed in either tree collide and that no leaf is the hash of such a pair.
\<close>

lemma tree_root_inj:
  assumes "distinct xs" "distinct ys" "xs \<noteq> []" "ys \<noteq> []" "tree_root H xs = tree_root H ys"
    and nc: "no_collision H (tree_pairs H xs \<union> tree_pairs H ys)"
    and leaves: "\<forall>(a, b)\<in>tree_pairs H xs \<union> tree_pairs H ys. H a b \<notin> set xs \<union> set ys"
  shows "xs = ys"
proof (rule same_height_inj [OF assms(1-5) _ nc])
  let ?b = "tree_branch H xs 0" and ?c = "tree_branch H ys 0"
  have mem: "xs ! 0 \<in> set xs" "ys ! 0 \<in> set ys" using assms(3,4) by simp_all
  show "length ?b = length ?c"
  proof (rule same_height [OF _ nc])
    show "tree_fold H (xs ! 0) ?b 0 = tree_fold H (ys ! 0) ?c 0"
      using tree_fold_branch [of 0 xs H] tree_fold_branch [of 0 ys H] assms(3-5) by simp
    show "fold_pairs H (xs ! 0) ?b 0 \<union> fold_pairs H (ys ! 0) ?c 0 \<subseteq> tree_pairs H xs \<union> tree_pairs H ys"
      using branch_pairs [OF assms(3), of H] branch_pairs [OF assms(4), of H] by blast
    show "\<forall>(x, y)\<in>tree_pairs H xs \<union> tree_pairs H ys. H x y \<noteq> xs ! 0 \<and> H x y \<noteq> ys ! 0"
    proof
      fix p assume p: "p \<in> tree_pairs H xs \<union> tree_pairs H ys"
      obtain x y where xy: "p = (x, y)" by (cases p)
      have "H x y \<notin> set xs \<union> set ys" using bspec [OF leaves p] xy by simp
      then show "case p of (x, y) \<Rightarrow> H x y \<noteq> xs ! 0 \<and> H x y \<noteq> ys ! 0" using mem xy by auto
    qed
  qed
qed

section \<open>Properties\<close>

text \<open>
  C25. \<open>BuildMerkleTree\<close> lays out the merkle tree: the array it stores holds, one after the other, the
  row of the transaction hashes and every row that pairs the adjacent hashes of the row before (a last
  one without partner with itself), up to a row of one; and it returns the root, zero for a block
  without transactions.
\<close>

theorem BuildMerkleTree_tree:
  "snd (BuildMerkleTree E vtx) = concat (tree_rows (HashPair E) (map (CTransaction_GetHash E) vtx))
   \<and> fst (BuildMerkleTree E vtx) =
     (if vtx = [] then 0 else tree_root (HashPair E) (map (CTransaction_GetHash E) vtx))"
proof
  show "snd (BuildMerkleTree E vtx) = concat (tree_rows (HashPair E) (map (CTransaction_GetHash E) vtx))"
    using merkle_loop_rows [of E "[]" "map (CTransaction_GetHash E) vtx"]
    by (simp add: BuildMerkleTree_def Let_def)
  show "fst (BuildMerkleTree E vtx) =
     (if vtx = [] then 0 else tree_root (HashPair E) (map (CTransaction_GetHash E) vtx))"
    by (cases "vtx = []") (simp_all add: BuildMerkleTree_root, simp add: BuildMerkleTree_def merkle_loop_stop)
qed

text \<open>
  C26. A transaction is proved to be in a block exactly by its branch: the branch that
  \<open>GetMerkleBranch\<close> returns for a position folds the hash of the transaction there to the root, and,
  unless two different pairs of hashes among those of the two foldings have the same hash, no
  other hash and no other branch of that length does.
\<close>

theorem merkle_branch_iff:
  assumes "i < length vtx" and "i < 2 ^ 31"
    and "length branch = length (GetMerkleBranch E vtx [] i)"
    and "no_collision (HashPair E)
      (fold_pairs (HashPair E) h branch i
       \<union> fold_pairs (HashPair E) (CTransaction_GetHash E (vtx ! i)) (GetMerkleBranch E vtx [] i) i)"
  shows "CheckMerkleBranch E h branch (word_of_nat i) = fst (BuildMerkleTree E vtx) \<longleftrightarrow>
    h = CTransaction_GetHash E (vtx ! i) \<and> branch = GetMerkleBranch E vtx [] i"
proof -
  let ?H = "HashPair E" and ?row = "map (CTransaction_GetHash E) vtx"
  have "(word_of_nat i :: i32) \<noteq> - 1"
  proof
    assume "(word_of_nat i :: i32) = - 1"
    then have "unat (word_of_nat i :: i32) = unat (- 1 :: i32)" by simp
    moreover have "unat (word_of_nat i :: i32) = i" using assms(2) by (intro unat_of_nat_small) simp
    moreover have "unat (- 1 :: i32) = 2 ^ 32 - 1" by (simp add: unsigned_minus_1_eq_mask mask_eq_exp_minus_1)
    ultimately show False using assms(2) by simp
  qed
  then have check: "CheckMerkleBranch E x b (word_of_nat i) = tree_fold ?H x b i" for x b
    using check_loop_eq [OF assms(2)] by (simp add: CheckMerkleBranch_def)
  have "vtx \<noteq> []" using assms(1) by auto
  then have root: "fst (BuildMerkleTree E vtx) = tree_fold ?H (?row ! i) (tree_branch ?H ?row i) i"
    using tree_fold_branch [of i ?row ?H] assms(1) by (simp add: BuildMerkleTree_root)
  show ?thesis
    unfolding check root using tree_fold_inj [of branch "tree_branch ?H ?row i" ?H h i "?row ! i"] assms
    by (auto simp: GetMerkleBranch_eq)
qed

theorem merkle_branch_iff_witness:
  "let t = CTransaction_SetNull; u = CTransaction_SetNull\<lparr> nLockTime := 1 \<rparr> in
   CheckMerkleBranch openssl_ref (CTransaction_GetHash openssl_ref t) [CTransaction_GetHash openssl_ref u] 0
     = fst (BuildMerkleTree openssl_ref [t, u])"
proof -
  let ?t = CTransaction_SetNull and ?u = "CTransaction_SetNull\<lparr> nLockTime := 1 \<rparr>"
  have b: "GetMerkleBranch openssl_ref [?t, ?u] [] 0 = [CTransaction_GetHash openssl_ref ?u]"
    by (simp add: GetMerkleBranch_eq tree_branch.simps)
  show ?thesis
    using merkle_branch_iff [of 0 "[?t, ?u]" "[CTransaction_GetHash openssl_ref ?u]" openssl_ref "CTransaction_GetHash openssl_ref ?t"]
    by (simp add: no_collision_def b)
qed

end
