(* ===== verification/Block.thy ===== *)
theory Block
  imports Merkle Script Scrypt Pow
begin

text \<open>
  Blocks and merged mining (\<open>auxpow.h\<close>, \<open>CMerkleTx\<close>, \<open>CAuxPow\<close> and \<open>CBlock\<close> in \<open>main.h\<close>, the checks
  in \<open>main.cpp\<close>): headers and their hashes, the wire format with the optional merged-mining proof,
  the check of such a proof, and the checks of a block that need no context. The commitment in a
  parent coinbase is read at one position, except that without the merged-mining magic two
  overlapping roots can be found in it.
\<close>

section \<open>Versions\<close>

definition AUXPOW_CHAIN_ID :: i32 where "AUXPOW_CHAIN_ID = 0x00C6"
definition AUXPOW_FORK_HEIGHT_MAINNET :: int where "AUXPOW_FORK_HEIGHT_MAINNET = 50000"
definition AUXPOW_FORK_HEIGHT_TESTNET :: int where "AUXPOW_FORK_HEIGHT_TESTNET = 200"
definition VERSION_AUXPOW_BIT :: i32 where "VERSION_AUXPOW_BIT = push_bit 8 1"

definition GetAuxPowForkHeight :: "bool \<Rightarrow> int" where
  "GetAuxPowForkHeight fTestNet = (if fTestNet then AUXPOW_FORK_HEIGHT_TESTNET else AUXPOW_FORK_HEIGHT_MAINNET)"

definition GetBaseVersion :: "i32 \<Rightarrow> i32" where
  "GetBaseVersion v = v AND 0xff"

definition GetChainId :: "i32 \<Rightarrow> i32" where
  "GetChainId v = signed_drop_bit 16 v"

definition IsAuxPowVersion :: "i32 \<Rightarrow> bool" where
  "IsAuxPowVersion v \<longleftrightarrow> v AND VERSION_AUXPOW_BIT \<noteq> 0"

definition MakeVersion :: "i32 \<Rightarrow> i32 \<Rightarrow> bool \<Rightarrow> i32" where
  "MakeVersion nBaseVersion nChainId fAuxPow =
     push_bit 16 nChainId OR (if fAuxPow then VERSION_AUXPOW_BIT else 0) OR (nBaseVersion AND 0xff)"

section \<open>Headers\<close>

record CPureBlockHeader =
  hdr_nVersion :: i32
  hashPrevBlock :: u256
  hashMerkleRoot :: u256
  hdr_nTime :: u32
  hdr_nBits :: u32
  hdr_nNonce :: u32

definition Serialize_header :: "'a CPureBlockHeader_scheme \<Rightarrow> bytes" where
  "Serialize_header h =
     word_le 4 (hdr_nVersion h) @ word_le 32 (hashPrevBlock h) @ word_le 32 (hashMerkleRoot h)
     @ word_le 4 (hdr_nTime h) @ word_le 4 (hdr_nBits h) @ word_le 4 (hdr_nNonce h)"

definition Unserialize_header :: "CPureBlockHeader reader" where
  "Unserialize_header =
     rbind (read_word 4) (\<lambda>v. rbind (read_word 32) (\<lambda>p. rbind (read_word 32) (\<lambda>m.
     rbind (read_word 4) (\<lambda>t. rbind (read_word 4) (\<lambda>b. rbind (read_word 4) (\<lambda>n.
       rret \<lparr> hdr_nVersion = v, hashPrevBlock = p, hashMerkleRoot = m, hdr_nTime = t, hdr_nBits = b,
         hdr_nNonce = n \<rparr>))))))"

text \<open>The members from \<open>nVersion\<close> to \<open>nNonce\<close> in memory are the 80 bytes of the wire format.\<close>

definition header_GetHash :: "openssl \<Rightarrow> 'a CPureBlockHeader_scheme \<Rightarrow> u256" where
  "header_GetHash E h = Hash E (Serialize_header h)"

definition header_GetPoWHash :: "openssl \<Rightarrow> 'a CPureBlockHeader_scheme \<Rightarrow> u256" where
  "header_GetPoWHash E h = le_word (scrypt_1024_1_1_256 E (Serialize_header h))"

section \<open>Transactions with a branch, and the merged-mining proof\<close>

record CMerkleTx =
  mtx :: CTransaction
  hashBlock :: u256
  vMerkleBranch :: "u256 list"
  nIndex :: i32

definition Serialize_CMerkleTx :: "'a CMerkleTx_scheme \<Rightarrow> bytes" where
  "Serialize_CMerkleTx m =
     Serialize_CTransaction (mtx m) @ word_le 32 (hashBlock m)
     @ Serialize_vec (word_le 32) (vMerkleBranch m) @ word_le 4 (nIndex m)"

record CAuxPow = CMerkleTx +
  vChainMerkleBranch :: "u256 list"
  nChainIndex :: i32
  parentBlock :: CPureBlockHeader

definition Serialize_CAuxPow :: "CAuxPow \<Rightarrow> bytes" where
  "Serialize_CAuxPow a =
     Serialize_CMerkleTx a @ Serialize_vec (word_le 32) (vChainMerkleBranch a)
     @ word_le 4 (nChainIndex a) @ Serialize_header (parentBlock a)"

definition Unserialize_CAuxPow :: "CAuxPow reader" where
  "Unserialize_CAuxPow =
     rbind Unserialize_CTransaction (\<lambda>t. rbind (read_word 32) (\<lambda>h.
     rbind (Unserialize_vec (read_word 32)) (\<lambda>b. rbind (read_word 4) (\<lambda>i.
     rbind (Unserialize_vec (read_word 32)) (\<lambda>cb. rbind (read_word 4) (\<lambda>ci.
     rbind Unserialize_header (\<lambda>p.
       rret \<lparr> mtx = t, hashBlock = h, vMerkleBranch = b, nIndex = i, vChainMerkleBranch = cb,
         nChainIndex = ci, parentBlock = p \<rparr>)))))))"

definition GetSerializeSize_CAuxPow :: "CAuxPow \<Rightarrow> nat" where
  "GetSerializeSize_CAuxPow a =
     GetSerializeSize_CTransaction (mtx a) + 32 + GetSerializeSize_vec (\<lambda>_. 32) (vMerkleBranch a) + 4
     + GetSerializeSize_vec (\<lambda>_. 32) (vChainMerkleBranch a) + 4 + 80"

section \<open>Blocks\<close>

record CBlock = CPureBlockHeader +
  vtx :: "CTransaction list"
  auxpow :: "CAuxPow option"

definition block_IsAuxPow :: "'a CPureBlockHeader_scheme \<Rightarrow> bool" where
  "block_IsAuxPow b = IsAuxPowVersion (hdr_nVersion b)"

text \<open>
  The flags are \<open>SER_GETHASH\<close> and \<open>SER_BLOCKHEADERONLY\<close> of \<open>nType\<close>. A block whose version announces a
  proof that it does not have follows a null pointer: \<open>None\<close>.
\<close>

definition Serialize_CBlock :: "bool \<Rightarrow> bool \<Rightarrow> CBlock \<Rightarrow> bytes option" where
  "Serialize_CBlock fGetHash fHeaderOnly b =
     (let aux = (if \<not> fGetHash \<and> block_IsAuxPow b then map_option Serialize_CAuxPow (auxpow b) else Some [])
      in map_option (\<lambda>a. Serialize_header b @ a
           @ (if \<not> (fGetHash \<or> fHeaderOnly) then Serialize_vec Serialize_CTransaction (vtx b) else [])) aux)"

text \<open>Reading into a fresh block.\<close>

definition Unserialize_CBlock :: "bool \<Rightarrow> bool \<Rightarrow> CBlock reader" where
  "Unserialize_CBlock fGetHash fHeaderOnly =
     rbind Unserialize_header (\<lambda>h.
     rbind (if \<not> fGetHash \<and> IsAuxPowVersion (hdr_nVersion h)
            then rbind Unserialize_CAuxPow (\<lambda>a. rret (Some a)) else rret None) (\<lambda>aux.
     rbind (if \<not> (fGetHash \<or> fHeaderOnly) then Unserialize_vec Unserialize_CTransaction else rret []) (\<lambda>txs.
       rret (CPureBlockHeader.extend h \<lparr> vtx = txs, auxpow = aux \<rparr>))))"

definition GetSerializeSize_CBlock :: "CBlock \<Rightarrow> nat option" where
  "GetSerializeSize_CBlock b =
     (let aux = (if block_IsAuxPow b then map_option GetSerializeSize_CAuxPow (auxpow b) else Some 0)
      in map_option (\<lambda>a. 80 + a + GetSerializeSize_vec GetSerializeSize_CTransaction (vtx b)) aux)"

section \<open>Merged mining\<close>

definition MERGED_MINING_HEADER :: bytes where "MERGED_MINING_HEADER = [0xfa, 0xbe, 0x6d, 0x6d]"

text \<open>\<open>std::search\<close>: the first position of the pattern, or the end.\<close>

fun search :: "'a list \<Rightarrow> 'a list \<Rightarrow> nat" where
  "search [] pat = 0"
| "search (x # xs) pat = (if take (length pat) (x # xs) = pat then 0 else Suc (search xs pat))"

definition GetExpectedAuxIndex :: "u32 \<Rightarrow> i32 \<Rightarrow> nat \<Rightarrow> u32" where
  "GetExpectedAuxIndex nNonce nChainId h =
     (let rand = nNonce;
          rand = rand * 1103515245 + 12345;
          rand = rand + nChainId;
          rand = rand * 1103515245 + 12345
      in rand mod push_bit h 1)"

definition CAuxPow_Check :: "openssl \<Rightarrow> CAuxPow \<Rightarrow> u256 \<Rightarrow> i32 \<Rightarrow> bool" where
  "CAuxPow_Check E a hashAuxBlock nChainId =
     (if nIndex a \<noteq> 0 then False
      else if \<not> IsCoinBase (mtx a) then False
      else if GetChainId (hdr_nVersion (parentBlock a)) = nChainId then False
      else if IsAuxPowVersion (hdr_nVersion (parentBlock a)) then False
      else if length (vChainMerkleBranch a) > 30 then False
      else if CheckMerkleBranch E (CTransaction_GetHash E (mtx a)) (vMerkleBranch a) (nIndex a)
                \<noteq> hashMerkleRoot (parentBlock a) then False
      else
        (let nRootHash = CheckMerkleBranch E hashAuxBlock (vChainMerkleBranch a) (nChainIndex a);
             vchRootHash = rev (word_le 32 nRootHash);
             script = scriptSig (vin (mtx a) ! 0);
             pcHead = search script MERGED_MINING_HEADER;
             pc = search script vchRootHash in
         if pc = length script then False
         else if pcHead \<noteq> length script
                 \<and> Suc pcHead + search (drop (Suc pcHead) script) MERGED_MINING_HEADER \<noteq> length script then False
         else if pcHead \<noteq> length script \<and> pcHead + 4 \<noteq> pc then False
         else if pcHead = length script \<and> pc > 20 then False
         else
           (let pc = pc + length vchRootHash in
            if length script - pc < 8 then False
            else
              (let nSize = le_word (take 4 (drop pc script)) :: u32 in
               if nSize \<noteq> push_bit (length (vChainMerkleBranch a)) 1 then False
               else
                 (let nNonce = le_word (take 4 (drop (pc + 4) script)) :: u32 in
                  if nChainIndex a \<noteq> GetExpectedAuxIndex nNonce nChainId (length (vChainMerkleBranch a)) then False
                  else True)))))"

definition CheckAuxProofOfWork :: "openssl \<Rightarrow> bool \<Rightarrow> bool \<Rightarrow> CBlock \<Rightarrow> u32 \<Rightarrow> bool" where
  "CheckAuxProofOfWork E fTestNet fRegTest block bits =
     (if \<not> block_IsAuxPow block then CheckProofOfWork E fTestNet fRegTest (header_GetPoWHash E block) bits
      else case auxpow block of None \<Rightarrow> False
      | Some a \<Rightarrow>
          if \<not> CAuxPow_Check E a (header_GetHash E block) (GetChainId (hdr_nVersion block)) then False
          else CheckProofOfWork E fTestNet fRegTest (header_GetPoWHash E (parentBlock a)) bits)"

section \<open>Context-free checks of a block\<close>

definition GetLegacySigOpCount :: "CTransaction \<Rightarrow> u32" where
  "GetLegacySigOpCount tx =
     foldl (\<lambda>n txout. n + GetSigOpCount (scriptPubKey txout) False)
       (foldl (\<lambda>n txin. n + GetSigOpCount (scriptSig txin) False) 0 (vin tx)) (vout tx)"

fun check_transactions :: "CTransaction list \<Rightarrow> verdict" where
  "check_transactions [] = Accept"
| "check_transactions (tx # r) = (case CheckTransaction tx of Reject d \<Rightarrow> Reject d | Accept \<Rightarrow> check_transactions r)"

text \<open>
  \<open>CheckBlock\<close> at the adjusted time \<open>now\<close>. \<open>Reject\<close> carries the penalty; \<open>None\<close> is the null pointer that
  computing the size of a block follows when its version announces a proof it does not have.
\<close>

definition CheckBlock :: "openssl \<Rightarrow> bool \<Rightarrow> bool \<Rightarrow> int \<Rightarrow> CBlock \<Rightarrow> verdict option" where
  "CheckBlock E fTestNet fRegTest now b =
     (if vtx b = [] \<or> length (vtx b) > MAX_BLOCK_SIZE then Some (Reject 100)
      else case GetSerializeSize_CBlock b of None \<Rightarrow> None
      | Some nSize \<Rightarrow> Some (
         if nSize > MAX_BLOCK_SIZE then Reject 100
         else if \<not> CheckAuxProofOfWork E fTestNet fRegTest b (hdr_nBits b) then Reject 50
         else if uint (hdr_nTime b) > now + 2 * 60 * 60 then Reject 0
         else if vtx b = [] \<or> \<not> IsCoinBase (vtx b ! 0) then Reject 100
         else if list_ex IsCoinBase (drop 1 (vtx b)) then Reject 100
         else case check_transactions (vtx b) of Reject d \<Rightarrow> Reject d
         | Accept \<Rightarrow>
             if card (set (map (CTransaction_GetHash E) (vtx b))) \<noteq> length (vtx b) then Reject 100
             else if unat (foldl (\<lambda>n tx. n + GetLegacySigOpCount tx) 0 (vtx b)) > MAX_BLOCK_SIGOPS then Reject 100
             else if hashMerkleRoot b \<noteq> fst (BuildMerkleTree E (vtx b)) then Reject 100
             else Accept))"


section \<open>Codecs\<close>

lemma length_header: "length (Serialize_header h) = 80"
  by (simp add: Serialize_header_def)

interpretation header: codec_ok Serialize_header Unserialize_header "\<lambda>_. 80" "\<lambda>_. True"
  by unfold_locales
    (simp_all add: Unserialize_header_def Serialize_header_def rbind_Some read_word_append rret_def)

interpretation hashes: codec_ok "Serialize_vec (word_le 32 :: u256 \<Rightarrow> bytes)" "Unserialize_vec (read_word 32)"
    "GetSerializeSize_vec (\<lambda>_. 32)" "\<lambda>xs. list_all (\<lambda>_. True) xs \<and> length xs \<le> MAX_SIZE"
  by (rule codec_ok_vec [OF u256_codec.codec_ok_axioms])

definition auxpow_ok :: "CAuxPow \<Rightarrow> bool" where
  "auxpow_ok a \<longleftrightarrow> tx_ok (mtx a) \<and> length (vMerkleBranch a) \<le> MAX_SIZE \<and> length (vChainMerkleBranch a) \<le> MAX_SIZE"

interpretation auxpow: codec_ok Serialize_CAuxPow Unserialize_CAuxPow GetSerializeSize_CAuxPow auxpow_ok
proof
  fix x :: CAuxPow and s s' :: bytes
  show "Unserialize_CAuxPow (Serialize_CAuxPow x @ s) = Some (x, s)" if "auxpow_ok x"
    using that unfolding auxpow_ok_def
    by (simp add: Serialize_CAuxPow_def Serialize_CMerkleTx_def Unserialize_CAuxPow_def rbind_Some
        tx.unser_ser hashes.unser_ser header.unser_ser read_word_append rret_def list_all_iff)
  show "length (Serialize_CAuxPow x) = GetSerializeSize_CAuxPow x"
    by (simp add: Serialize_CAuxPow_def Serialize_CMerkleTx_def GetSerializeSize_CAuxPow_def tx.length_ser
        hashes.length_ser header.length_ser)
  show "auxpow_ok x" if "Unserialize_CAuxPow s = Some (x, s')"
    using that unfolding Unserialize_CAuxPow_def auxpow_ok_def
    by (auto elim!: rbind_SomeE dest!: tx.unser_ok hashes.unser_ok)
qed

definition block_ok :: "CBlock \<Rightarrow> bool" where
  "block_ok b \<longleftrightarrow> (block_IsAuxPow b \<longleftrightarrow> auxpow b \<noteq> None) \<and> (\<forall>a. auxpow b = Some a \<longrightarrow> auxpow_ok a)
     \<and> list_all tx_ok (vtx b) \<and> length (vtx b) \<le> MAX_SIZE"

section \<open>Searching\<close>

lemma search_le: "search xs pat \<le> length xs"
  by (induction xs) auto

lemma search_found: "search xs pat \<noteq> length xs \<Longrightarrow> take (length pat) (drop (search xs pat) xs) = pat"
  by (induction xs) auto

lemma search_first: "j < search xs pat \<Longrightarrow> take (length pat) (drop j xs) \<noteq> pat"
proof (induction xs arbitrary: j)
  case (Cons x xs)
  then show ?case by (cases j) (auto split: if_splits)
qed simp

section \<open>Versions\<close>

lemma sign_bits:
  fixes c :: i32
  assumes "- (2 ^ 15) \<le> sint c" "sint c < 2 ^ 15" "15 \<le> n" "n < 32"
  shows "bit c n = bit c 15"
proof -
  have "signed_take_bit 15 (sint c) = sint c" using assms(1,2) by (intro signed_take_bit_int_eq_self) auto
  moreover have "bit (signed_take_bit 15 (sint c)) n = bit (sint c) (min 15 n)" by (simp add: bit_signed_take_bit_iff)
  ultimately have "bit (sint c) n = bit (sint c) 15" using assms(3) by (simp add: min_def)
  then show ?thesis using assms(4) by (simp add: bit_sint_iff)
qed

lemma MakeVersion_parts:
  assumes "- (2 ^ 15) \<le> sint c" "sint c < 2 ^ 15"
  shows "GetChainId (MakeVersion b c f) = c" and "IsAuxPowVersion (MakeVersion b c f) = f"
    and "GetBaseVersion (MakeVersion b c f) = b AND 0xff"
proof -
  have ff: "(0xff :: i32) = mask 8" by (simp add: mask_eq_exp_minus_1)
  have "(256 :: int) = 2 ^ 8" by simp
  then have e: "bit (256 :: int) n \<longleftrightarrow> n = 8" for n by (simp only: bit_exp_iff) auto
  have v: "bit (MakeVersion b c f) n \<longleftrightarrow> 16 \<le> n \<and> n < 32 \<and> bit c (n - 16) \<or> f \<and> n = 8 \<or> n < 8 \<and> bit b n" for n
    unfolding MakeVersion_def VERSION_AUXPOW_BIT_def ff by (auto simp: bit_simps e)
  show "GetChainId (MakeVersion b c f) = c"
    unfolding GetChainId_def
  proof (rule bit_eqI)
    fix n assume "possible_bit TYPE(32 word) n"
    then have n: "n < 32" by simp
    show "bit (signed_drop_bit 16 (MakeVersion b c f)) n = bit c n"
      using n sign_bits [OF assms, of n] by (cases "n < 16") (auto simp: bit_signed_drop_bit_iff v)
  qed
  show "IsAuxPowVersion (MakeVersion b c f) = f"
  proof -
    have "MakeVersion b c f AND 2 ^ 8 \<noteq> 0 \<longleftrightarrow> bit (MakeVersion b c f) 8"
      by (simp only: and_exp_eq_0_iff_not_bit not_not)
    then show ?thesis by (simp add: IsAuxPowVersion_def VERSION_AUXPOW_BIT_def v)
  qed
  show "GetBaseVersion (MakeVersion b c f) = b AND 0xff"
    unfolding GetBaseVersion_def ff by (rule bit_eqI) (auto simp: bit_simps v)
qed

section \<open>What a merged-mining proof commits to\<close>

lemma unat_push_one: "h \<le> 30 \<Longrightarrow> unat (push_bit h (1 :: u32)) = 2 ^ h"
proof -
  assume "h \<le> 30"
  then have "(2 :: nat) ^ h < 2 ^ LENGTH(32)" by (intro power_strict_increasing) simp_all
  from unat_of_nat_small [OF this] show ?thesis by (simp add: push_bit_eq_mult)
qed

lemma expected_index_lt: "h \<le> 30 \<Longrightarrow> unat (GetExpectedAuxIndex n c h) < 2 ^ 30"
proof -
  assume h: "h \<le> 30"
  have u: "unat (push_bit h (1 :: u32)) = 2 ^ h" by (rule unat_push_one [OF h])
  have "unat (GetExpectedAuxIndex n c h) < 2 ^ h"
    unfolding GetExpectedAuxIndex_def Let_def unat_mod u by simp
  also have "\<dots> \<le> (2 ^ 30 :: nat)" using h by (intro power_increasing) simp_all
  finally show ?thesis .
qed

lemma CheckMerkleBranch_fold:
  assumes "unat i < 2 ^ 31"
  shows "CheckMerkleBranch E h b i = tree_fold (HashPair E) h b (unat i)"
proof -
  have i: "i = word_of_nat (unat i)" by simp
  have "i \<noteq> - 1"
    using assms by (auto simp: unsigned_minus_1_eq_mask mask_eq_exp_minus_1)
  then show ?thesis unfolding CheckMerkleBranch_def using check_loop_eq [OF assms, of E h b] i by simp
qed

text \<open>The bytes the coinbase has to hold: the root that a proof leads to, byte-reversed.\<close>

definition committed_root :: "openssl \<Rightarrow> u256 \<Rightarrow> CAuxPow \<Rightarrow> bytes" where
  "committed_root E h a = rev (word_le 32 (CheckMerkleBranch E h (vChainMerkleBranch a) (nChainIndex a)))"

lemma length_committed_root [simp]: "length (committed_root E h a) = 32"
  by (simp add: committed_root_def)

text \<open>The commitment is read at the first position \<open>q\<close> of the root, with or without the magic bytes.\<close>

lemma CAuxPow_CheckD:
  assumes "CAuxPow_Check E a h c"
  defines "script \<equiv> scriptSig (vin (mtx a) ! 0)"
  defines "q \<equiv> search script (committed_root E h a)"
  shows "committed_root E h a = take 32 (drop q script)"
    and "push_bit (length (vChainMerkleBranch a)) 1 = (le_word (take 4 (drop (q + 32) script)) :: u32)"
    and "nChainIndex a = GetExpectedAuxIndex (le_word (take 4 (drop (q + 36) script))) c (length (vChainMerkleBranch a))"
    and "length (vChainMerkleBranch a) \<le> 30"
    and "search script MERGED_MINING_HEADER \<noteq> length script \<Longrightarrow> q = search script MERGED_MINING_HEADER + 4"
    and "search script MERGED_MINING_HEADER = length script \<Longrightarrow> q \<le> 20"
proof -
  have q: "q \<noteq> length script"
    and rest: "length (vChainMerkleBranch a) \<le> 30"
    "push_bit (length (vChainMerkleBranch a)) 1 = (le_word (take 4 (drop (q + 32) script)) :: u32)"
    "nChainIndex a = GetExpectedAuxIndex (le_word (take 4 (drop (q + 36) script))) c (length (vChainMerkleBranch a))"
    "search script MERGED_MINING_HEADER \<noteq> length script \<Longrightarrow> q = search script MERGED_MINING_HEADER + 4"
    "search script MERGED_MINING_HEADER = length script \<Longrightarrow> q \<le> 20"
    using assms(1) unfolding CAuxPow_Check_def q_def committed_root_def script_def [symmetric]
    by (auto simp: Let_def not_less add.assoc split: if_splits)
  show "committed_root E h a = take 32 (drop q script)"
    using search_found [OF q [unfolded q_def]] by (simp add: q_def)
  show "push_bit (length (vChainMerkleBranch a)) 1 = (le_word (take 4 (drop (q + 32) script)) :: u32)"
    "nChainIndex a = GetExpectedAuxIndex (le_word (take 4 (drop (q + 36) script))) c (length (vChainMerkleBranch a))"
    "length (vChainMerkleBranch a) \<le> 30"
    "search script MERGED_MINING_HEADER \<noteq> length script \<Longrightarrow> q = search script MERGED_MINING_HEADER + 4"
    "search script MERGED_MINING_HEADER = length script \<Longrightarrow> q \<le> 20" using rest by simp_all
qed

lemma word_le_32_inj: "word_le 32 (x :: u256) = word_le 32 y \<Longrightarrow> x = y"
proof -
  have inv: "le_word (word_le 32 z) = z" for z :: u256 by (rule le_word_word_le) simp
  assume "word_le 32 x = word_le 32 y"
  then show "x = y" using inv [of x] inv [of y] by argo
qed

text \<open>Two proofs that read their commitment at the same position are for the same block.\<close>

lemma same_position_same_block:
  assumes "CAuxPow_Check E a h c" and "CAuxPow_Check E b g c" and "mtx a = mtx b"
    and "search (scriptSig (vin (mtx a) ! 0)) (committed_root E h a)
       = search (scriptSig (vin (mtx a) ! 0)) (committed_root E g b)"
    and nc: "no_collision (HashPair E) (fold_pairs (HashPair E) h (vChainMerkleBranch a) (unat (nChainIndex a))
      \<union> fold_pairs (HashPair E) g (vChainMerkleBranch b) (unat (nChainIndex b)))"
  shows "h = g \<and> vChainMerkleBranch a = vChainMerkleBranch b \<and> nChainIndex a = nChainIndex b"
proof -
  note A = CAuxPow_CheckD [OF assms(1), unfolded assms(4)]
  note B = CAuxPow_CheckD [OF assms(2), folded assms(3)]
  have "push_bit (length (vChainMerkleBranch a)) 1 = (push_bit (length (vChainMerkleBranch b)) 1 :: u32)"
    using A(2) B(2) by simp
  then have "(2 :: nat) ^ length (vChainMerkleBranch a) = 2 ^ length (vChainMerkleBranch b)"
    using unat_push_one [OF A(4)] unat_push_one [OF B(4)] by simp
  then have len: "length (vChainMerkleBranch a) = length (vChainMerkleBranch b)" by simp
  then have idx: "nChainIndex a = nChainIndex b" using A(3) B(3) by simp
  have lt: "unat (nChainIndex a) < 2 ^ 31" using expected_index_lt [OF A(4)] unfolding A(3) by (rule less_trans) simp
  have "word_le 32 (CheckMerkleBranch E h (vChainMerkleBranch a) (nChainIndex a))
      = word_le 32 (CheckMerkleBranch E g (vChainMerkleBranch b) (nChainIndex b))"
    using trans [OF A(1) B(1) [symmetric]] unfolding committed_root_def by (rule rev_is_rev_conv [THEN iffD1])
  then have "CheckMerkleBranch E h (vChainMerkleBranch a) (nChainIndex a)
      = CheckMerkleBranch E g (vChainMerkleBranch b) (nChainIndex b)"
    by (rule word_le_32_inj)
  then have "tree_fold (HashPair E) h (vChainMerkleBranch a) (unat (nChainIndex a))
      = tree_fold (HashPair E) g (vChainMerkleBranch b) (unat (nChainIndex a))"
    using CheckMerkleBranch_fold [OF lt] idx by simp
  from tree_fold_inj [OF len this] nc idx show ?thesis by simp
qed

text \<open>Two windows of 32 bytes that start at most 20 bytes apart overlap in at least 12 bytes.\<close>

lemma windows_overlap:
  assumes "x = take 32 (drop p script)" and "y = take 32 (drop q script)" and "p < q" and "q \<le> p + 20"
  shows "\<exists>k. 12 \<le> k \<and> k < 32 \<and> drop (32 - k) x = take k y"
proof (intro exI conjI)
  let ?k = "32 - (q - p)"
  show "12 \<le> ?k" "?k < 32" using assms(3,4) by linarith+
  have "32 - ?k = q - p" "?k \<le> 32" using assms(3,4) by linarith+
  then show "drop (32 - ?k) x = take ?k y"
    unfolding assms(1,2) using assms(3) by (simp only: drop_take drop_drop take_take) (simp add: min_def)
qed

lemma CBlock_codec:
  assumes "block_ok b" and "Serialize_CBlock False False b = Some bs"
  shows "Unserialize_CBlock False False (bs @ s) = Some (b, s) \<and> GetSerializeSize_CBlock b = Some (length bs)
    \<and> header_GetHash E (b\<lparr> auxpow := x \<rparr>) = header_GetHash E b"
proof -
  have ext: "CPureBlockHeader.extend (CPureBlockHeader.truncate b) \<lparr> vtx = vtx b, auxpow = auxpow b \<rparr> = b"
    by (simp add: CPureBlockHeader.defs)
  have ser: "Serialize_header b = Serialize_header (CPureBlockHeader.truncate b)"
    and ver: "hdr_nVersion (CPureBlockHeader.truncate b) = hdr_nVersion b"
    by (simp_all add: Serialize_header_def CPureBlockHeader.defs)
  have hash: "header_GetHash E (b\<lparr> auxpow := x \<rparr>) = header_GetHash E b"
    by (simp add: header_GetHash_def Serialize_header_def)
  have txs: "Unserialize_vec Unserialize_CTransaction (Serialize_vec Serialize_CTransaction (vtx b) @ s) = Some (vtx b, s)"
    using assms(1) by (intro tx.unser_vec) (auto simp: block_ok_def)
  show ?thesis
  proof (cases "auxpow b")
    case None
    then have na: "\<not> IsAuxPowVersion (hdr_nVersion b)" using assms(1) by (simp add: block_ok_def block_IsAuxPow_def)
    then have "bs = Serialize_header b @ Serialize_vec Serialize_CTransaction (vtx b)"
      using assms(2) by (simp add: Serialize_CBlock_def block_IsAuxPow_def)
    then show ?thesis
      using hash txs ext None na
      by (simp add: Unserialize_CBlock_def rbind_Some ser header.unser_ser ver rret_def GetSerializeSize_CBlock_def
          block_IsAuxPow_def header.length_ser tx.length_vec)
  next
    case (Some a)
    then have ia: "IsAuxPowVersion (hdr_nVersion b)" and a: "auxpow_ok a"
      using assms(1) by (auto simp: block_ok_def block_IsAuxPow_def)
    then have "bs = Serialize_header b @ Serialize_CAuxPow a @ Serialize_vec Serialize_CTransaction (vtx b)"
      using assms(2) Some by (simp add: Serialize_CBlock_def block_IsAuxPow_def)
    then show ?thesis
      using hash txs ext Some ia a
      by (simp add: Unserialize_CBlock_def rbind_Some ser header.unser_ser ver rret_def GetSerializeSize_CBlock_def
          block_IsAuxPow_def header.length_ser tx.length_vec auxpow.unser_ser auxpow.length_ser)
  qed
qed

section \<open>An example\<close>

lemma uint_of_nat_le_int: "uint (word_of_nat n :: 'a :: len word) \<le> int n"
  by (metis of_nat_unat unat_of_nat mod_less_eq_dividend of_nat_mono)

lemma ref_pow_hash: "header_GetPoWHash openssl_ref h < 2 ^ 61"
proof -
  obtain m where "scrypt_1024_1_1_256 openssl_ref (Serialize_header h) = digest_ref 32 m"
    unfolding ref_digest.scrypt_eq Let_def pbkdf2_once_def hmac_sha256_def by (simp add: openssl_ref_def)
  then have "header_GetPoWHash openssl_ref h = word_of_nat (le_nat (nat_le 32 (le_nat (map (\<lambda>b. b + 1) m) mod (2 ^ 61 - 1))))"
    by (simp add: header_GetPoWHash_def digest_ref_def le_word_def)
  also have "\<dots> = word_of_nat (le_nat (map (\<lambda>b. b + 1) m) mod (2 ^ 61 - 1))"
  proof -
    have "le_nat (map (\<lambda>b. b + 1) m) mod (2 ^ 61 - 1) < 2 ^ 61 - 1" by (rule mod_less_divisor) simp
    then have "le_nat (map (\<lambda>b. b + 1) m) mod (2 ^ 61 - 1) < 256 ^ 32" by simp
    then show ?thesis by (simp add: le_nat_nat_le)
  qed
  finally have "uint (header_GetPoWHash openssl_ref h) \<le> int (le_nat (map (\<lambda>b. b + 1) m) mod (2 ^ 61 - 1))"
    by (simp only: uint_of_nat_le_int)
  moreover have "le_nat (map (\<lambda>b. b + 1) m) mod (2 ^ 61 - 1) < 2 ^ 61 - 1" by (rule mod_less_divisor) simp
  ultimately show ?thesis by (simp add: word_less_def)
qed

definition example_coinbase :: CTransaction where
  "example_coinbase = CTransaction_SetNull\<lparr>
     vin := [\<lparr> prevout = COutPoint_SetNull, scriptSig = MERGED_MINING_HEADER @ replicate 31 0 @ [7] @ [1, 0, 0, 0] @ [0, 0, 0, 0], nSequence = 0 \<rparr>],
     vout := [\<lparr> nValue = 50, scriptPubKey = [] \<rparr>] \<rparr>"

definition example_block :: "u32 \<Rightarrow> CBlock" where
  "example_block n = \<lparr> hdr_nVersion = 1, hashPrevBlock = 0, hashMerkleRoot = CTransaction_GetHash openssl_ref example_coinbase,
     hdr_nTime = 1389688315, hdr_nBits = 0x1e0ffff0, hdr_nNonce = n, vtx = [example_coinbase], auxpow = None \<rparr>"

definition example_auxpow :: "u32 \<Rightarrow> CAuxPow" where
  "example_auxpow n = \<lparr> mtx = example_coinbase, hashBlock = 0, vMerkleBranch = [], nIndex = 0, vChainMerkleBranch = [],
     nChainIndex = 0, parentBlock = CPureBlockHeader.truncate (example_block n) \<rparr>"

lemma example_script: "scriptSig (vin example_coinbase ! 0) = MERGED_MINING_HEADER @ replicate 31 0 @ [7] @ [1, 0, 0, 0] @ [0, 0, 0, 0]"
  by (simp add: example_coinbase_def)

lemma example_search: "search (MERGED_MINING_HEADER @ replicate 31 0 @ [7] @ [1, 0, 0, 0] @ [0, 0, 0, 0]) MERGED_MINING_HEADER = 0"
  by code_simp

lemma example_auxpow_ok: "CAuxPow_Check openssl_ref (example_auxpow n) 7 198"
proof -
  have m: "CheckMerkleBranch openssl_ref h [] 0 = h" for h by (simp add: CheckMerkleBranch_fold)
  have cb: "IsCoinBase example_coinbase" by code_simp
  have r: "rev (word_le 32 (7 :: u256)) = replicate 31 0 @ [7]" by code_simp
  have "search (MERGED_MINING_HEADER @ replicate 31 0 @ [7] @ [1, 0, 0, 0] @ [0, 0, 0, 0]) (replicate 31 0 @ [7]) = 4"
    by code_simp
  moreover have "Suc (search (drop (Suc 0) (MERGED_MINING_HEADER @ replicate 31 0 @ [7] @ [1, 0, 0, 0] @ [0, 0, 0, 0])) MERGED_MINING_HEADER) = 44"
    by code_simp
  moreover have "le_word [1, 0, 0, 0] = (1 :: u32)" "\<not> IsAuxPowVersion 1" "GetChainId 1 \<noteq> 198" "length MERGED_MINING_HEADER = 4"
    "GetExpectedAuxIndex (le_word [0, 0, 0, 0]) 198 0 = 0" by code_simp+
  ultimately show ?thesis
    using example_search unfolding CAuxPow_Check_def
    by (simp add: example_auxpow_def example_block_def CPureBlockHeader.defs m cb example_script r)
qed


lemma example_is_coinbase: "IsCoinBase example_coinbase"
  by code_simp

lemma example_not_auxpow: "\<not> IsAuxPowVersion 1"
  by code_simp

lemma example_sigops: "unat (GetLegacySigOpCount example_coinbase) \<le> MAX_BLOCK_SIGOPS"
proof -
  have "GetLegacySigOpCount example_coinbase = GetSigOpCount (scriptSig (vin example_coinbase ! 0)) False"
    by (simp add: GetLegacySigOpCount_def example_coinbase_def GetSigOpCount_def sigops_loop.simps [of _ _ _ "[]"])
  then show ?thesis
    using sigops_loop_bound [of 0 "scriptSig (vin example_coinbase ! 0)" False 255]
    by (simp add: GetSigOpCount_def example_coinbase_def MERGED_MINING_HEADER_def MAX_BLOCK_SIGOPS_def MAX_BLOCK_SIZE_def)
qed

lemma example_size: "GetSerializeSize_CTransaction example_coinbase = 104"
  by (simp add: GetSerializeSize_CTransaction_def GetSerializeSize_vec_def GetSerializeSize_CTxIn_def
      GetSerializeSize_CTxOut_def GetSerializeSize_bytes_def GetSizeOfCompactSize_def example_coinbase_def MERGED_MINING_HEADER_def)

lemma example_coinbase_ok: "tx_ok example_coinbase"
  by (simp add: tx_ok_def txin_ok_def txout_ok_def example_coinbase_def MERGED_MINING_HEADER_def MAX_SIZE_def)

lemma example_block_accepted: "CheckBlock openssl_ref False False 1389688315 (example_block n) = Some Accept"
proof -
  have root: "fst (BuildMerkleTree openssl_ref [example_coinbase]) = CTransaction_GetHash openssl_ref example_coinbase"
    using BuildMerkleTree_root [of "[example_coinbase]" openssl_ref] by (simp add: tree_root.simps)
  have tgt: "getuint256 openssl_ref (0xffff0 * 256 ^ 27) = word_of_int (0xffff0 * 256 ^ 27)"
    by (rule ref_bn.getuint256_eq) simp_all
  have "header_GetPoWHash openssl_ref (example_block n) \<le> word_of_int (0xffff0 * 256 ^ 27)"
    using ref_pow_hash [of "example_block n"] by (rule order.strict_implies_order [OF order.strict_trans2]) code_simp
  then have pow: "CheckProofOfWork openssl_ref False False (header_GetPoWHash openssl_ref (example_block n)) 0x1e0ffff0"
    using tgt by (simp add: CheckProofOfWork_def example_target ref_bn.limit_eq limit_bits_def not_less)
  have "check_outputs 0 (vout example_coinbase) = Accept" by code_simp
  then have "CheckTransaction example_coinbase = Accept" using example_is_coinbase example_size
    by (simp add: CheckTransaction_def MAX_BLOCK_SIZE_def) (simp add: example_coinbase_def MERGED_MINING_HEADER_def)
  then show ?thesis
    using pow root example_is_coinbase example_size example_sigops example_not_auxpow
    by (simp add: CheckBlock_def CheckAuxProofOfWork_def GetSerializeSize_CBlock_def block_IsAuxPow_def example_block_def
        MAX_BLOCK_SIZE_def GetSerializeSize_vec_def GetSizeOfCompactSize_def)
qed

section \<open>Properties\<close>

text \<open>
  C27. Work on a parent chain counts once: if two merged-mining proofs with the same parent
  coinbase are accepted for the same chain, they are proofs for the same block, unless two different
  pairs of hashes on the two branches collide, or the coinbase has no merged-mining magic (which
  \<open>CAuxPow::Check\<close> accepts, although \<open>doc/auxpow-spec.md\<close> asks for it) and the two roots in it
  overlap: the last 12 or more bytes of one are the first bytes of the other.
\<close>

theorem auxpow_commits_once:
  assumes "CAuxPow_Check E a h nChainId" and "CAuxPow_Check E b g nChainId" and "mtx a = mtx b"
    and "no_collision (HashPair E) (fold_pairs (HashPair E) h (vChainMerkleBranch a) (unat (nChainIndex a))
      \<union> fold_pairs (HashPair E) g (vChainMerkleBranch b) (unat (nChainIndex b)))"
  shows "h = g \<and> vChainMerkleBranch a = vChainMerkleBranch b \<and> nChainIndex a = nChainIndex b
    \<or> search (scriptSig (vin (mtx a) ! 0)) MERGED_MINING_HEADER = length (scriptSig (vin (mtx a) ! 0))
      \<and> (\<exists>k. 12 \<le> k \<and> k < 32
          \<and> (drop (32 - k) (committed_root E h a) = take k (committed_root E g b)
             \<or> drop (32 - k) (committed_root E g b) = take k (committed_root E h a)))"
proof -
  let ?s = "scriptSig (vin (mtx a) ! 0)"
  let ?p = "search ?s (committed_root E h a)" and ?q = "search ?s (committed_root E g b)"
  note A = CAuxPow_CheckD [OF assms(1)] and B = CAuxPow_CheckD [OF assms(2), folded assms(3)]
  show ?thesis
  proof (cases "?p = ?q")
    case True
    from same_position_same_block [OF assms(1-3) this assms(4)] show ?thesis ..
  next
    case False
    then have magic: "search ?s MERGED_MINING_HEADER = length ?s" using A(5) B(5) by fastforce
    then have le: "?p \<le> 20" "?q \<le> 20" using A(6) B(6) by simp_all
    have "?p < ?q \<and> ?q \<le> ?p + 20 \<or> ?q < ?p \<and> ?p \<le> ?q + 20" using False le by linarith
    then have "\<exists>k. 12 \<le> k \<and> k < 32
          \<and> (drop (32 - k) (committed_root E h a) = take k (committed_root E g b)
             \<or> drop (32 - k) (committed_root E g b) = take k (committed_root E h a))"
      using windows_overlap [OF A(1) B(1)] windows_overlap [OF B(1) A(1)] by blast
    with magic show ?thesis by blast
  qed
qed

theorem auxpow_commits_once_witness:
  "CAuxPow_Check openssl_ref (example_auxpow 1) 7 198 \<and> CAuxPow_Check openssl_ref (example_auxpow 2) 7 198
   \<and> nChainIndex (example_auxpow 1) = nChainIndex (example_auxpow 2)"
proof -
  have "search (scriptSig (vin (mtx (example_auxpow 1)) ! 0)) MERGED_MINING_HEADER \<noteq> length (scriptSig (vin (mtx (example_auxpow 1)) ! 0))"
    using example_search by (simp add: example_auxpow_def example_script)
  then show ?thesis
    using auxpow_commits_once [OF example_auxpow_ok [of 1] example_auxpow_ok [of 2]] example_auxpow_ok
    by (simp add: example_auxpow_def no_collision_def)
qed

text \<open>
  C28. An accepted block fixes its transactions: two blocks that \<open>CheckBlock\<close> accepts and that have the
  same merkle root in the header have the same list of transaction hashes, unless pairs of
  hashes collide or a transaction hash is the hash of such a pair. (A list with repeated transactions
  can have the same root as a shorter one; the check for duplicates is what excludes it.)
\<close>

theorem CheckBlock_binds:
  assumes "CheckBlock E fTestNet fRegTest now b = Some Accept" and "CheckBlock E fTestNet fRegTest now' c = Some Accept"
    and "hashMerkleRoot b = hashMerkleRoot c"
  defines "xs \<equiv> map (CTransaction_GetHash E) (vtx b)" and "ys \<equiv> map (CTransaction_GetHash E) (vtx c)"
  defines "P \<equiv> tree_pairs (HashPair E) xs \<union> tree_pairs (HashPair E) ys"
  assumes "no_collision (HashPair E) P" and "\<forall>(x, y)\<in>P. HashPair E x y \<notin> set xs \<union> set ys"
  shows "map (CTransaction_GetHash E) (vtx b) = map (CTransaction_GetHash E) (vtx c)"
proof -
  have accept: "vtx d \<noteq> [] \<and> distinct (map (CTransaction_GetHash E) (vtx d))
      \<and> hashMerkleRoot d = tree_root (HashPair E) (map (CTransaction_GetHash E) (vtx d))"
    if "CheckBlock E fTestNet fRegTest t d = Some Accept" for t d
    using that BuildMerkleTree_root [of "vtx d" E]
    by (auto simp: CheckBlock_def split: if_splits option.splits verdict.splits intro!: card_distinct)
  show ?thesis
    using tree_root_inj [of xs ys "HashPair E"] accept [OF assms(1)] accept [OF assms(2)] assms(3,7,8)
    unfolding xs_def ys_def P_def by simp
qed

theorem CheckBlock_binds_witness:
  "map (CTransaction_GetHash openssl_ref) (vtx (example_block 1)) = map (CTransaction_GetHash openssl_ref) (vtx (example_block 2))"
  by (rule CheckBlock_binds [OF example_block_accepted example_block_accepted])
    (simp_all add: example_block_def no_collision_def tree_pairs.simps)

text \<open>
  C29. Block round trip: a block whose proof is there exactly when its version says so is read back
  from its wire form, which has the announced size; the proof is not part of what is hashed.
\<close>

theorem CBlock_roundtrip:
  assumes "block_ok b" and "Serialize_CBlock False False b = Some bs"
  shows "Unserialize_CBlock False False (bs @ s) = Some (b, s) \<and> GetSerializeSize_CBlock b = Some (length bs)
    \<and> header_GetHash E (b\<lparr> auxpow := x \<rparr>) = header_GetHash E b"
  by (rule CBlock_codec [OF assms])

theorem CBlock_roundtrip_witness:
  "map_option (Unserialize_CBlock False False) (Serialize_CBlock False False (example_block 1\<lparr> hdr_nVersion := MakeVersion 1 198 True, auxpow := Some (example_auxpow 2) \<rparr>))
   = Some (Some (example_block 1\<lparr> hdr_nVersion := MakeVersion 1 198 True, auxpow := Some (example_auxpow 2) \<rparr>, []))"
proof -
  let ?b = "example_block 1\<lparr> hdr_nVersion := MakeVersion 1 198 True, auxpow := Some (example_auxpow 2) \<rparr>"
  have "IsAuxPowVersion (MakeVersion 1 198 True)" by code_simp
  then have "block_ok ?b"
    using example_coinbase_ok
    by (simp add: block_ok_def example_block_def block_IsAuxPow_def auxpow_ok_def example_auxpow_def MAX_SIZE_def)
  moreover have "Serialize_CBlock False False ?b \<noteq> None"
    by (simp add: Serialize_CBlock_def)
  ultimately show ?thesis using CBlock_roundtrip [of ?b _ "[]"] by auto
qed

end
