(* ===== verification/Subsidy.thy ===== *)
theory Subsidy
  imports Tx Uint256
begin

text \<open>
  The block reward (\<open>GetBlockValue\<close> and \<open>generateMTRandom\<close> in \<open>main.cpp\<close>, \<open>hex2long\<close> in \<open>util.cpp\<close>): a
  number drawn by a Mersenne twister that is seeded with seven hex digits of the previous block's
  hash. Of \<open>std::mt19937\<close> only the seeding and the first output are used.
\<close>

section \<open>Mersenne twister\<close>

text \<open>State words as the constructor of \<open>std::mt19937\<close> fills them, from the last computed one.\<close>

fun mt_fill :: "u32 \<Rightarrow> u32 \<Rightarrow> nat \<Rightarrow> u32 list" where
  "mt_fill x i 0 = []"
| "mt_fill x i (Suc n) =
     (let y = 1812433253 * (x XOR drop_bit 30 x) + i in y # mt_fill y (i + 1) n)"

definition mt_seed :: "u32 \<Rightarrow> u32 list" where
  "mt_seed s = s # mt_fill s 1 623"

text \<open>The first word after the twist, and tempering.\<close>

definition mt_twist0 :: "u32 list \<Rightarrow> u32" where
  "mt_twist0 x =
     (let y = (x ! 0 AND 0x80000000) OR (x ! 1 AND 0x7fffffff) in
      x ! 397 XOR drop_bit 1 y XOR (if y AND 1 \<noteq> 0 then 0x9908b0df else 0))"

definition mt_temper :: "u32 \<Rightarrow> u32" where
  "mt_temper z =
     (let z = z XOR (drop_bit 11 z AND 0xffffffff);
          z = z XOR (push_bit 7 z AND 0x9d2c5680);
          z = z XOR (push_bit 15 z AND 0xefc60000)
      in z XOR drop_bit 18 z)"

definition mt19937_first :: "u32 \<Rightarrow> u32" where
  "mt19937_first s = mt_temper (mt_twist0 (mt_seed s))"

definition generateMTRandom :: "u32 \<Rightarrow> int \<Rightarrow> int" where
  "generateMTRandom s n = 1 + uint (mt19937_first s) mod n"

section \<open>Seed and reward\<close>

definition hextable :: "i64 list" where
  "hextable = replicate 48 (- 1) @ [0, 1, 2, 3, 4, 5, 6, 7, 8, 9] @ replicate 7 (- 1) @ [10, 11, 12, 13, 14, 15]
     @ replicate 26 (- 1) @ [10, 11, 12, 13, 14, 15] @ replicate 153 (- 1)"

text \<open>The loop of \<open>hex2long\<close>, which stops at the first character that is not a digit.\<close>

fun hex2long_loop :: "string \<Rightarrow> i64 \<Rightarrow> i64" where
  "hex2long_loop [] ret = ret"
| "hex2long_loop (c # s) ret =
     (if 0 \<le>s ret then hex2long_loop s (push_bit 4 ret OR hextable ! of_char c) else ret)"

definition hex2long :: "string \<Rightarrow> i64" where
  "hex2long hexString = hex2long_loop hexString 0"

definition uint256_ToString :: "u256 \<Rightarrow> string" where
  "uint256_ToString w = concat (map hex2 (rev (word_le 32 w)))"

definition substr :: "nat \<Rightarrow> nat \<Rightarrow> string \<Rightarrow> string" where
  "substr pos n s = take n (drop pos s)"

definition FLAT_BLOCK_REWARD :: i64 where "FLAT_BLOCK_REWARD = 10000 * COIN"

text \<open>One branch: the digits it takes and its range.\<close>

definition random_subsidy :: "u256 \<Rightarrow> nat \<Rightarrow> int \<Rightarrow> i64" where
  "random_subsidy prevHash pos n =
     (let seed = hex2long (substr pos 7 (uint256_ToString prevHash));
          r = generateMTRandom (ucast seed) n in word_of_int (1 + r) * COIN)"

definition GetBlockValue :: "int \<Rightarrow> i64 \<Rightarrow> u256 \<Rightarrow> i64" where
  "GetBlockValue nHeight nFees prevHash =
     (let nSubsidy =
        (if nHeight < 100000 then random_subsidy prevHash 7 999999
         else if nHeight < 200000 then random_subsidy prevHash 7 499999
         else if nHeight < 300000 then random_subsidy prevHash 6 249999
         else if nHeight < 400000 then random_subsidy prevHash 7 124999
         else if nHeight < 500000 then random_subsidy prevHash 7 62499
         else if nHeight < 600000 then random_subsidy prevHash 6 31249
         else FLAT_BLOCK_REWARD)
      in nSubsidy + nFees)"

section \<open>Facts\<close>

text \<open>The published first output for the default seed.\<close>

lemma mt19937_default: "mt19937_first 5489 = 3499211612"
  by code_simp

lemma generateMTRandom_range: "0 < n \<Longrightarrow> 1 \<le> generateMTRandom s n \<and> generateMTRandom s n \<le> n"
  using pos_mod_bound [of n "uint (mt19937_first s)"] pos_mod_sign [of n "uint (mt19937_first s)"]
  unfolding generateMTRandom_def by linarith

text \<open>The largest reward at a height, in coins.\<close>

definition max_reward :: "int \<Rightarrow> int" where
  "max_reward h =
     (if h < 100000 then 1000000 else if h < 200000 then 500000 else if h < 300000 then 250000
      else if h < 400000 then 125000 else if h < 500000 then 62500 else if h < 600000 then 31250 else 10000)"

lemma max_reward_le: "max_reward h \<le> 1000000"
  by (simp add: max_reward_def)

lemma random_subsidy_range:
  assumes "0 < n" "n \<le> 999999"
  shows "2 * 10 ^ 8 \<le> sint (random_subsidy h p n)" "sint (random_subsidy h p n) \<le> (n + 1) * 10 ^ 8"
proof -
  define r where "r = generateMTRandom (ucast (hex2long (substr p 7 (uint256_ToString h)))) n"
  have r: "1 \<le> r" "r \<le> n" using generateMTRandom_range [OF assms(1)] by (simp_all add: r_def)
  have "random_subsidy h p n = word_of_int ((1 + r) * 10 ^ 8)"
    by (simp add: random_subsidy_def Let_def r_def COIN_def)
  moreover have "sint (word_of_int ((1 + r) * 10 ^ 8) :: i64) = (1 + r) * 10 ^ 8"
    using r assms by (intro sint_of_int_small) simp_all
  ultimately have "sint (random_subsidy h p n) = (1 + r) * 10 ^ 8" by simp
  then show "2 * 10 ^ 8 \<le> sint (random_subsidy h p n)" "sint (random_subsidy h p n) \<le> (n + 1) * 10 ^ 8"
    using r by simp_all
qed

lemma GetBlockValue_0: "GetBlockValue h f p = GetBlockValue h 0 p + f"
  by (simp add: GetBlockValue_def Let_def)

lemma subsidy_range: "2 * 10 ^ 8 \<le> sint (GetBlockValue h 0 p) \<and> sint (GetBlockValue h 0 p) \<le> max_reward h * 10 ^ 8"
proof -
  have flat: "sint FLAT_BLOCK_REWARD = 10000 * 10 ^ 8" by (simp add: FLAT_BLOCK_REWARD_def COIN_def)
  have R: "2 * 10 ^ 8 \<le> sint (random_subsidy p k n) \<and> sint (random_subsidy p k n) \<le> (n + 1) * 10 ^ 8"
    if "0 < n \<and> n \<le> 999999" for k n using random_subsidy_range that by blast
  show ?thesis
    using R [of 999999 7] R [of 499999 7] R [of 249999 6] R [of 124999 7] R [of 62499 7] R [of 31249 6] flat
    by (simp add: GetBlockValue_def Let_def max_reward_def)
qed

lemma GetBlockValue_bounds:
  assumes "0 \<le> sint nFees" and "sint nFees \<le> 9 * 10 ^ 18"
  shows "2 * 10 ^ 8 + sint nFees \<le> sint (GetBlockValue nHeight nFees prevHash)
    \<and> sint (GetBlockValue nHeight nFees prevHash) \<le> max_reward nHeight * 10 ^ 8 + sint nFees"
proof -
  note r = subsidy_range [of nHeight prevHash]
  have "sint (GetBlockValue nHeight nFees prevHash) = sint (GetBlockValue nHeight 0 prevHash) + sint nFees"
  proof -
    have "GetBlockValue nHeight 0 prevHash + nFees = word_of_int (sint (GetBlockValue nHeight 0 prevHash) + sint nFees)" by simp
    moreover have "sint (word_of_int (sint (GetBlockValue nHeight 0 prevHash) + sint nFees) :: i64)
        = sint (GetBlockValue nHeight 0 prevHash) + sint nFees"
      using r max_reward_le [of nHeight] assms by (intro sint_of_int_small) simp_all
    ultimately show ?thesis using GetBlockValue_0 [of nHeight nFees prevHash] by simp
  qed
  with r show ?thesis by simp
qed

text \<open>
  The reward of a block is at least two coins and at most the maximum of its period (one million
  coins in the first, ten thousand from height 600000 on), plus the fees; with fees
  of at most ninety billion coins the sum does not overflow.
\<close>

theorem GetBlockValue_range:
  assumes "0 \<le> sint nFees" and "sint nFees \<le> 9 * 10 ^ 18"
  shows "2 * 10 ^ 8 + sint nFees \<le> sint (GetBlockValue nHeight nFees prevHash)
    \<and> sint (GetBlockValue nHeight nFees prevHash) \<le> max_reward nHeight * 10 ^ 8 + sint nFees"
  using GetBlockValue_bounds [OF assms] .

theorem GetBlockValue_range_witness:
  "2 * 10 ^ 8 + 5 \<le> sint (GetBlockValue 50000 5 0) \<and> sint (GetBlockValue 50000 5 0) \<le> 10 ^ 14 + 5"
  using GetBlockValue_range [of 5 50000 0] by (simp add: max_reward_def)

end
