(* ===== verification/Connect.thy ===== *)
theory Connect
  imports Block Subsidy Interp_Facts
begin

text \<open>
  Connecting and disconnecting blocks (\<open>main.cpp\<close>, \<open>main.h\<close>): the transaction index, fetching the
  previous transactions of the inputs, \<open>ConnectInputs\<close> and \<open>DisconnectInputs\<close>, \<open>ConnectBlock\<close> and
  \<open>DisconnectBlock\<close>.

  The transaction database is a record of the entries that these functions use. Reads and writes
  are those of the open database transaction; a write does not fail. Block files are byte
  strings. The wallets that are told about the transactions of a block are not part of the state.
\<close>

section \<open>Database\<close>

record CDiskTxPos =
  pos_nFile :: u32
  pos_nBlockPos :: u32
  pos_nTxPos :: u32

definition CDiskTxPos_SetNull :: CDiskTxPos where
  "CDiskTxPos_SetNull = \<lparr> pos_nFile = - 1, pos_nBlockPos = 0, pos_nTxPos = 0 \<rparr>"

definition CDiskTxPos_IsNull :: "CDiskTxPos \<Rightarrow> bool" where
  "CDiskTxPos_IsNull p \<longleftrightarrow> pos_nFile p = - 1"

record CTxIndex =
  ti_pos :: CDiskTxPos
  vSpent :: "CDiskTxPos list"

definition CTxIndex_new :: "CDiskTxPos \<Rightarrow> nat \<Rightarrow> CTxIndex" where
  "CTxIndex_new posIn nOutputs = \<lparr> ti_pos = posIn, vSpent = replicate nOutputs CDiskTxPos_SetNull \<rparr>"

record CDiskBlockIndex = CBlockIndex +
  hashPrev :: u256
  hashNext :: u256

text \<open>The record of a block index with the given successor.\<close>

definition CDiskBlockIndex_new :: "CBlockIndex \<Rightarrow> chain \<Rightarrow> u256 \<Rightarrow> CDiskBlockIndex" where
  "CDiskBlockIndex_new pindex pprev nxt =
     CBlockIndex.extend pindex
       \<lparr> hashPrev = (case pprev of [] \<Rightarrow> 0 | p # _ \<Rightarrow> phashBlock p), hashNext = nxt \<rparr>"

definition CDiskBlockIndex_GetBlockHash :: "openssl \<Rightarrow> CDiskBlockIndex \<Rightarrow> u256" where
  "CDiskBlockIndex_GetBlockHash E b =
     header_GetHash E \<lparr> hdr_nVersion = idx_nVersion b, hashPrevBlock = hashPrev b, hashMerkleRoot = idx_hashMerkleRoot b,
       hdr_nTime = nTime b, hdr_nBits = nBits b, hdr_nNonce = idx_nNonce b \<rparr>"

type_synonym txindex_map = "u256 \<rightharpoonup> CTxIndex"

record CTxDB =
  db_tx :: txindex_map
  db_blockindex :: "u256 \<rightharpoonup> CDiskBlockIndex"
  db_hashBestChain :: u256

definition WriteBlockIndex :: "openssl \<Rightarrow> CTxDB \<Rightarrow> CDiskBlockIndex \<Rightarrow> CTxDB" where
  "WriteBlockIndex E db b = db\<lparr> db_blockindex := (db_blockindex db)(CDiskBlockIndex_GetBlockHash E b \<mapsto> b) \<rparr>"

section \<open>Block files and other global state\<close>

text \<open>
  What the functions read: the block files (\<open>None\<close> where \<open>OpenBlockFile\<close> fails), the memory pool's
  transactions, the height of the best chain and the network.
\<close>

record globals =
  blockfile :: "u32 \<Rightarrow> bytes option"
  mapTx :: "u256 \<rightharpoonup> CTransaction"
  g_nBestHeight :: int
  adjustedTime :: int
  g_fTestNet :: bool
  g_fRegTest :: bool

definition CTransaction_ReadFromDisk :: "globals \<Rightarrow> CDiskTxPos \<Rightarrow> CTransaction option" where
  "CTransaction_ReadFromDisk G p =
     (case blockfile G (pos_nFile p) of None \<Rightarrow> None
      | Some f \<Rightarrow> map_option fst (Unserialize_CTransaction (drop (unat (pos_nTxPos p)) f)))"

text \<open>Checkpoints: the genesis block on the main network, none on the test networks.\<close>

definition hashGenesisBlockOfficial :: u256 where
  "hashGenesisBlockOfficial = 0x9c470b340cab2862451303837e1d3ddfeea9ed2eba2c04d206551654cab0b82d"

definition mapCheckpoints :: "(int \<times> u256) list" where
  "mapCheckpoints = [(0, hashGenesisBlockOfficial)]"

definition Checkpoints_CheckBlock :: "bool \<Rightarrow> int \<Rightarrow> u256 \<Rightarrow> bool" where
  "Checkpoints_CheckBlock fTestNet height hash =
     (if fTestNet then True
      else case map_of mapCheckpoints height of None \<Rightarrow> True | Some h \<Rightarrow> hash = h)"

definition GetTotalBlocksEstimate :: "bool \<Rightarrow> int" where
  "GetTotalBlocksEstimate fTestNet = (if fTestNet then 0 else fst (last mapCheckpoints))"

section \<open>Fetching inputs\<close>

type_synonym MapPrevTx = "u256 \<rightharpoonup> CTxIndex \<times> CTransaction"

text \<open>\<open>Missing\<close> is \<open>false\<close>, \<open>Invalid\<close> is \<open>false\<close> with \<open>fInvalid\<close> and a penalty of 100.\<close>

datatype fetched = Fetched MapPrevTx | Missing | Invalid

fun fetch_loop :: "globals \<Rightarrow> txindex_map \<Rightarrow> txindex_map \<Rightarrow> bool \<Rightarrow> bool \<Rightarrow> CTxIn list \<Rightarrow> MapPrevTx
    \<Rightarrow> MapPrevTx option" where
  "fetch_loop G txdb mapTestPool fBlock fMiner [] inputs = Some inputs"
| "fetch_loop G txdb mapTestPool fBlock fMiner (input # r) inputs =
     (let h = op_hash (prevout input) in
      if inputs h \<noteq> None then fetch_loop G txdb mapTestPool fBlock fMiner r inputs
      else
        (let found = (if (fBlock \<or> fMiner) \<and> mapTestPool h \<noteq> None then mapTestPool h else txdb h) in
         if found = None \<and> (fBlock \<or> fMiner) then None
         else
           (let txPrev =
              (if found = None \<or> ti_pos (the found) = \<lparr> pos_nFile = 1, pos_nBlockPos = 1, pos_nTxPos = 1 \<rparr>
               then mapTx G h else CTransaction_ReadFromDisk G (ti_pos (the found)))
            in case txPrev of None \<Rightarrow> None
            | Some txPrev \<Rightarrow>
                (let txindex = (case found of Some ti \<Rightarrow> ti
                   | None \<Rightarrow> CTxIndex_new CDiskTxPos_SetNull (length (vout txPrev)))
                 in fetch_loop G txdb mapTestPool fBlock fMiner r (inputs(h \<mapsto> (txindex, txPrev)))))))"

definition prevout_in_range :: "MapPrevTx \<Rightarrow> CTxIn \<Rightarrow> bool" where
  "prevout_in_range inputs input =
     (case inputs (op_hash (prevout input)) of None \<Rightarrow> False
      | Some (txindex, txPrev) \<Rightarrow>
          unat (op_n (prevout input)) < length (vout txPrev) \<and> unat (op_n (prevout input)) < length (vSpent txindex))"

definition FetchInputs :: "globals \<Rightarrow> txindex_map \<Rightarrow> CTransaction \<Rightarrow> txindex_map \<Rightarrow> bool \<Rightarrow> bool \<Rightarrow> fetched" where
  "FetchInputs G txdb tx mapTestPool fBlock fMiner =
     (if IsCoinBase tx then Fetched Map.empty
      else case fetch_loop G txdb mapTestPool fBlock fMiner (vin tx) Map.empty of None \<Rightarrow> Missing
      | Some inputs \<Rightarrow>
          if list_all (prevout_in_range inputs) (vin tx) then Fetched inputs else Invalid)"

text \<open>\<open>None\<close> is the \<open>std::runtime_error\<close>.\<close>

definition GetOutputFor :: "CTxIn \<Rightarrow> MapPrevTx \<Rightarrow> CTxOut option" where
  "GetOutputFor input inputs =
     (case inputs (op_hash (prevout input)) of None \<Rightarrow> None
      | Some (txindex, txPrev) \<Rightarrow>
          if unat (op_n (prevout input)) \<ge> length (vout txPrev) then None
          else Some (vout txPrev ! unat (op_n (prevout input))))"

fun value_in_loop :: "MapPrevTx \<Rightarrow> CTxIn list \<Rightarrow> i64 \<Rightarrow> i64 option" where
  "value_in_loop inputs [] nResult = Some nResult"
| "value_in_loop inputs (input # r) nResult =
     (case GetOutputFor input inputs of None \<Rightarrow> None
      | Some out \<Rightarrow> value_in_loop inputs r (nResult + nValue out))"

definition GetValueIn :: "CTransaction \<Rightarrow> MapPrevTx \<Rightarrow> i64 option" where
  "GetValueIn tx inputs = (if IsCoinBase tx then Some 0 else value_in_loop inputs (vin tx) 0)"

fun p2sh_sigops_loop :: "MapPrevTx \<Rightarrow> CTxIn list \<Rightarrow> u32 \<Rightarrow> u32 option" where
  "p2sh_sigops_loop inputs [] nSigOps = Some nSigOps"
| "p2sh_sigops_loop inputs (input # r) nSigOps =
     (case GetOutputFor input inputs of None \<Rightarrow> None
      | Some out \<Rightarrow> p2sh_sigops_loop inputs r
          (if IsPayToScriptHash (scriptPubKey out)
           then nSigOps + GetSigOpCount_P2SH (scriptPubKey out) (scriptSig input) else nSigOps))"

definition GetP2SHSigOpCount :: "CTransaction \<Rightarrow> MapPrevTx \<Rightarrow> u32 option" where
  "GetP2SHSigOpCount tx inputs = (if IsCoinBase tx then Some 0 else p2sh_sigops_loop inputs (vin tx) 0)"

section \<open>Connecting inputs\<close>

text \<open>\<open>Rejected\<close> is \<open>false\<close> with a penalty; \<open>Throws\<close> an exception or a failed assertion.\<close>

datatype 'a result = Ok 'a | Rejected nat | Throws

text \<open>The walk back from the block that looks for the block of a coinbase that is too young.\<close>

fun immature :: "int \<Rightarrow> CTxIndex \<Rightarrow> chain \<Rightarrow> bool" where
  "immature height txindex [] = False"
| "immature height txindex (pindex # pprev) =
     (if height - nHeight pindex < COINBASE_MATURITY
      then (nBlockPos pindex = pos_nBlockPos (ti_pos txindex) \<and> nFile pindex = pos_nFile (ti_pos txindex))
        \<or> immature height txindex pprev
      else False)"

text \<open>The first loop: the inexpensive checks, and the value of the inputs.\<close>

fun check_inputs :: "MapPrevTx \<Rightarrow> chain \<Rightarrow> CTxIn list \<Rightarrow> i64 \<Rightarrow> i64 result" where
  "check_inputs inputs pindexBlock [] nValueIn = Ok nValueIn"
| "check_inputs inputs pindexBlock (input # r) nValueIn =
     (case inputs (op_hash (prevout input)) of None \<Rightarrow> Throws
      | Some (txindex, txPrev) \<Rightarrow>
          (let n = unat (op_n (prevout input)) in
           if n \<ge> length (vout txPrev) \<or> n \<ge> length (vSpent txindex) then Rejected 100
           else if IsCoinBase txPrev \<and> pindexBlock \<noteq> [] \<and> immature (nHeight (hd pindexBlock)) txindex pindexBlock
           then Rejected 0
           else
             (let nValueIn = nValueIn + nValue (vout txPrev ! n) in
              if \<not> MoneyRange (nValue (vout txPrev ! n)) \<or> \<not> MoneyRange nValueIn then Rejected 100
              else check_inputs inputs pindexBlock r nValueIn)))"

text \<open>The signature check of an input: what it returns, or the penalty.\<close>

definition check_signature :: "openssl \<Rightarrow> CSignatureCache \<Rightarrow> CTransaction \<Rightarrow> CTransaction \<Rightarrow> nat \<Rightarrow> bool
    \<Rightarrow> CSignatureCache \<times> unit result" where
  "check_signature E c txPrev tx i fStrictPayToScriptHash =
     (case VerifySignature E c txPrev tx i fStrictPayToScriptHash 0 of None \<Rightarrow> (c, Throws)
      | Some (ok, c) \<Rightarrow>
          if ok then (c, Ok ())
          else if fStrictPayToScriptHash then
            (case VerifySignature E c txPrev tx i False 0 of None \<Rightarrow> (c, Throws)
             | Some (ok, c) \<Rightarrow> (c, Rejected (if ok then 0 else 100)))
          else (c, Rejected 100))"

text \<open>
  The second loop, at input \<open>i\<close>: double spends, signatures, and marking the outputs as spent in the
  fetched entries (a second input from the same transaction sees the mark) and in the pool of
  changes.
\<close>

fun spend_loop :: "openssl \<Rightarrow> bool \<Rightarrow> CTransaction \<Rightarrow> CDiskTxPos \<Rightarrow> bool \<Rightarrow> bool \<Rightarrow> bool \<Rightarrow> nat \<Rightarrow> CTxIn list
    \<Rightarrow> MapPrevTx \<Rightarrow> txindex_map \<Rightarrow> CSignatureCache \<Rightarrow> CSignatureCache \<times> txindex_map result" where
  "spend_loop E fSkip tx posThisTx fBlock fMiner fStrict i [] inputs mapTestPool c = (c, Ok mapTestPool)"
| "spend_loop E fSkip tx posThisTx fBlock fMiner fStrict i (input # r) inputs mapTestPool c =
     (let h = op_hash (prevout input); n = unat (op_n (prevout input)) in
      case inputs h of None \<Rightarrow> (c, Throws)
      | Some (txindex, txPrev) \<Rightarrow>
          if \<not> CDiskTxPos_IsNull (vSpent txindex ! n) then (c, Rejected 0)
          else
            (case (if fSkip then (c, Ok ()) else check_signature E c txPrev tx i fStrict) of
               (c, Rejected d) \<Rightarrow> (c, Rejected d)
             | (c, Throws) \<Rightarrow> (c, Throws)
             | (c, Ok _) \<Rightarrow>
                 (let txindex = txindex\<lparr> vSpent := (vSpent txindex)[n := posThisTx] \<rparr> in
                  spend_loop E fSkip tx posThisTx fBlock fMiner fStrict (Suc i) r
                    (inputs(h \<mapsto> (txindex, txPrev)))
                    (if fBlock \<or> fMiner then mapTestPool(h \<mapsto> txindex) else mapTestPool) c)))"

definition ConnectInputs :: "openssl \<Rightarrow> globals \<Rightarrow> CSignatureCache \<Rightarrow> CTransaction \<Rightarrow> MapPrevTx \<Rightarrow> txindex_map \<Rightarrow> CDiskTxPos
    \<Rightarrow> chain \<Rightarrow> bool \<Rightarrow> bool \<Rightarrow> bool \<Rightarrow> CSignatureCache \<times> txindex_map result" where
  "ConnectInputs E G c tx inputs mapTestPool posThisTx pindexBlock fBlock fMiner fStrictPayToScriptHash =
     (if IsCoinBase tx then (c, Ok mapTestPool)
      else case check_inputs inputs pindexBlock (vin tx) 0 of Rejected d \<Rightarrow> (c, Rejected d) | Throws \<Rightarrow> (c, Throws)
      | Ok nValueIn \<Rightarrow>
        (let fSkip = (fBlock \<and> g_nBestHeight G < GetTotalBlocksEstimate (g_fTestNet G)) in
         case spend_loop E fSkip tx posThisTx fBlock fMiner fStrictPayToScriptHash 0 (vin tx) inputs mapTestPool c of
           (c, Rejected d) \<Rightarrow> (c, Rejected d) | (c, Throws) \<Rightarrow> (c, Throws)
         | (c, Ok mapTestPool) \<Rightarrow>
             (case GetValueOut tx of None \<Rightarrow> (c, Throws)
              | Some nValueOut \<Rightarrow>
                  if nValueIn <s nValueOut then (c, Rejected 100)
                  else
                    (let nTxFee = nValueIn - nValueOut in
                     if nTxFee <s 0 then (c, Rejected 100)
                     else
                       (let nFees = 0 + nTxFee in
                        if \<not> MoneyRange nFees then (c, Rejected 100) else (c, Ok mapTestPool))))))"

section \<open>Connecting blocks\<close>

definition nBIP30SwitchTime :: int where "nBIP30SwitchTime = 1349049600"
definition nBIP16SwitchTime :: int where "nBIP16SwitchTime = 1349049600"

text \<open>The body of the loop over the transactions; the state is the position, the changes, the fees and the
  count of signature operations.\<close>

type_synonym connect_state = "u32 \<times> txindex_map \<times> i64 \<times> u32"

definition connect_tx :: "openssl \<Rightarrow> globals \<Rightarrow> txindex_map \<Rightarrow> CBlockIndex \<Rightarrow> chain \<Rightarrow> bool \<Rightarrow> bool \<Rightarrow> CTransaction
    \<Rightarrow> connect_state \<Rightarrow> CSignatureCache \<Rightarrow> CSignatureCache \<times> connect_state result" where
  "connect_tx E G txdb pindex pprev fEnforceBIP30 fStrict tx = (\<lambda>(nTxPos, mapQueuedChanges, nFees, nSigOps) c.
     let hashTx = CTransaction_GetHash E tx in
     if fEnforceBIP30 \<and> (case txdb hashTx of None \<Rightarrow> False | Some old \<Rightarrow> list_ex CDiskTxPos_IsNull (vSpent old))
     then (c, Rejected 0)
     else let nSigOps = nSigOps + GetLegacySigOpCount tx in
     if unat nSigOps > MAX_BLOCK_SIGOPS then (c, Rejected 100)
     else let posThisTx = \<lparr> pos_nFile = nFile pindex, pos_nBlockPos = nBlockPos pindex, pos_nTxPos = nTxPos \<rparr>;
              nTxPos = nTxPos + word_of_nat (GetSerializeSize_CTransaction tx);
              entry = CTxIndex_new posThisTx (length (vout tx)) in
     if IsCoinBase tx then (c, Ok (nTxPos, mapQueuedChanges(hashTx \<mapsto> entry), nFees, nSigOps))
     else case FetchInputs G txdb tx mapQueuedChanges True False of Missing \<Rightarrow> (c, Rejected 0) | Invalid \<Rightarrow> (c, Rejected 0)
     | Fetched mapInputs \<Rightarrow>
         (case (if fStrict then GetP2SHSigOpCount tx mapInputs else Some 0) of None \<Rightarrow> (c, Throws)
          | Some p2sh \<Rightarrow>
              (let nSigOps = nSigOps + p2sh in
               if fStrict \<and> unat nSigOps > MAX_BLOCK_SIGOPS then (c, Rejected 100)
               else case (GetValueIn tx mapInputs, GetValueOut tx) of
                 (Some nIn, Some nOut) \<Rightarrow>
                   (case ConnectInputs E G c tx mapInputs mapQueuedChanges posThisTx (pindex # pprev) True False fStrict of
                      (c, Rejected d) \<Rightarrow> (c, Rejected 0) | (c, Throws) \<Rightarrow> (c, Throws)
                    | (c, Ok mapQueuedChanges) \<Rightarrow>
                        (c, Ok (nTxPos, mapQueuedChanges(hashTx \<mapsto> entry), nFees + (nIn - nOut), nSigOps)))
               | _ \<Rightarrow> (c, Throws))))"

fun connect_txs :: "openssl \<Rightarrow> globals \<Rightarrow> txindex_map \<Rightarrow> CBlockIndex \<Rightarrow> chain \<Rightarrow> bool \<Rightarrow> bool \<Rightarrow> CTransaction list
    \<Rightarrow> connect_state \<Rightarrow> CSignatureCache \<Rightarrow> CSignatureCache \<times> connect_state result" where
  "connect_txs E G txdb pindex pprev fEnforceBIP30 fStrict [] st c = (c, Ok st)"
| "connect_txs E G txdb pindex pprev fEnforceBIP30 fStrict (tx # r) st c =
     (case connect_tx E G txdb pindex pprev fEnforceBIP30 fStrict tx st c of
        (c, Rejected d) \<Rightarrow> (c, Rejected d) | (c, Throws) \<Rightarrow> (c, Throws)
      | (c, Ok st) \<Rightarrow> connect_txs E G txdb pindex pprev fEnforceBIP30 fStrict r st c)"

text \<open>
  The block's index entry is \<open>pindex\<close> and \<open>pprev\<close> the chain before it. Where the result is not \<open>Ok\<close> the
  caller aborts the database transaction, so that what was written is not part of the result. The
  penalties of the transactions stay in their own \<open>nDoS\<close>. \<open>Throws\<close> also stands for the null pointers of \<open>CheckBlock\<close>.
\<close>

definition ConnectBlock :: "openssl \<Rightarrow> globals \<Rightarrow> CSignatureCache \<Rightarrow> CTxDB \<Rightarrow> CBlock \<Rightarrow> CBlockIndex \<Rightarrow> chain
    \<Rightarrow> CSignatureCache \<times> CTxDB result" where
  "ConnectBlock E G c db block pindex pprev =
     (case CheckBlock E (g_fTestNet G) (g_fRegTest G) (adjustedTime G) block of None \<Rightarrow> (c, Throws)
      | Some (Reject d) \<Rightarrow> (c, Rejected d)
      | Some Accept \<Rightarrow>
        case Serialize_CBlock False True block of None \<Rightarrow> (c, Throws) | Some hdr \<Rightarrow>
        (let fEnforceBIP30 = (uint (nTime pindex) > nBIP30SwitchTime);
             fStrict = (uint (nTime pindex) \<ge> nBIP16SwitchTime);
             nTxPos = nBlockPos pindex
               + word_of_nat (length hdr)
               + word_of_nat (GetSizeOfCompactSize (length (vtx block))) in
         case connect_txs E G (db_tx db) pindex pprev fEnforceBIP30 fStrict (vtx block) (nTxPos, Map.empty, 0, 0) c of
           (c, Rejected d) \<Rightarrow> (c, Rejected d) | (c, Throws) \<Rightarrow> (c, Throws)
         | (c, Ok (_, mapQueuedChanges, nFees, _)) \<Rightarrow>
             (let db = db\<lparr> db_tx := db_tx db ++ mapQueuedChanges \<rparr>;
                  prevHash = (case pprev of [] \<Rightarrow> 0 | p # _ \<Rightarrow> phashBlock p);
                  nBlockReward = GetBlockValue (nHeight pindex) nFees prevHash in
              case GetValueOut (vtx block ! 0) of None \<Rightarrow> (c, Throws)
              | Some v \<Rightarrow>
                  if nBlockReward <s v then (c, Rejected 0)
                  else (c, Ok (case pprev of [] \<Rightarrow> db
                     | p # r \<Rightarrow> WriteBlockIndex E db (CDiskBlockIndex_new p r (phashBlock pindex)))))))"

section \<open>Disconnecting\<close>

fun unspend_loop :: "CTxIn list \<Rightarrow> txindex_map \<Rightarrow> txindex_map option" where
  "unspend_loop [] txdb = Some txdb"
| "unspend_loop (txin # r) txdb =
     (let h = op_hash (prevout txin); n = unat (op_n (prevout txin)) in
      case txdb h of None \<Rightarrow> None
      | Some txindex \<Rightarrow>
          if n \<ge> length (vSpent txindex) then None
          else unspend_loop r (txdb(h \<mapsto> txindex\<lparr> vSpent := (vSpent txindex)[n := CDiskTxPos_SetNull] \<rparr>)))"

definition DisconnectInputs :: "openssl \<Rightarrow> CTransaction \<Rightarrow> txindex_map \<Rightarrow> txindex_map option" where
  "DisconnectInputs E tx txdb =
     (case (if IsCoinBase tx then Some txdb else unspend_loop (vin tx) txdb) of None \<Rightarrow> None
      | Some txdb \<Rightarrow> Some (txdb(CTransaction_GetHash E tx := None)))"

text \<open>The loop runs over the transactions from the last to the first.\<close>

fun disconnect_txs :: "openssl \<Rightarrow> CTransaction list \<Rightarrow> txindex_map \<Rightarrow> txindex_map option" where
  "disconnect_txs E [] txdb = Some txdb"
| "disconnect_txs E (tx # r) txdb =
     (case DisconnectInputs E tx txdb of None \<Rightarrow> None | Some txdb \<Rightarrow> disconnect_txs E r txdb)"

definition DisconnectBlock :: "openssl \<Rightarrow> CTxDB \<Rightarrow> CBlock \<Rightarrow> CBlockIndex \<Rightarrow> chain \<Rightarrow> CTxDB option" where
  "DisconnectBlock E db block pindex pprev =
     (case disconnect_txs E (rev (vtx block)) (db_tx db) of None \<Rightarrow> None
      | Some t \<Rightarrow>
        (let db = db\<lparr> db_tx := t \<rparr> in
         Some (case pprev of [] \<Rightarrow> db
           | p # r \<Rightarrow> WriteBlockIndex E db (CDiskBlockIndex_new p r 0))))"


section \<open>Marking outputs\<close>

type_synonym outpoint = "u256 \<times> nat"

definition spent_point :: "CTxIn \<Rightarrow> outpoint" where
  "spent_point i = (op_hash (prevout i), unat (op_n (prevout i)))"

definition mark :: "CDiskTxPos \<Rightarrow> outpoint \<Rightarrow> txindex_map \<Rightarrow> txindex_map" where
  "mark p op T =
     (case T (fst op) of None \<Rightarrow> T
      | Some ti \<Rightarrow> T(fst op \<mapsto> ti\<lparr> vSpent := (vSpent ti)[snd op := p] \<rparr>))"

definition in_index :: "txindex_map \<Rightarrow> outpoint \<Rightarrow> bool" where
  "in_index T op = (case T (fst op) of None \<Rightarrow> False | Some ti \<Rightarrow> snd op < length (vSpent ti))"

definition unspent :: "txindex_map \<Rightarrow> outpoint \<Rightarrow> bool" where
  "unspent T op = (case T (fst op) of None \<Rightarrow> False
     | Some ti \<Rightarrow> snd op < length (vSpent ti) \<and> CDiskTxPos_IsNull (vSpent ti ! snd op))"

text \<open>Null positions are the one that \<open>SetNull\<close> makes.\<close>

definition canonical :: "txindex_map \<Rightarrow> bool" where
  "canonical T \<longleftrightarrow> (\<forall>h ti. T h = Some ti \<longrightarrow> (\<forall>p\<in>set (vSpent ti). CDiskTxPos_IsNull p \<longrightarrow> p = CDiskTxPos_SetNull))"

lemma IsNull_SetNull [simp]: "CDiskTxPos_IsNull CDiskTxPos_SetNull"
  by (simp add: CDiskTxPos_IsNull_def CDiskTxPos_SetNull_def)

lemma unspent_in_index: "unspent T op \<Longrightarrow> in_index T op"
  by (auto simp: unspent_def in_index_def split: option.splits)

lemma in_index_mark [simp]: "in_index (mark p op T) op' = in_index T op'"
  by (auto simp: in_index_def mark_def split: option.splits)

lemma in_index_marks [simp]: "in_index (fold (mark p) ops T) op = in_index T op"
  by (induction ops arbitrary: T) simp_all

lemma unspent_mark: "unspent (mark p op T) op' \<longleftrightarrow> (if op' = op \<and> in_index T op then CDiskTxPos_IsNull p else unspent T op')"
  by (cases op; cases op') (auto simp: unspent_def mark_def in_index_def nth_list_update split: option.splits)

lemma unspent_marks:
  "\<not> CDiskTxPos_IsNull p \<Longrightarrow> \<forall>op\<in>set ops. in_index T op \<Longrightarrow>
     unspent (fold (mark p) ops T) op \<longleftrightarrow> unspent T op \<and> op \<notin> set ops"
  by (induction ops arbitrary: T) (auto simp: unspent_mark)

lemma mark_other: "fst op \<noteq> h \<Longrightarrow> mark p op T h = T h"
  by (auto simp: mark_def split: option.splits)

lemma marks_other: "h \<notin> fst ` set ops \<Longrightarrow> fold (mark p) ops T h = T h"
  by (induction ops arbitrary: T) (auto simp: mark_other)

lemma mark_upd: "fst op \<noteq> h \<Longrightarrow> mark p op (T(h := x)) = (mark p op T)(h := x)"
  by (auto simp: mark_def fun_upd_twist split: option.splits)

lemma marks_upd: "h \<notin> fst ` set ops \<Longrightarrow> fold (mark p) ops (T(h := x)) = (fold (mark p) ops T)(h := x)"
  by (induction ops arbitrary: T) (auto simp: mark_upd)

lemma mark_commute: "op \<noteq> op' \<Longrightarrow> mark p op (mark q op' T) = mark q op' (mark p op T)"
proof (cases "fst op = fst op'")
  case True
  assume "op \<noteq> op'"
  with True have n: "snd op \<noteq> snd op'" by (simp add: prod_eq_iff)
  show ?thesis using True n by (auto simp: mark_def list_update_swap split: option.splits)
next
  case False
  then show ?thesis by (auto simp: mark_def fun_upd_twist split: option.splits)
qed

lemma mark_marks: "op \<notin> set ops \<Longrightarrow> mark p op (fold (mark q) ops T) = fold (mark q) ops (mark p op T)"
  by (induction ops arbitrary: T) (auto simp: mark_commute)

lemma mark_unmark:
  assumes "canonical T" "unspent T op"
  shows "mark CDiskTxPos_SetNull op (mark p op T) = T"
proof -
  obtain ti where t: "T (fst op) = Some ti" and n: "snd op < length (vSpent ti)" "CDiskTxPos_IsNull (vSpent ti ! snd op)"
    using assms(2) by (auto simp: unspent_def split: option.splits)
  then have "vSpent ti ! snd op = CDiskTxPos_SetNull" using assms(1) by (auto simp: canonical_def)
  then have "(vSpent ti)[snd op := CDiskTxPos_SetNull] = vSpent ti" by (metis list_update_id)
  then show ?thesis using t by (auto simp: mark_def)
qed

lemma canonical_mark: "canonical T \<Longrightarrow> \<not> CDiskTxPos_IsNull p \<Longrightarrow> canonical (mark p op T)"
  by (auto simp: canonical_def mark_def dest!: set_update_subset_insert [THEN subsetD] split: option.splits if_splits)

lemma marks_unmark:
  assumes "canonical T" "\<not> CDiskTxPos_IsNull p" "distinct ops" "\<forall>op\<in>set ops. unspent T op"
  shows "fold (mark CDiskTxPos_SetNull) ops (fold (mark p) ops T) = T"
  using assms
proof (induction ops arbitrary: T)
  case (Cons op ops)
  have "fold (mark CDiskTxPos_SetNull) (op # ops) (fold (mark p) (op # ops) T)
      = fold (mark CDiskTxPos_SetNull) ops (fold (mark p) ops (mark CDiskTxPos_SetNull op (mark p op T)))"
    using Cons.prems(3) by (simp add: mark_marks)
  also have "\<dots> = T" using Cons by (simp add: mark_unmark)
  finally show ?case .
qed simp

lemma canonical_marks: "canonical T \<Longrightarrow> \<not> CDiskTxPos_IsNull p \<Longrightarrow> canonical (fold (mark p) ops T)"
  by (induction ops arbitrary: T) (auto simp: canonical_mark)

lemma canonical_new: "canonical T \<Longrightarrow> canonical (T(h \<mapsto> CTxIndex_new p n))"
  by (auto simp: canonical_def CTxIndex_new_def)

lemma unspend_loop_eq:
  "\<forall>i\<in>set ins. in_index T (spent_point i) \<Longrightarrow>
     unspend_loop ins T = Some (fold (mark CDiskTxPos_SetNull) (map spent_point ins) T)"
proof (induction ins arbitrary: T)
  case (Cons i ins)
  obtain ti where t: "T (op_hash (prevout i)) = Some ti" "unat (op_n (prevout i)) < length (vSpent ti)"
    using Cons.prems by (auto simp: in_index_def spent_point_def split: option.splits)
  then have "unspend_loop (i # ins) T = unspend_loop ins (mark CDiskTxPos_SetNull (spent_point i) T)"
    by (simp add: mark_def spent_point_def Let_def)
  then show ?case using Cons by simp
qed simp


declare map_add_Some_iff [simp del] map_add_SomeD [rule del]

section \<open>What the loops do to the index\<close>

text \<open>The transaction of an entry can be read, has the entry's hash and as many outputs as the entry.\<close>

definition index_ok :: "openssl \<Rightarrow> globals \<Rightarrow> txindex_map \<Rightarrow> bool" where
  "index_ok E G T \<longleftrightarrow> canonical T \<and> (\<forall>h ti. T h = Some ti \<longrightarrow>
     ti_pos ti \<noteq> \<lparr> pos_nFile = 1, pos_nBlockPos = 1, pos_nTxPos = 1 \<rparr> \<and>
     (\<exists>t. CTransaction_ReadFromDisk G (ti_pos ti) = Some t \<and> CTransaction_GetHash E t = h \<and> length (vout t) = length (vSpent ti)))"

definition output_at :: "globals \<Rightarrow> txindex_map \<Rightarrow> outpoint \<Rightarrow> CTxOut" where
  "output_at G T op = vout (the (CTransaction_ReadFromDisk G (ti_pos (the (T (fst op)))))) ! snd op"

definition coin_at :: "globals \<Rightarrow> txindex_map \<Rightarrow> outpoint \<Rightarrow> int" where
  "coin_at G T op = sint (nValue (output_at G T op))"

definition fetch_ok :: "globals \<Rightarrow> txindex_map \<Rightarrow> MapPrevTx \<Rightarrow> bool" where
  "fetch_ok G T m \<longleftrightarrow> (\<forall>h ti t. m h = Some (ti, t) \<longrightarrow> T h = Some ti \<and> CTransaction_ReadFromDisk G (ti_pos ti) = Some t)"

lemma fetch_loop_ok:
  assumes "index_ok E G (db ++ Q)" "fetch_loop G db Q True False ins m = Some m'" "fetch_ok G (db ++ Q) m"
  shows "fetch_ok G (db ++ Q) m'"
  using assms(2,3)
proof (induction ins arbitrary: m)
  case (Cons i ins)
  let ?h = "op_hash (prevout i)"
  show ?case
  proof (cases "m ?h = None")
    case True
    have found: "(if \<exists>y. Q ?h = Some y then Q ?h else db ?h) = (db ++ Q) ?h" by (auto simp: map_add_def split: option.splits)
    obtain ti t where ti: "(db ++ Q) ?h = Some ti" and t: "CTransaction_ReadFromDisk G (ti_pos ti) = Some t"
      and rec: "fetch_loop G db Q True False ins (m(?h \<mapsto> (ti, t))) = Some m'"
    proof (cases "(db ++ Q) ?h")
      case None
      then show ?thesis using Cons.prems(1) True by (simp add: Let_def found)
    next
      case (Some ti)
      with assms(1) obtain t where "ti_pos ti \<noteq> \<lparr> pos_nFile = 1, pos_nBlockPos = 1, pos_nTxPos = 1 \<rparr>"
        "CTransaction_ReadFromDisk G (ti_pos ti) = Some t" by (auto simp: index_ok_def)
      then show ?thesis using that [OF Some] Cons.prems(1) True Some by (simp add: Let_def found)
    qed
    have "fetch_ok G (db ++ Q) (m(?h \<mapsto> (ti, t)))" using Cons.prems(2) ti t by (simp add: fetch_ok_def)
    then show ?thesis using Cons.IH [OF rec] by blast
  next
    case False
    then show ?thesis using Cons by (auto simp: Let_def)
  qed
qed simp

lemma check_inputs_value:
  assumes "check_inputs m pindexBlock ins v = Ok v'" "MoneyRange v" "fetch_ok G T m"
  shows "MoneyRange v' \<and> sint v' = sint v + (\<Sum>i\<leftarrow>ins. coin_at G T (spent_point i)) \<and> value_in_loop m ins v = Some v'
    \<and> (\<forall>i\<in>set ins. in_index T (spent_point i) \<and> 0 \<le> coin_at G T (spent_point i)
        \<and> (\<exists>ti t. m (op_hash (prevout i)) = Some (ti, t) \<and> T (op_hash (prevout i)) = Some ti))"
  using assms(1,2)
proof (induction ins arbitrary: v)
  case (Cons i ins)
  let ?h = "op_hash (prevout i)" and ?n = "unat (op_n (prevout i))"
  obtain ti t where m: "m ?h = Some (ti, t)" using Cons.prems(1) by (auto split: option.splits)
  then have T: "T ?h = Some ti" "CTransaction_ReadFromDisk G (ti_pos ti) = Some t" using assms(3) by (auto simp: fetch_ok_def)
  have n: "?n < length (vout t)" "?n < length (vSpent ti)" and mr: "MoneyRange (nValue (vout t ! ?n)) \<and> MoneyRange (v + nValue (vout t ! ?n))"
    and rec: "check_inputs m pindexBlock ins (v + nValue (vout t ! ?n)) = Ok v'"
    using Cons.prems(1) m by (auto simp: Let_def split: if_splits)
  have le: "0 \<le> sint (nValue (vout t ! ?n))" "sint v + sint (nValue (vout t ! ?n)) \<le> sint MAX_MONEY"
    using MoneyRange_step(1) [OF Cons.prems(2)] mr by auto
  have s: "sint (v + nValue (vout t ! ?n)) = sint v + sint (nValue (vout t ! ?n))" by (rule MoneyRange_step(2) [OF Cons.prems(2) le])
  have c: "coin_at G T (spent_point i) = sint (nValue (vout t ! ?n))" using T by (simp add: coin_at_def output_at_def spent_point_def)
  have i: "in_index T (spent_point i)" using T n by (simp add: in_index_def spent_point_def)
  have "GetOutputFor i m = Some (vout t ! ?n)" using m n by (simp add: GetOutputFor_def)
  then show ?case using Cons.IH [OF rec mr [THEN conjunct2]] s c i m T le by (auto simp: algebra_simps)
qed simp

lemma spend_loop_marks:
  assumes "spend_loop E fSkip tx p True False fStrict k ins m Q c = (c', Ok Q')" and "\<not> CDiskTxPos_IsNull p"
    and "\<forall>i\<in>set ins. in_index (db ++ Q) (spent_point i)
        \<and> (\<exists>ti t. m (op_hash (prevout i)) = Some (ti, t) \<and> (db ++ Q) (op_hash (prevout i)) = Some ti)"
  shows "db ++ Q' = fold (mark p) (map spent_point ins) (db ++ Q) \<and> distinct (map spent_point ins)
    \<and> (\<forall>i\<in>set ins. unspent (db ++ Q) (spent_point i))"
  using assms(1,3)
proof (induction ins arbitrary: k m Q c)
  case (Cons i ins)
  let ?h = "op_hash (prevout i)" and ?n = "unat (op_n (prevout i))"
  from Cons.prems(2) have ii: "in_index (db ++ Q) (spent_point i)"
    and "\<exists>ti t. m ?h = Some (ti, t) \<and> (db ++ Q) ?h = Some ti" by simp_all
  then obtain ti t where m: "m ?h = Some (ti, t)" and T: "(db ++ Q) ?h = Some ti" by blast
  have n: "?n < length (vSpent ti)" using ii T by (simp add: in_index_def spent_point_def)
  let ?ti = "ti\<lparr> vSpent := (vSpent ti)[?n := p] \<rparr>"
  obtain c2 where null: "CDiskTxPos_IsNull (vSpent ti ! ?n)"
    and rec: "spend_loop E fSkip tx p True False fStrict (Suc k) ins (m(?h \<mapsto> (?ti, t))) (Q(?h \<mapsto> ?ti)) c2 = (c', Ok Q')"
    using Cons.prems(1) m by (auto simp: Let_def split: if_splits prod.splits result.splits)
  have T': "db ++ Q(?h \<mapsto> ?ti) = mark p (spent_point i) (db ++ Q)"
    using T by (simp add: mark_def spent_point_def)
  have u: "unspent (db ++ Q) (spent_point i)" using T n null by (simp add: unspent_def spent_point_def)
  have "\<forall>j\<in>set ins. in_index (db ++ Q(?h \<mapsto> ?ti)) (spent_point j)
      \<and> (\<exists>ti t'. (m(?h \<mapsto> (?ti, t))) (op_hash (prevout j)) = Some (ti, t') \<and> (db ++ Q(?h \<mapsto> ?ti)) (op_hash (prevout j)) = Some ti)"
  proof
    fix j assume j: "j \<in> set ins"
    then have old: "in_index (db ++ Q) (spent_point j)"
      "\<exists>ti t. m (op_hash (prevout j)) = Some (ti, t) \<and> (db ++ Q) (op_hash (prevout j)) = Some ti" using Cons.prems(2) by simp_all
    have "in_index (db ++ Q(?h \<mapsto> ?ti)) (spent_point j)" unfolding T' using old(1) by simp
    moreover have "\<exists>ti t'. (m(?h \<mapsto> (?ti, t))) (op_hash (prevout j)) = Some (ti, t')
        \<and> (db ++ Q(?h \<mapsto> ?ti)) (op_hash (prevout j)) = Some ti"
      using old(2) by (cases "op_hash (prevout j) = ?h") auto
    ultimately show "in_index (db ++ Q(?h \<mapsto> ?ti)) (spent_point j)
      \<and> (\<exists>ti t'. (m(?h \<mapsto> (?ti, t))) (op_hash (prevout j)) = Some (ti, t') \<and> (db ++ Q(?h \<mapsto> ?ti)) (op_hash (prevout j)) = Some ti)" ..
  qed
  from Cons.IH [OF rec this] have ih: "db ++ Q' = fold (mark p) (map spent_point ins) (mark p (spent_point i) (db ++ Q))"
    "distinct (map spent_point ins)" "\<forall>j\<in>set ins. unspent (mark p (spent_point i) (db ++ Q)) (spent_point j)"
    unfolding T' by blast+
  then show ?case using u assms(2) unspent_in_index [OF u] by (auto simp: unspent_mark split: if_splits)
qed simp


section \<open>A run over the transactions of a block\<close>

definition spends :: "CTransaction \<Rightarrow> outpoint list" where
  "spends tx = (if IsCoinBase tx then [] else map spent_point (vin tx))"

definition out_total :: "CTransaction \<Rightarrow> int" where
  "out_total tx = sum_list (out_values (vout tx))"

definition fee_of :: "globals \<Rightarrow> txindex_map \<Rightarrow> CTransaction \<Rightarrow> int" where
  "fee_of G T tx = (if IsCoinBase tx then 0 else (\<Sum>op\<leftarrow>spends tx. coin_at G T op) - out_total tx)"

definition add_tx :: "openssl \<Rightarrow> CDiskTxPos \<Rightarrow> CTransaction \<Rightarrow> txindex_map \<Rightarrow> txindex_map" where
  "add_tx E p tx T = (fold (mark p) (spends tx) T)(CTransaction_GetHash E tx \<mapsto> CTxIndex_new p (length (vout tx)))"

definition pos_ok :: "globals \<Rightarrow> CDiskTxPos \<Rightarrow> CTransaction \<Rightarrow> bool" where
  "pos_ok G p tx \<longleftrightarrow> \<not> CDiskTxPos_IsNull p \<and> p \<noteq> \<lparr> pos_nFile = 1, pos_nBlockPos = 1, pos_nTxPos = 1 \<rparr>
     \<and> CTransaction_ReadFromDisk G p = Some tx"

inductive connected :: "openssl \<Rightarrow> globals \<Rightarrow> txindex_map \<Rightarrow> CTransaction list \<Rightarrow> int \<Rightarrow> txindex_map \<Rightarrow> bool"
  for E G where
  Done: "connected E G T [] 0 T"
| Step: "\<lbrakk>pos_ok G p tx; distinct (spends tx); \<forall>op\<in>set (spends tx). unspent T op \<and> 0 \<le> coin_at G T op;
     IsCoinBase tx \<or> values_ok 0 (vout tx); 0 \<le> fee_of G T tx; connected E G (add_tx E p tx T) txs f T'\<rbrakk>
   \<Longrightarrow> connected E G T (tx # txs) (fee_of G T tx + f) T'"

inductive_cases connected_NilE: "connected E G T [] f T'"
inductive_cases connected_ConsE: "connected E G T (tx # txs) f T'"

lemma index_ok_mark: "index_ok E G T \<Longrightarrow> \<not> CDiskTxPos_IsNull p \<Longrightarrow> index_ok E G (mark p op T)"
  using canonical_mark [of T p op] by (auto simp: index_ok_def mark_def split: option.splits if_splits)

lemma index_ok_marks: "index_ok E G T \<Longrightarrow> \<not> CDiskTxPos_IsNull p \<Longrightarrow> index_ok E G (fold (mark p) ops T)"
  by (induction ops arbitrary: T) (auto simp: index_ok_mark)

lemma index_ok_add_tx: "index_ok E G T \<Longrightarrow> pos_ok G p tx \<Longrightarrow> index_ok E G (add_tx E p tx T)"
  using index_ok_marks [of E G T p "spends tx"]
  by (auto simp: index_ok_def add_tx_def canonical_new pos_ok_def) (auto simp: CTxIndex_new_def)

lemma connected_index_ok: "connected E G T txs f T' \<Longrightarrow> index_ok E G T \<Longrightarrow> index_ok E G T'"
  by (induction rule: connected.induct) (auto simp: index_ok_add_tx)

section \<open>Positions\<close>

text \<open>The transactions can be read one after the other from the position.\<close>

definition readable :: "globals \<Rightarrow> u32 \<Rightarrow> u32 \<Rightarrow> CTransaction list \<Rightarrow> bool" where
  "readable G file p txs \<longleftrightarrow> list_all tx_ok txs \<and> 1 < unat p
     \<and> unat p + length (concat (map Serialize_CTransaction txs)) < 2 ^ 32
     \<and> (\<exists>f post. blockfile G file = Some f \<and> drop (unat p) f = concat (map Serialize_CTransaction txs) @ post)"

lemma readable_Cons:
  assumes "readable G file p (tx # txs)"
  shows "readable G file (p + word_of_nat (GetSerializeSize_CTransaction tx)) txs"
    and "CTransaction_ReadFromDisk G \<lparr> pos_nFile = file, pos_nBlockPos = b, pos_nTxPos = p \<rparr> = Some tx"
proof -
  let ?s = "GetSerializeSize_CTransaction tx"
  obtain f post where f: "blockfile G file = Some f"
    "drop (unat p) f = Serialize_CTransaction tx @ concat (map Serialize_CTransaction txs) @ post"
    using assms by (auto simp: readable_def)
  have ok: "tx_ok tx" "list_all tx_ok txs" and le: "unat p + ?s + length (concat (map Serialize_CTransaction txs)) < 2 ^ 32" "1 < unat p"
    using assms by (auto simp: readable_def tx.length_ser)
  show "CTransaction_ReadFromDisk G \<lparr> pos_nFile = file, pos_nBlockPos = b, pos_nTxPos = p \<rparr> = Some tx"
    using f ok by (simp add: CTransaction_ReadFromDisk_def tx.unser_ser)
  have u: "unat (p + word_of_nat ?s) = unat p + ?s"
    using le by (subst unat_add_lem [THEN iffD1]) (simp_all add: unat_of_nat_small)
  have "drop (unat p + ?s) f = drop ?s (drop (unat p) f)" by (simp add: add.commute)
  also have "\<dots> = concat (map Serialize_CTransaction txs) @ post" using f(2) by (simp add: tx.length_ser [symmetric])
  finally show "readable G file (p + word_of_nat ?s) txs"
    using f(1) ok le by (auto simp: readable_def u)
qed

section \<open>Soundness of the loop\<close>

lemma ConnectInputs_Ok:
  assumes "ConnectInputs E G c tx m Q p pindexBlock True False fStrict = (c', Ok Q')"
    and "\<not> IsCoinBase tx" and "fetch_ok G (db ++ Q) m" and "\<not> CDiskTxPos_IsNull p"
  shows "\<exists>vin vout. GetValueIn tx m = Some vin \<and> GetValueOut tx = Some vout \<and> sint vin = (\<Sum>op\<leftarrow>spends tx. coin_at G (db ++ Q) op)
      \<and> MoneyRange vin \<and> sint vout \<le> sint vin \<and> db ++ Q' = fold (mark p) (spends tx) (db ++ Q) \<and> distinct (spends tx)
      \<and> (\<forall>op\<in>set (spends tx). unspent (db ++ Q) op \<and> 0 \<le> coin_at G (db ++ Q) op)"
proof -
  obtain v c2 w where ci: "check_inputs m pindexBlock (vin tx) 0 = Ok v"
    and sl: "spend_loop E (g_nBestHeight G < GetTotalBlocksEstimate (g_fTestNet G)) tx p True False fStrict 0 (vin tx) m Q c = (c', Ok Q')"
    and w: "GetValueOut tx = Some w" "\<not> v <s w"
    using assms(1,2) by (auto simp: ConnectInputs_def Let_def split: result.splits prod.splits option.splits if_splits)
  have mr: "MoneyRange 0" by (simp add: MoneyRange_sint)
  note V = check_inputs_value [OF ci mr assms(3)]
  have "\<forall>i\<in>set (vin tx). in_index (db ++ Q) (spent_point i)
      \<and> (\<exists>ti t. m (op_hash (prevout i)) = Some (ti, t) \<and> (db ++ Q) (op_hash (prevout i)) = Some ti)" using V by blast
  note S = spend_loop_marks [OF sl assms(4) this]
  have "GetValueIn tx m = Some v" using V assms(2) by (simp add: GetValueIn_def)
  moreover have "sint v = (\<Sum>op\<leftarrow>spends tx. coin_at G (db ++ Q) op)" using V assms(2) by (simp add: spends_def comp_def)
  moreover have "sint w \<le> sint v" using w(2) by (simp add: word_sless_alt)
  ultimately show ?thesis using V S w(1) assms(2) by (auto simp: spends_def)
qed


lemma add_tx_map: "db ++ Q = fold (mark p) (spends tx) T \<Longrightarrow>
    db ++ Q(CTransaction_GetHash E tx \<mapsto> CTxIndex_new p (length (vout tx))) = add_tx E p tx T"
  by (simp add: add_tx_def)

lemma connect_tx_Ok:
  assumes "connect_tx E G db pindex pprev bip30 fStrict tx (np, Q, f, s) c = (c', Ok (np', Q', f', s'))"
    and "index_ok E G (db ++ Q)" and "nFile pindex \<noteq> - 1" and "readable G (nFile pindex) np (tx # txs)"
  defines "p \<equiv> \<lparr> pos_nFile = nFile pindex, pos_nBlockPos = nBlockPos pindex, pos_nTxPos = np \<rparr>"
  shows "np' = np + word_of_nat (GetSerializeSize_CTransaction tx)" "db ++ Q' = add_tx E p tx (db ++ Q)"
    "pos_ok G p tx" "distinct (spends tx)" "\<forall>op\<in>set (spends tx). unspent (db ++ Q) op \<and> 0 \<le> coin_at G (db ++ Q) op"
    "IsCoinBase tx \<or> values_ok 0 (vout tx)" "0 \<le> fee_of G (db ++ Q) tx" "f' = f + word_of_int (fee_of G (db ++ Q) tx)"
    "bip30 \<Longrightarrow> \<not> unspent db (CTransaction_GetHash E tx, n)"
proof -
  have null: "\<not> CDiskTxPos_IsNull p" using assms(3) by (simp add: p_def CDiskTxPos_IsNull_def)
  have "unat np \<noteq> 1" using assms(4) by (auto simp: readable_def)
  then have "np \<noteq> 1" by auto
  then show "pos_ok G p tx" using null readable_Cons(2) [OF assms(4)] by (simp add: pos_ok_def p_def)
  have b30: "\<not> unspent db (CTransaction_GetHash E tx, n)" if bip30
    using assms(1) that by (auto simp: connect_tx_def Let_def unspent_def list_ex_iff split: option.splits if_splits)
  show "bip30 \<Longrightarrow> \<not> unspent db (CTransaction_GetHash E tx, n)" by (rule b30)
  have goal: "np' = np + word_of_nat (GetSerializeSize_CTransaction tx) \<and> db ++ Q' = add_tx E p tx (db ++ Q)
    \<and> distinct (spends tx) \<and> (\<forall>op\<in>set (spends tx). unspent (db ++ Q) op \<and> 0 \<le> coin_at G (db ++ Q) op)
    \<and> (IsCoinBase tx \<or> values_ok 0 (vout tx)) \<and> 0 \<le> fee_of G (db ++ Q) tx \<and> f' = f + word_of_int (fee_of G (db ++ Q) tx)"
  proof (cases "IsCoinBase tx")
    case True
    then have "np' = np + word_of_nat (GetSerializeSize_CTransaction tx)" "f' = f"
      "Q' = Q(CTransaction_GetHash E tx \<mapsto> CTxIndex_new p (length (vout tx)))"
      using assms(1) by (auto simp: connect_tx_def Let_def p_def split: if_splits)
    then show ?thesis using True add_tx_map [of db Q p tx "db ++ Q" E] by (simp add: spends_def fee_of_def)
  next
    case False
    obtain m Q2 a b where fi: "FetchInputs G db tx Q True False = Fetched m"
      and ab: "GetValueIn tx m = Some a" "GetValueOut tx = Some b" "f' = f + (a - b)"
      and ci: "ConnectInputs E G c tx m Q p (pindex # pprev) True False fStrict = (c', Ok Q2)"
      and st: "np' = np + word_of_nat (GetSerializeSize_CTransaction tx)"
        "Q' = Q2(CTransaction_GetHash E tx \<mapsto> CTxIndex_new p (length (vout tx)))"
      using assms(1) False
      by (auto simp: connect_tx_def Let_def p_def split: if_splits option.splits fetched.splits result.splits prod.splits)
    have "fetch_loop G db Q True False (vin tx) Map.empty = Some m"
      using fi False by (auto simp: FetchInputs_def split: option.splits if_splits)
    then have "fetch_ok G (db ++ Q) m" by (rule fetch_loop_ok [OF assms(2)]) (simp add: fetch_ok_def)
    from ConnectInputs_Ok [OF ci False this null] ab
    have C: "sint a = (\<Sum>op\<leftarrow>spends tx. coin_at G (db ++ Q) op)" "MoneyRange a" "sint b \<le> sint a"
      "db ++ Q2 = fold (mark p) (spends tx) (db ++ Q)" "distinct (spends tx)"
      "\<forall>op\<in>set (spends tx). unspent (db ++ Q) op \<and> 0 \<le> coin_at G (db ++ Q) op" by auto
    have mr: "MoneyRange 0" by (simp add: MoneyRange_sint)
    have B: "values_ok 0 (vout tx)" "sint b = out_total tx"
      using ab(2) value_out_loop_iff [OF mr, of "vout tx" b] by (auto simp: GetValueOut_def out_total_def)
    have fee: "fee_of G (db ++ Q) tx = sint a - sint b" using False C(1) B(2) by (simp add: fee_of_def)
    have "a - b = word_of_int (sint a - sint b)" by simp
    then show ?thesis using False B(1) C fee st ab(3) add_tx_map [OF C(4), of E] by simp
  qed
  from goal show "np' = np + word_of_nat (GetSerializeSize_CTransaction tx)" "db ++ Q' = add_tx E p tx (db ++ Q)"
    "distinct (spends tx)" "\<forall>op\<in>set (spends tx). unspent (db ++ Q) op \<and> 0 \<le> coin_at G (db ++ Q) op"
    "IsCoinBase tx \<or> values_ok 0 (vout tx)" "0 \<le> fee_of G (db ++ Q) tx" "f' = f + word_of_int (fee_of G (db ++ Q) tx)"
    by blast+
qed

lemma connect_txs_connected:
  assumes "connect_txs E G db pindex pprev bip30 fStrict txs (np, Q, f, s) c = (c', Ok (np', Q', f', s'))"
    and "index_ok E G (db ++ Q)" and "nFile pindex \<noteq> - 1" and "readable G (nFile pindex) np txs"
  shows "\<exists>F. connected E G (db ++ Q) txs F (db ++ Q') \<and> f' = f + word_of_int F
    \<and> (bip30 \<longrightarrow> (\<forall>tx\<in>set txs. \<forall>n. \<not> unspent db (CTransaction_GetHash E tx, n)))"
  using assms(1,2,4)
proof (induction txs arbitrary: np Q f s c)
  case Nil
  then show ?case by (auto intro!: exI [of _ 0] connected.Done)
next
  case (Cons tx txs)
  obtain c2 np2 Q2 f2 s2 where tx: "connect_tx E G db pindex pprev bip30 fStrict tx (np, Q, f, s) c = (c2, Ok (np2, Q2, f2, s2))"
    and rec: "connect_txs E G db pindex pprev bip30 fStrict txs (np2, Q2, f2, s2) c2 = (c', Ok (np', Q', f', s'))"
    using Cons.prems(1) by (auto split: prod.splits result.splits)
  note X = connect_tx_Ok [OF tx Cons.prems(2) assms(3) Cons.prems(3)]
  have ok: "index_ok E G (db ++ Q2)" unfolding X(2) by (rule index_ok_add_tx [OF Cons.prems(2) X(3)])
  obtain F where F: "connected E G (db ++ Q2) txs F (db ++ Q')" "f' = f2 + word_of_int F"
    "bip30 \<longrightarrow> (\<forall>tx\<in>set txs. \<forall>n. \<not> unspent db (CTransaction_GetHash E tx, n))"
    using Cons.IH [OF rec ok] readable_Cons(1) [OF Cons.prems(3)] unfolding X(1) by blast
  have "connected E G (db ++ Q) (tx # txs) (fee_of G (db ++ Q) tx + F) (db ++ Q')"
    using F(1) unfolding X(2) by (rule connected.Step [OF X(3-7)])
  then show ?case using F(2,3) X(8,9) by auto
qed


section \<open>The ledger\<close>

text \<open>The abstract state: the unspent outputs.\<close>

type_synonym ledger = "outpoint \<rightharpoonup> CTxOut"

definition coins_of :: "globals \<Rightarrow> txindex_map \<Rightarrow> ledger" where
  "coins_of G T = (\<lambda>op. if unspent T op then Some (output_at G T op) else None)"

definition tx_outputs :: "openssl \<Rightarrow> CTransaction \<Rightarrow> ledger" where
  "tx_outputs E tx = (\<lambda>op. if fst op = CTransaction_GetHash E tx \<and> snd op < length (vout tx) then Some (vout tx ! snd op) else None)"

text \<open>A transaction spends unspent outputs, each once, worth at least its own outputs; a coinbase spends
  none.\<close>

definition ledger_step :: "openssl \<Rightarrow> ledger \<Rightarrow> CTransaction \<Rightarrow> ledger option" where
  "ledger_step E U tx =
     (if distinct (spends tx) \<and> set (spends tx) \<subseteq> dom U
        \<and> (IsCoinBase tx \<or> out_total tx \<le> (\<Sum>op\<leftarrow>spends tx. sint (nValue (the (U op)))))
      then Some (U |` (- set (spends tx)) ++ tx_outputs E tx) else None)"

fun ledger_txs :: "openssl \<Rightarrow> ledger \<Rightarrow> CTransaction list \<Rightarrow> ledger option" where
  "ledger_txs E U [] = Some U"
| "ledger_txs E U (tx # txs) = (case ledger_step E U tx of None \<Rightarrow> None | Some U \<Rightarrow> ledger_txs E U txs)"

lemma ti_pos_mark: "map_option ti_pos (mark p op T h) = map_option ti_pos (T h)"
  by (auto simp: mark_def split: option.splits)

lemma ti_pos_marks: "map_option ti_pos (fold (mark p) ops T h) = map_option ti_pos (T h)"
  by (induction ops arbitrary: T) (simp_all add: ti_pos_mark)

lemma output_at_marks: "in_index T op \<Longrightarrow> output_at G (fold (mark p) ops T) op = output_at G T op"
  using ti_pos_marks [of p ops T "fst op"] by (auto simp: output_at_def in_index_def split: option.splits)

lemma unspent_add_tx:
  assumes "pos_ok G p tx" "\<forall>op\<in>set (spends tx). unspent T op"
  shows "unspent (add_tx E p tx T) op \<longleftrightarrow>
    (if fst op = CTransaction_GetHash E tx then snd op < length (vout tx) else unspent T op \<and> op \<notin> set (spends tx))"
proof (cases "fst op = CTransaction_GetHash E tx")
  case True
  then show ?thesis by (auto simp: unspent_def add_tx_def CTxIndex_new_def)
next
  case False
  then have "unspent (add_tx E p tx T) op = unspent (fold (mark p) (spends tx) T) op" by (simp add: unspent_def add_tx_def)
  also have "\<dots> = (unspent T op \<and> op \<notin> set (spends tx))"
    using assms by (intro unspent_marks) (auto simp: pos_ok_def unspent_in_index)
  finally show ?thesis using False by simp
qed

lemma coins_of_add_tx:
  assumes "pos_ok G p tx" "\<forall>op\<in>set (spends tx). unspent T op" "\<forall>n. \<not> unspent T (CTransaction_GetHash E tx, n)"
  shows "coins_of G (add_tx E p tx T) = coins_of G T |` (- set (spends tx)) ++ tx_outputs E tx"
proof
  fix op
  note u = unspent_add_tx [OF assms(1,2), of E op]
  have old: "\<not> unspent T op" if "fst op = CTransaction_GetHash E tx" using assms(3) that by (cases op) auto
  show "coins_of G (add_tx E p tx T) op = (coins_of G T |` (- set (spends tx)) ++ tx_outputs E tx) op"
  proof (cases "fst op = CTransaction_GetHash E tx")
    case True
    have "output_at G (add_tx E p tx T) op = vout tx ! snd op"
      using True assms(1) by (simp add: output_at_def add_tx_def CTxIndex_new_def pos_ok_def)
    then show ?thesis using True u old by (auto simp: coins_of_def tx_outputs_def map_add_def restrict_map_def)
  next
    case False
    have "output_at G (add_tx E p tx T) op = output_at G (fold (mark p) (spends tx) T) op"
      using False by (simp add: output_at_def add_tx_def)
    then have "output_at G (add_tx E p tx T) op = output_at G T op" if "unspent T op"
      using output_at_marks [OF unspent_in_index [OF that]] by simp
    then show ?thesis using False u by (auto simp: coins_of_def tx_outputs_def map_add_def restrict_map_def)
  qed
qed

lemma coin_at_coins_of: "unspent T op \<Longrightarrow> sint (nValue (the (coins_of G T op))) = coin_at G T op"
  by (simp add: coins_of_def coin_at_def)

lemma ledger_step_add_tx:
  assumes "pos_ok G p tx" "distinct (spends tx)" "\<forall>op\<in>set (spends tx). unspent T op \<and> 0 \<le> coin_at G T op"
    "0 \<le> fee_of G T tx" "\<forall>n. \<not> unspent T (CTransaction_GetHash E tx, n)"
  shows "ledger_step E (coins_of G T) tx = Some (coins_of G (add_tx E p tx T))"
proof -
  have sum: "(\<Sum>op\<leftarrow>spends tx. sint (nValue (the (coins_of G T op)))) = (\<Sum>op\<leftarrow>spends tx. coin_at G T op)"
    using assms(3) by (intro arg_cong [where f = sum_list] map_cong) (auto simp: coin_at_coins_of)
  have "set (spends tx) \<subseteq> dom (coins_of G T)" using assms(3) by (auto simp: coins_of_def dom_def)
  then show ?thesis
    using assms sum coins_of_add_tx [of G p tx T E] by (simp add: ledger_step_def fee_of_def split: if_splits)
qed

text \<open>Entries of transactions that come later stay as they are.\<close>

lemma fresh_add_tx:
  assumes "pos_ok G p tx" "\<forall>op\<in>set (spends tx). unspent T op \<and> 0 \<le> coin_at G T op"
    "\<forall>h\<in>H. \<forall>n. \<not> unspent T (h, n)" "CTransaction_GetHash E tx \<notin> H"
  shows "\<forall>h\<in>H. \<forall>n. \<not> unspent (add_tx E p tx T) (h, n)"
  using assms unspent_add_tx [of G p tx T E] by auto

lemma connected_ledger:
  assumes "connected E G T txs f T'" "distinct (map (CTransaction_GetHash E) txs)"
    "\<forall>h\<in>CTransaction_GetHash E ` set txs. \<forall>n. \<not> unspent T (h, n)"
  shows "ledger_txs E (coins_of G T) txs = Some (coins_of G T')"
  using assms
proof (induction rule: connected.induct)
  case (Step p tx T txs f T')
  have "ledger_step E (coins_of G T) tx = Some (coins_of G (add_tx E p tx T))"
    using Step.hyps Step.prems(2) by (intro ledger_step_add_tx) auto
  moreover have "\<forall>h\<in>CTransaction_GetHash E ` set txs. \<forall>n. \<not> unspent (add_tx E p tx T) (h, n)"
    using Step.hyps(1,3) Step.prems by (intro fresh_add_tx) auto
  ultimately show ?case using Step.IH Step.prems(1) by simp
qed simp

section \<open>Undoing\<close>

lemma disconnect_txs_append:
  "disconnect_txs E (xs @ ys) T = (case disconnect_txs E xs T of None \<Rightarrow> None | Some T \<Rightarrow> disconnect_txs E ys T)"
  by (induction xs arbitrary: T) (auto split: option.splits)

lemma mark_restrict: "mark p op (T |` A) = mark p op T |` A"
  by (rule ext) (auto simp: mark_def restrict_map_def split: option.splits)

lemma marks_restrict: "fold (mark p) ops (T |` A) = fold (mark p) ops T |` A"
  by (induction ops arbitrary: T) (simp_all add: mark_restrict)

lemma unspent_restrict: "unspent (T |` A) op \<longleftrightarrow> fst op \<in> A \<and> unspent T op"
  by (auto simp: unspent_def restrict_map_def)

lemma canonical_restrict: "canonical T \<Longrightarrow> canonical (T |` A)"
  by (auto simp: canonical_def restrict_map_def split: if_splits)

lemma DisconnectInputs_add_tx:
  assumes "canonical T" "pos_ok G p tx" "distinct (spends tx)" "\<forall>op\<in>set (spends tx). unspent T op"
    "\<forall>n. \<not> unspent T (CTransaction_GetHash E tx, n)"
  shows "DisconnectInputs E tx (add_tx E p tx T) = Some (T(CTransaction_GetHash E tx := None))"
proof -
  let ?h = "CTransaction_GetHash E tx" and ?N = CDiskTxPos_SetNull
  have h: "?h \<notin> fst ` set (spends tx)" using assms(4,5) by (metis imageE prod.collapse)
  have null: "\<not> CDiskTxPos_IsNull p" using assms(2) by (simp add: pos_ok_def)
  have undo: "fold (mark ?N) (spends tx) (add_tx E p tx T) = T(?h \<mapsto> CTxIndex_new p (length (vout tx)))"
    unfolding add_tx_def marks_upd [OF h] using marks_unmark [OF assms(1) null assms(3,4)] by simp
  have "(if IsCoinBase tx then Some (add_tx E p tx T) else unspend_loop (vin tx) (add_tx E p tx T))
      = Some (fold (mark ?N) (spends tx) (add_tx E p tx T))"
  proof (cases "IsCoinBase tx")
    case False
    have "in_index (add_tx E p tx T) op" if "op \<in> set (spends tx)" for op
    proof -
      have "fst op \<noteq> ?h"
      proof
        assume "fst op = ?h"
        with imageI [OF that, of fst] h show False by simp
      qed
      then have "in_index (add_tx E p tx T) op = in_index (fold (mark p) (spends tx) T) op" by (simp add: in_index_def add_tx_def)
      then show ?thesis using unspent_in_index assms(4) that by simp
    qed
    then have "\<forall>i\<in>set (vin tx). in_index (add_tx E p tx T) (spent_point i)" using False by (simp add: spends_def)
    from unspend_loop_eq [OF this] show ?thesis using False by (simp add: spends_def)
  qed (simp add: spends_def)
  then show ?thesis unfolding DisconnectInputs_def undo by simp
qed

lemma add_tx_restrict: "CTransaction_GetHash E tx \<in> A \<Longrightarrow> add_tx E p tx T |` A = add_tx E p tx (T |` A)"
  unfolding add_tx_def marks_restrict by (rule ext) (simp add: restrict_map_def)

lemma connected_undo:
  assumes "connected E G T txs f T'" "canonical T" "distinct (map (CTransaction_GetHash E) txs)"
    "\<forall>h\<in>CTransaction_GetHash E ` set txs \<union> D. \<forall>n. \<not> unspent T (h, n)" "D \<inter> CTransaction_GetHash E ` set txs = {}"
  shows "disconnect_txs E (rev txs) (T' |` (- D)) = Some (T |` (- (D \<union> CTransaction_GetHash E ` set txs)))"
  using assms
proof (induction rule: connected.induct)
  case (Step p tx T txs f T')
  let ?h = "CTransaction_GetHash E" and ?A = "- (D \<union> CTransaction_GetHash E ` set txs)"
  have null: "\<not> CDiskTxPos_IsNull p" using Step.hyps(1) by (simp add: pos_ok_def)
  have can: "canonical (add_tx E p tx T)"
    unfolding add_tx_def by (intro canonical_new canonical_marks Step.prems(1) null)
  have "\<forall>h\<in>?h ` set txs \<union> D. \<forall>n. \<not> unspent (add_tx E p tx T) (h, n)"
    using Step.hyps(1,3) Step.prems(2-4) by (intro fresh_add_tx) auto
  then have ih: "disconnect_txs E (rev txs) (T' |` (- D)) = Some (add_tx E p tx T |` ?A)"
    using Step.IH can Step.prems(2,4) by auto
  have hA: "?h tx \<in> ?A" using Step.prems(2,4) by auto
  have "\<forall>op\<in>set (spends tx). unspent (T |` ?A) op"
  proof
    fix op assume "op \<in> set (spends tx)"
    then have u: "unspent T op" using Step.hyps(3) by blast
    moreover have "fst op \<in> ?A" using u Step.prems(3) by (cases op) auto
    ultimately show "unspent (T |` ?A) op" by (simp add: unspent_restrict)
  qed
  moreover have "\<forall>n. \<not> unspent (T |` ?A) (?h tx, n)" using Step.prems(3) by (simp add: unspent_restrict)
  ultimately have "DisconnectInputs E tx (add_tx E p tx (T |` ?A)) = Some ((T |` ?A)(?h tx := None))"
    using Step.hyps(1,2) canonical_restrict [OF Step.prems(1)] by (intro DisconnectInputs_add_tx) auto
  moreover have "(T |` ?A)(?h tx := None) = T |` (- (D \<union> ?h ` set (tx # txs)))"
    by (rule ext) (auto simp: restrict_map_def)
  ultimately show ?case using ih hA by (simp add: disconnect_txs_append add_tx_restrict)
qed simp


section \<open>Amounts in the ledger\<close>

definition amount :: "CTxOut \<Rightarrow> int" where
  "amount out = sint (nValue out)"

definition total :: "ledger \<Rightarrow> int" where
  "total U = (\<Sum>op\<in>dom U. amount (the (U op)))"

definition ledger_ok :: "ledger \<Rightarrow> bool" where
  "ledger_ok U \<longleftrightarrow> finite (dom U) \<and> (\<forall>op\<in>dom U. 0 \<le> amount (the (U op)))"

lemma total_nonneg: "ledger_ok U \<Longrightarrow> 0 \<le> total U"
  unfolding total_def ledger_ok_def by (intro sum_nonneg) auto

lemma dom_tx_outputs: "dom (tx_outputs E tx) = (\<lambda>n. (CTransaction_GetHash E tx, n)) ` {..<length (vout tx)}"
  by (auto simp: tx_outputs_def dom_def image_iff split: if_splits)

lemma total_tx_outputs: "total (tx_outputs E tx) = out_total tx"
proof -
  have "total (tx_outputs E tx) = (\<Sum>n<length (vout tx). amount (vout tx ! n))"
    unfolding total_def dom_tx_outputs
    by (subst sum.reindex) (auto simp: inj_on_def tx_outputs_def intro: sum.cong)
  also have "\<dots> = out_total tx"
    by (simp add: out_total_def out_values_def amount_def sum_list_sum_nth atLeast0LessThan)
  finally show ?thesis .
qed

lemma total_spend:
  assumes "finite (dom U)" "distinct ops" "set ops \<subseteq> dom U"
  shows "total (U |` (- set ops)) = total U - (\<Sum>op\<leftarrow>ops. amount (the (U op)))"
proof -
  have d: "dom (U |` (- set ops)) = dom U - set ops" by auto
  have "total (U |` (- set ops)) = (\<Sum>op\<in>dom U - set ops. amount (the (U op)))"
    unfolding total_def d by (rule sum.cong) auto
  also have "\<dots> = total U - (\<Sum>op\<in>set ops. amount (the (U op)))"
    unfolding total_def by (rule sum_diff [OF assms(1,3)])
  finally show ?thesis using assms(2) by (simp add: sum_list_distinct_conv_sum_set)
qed

lemma total_add:
  assumes "finite (dom U)" "finite (dom V)" "dom U \<inter> dom V = {}"
  shows "total (U ++ V) = total U + total V"
proof -
  have "total (U ++ V) = (\<Sum>op\<in>dom U. amount (the ((U ++ V) op))) + (\<Sum>op\<in>dom V. amount (the ((U ++ V) op)))"
    unfolding total_def dom_map_add using assms by (simp add: sum.union_disjoint Un_commute Int_commute)
  also have "\<dots> = total U + total V" unfolding total_def
  proof (intro arg_cong2 [where f = "(+)"] sum.cong refl)
    fix op assume "op \<in> dom U"
    then have "V op = None" using assms(3) by auto
    then show "amount (the ((U ++ V) op)) = amount (the (U op))" by (simp add: map_add_def)
  next
    fix op assume "op \<in> dom V"
    then show "amount (the ((U ++ V) op)) = amount (the (V op))" by (auto simp: map_add_def)
  qed
  finally show ?thesis .
qed

lemma ledger_step_total:
  assumes "ledger_step E U tx = Some V" "ledger_ok U" "values_ok 0 (vout tx)" "\<forall>n. (CTransaction_GetHash E tx, n) \<notin> dom U"
  shows "ledger_ok V" "total V = total U - (\<Sum>op\<leftarrow>spends tx. amount (the (U op))) + out_total tx"
proof -
  let ?W = "U |` (- set (spends tx))"
  have V: "V = ?W ++ tx_outputs E tx" and s: "distinct (spends tx)" "set (spends tx) \<subseteq> dom U"
    using assms(1) by (auto simp: ledger_step_def split: if_splits)
  have fin: "finite (dom U)" "finite (dom ?W)" using assms(2) by (auto simp: ledger_ok_def)
  have disj: "dom ?W \<inter> dom (tx_outputs E tx) = {}" using assms(4) by (auto simp: dom_tx_outputs)
  have "total V = total ?W + total (tx_outputs E tx)"
    unfolding V using fin(2) disj by (intro total_add) (auto simp: dom_tx_outputs)
  then show "total V = total U - (\<Sum>op\<leftarrow>spends tx. amount (the (U op))) + out_total tx"
    using total_spend [OF fin(1) s] total_tx_outputs by simp
  have "0 \<le> amount (the (V op))" if op: "op \<in> dom V" for op
  proof (cases "op \<in> dom (tx_outputs E tx)")
    case True
    then have "the (V op) \<in> set (vout tx)" unfolding V by (auto simp: dom_tx_outputs tx_outputs_def map_add_def)
    then show ?thesis using assms(3) by (auto simp: values_ok_def out_values_def list_all_iff amount_def)
  next
    case False
    then have "V op = ?W op" unfolding V by (auto simp: map_add_def split: option.splits)
    then have "V op = U op" "op \<in> dom U" using op by (auto simp: restrict_map_def domIff split: if_splits)
    then show ?thesis using assms(2) by (simp add: ledger_ok_def)
  qed
  then show "ledger_ok V" using fin(2) by (auto simp: ledger_ok_def V dom_tx_outputs)
qed

lemma connected_total:
  assumes "connected E G T txs f T'" "distinct (map (CTransaction_GetHash E) txs)"
    "\<forall>h\<in>CTransaction_GetHash E ` set txs. \<forall>n. \<not> unspent T (h, n)" "ledger_ok (coins_of G T)" "\<forall>tx\<in>set txs. values_ok 0 (vout tx)"
  shows "ledger_ok (coins_of G T') \<and> 0 \<le> f \<and> total (coins_of G T') = total (coins_of G T) - f + (\<Sum>tx\<leftarrow>filter IsCoinBase txs. out_total tx)"
  using assms
proof (induction rule: connected.induct)
  case (Step p tx T txs f T')
  have step: "ledger_step E (coins_of G T) tx = Some (coins_of G (add_tx E p tx T))"
    using Step.hyps Step.prems(2) by (intro ledger_step_add_tx) auto
  have new: "\<forall>n. (CTransaction_GetHash E tx, n) \<notin> dom (coins_of G T)" using Step.prems(2) by (auto simp: coins_of_def dom_def)
  note X = ledger_step_total [OF step Step.prems(3) _ new]
  have "\<forall>h\<in>CTransaction_GetHash E ` set txs. \<forall>n. \<not> unspent (add_tx E p tx T) (h, n)"
    using Step.hyps(1,3) Step.prems by (intro fresh_add_tx) auto
  with Step.IH X Step.prems have ih: "ledger_ok (coins_of G T') \<and> 0 \<le> f
      \<and> total (coins_of G T') = total (coins_of G (add_tx E p tx T)) - f + (\<Sum>tx\<leftarrow>filter IsCoinBase txs. out_total tx)" by simp
  have "(\<Sum>op\<leftarrow>spends tx. amount (the (coins_of G T op))) = (\<Sum>op\<leftarrow>spends tx. coin_at G T op)"
    using Step.hyps(3) by (intro arg_cong [where f = sum_list] map_cong) (auto simp: amount_def coin_at_coins_of)
  then have "total (coins_of G (add_tx E p tx T)) = total (coins_of G T) - fee_of G T tx + (if IsCoinBase tx then out_total tx else 0)"
    using X(2) Step.prems(4) by (auto simp: fee_of_def spends_def)
  then show ?case using ih Step.hyps(5) by simp
qed simp


section \<open>Blocks\<close>

text \<open>The block is in its file at the position of its index entry.\<close>

definition stored :: "globals \<Rightarrow> CBlock \<Rightarrow> CBlockIndex \<Rightarrow> bool" where
  "stored G b pindex \<longleftrightarrow> nFile pindex \<noteq> - 1 \<and> block_ok b
     \<and> (\<exists>f pre bytes post. blockfile G (nFile pindex) = Some f \<and> Serialize_CBlock False False b = Some bytes
          \<and> f = pre @ bytes @ post \<and> length pre = unat (nBlockPos pindex) \<and> length pre + length bytes < 2 ^ 32)"

lemma Serialize_CBlock_parts:
  "Serialize_CBlock False False b = Some bytes \<Longrightarrow> Serialize_CBlock False True b = Some hdr \<Longrightarrow>
     bytes = hdr @ WriteCompactSize (length (vtx b)) @ concat (map Serialize_CTransaction (vtx b)) \<and> 80 \<le> length hdr"
  by (auto simp: Serialize_CBlock_def Serialize_vec_def length_header)

lemma stored_readable:
  assumes "stored G b pindex" "Serialize_CBlock False True b = Some hdr"
  shows "readable G (nFile pindex) (nBlockPos pindex + word_of_nat (length hdr) + word_of_nat (GetSizeOfCompactSize (length (vtx b)))) (vtx b)"
proof -
  let ?txs = "concat (map Serialize_CTransaction (vtx b))" and ?n = "GetSizeOfCompactSize (length (vtx b))"
  obtain f pre bytes post where f: "blockfile G (nFile pindex) = Some f" "Serialize_CBlock False False b = Some bytes"
    "f = pre @ bytes @ post" "length pre = unat (nBlockPos pindex)" "length pre + length bytes < 2 ^ 32"
    using assms(1) by (auto simp: stored_def)
  note B = Serialize_CBlock_parts [OF f(2) assms(2)]
  have le: "unat (nBlockPos pindex) + length hdr + ?n + length ?txs < 2 ^ 32"
    using f(4,5) B by simp
  have u1: "unat (nBlockPos pindex + word_of_nat (length hdr)) = unat (nBlockPos pindex) + length hdr"
    using le by (subst unat_add_lem [THEN iffD1]) (simp_all add: unat_of_nat_small)
  have u: "unat (nBlockPos pindex + word_of_nat (length hdr) + word_of_nat ?n) = unat (nBlockPos pindex) + length hdr + ?n"
    using le u1 by (subst unat_add_lem [THEN iffD1]) (simp_all add: unat_of_nat_small)
  have "drop (unat (nBlockPos pindex) + length hdr + ?n) f = ?txs @ post"
    using f(3,4) B by (simp add: add.assoc)
  then show ?thesis
    using f(1) le B assms(1) by (auto simp: readable_def u stored_def block_ok_def)
qed

lemma check_transactions_Accept: "check_transactions txs = Accept \<longleftrightarrow> (\<forall>tx\<in>set txs. CheckTransaction tx = Accept)"
  by (induction txs) (auto split: verdict.splits)

lemma CheckBlock_Accept:
  assumes "CheckBlock E fTestNet fRegTest now b = Some Accept"
  shows "\<exists>cb txs. vtx b = cb # txs \<and> IsCoinBase cb \<and> (\<forall>tx\<in>set txs. \<not> IsCoinBase tx)"
    and "\<forall>tx\<in>set (vtx b). CheckTransaction tx = Accept"
    and "distinct (map (CTransaction_GetHash E) (vtx b))"
proof -
  have c: "vtx b \<noteq> []" "IsCoinBase (vtx b ! 0)" "\<not> list_ex IsCoinBase (drop 1 (vtx b))" "check_transactions (vtx b) = Accept"
    "card (set (map (CTransaction_GetHash E) (vtx b))) = length (vtx b)"
    using assms by (auto simp: CheckBlock_def split: if_splits option.splits verdict.splits)
  then show "\<exists>cb txs. vtx b = cb # txs \<and> IsCoinBase cb \<and> (\<forall>tx\<in>set txs. \<not> IsCoinBase tx)"
    by (cases "vtx b") (auto simp: list_ex_iff)
  show "\<forall>tx\<in>set (vtx b). CheckTransaction tx = Accept" using c(4) by (simp add: check_transactions_Accept)
  show "distinct (map (CTransaction_GetHash E) (vtx b))" using c(5) by (simp add: card_distinct)
qed

lemma CheckTransaction_values: "CheckTransaction tx = Accept \<Longrightarrow> values_ok 0 (vout tx)"
  using check_outputs_eq [of 0 "vout tx"] by (auto simp: CheckTransaction_def MoneyRange_sint split: if_splits verdict.splits)

text \<open>What a successful \<open>ConnectBlock\<close> has done.\<close>

lemma ConnectBlock_Ok:
  assumes "ConnectBlock E G c db b pindex pprev = (c', Ok db')" and "index_ok E G (db_tx db)" and "stored G b pindex"
    and "nBIP30SwitchTime < uint (nTime pindex)"
  obtains F v where "connected E G (db_tx db) (vtx b) F (db_tx db')" "CheckBlock E (g_fTestNet G) (g_fRegTest G) (adjustedTime G) b = Some Accept"
    "\<forall>h\<in>CTransaction_GetHash E ` set (vtx b). \<forall>n. \<not> unspent (db_tx db) (h, n)"
    "GetValueOut (vtx b ! 0) = Some v"
    "sint v \<le> sint (GetBlockValue (nHeight pindex) (word_of_int F) (case pprev of [] \<Rightarrow> 0 | p # _ \<Rightarrow> phashBlock p))"
proof -
  obtain hdr np Q f s c2 v where chk: "CheckBlock E (g_fTestNet G) (g_fRegTest G) (adjustedTime G) b = Some Accept"
    and hdr: "Serialize_CBlock False True b = Some hdr"
    and txs: "connect_txs E G (db_tx db) pindex pprev True (nBIP16SwitchTime \<le> uint (nTime pindex)) (vtx b)
      (nBlockPos pindex + word_of_nat (length hdr) + word_of_nat (GetSizeOfCompactSize (length (vtx b))), Map.empty, 0, 0) c
      = (c', Ok (np, Q, f, s))"
    and v: "GetValueOut (vtx b ! 0) = Some v"
      "\<not> GetBlockValue (nHeight pindex) f (case pprev of [] \<Rightarrow> 0 | p # _ \<Rightarrow> phashBlock p) <s v"
    and db': "db_tx db' = db_tx db ++ Q"
    using assms(1,4)
    by (auto simp: ConnectBlock_def Let_def WriteBlockIndex_def split: option.splits verdict.splits prod.splits result.splits if_splits list.splits)
  have ok: "index_ok E G (db_tx db ++ Map.empty)" using assms(2) by simp
  have "nFile pindex \<noteq> - 1" using assms(3) by (simp add: stored_def)
  from connect_txs_connected [OF txs ok this stored_readable [OF assms(3) hdr]]
  obtain F where "connected E G (db_tx db) (vtx b) F (db_tx db')" "f = word_of_int F"
    "\<forall>tx\<in>set (vtx b). \<forall>n. \<not> unspent (db_tx db) (CTransaction_GetHash E tx, n)"
    unfolding db' by auto
  then show ?thesis using that [OF _ chk _ v(1)] v(2) by (auto simp: word_sless_alt)
qed


lemma ConnectBlock_undo:
  assumes "ConnectBlock E G c db b pindex pprev = (c', Ok db')" and "index_ok E G (db_tx db)" and "stored G b pindex"
    and "nBIP30SwitchTime < uint (nTime pindex)"
  shows "disconnect_txs E (rev (vtx b)) (db_tx db') = Some (db_tx db |` (- CTransaction_GetHash E ` set (vtx b)))"
    and "\<forall>h\<in>CTransaction_GetHash E ` set (vtx b). \<forall>n. \<not> unspent (db_tx db) (h, n)"
proof -
  obtain F v where C: "connected E G (db_tx db) (vtx b) F (db_tx db')"
    "CheckBlock E (g_fTestNet G) (g_fRegTest G) (adjustedTime G) b = Some Accept"
    "\<forall>h\<in>CTransaction_GetHash E ` set (vtx b). \<forall>n. \<not> unspent (db_tx db) (h, n)"
    using assms by (rule ConnectBlock_Ok)
  show "\<forall>h\<in>CTransaction_GetHash E ` set (vtx b). \<forall>n. \<not> unspent (db_tx db) (h, n)" by (rule C(3))
  have "canonical (db_tx db)" using assms(2) by (simp add: index_ok_def)
  from connected_undo [OF C(1) this CheckBlock_Accept(3) [OF C(2)], of "{}"] C(3)
  show "disconnect_txs E (rev (vtx b)) (db_tx db') = Some (db_tx db |` (- CTransaction_GetHash E ` set (vtx b)))"
    by (simp add: restrict_map_def)
qed

section \<open>An example\<close>

definition example_index :: CBlockIndex where
  "example_index = CBlockIndex_init\<lparr> nTime := 1389688315, nBits := 0x1e0ffff0 \<rparr>"

definition example_globals :: globals where
  "example_globals = \<lparr> blockfile = (\<lambda>_. Serialize_CBlock False False (example_block 1)), mapTx = Map.empty, g_nBestHeight = - 1,
     adjustedTime = 1389688315, g_fTestNet = False, g_fRegTest = False \<rparr>"

definition empty_db :: CTxDB where
  "empty_db = \<lparr> db_tx = Map.empty, db_blockindex = Map.empty, db_hashBestChain = 0 \<rparr>"

lemma example_stored_at:
  assumes "blockfile G (nFile pindex) = Serialize_CBlock False False (example_block n)" "nFile pindex \<noteq> - 1" "nBlockPos pindex = 0"
  shows "stored G (example_block n) pindex"
proof -
  let ?b = "example_block n"
  have s: "Serialize_CBlock False False ?b = Some (Serialize_header ?b @ WriteCompactSize 1 @ Serialize_CTransaction example_coinbase)"
    using example_not_auxpow by (simp add: Serialize_CBlock_def block_IsAuxPow_def Serialize_vec_def example_block_def)
  have "length (Serialize_header ?b @ WriteCompactSize 1 @ Serialize_CTransaction example_coinbase) = 185"
    by (simp add: length_header tx.length_ser example_size GetSizeOfCompactSize_def)
  moreover have "block_ok ?b"
    using example_not_auxpow example_coinbase_ok
    by (simp add: block_ok_def block_IsAuxPow_def example_block_def MAX_SIZE_def)
  ultimately show ?thesis
    using s assms by (auto simp: stored_def intro!: exI [of _ "[]"])
qed

lemma example_stored: "stored example_globals (example_block 1) example_index"
  by (rule example_stored_at) (simp_all add: example_globals_def example_index_def CBlockIndex_init_def)

lemma example_connect_at:
  assumes "db_tx db (CTransaction_GetHash openssl_ref example_coinbase) = None"
    and "adjustedTime G = 1389688315" "\<not> g_fTestNet G" "\<not> g_fRegTest G"
  shows "\<exists>db'. ConnectBlock openssl_ref G c db (example_block n) pindex pprev = (c, Ok db')"
proof -
  obtain hdr where hdr: "Serialize_CBlock False True (example_block n) = Some hdr"
    using example_not_auxpow by (auto simp: Serialize_CBlock_def block_IsAuxPow_def example_block_def)
  have "50 \<le> sint (GetBlockValue h 0 p)" for h p using subsidy_range [of h p] by simp
  then have "\<not> GetBlockValue h 0 p <s 50" for h p by (simp add: word_sless_alt not_less)
  moreover have "GetValueOut example_coinbase = Some 50" by code_simp
  moreover have "CheckBlock openssl_ref False False 1389688315 (example_block n) = Some Accept" by (rule example_block_accepted)
  moreover have "vtx (example_block n) = [example_coinbase]" by (simp add: example_block_def)
  ultimately show ?thesis
    using hdr example_sigops example_is_coinbase assms by (simp add: ConnectBlock_def connect_tx_def Let_def)
qed

lemma example_connect: "\<exists>db'. ConnectBlock openssl_ref example_globals c empty_db (example_block 1) example_index [] = (c, Ok db')"
  by (rule example_connect_at) (simp_all add: empty_db_def example_globals_def)

lemma empty_index_ok: "index_ok E G Map.empty"
  by (simp add: index_ok_def canonical_def)

lemma example_after_BIP30: "nBIP30SwitchTime < uint (nTime example_index)"
  by (simp add: nBIP30SwitchTime_def example_index_def)

section \<open>Properties\<close>

text \<open>
  C12. Connecting a block refines the ledger of unspent outputs: when \<open>ConnectBlock\<close> succeeds on a block
  that is stored in its file, every transaction of the block in turn spends distinct unspent
  outputs, worth at least what it pays, and creates its own; the index afterwards describes
  exactly the resulting ledger, and every entry still locates a transaction with its hash in
  the block files, also in a merged-mined block, whose proof comes before the transactions.
\<close>

theorem ConnectBlock_refines:
  assumes "ConnectBlock E G c db b pindex pprev = (c', Ok db')" and "index_ok E G (db_tx db)" and "stored G b pindex"
    and "nBIP30SwitchTime < uint (nTime pindex)"
  shows "index_ok E G (db_tx db') \<and> ledger_txs E (coins_of G (db_tx db)) (vtx b) = Some (coins_of G (db_tx db'))"
proof -
  obtain F v where C: "connected E G (db_tx db) (vtx b) F (db_tx db')"
    "CheckBlock E (g_fTestNet G) (g_fRegTest G) (adjustedTime G) b = Some Accept"
    "\<forall>h\<in>CTransaction_GetHash E ` set (vtx b). \<forall>n. \<not> unspent (db_tx db) (h, n)"
    using assms by (rule ConnectBlock_Ok)
  show ?thesis
    using connected_index_ok [OF C(1) assms(2)] connected_ledger [OF C(1) CheckBlock_Accept(3) [OF C(2)] C(3)] ..
qed

theorem ConnectBlock_refines_witness:
  "\<exists>db'. ConnectBlock openssl_ref example_globals empty_cache empty_db (example_block 1) example_index [] = (empty_cache, Ok db')
     \<and> ledger_txs openssl_ref (coins_of example_globals Map.empty) (vtx (example_block 1)) = Some (coins_of example_globals (db_tx db'))"
proof -
  obtain db' where c: "ConnectBlock openssl_ref example_globals empty_cache empty_db (example_block 1) example_index [] = (empty_cache, Ok db')"
    using example_connect by blast
  show ?thesis using ConnectBlock_refines [OF c _ example_stored example_after_BIP30] c empty_index_ok by (auto simp: empty_db_def)
qed

text \<open>
  C13. Disconnecting undoes connecting: after a successful \<open>ConnectBlock\<close>, \<open>DisconnectBlock\<close> succeeds and
  leaves the transaction index as it was before, without the entries of the block's own
  transactions (before the block, only transactions that were spent in full can have had one).
\<close>

theorem DisconnectBlock_undoes:
  assumes "ConnectBlock E G c db b pindex pprev = (c', Ok db')" and "index_ok E G (db_tx db)" and "stored G b pindex"
    and "nBIP30SwitchTime < uint (nTime pindex)"
  shows "\<exists>db''. DisconnectBlock E db' b pindex pprev = Some db''
    \<and> db_tx db'' = db_tx db |` (- CTransaction_GetHash E ` set (vtx b))
    \<and> (\<forall>tx\<in>set (vtx b). \<forall>ti. db_tx db (CTransaction_GetHash E tx) = Some ti \<longrightarrow> \<not> list_ex CDiskTxPos_IsNull (vSpent ti))"
proof -
  note U = ConnectBlock_undo [OF assms]
  have "\<not> list_ex CDiskTxPos_IsNull (vSpent ti)" if "tx \<in> set (vtx b)" "db_tx db (CTransaction_GetHash E tx) = Some ti" for tx ti
    using U(2) that by (fastforce simp: list_ex_length unspent_def)
  then show ?thesis
    using U(1) by (auto simp: DisconnectBlock_def Let_def WriteBlockIndex_def split: list.splits)
qed

theorem DisconnectBlock_undoes_witness:
  "\<exists>db' db''. ConnectBlock openssl_ref example_globals empty_cache empty_db (example_block 1) example_index [] = (empty_cache, Ok db')
     \<and> DisconnectBlock openssl_ref db' (example_block 1) example_index [] = Some db'' \<and> db_tx db'' = Map.empty"
proof -
  obtain db' where c: "ConnectBlock openssl_ref example_globals empty_cache empty_db (example_block 1) example_index [] = (empty_cache, Ok db')"
    using example_connect by blast
  show ?thesis using DisconnectBlock_undoes [OF c _ example_stored example_after_BIP30] c empty_index_ok by (auto simp: empty_db_def)
qed

text \<open>
  C14. No inflation: a connected block raises the total of the unspent outputs by at most the maximum
  reward of its height, as long as this total is at most eighty billion coins (beyond that the sum of
  the fees of a block, which is not checked against \<open>MAX_MONEY\<close>, could overflow). The bands of
  \<open>max_reward\<close> are those of \<open>GetBlockValue\<close>, which compares heights with a strict \<open><\<close>: at the heights
  100,000, 200,000, up to 600,000 the reward is already the lower one of the next band, where the
  table in README.md still has the higher one.
\<close>

theorem ConnectBlock_supply:
  assumes "ConnectBlock E G c db b pindex pprev = (c', Ok db')" and "index_ok E G (db_tx db)" and "stored G b pindex"
    and "nBIP30SwitchTime < uint (nTime pindex)" and "ledger_ok (coins_of G (db_tx db))" and "total (coins_of G (db_tx db)) \<le> 8 * 10 ^ 18"
  shows "ledger_ok (coins_of G (db_tx db')) \<and> total (coins_of G (db_tx db')) \<le> total (coins_of G (db_tx db)) + max_reward (nHeight pindex) * 10 ^ 8"
proof -
  obtain F v where C: "connected E G (db_tx db) (vtx b) F (db_tx db')"
    "CheckBlock E (g_fTestNet G) (g_fRegTest G) (adjustedTime G) b = Some Accept"
    "\<forall>h\<in>CTransaction_GetHash E ` set (vtx b). \<forall>n. \<not> unspent (db_tx db) (h, n)"
    "GetValueOut (vtx b ! 0) = Some v"
    "sint v \<le> sint (GetBlockValue (nHeight pindex) (word_of_int F) (case pprev of [] \<Rightarrow> 0 | p # _ \<Rightarrow> phashBlock p))"
    using assms(1-4) by (rule ConnectBlock_Ok)
  note B = CheckBlock_Accept [OF C(2)]
  have vals: "\<forall>tx\<in>set (vtx b). values_ok 0 (vout tx)" using B(2) CheckTransaction_values by blast
  note T = connected_total [OF C(1) B(3) C(3) assms(5) vals]
  obtain cb txs where b: "vtx b = cb # txs" "IsCoinBase cb" "\<forall>tx\<in>set txs. \<not> IsCoinBase tx" using B(1) by blast
  have mr: "MoneyRange 0" by (simp add: MoneyRange_sint)
  have v: "sint v = out_total cb" "sint v \<le> 10 ^ 18"
    using C(4) value_out_loop_iff [OF mr, of "vout cb" v] b(1) by (auto simp: GetValueOut_def out_total_def values_ok_def)
  have tot: "total (coins_of G (db_tx db')) = total (coins_of G (db_tx db)) - F + sint v"
    using T b v(1) by (simp add: filter_empty_conv)
  have F: "0 \<le> F" "F \<le> 9 * 10 ^ 18" using T total_nonneg [of "coins_of G (db_tx db')"] tot v(2) assms(6) by simp_all
  then have s: "sint (word_of_int F :: i64) = F" by (intro sint_of_int_small) simp_all
  have "sint v \<le> max_reward (nHeight pindex) * 10 ^ 8 + F"
    using GetBlockValue_bounds [of "word_of_int F" "nHeight pindex"] C(5) F unfolding s by (meson order_trans)
  then show ?thesis using T tot by simp
qed

theorem ConnectBlock_supply_witness:
  "\<exists>db'. ConnectBlock openssl_ref example_globals empty_cache empty_db (example_block 1) example_index [] = (empty_cache, Ok db')
     \<and> total (coins_of example_globals (db_tx db')) \<le> 10 ^ 14"
proof -
  obtain db' where c: "ConnectBlock openssl_ref example_globals empty_cache empty_db (example_block 1) example_index [] = (empty_cache, Ok db')"
    using example_connect by blast
  have e: "coins_of example_globals Map.empty = Map.empty" by (rule ext) (simp add: coins_of_def unspent_def)
  have "total (coins_of example_globals (db_tx db')) \<le> max_reward 0 * 10 ^ 8"
    using ConnectBlock_supply [OF c _ example_stored example_after_BIP30] empty_index_ok
    by (simp add: empty_db_def e ledger_ok_def total_def example_index_def CBlockIndex_init_def)
  then show ?thesis using c by (auto simp: max_reward_def)
qed

end
