(* ===== verification/Chain.thy ===== *)
theory Chain
  imports Connect "HOL-Library.Sublist"
begin

text \<open>
  The reorganization of the best chain (\<open>main.cpp\<close>): reading blocks, finding the fork, and
  \<open>Reorganize\<close> up to the commit, with the lists of transactions it then hands to the memory pool.

  A block index pointer is the chain it ends (the entry and its ancestors, newest first), as in
  \<open>Pow\<close>; two pointers are equal when these chains are. A database transaction is a copy of the
  database that replaces it on commit. Operations of the database do not fail.

  The fork is the last common ancestor, and a reorganization that succeeds leaves the transaction
  index of the new chain (\<open>chain_index\<close>, the index its blocks give one after the other).
\<close>

section \<open>Reading blocks\<close>

text \<open>By position, with the check of the header; \<open>None\<close> is \<open>false\<close>.\<close>

definition CBlock_ReadFromDisk_at :: "openssl \<Rightarrow> globals \<Rightarrow> u32 \<Rightarrow> u32 \<Rightarrow> bool \<Rightarrow> CBlock option" where
  "CBlock_ReadFromDisk_at E G file p fReadTransactions =
     (case blockfile G file of None \<Rightarrow> None
      | Some f \<Rightarrow>
          (case Unserialize_CBlock False (\<not> fReadTransactions) (drop (unat p) f) of None \<Rightarrow> None
           | Some (block, _) \<Rightarrow>
               if CheckAuxProofOfWork E (g_fTestNet G) (g_fRegTest G) block (hdr_nBits block) then Some block else None))"

text \<open>Of a block index entry, with the transactions.\<close>

definition CBlock_ReadFromDisk :: "openssl \<Rightarrow> globals \<Rightarrow> CBlockIndex \<Rightarrow> CBlock option" where
  "CBlock_ReadFromDisk E G pindex =
     (case CBlock_ReadFromDisk_at E G (nFile pindex) (nBlockPos pindex) True of None \<Rightarrow> None
      | Some block \<Rightarrow> if header_GetHash E block \<noteq> phashBlock pindex then None else Some block)"

section \<open>The fork\<close>

text \<open>The inner loop; \<open>None\<close> is the error.\<close>

fun walk_longer :: "int \<Rightarrow> chain \<Rightarrow> chain option" where
  "walk_longer h [] = None"
| "walk_longer h (p # pprev) = (if nHeight p > h then walk_longer h pprev else Some (p # pprev))"

function find_fork :: "chain \<Rightarrow> chain \<Rightarrow> chain option" where
  "find_fork [] plonger = None"
| "find_fork (p # pprev) plonger =
     (if p # pprev = plonger then Some plonger
      else case walk_longer (nHeight p) plonger of None \<Rightarrow> None
      | Some plonger \<Rightarrow> if p # pprev = plonger then Some plonger else find_fork pprev plonger)"
  by pat_completeness auto
termination by (relation "measure (length \<circ> fst)") auto

text \<open>The entries from a pointer down to the fork, each with its ancestors.\<close>

fun branch :: "chain \<Rightarrow> chain \<Rightarrow> (CBlockIndex \<times> chain) list" where
  "branch pfork [] = []"
| "branch pfork (p # pprev) = (if p # pprev = pfork then [] else (p, pprev) # branch pfork pprev)"

section \<open>Reorganization\<close>

text \<open>Disconnecting a branch: the database and the transactions to resurrect.\<close>

fun disconnect_branch :: "openssl \<Rightarrow> globals \<Rightarrow> (CBlockIndex \<times> chain) list \<Rightarrow> CTxDB \<Rightarrow> CTransaction list
    \<Rightarrow> (CTxDB \<times> CTransaction list) option" where
  "disconnect_branch E G [] db vResurrect = Some (db, vResurrect)"
| "disconnect_branch E G ((pindex, pprev) # r) db vResurrect =
     (case CBlock_ReadFromDisk E G pindex of None \<Rightarrow> None
      | Some block \<Rightarrow>
          (case DisconnectBlock E db block pindex pprev of None \<Rightarrow> None
           | Some db \<Rightarrow>
               disconnect_branch E G r db (vResurrect @ filter (\<lambda>tx. \<not> IsCoinBase tx) (vtx block))))"

text \<open>Connecting a branch: the database and the transactions to delete from the pool.\<close>

fun connect_branch :: "openssl \<Rightarrow> globals \<Rightarrow> (CBlockIndex \<times> chain) list \<Rightarrow> CSignatureCache \<Rightarrow> CTxDB \<Rightarrow> CTransaction list
    \<Rightarrow> CSignatureCache \<times> (CTxDB \<times> CTransaction list) result" where
  "connect_branch E G [] c db vDelete = (c, Ok (db, vDelete))"
| "connect_branch E G ((pindex, pprev) # r) c db vDelete =
     (case CBlock_ReadFromDisk E G pindex of None \<Rightarrow> (c, Rejected 0)
      | Some block \<Rightarrow>
          (case ConnectBlock E G c db block pindex pprev of
             (c, Rejected d) \<Rightarrow> (c, Rejected 0) | (c, Throws) \<Rightarrow> (c, Throws)
           | (c, Ok db) \<Rightarrow> connect_branch E G r c db (vDelete @ vtx block)))"

text \<open>
  \<open>Reorganize\<close> up to the commit: the database, the branches (whose \<open>pnext\<close> links are then set), and
  the transactions to resurrect and to delete.
\<close>

definition Reorganize :: "openssl \<Rightarrow> globals \<Rightarrow> CSignatureCache \<Rightarrow> CTxDB \<Rightarrow> chain \<Rightarrow> chain
    \<Rightarrow> CSignatureCache \<times> (CTxDB \<times> CTransaction list \<times> CTransaction list) result" where
  "Reorganize E G c db pindexBest pindexNew =
     (case find_fork pindexBest pindexNew of None \<Rightarrow> (c, Rejected 0)
      | Some pfork \<Rightarrow>
        (let vDisconnect = branch pfork pindexBest;
             vConnect = rev (branch pfork pindexNew) in
         case disconnect_branch E G vDisconnect db [] of None \<Rightarrow> (c, Rejected 0)
         | Some (db, vResurrect) \<Rightarrow>
             (case connect_branch E G vConnect c db [] of
                (c, Rejected d) \<Rightarrow> (c, Rejected 0) | (c, Throws) \<Rightarrow> (c, Throws)
              | (c, Ok (db, vDelete)) \<Rightarrow>
                  (c, Ok (db\<lparr> db_hashBestChain := phashBlock (hd pindexNew) \<rparr>, vResurrect, vDelete)))))"


section \<open>The fork is the last common ancestor\<close>

lemma wf_chain_tl: "wf_chain (b # c) \<Longrightarrow> wf_chain c"
  by (auto simp: wf_chain_def dest: spec [of _ "Suc _"])

lemma wf_chain_suffix: "wf_chain (xs @ c) \<Longrightarrow> wf_chain c"
  by (induction xs) (auto dest: wf_chain_tl)

lemma walk_longer_eq:
  "wf_chain c \<Longrightarrow> 0 < n \<Longrightarrow> c \<noteq> [] \<Longrightarrow> walk_longer (int n - 1) c = Some (drop (length c - n) c)"
proof (induction c)
  case (Cons b c)
  have h: "nHeight b = int (length c)" by (rule tip_height [OF Cons.prems(1)])
  show ?case
  proof (cases "n \<le> length c")
    case True
    then have "c \<noteq> []" using Cons.prems(2) by auto
    then have "walk_longer (int n - 1) (b # c) = Some (drop (length c - n) c)"
      using Cons.IH [OF wf_chain_tl [OF Cons.prems(1)] Cons.prems(2)] h True by simp
    then show ?thesis using True by (simp add: Suc_diff_le)
  next
    case False
    then show ?thesis using h by simp
  qed
qed simp

text \<open>The longest common suffix.\<close>

definition common_ancestor :: "chain \<Rightarrow> chain \<Rightarrow> chain \<Rightarrow> bool" where
  "common_ancestor f a b \<longleftrightarrow> suffix f a \<and> suffix f b \<and> (\<forall>g. suffix g a \<longrightarrow> suffix g b \<longrightarrow> suffix g f)"

lemma common_ancestor_drop:
  assumes "common_ancestor f a (drop (length b - length a) b)"
  shows "common_ancestor f a b"
proof -
  let ?b = "drop (length b - length a) b"
  have s: "suffix ?b b" by (rule suffix_drop)
  have "suffix g ?b" if "suffix g a" "suffix g b" for g
  proof -
    have "length g \<le> length ?b" using suffix_length_le [OF that(1)] suffix_length_le [OF that(2)] by simp
    with that(2) s show ?thesis by (rule suffix_length_suffix)
  qed
  then show ?thesis using assms s by (auto simp: common_ancestor_def intro: suffix_order.trans)
qed

lemma common_ancestor_Cons:
  assumes "common_ancestor f a b" "x # a \<noteq> b" "length b \<le> Suc (length a)"
  shows "common_ancestor f (x # a) b"
proof -
  have "suffix g a" if g: "suffix g (x # a)" "suffix g b" for g
  proof -
    have "g \<noteq> x # a" using g(2) assms(2,3) by (auto simp: suffix_def)
    then show ?thesis using g(1) by (simp add: suffix_Cons)
  qed
  then show ?thesis using assms(1) by (auto simp: common_ancestor_def suffix_Cons)
qed

lemma find_fork_correct:
  assumes "wf_chain a" "wf_chain b" "a \<noteq> []" "b \<noteq> []" "last a = last b"
  shows "\<exists>f. find_fork a b = Some f \<and> common_ancestor f a b \<and> f \<noteq> []"
  using assms
proof (induction a arbitrary: b)
  case (Cons p a)
  let ?b = "drop (length b - length (p # a)) b"
  have h: "nHeight p = int (length (p # a)) - 1" using tip_height [OF Cons.prems(1)] by simp
  have w: "walk_longer (nHeight p) b = Some ?b"
    unfolding h by (rule walk_longer_eq [OF Cons.prems(2) _ Cons.prems(4)]) simp
  have refl: "common_ancestor x x x" for x by (simp add: common_ancestor_def)
  consider "p # a = b" | "p # a = ?b" "p # a \<noteq> b" | "p # a \<noteq> ?b" "p # a \<noteq> b" by blast
  then show ?case
  proof cases
    case 1
    then show ?thesis using refl by auto
  next
    case 2
    have "common_ancestor (p # a) (p # a) b" by (rule common_ancestor_drop) (use 2 refl in simp)
    moreover have "find_fork (p # a) b = Some (p # a)" using 2 w by (simp only: find_fork.simps) simp
    ultimately show ?thesis by blast
  next
    case 3
    have len: "length ?b \<le> length (p # a)" by simp
    have ne: "?b \<noteq> []" using Cons.prems(4) by (cases b) auto
    have last: "last ?b = last (p # a)" using Cons.prems(5) ne by (simp add: last_drop)
    have a: "a \<noteq> []"
    proof
      assume "a = []"
      then have "length ?b = 1" using ne len by (metis One_nat_def le_antisym length_0_conv length_Cons less_one linorder_not_less list.size(3))
      then have "?b = [last ?b]" by (metis One_nat_def append_butlast_last_id append_self_conv2 length_0_conv length_butlast diff_self_eq_0 ne)
      then show False using 3(1) last \<open>a = []\<close> by simp
    qed
    have wfb: "wf_chain ?b" using wf_chain_suffix [of "take (length b - length (p # a)) b" ?b] Cons.prems(2) by simp
    obtain f where f: "find_fork a ?b = Some f" "common_ancestor f a ?b" "f \<noteq> []"
      using Cons.IH [OF wf_chain_tl [OF Cons.prems(1)] wfb a ne] last a by auto
    have "common_ancestor f (p # a) ?b" using common_ancestor_Cons [OF f(2) 3(1)] len by simp
    then have "common_ancestor f (p # a) b" by (rule common_ancestor_drop)
    then show ?thesis using f 3 w by auto
  qed
qed simp

lemma branch_self: "branch f f = []"
  by (cases f) simp_all

lemma branch_Cons: "branch f (x # xs @ f) = (x, xs @ f) # branch f (xs @ f)"
  by auto


section \<open>The index of a chain\<close>

text \<open>The index after the transactions from a position on, of a block, and of a chain (the transactions of the
  genesis block are not indexed).\<close>

fun add_txs :: "openssl \<Rightarrow> CBlockIndex \<Rightarrow> u32 \<Rightarrow> CTransaction list \<Rightarrow> txindex_map \<Rightarrow> txindex_map" where
  "add_txs E pindex np [] T = T"
| "add_txs E pindex np (tx # txs) T =
     add_txs E pindex (np + word_of_nat (GetSerializeSize_CTransaction tx)) txs
       (add_tx E \<lparr> pos_nFile = nFile pindex, pos_nBlockPos = nBlockPos pindex, pos_nTxPos = np \<rparr> tx T)"

definition first_pos :: "CBlockIndex \<Rightarrow> CBlock \<Rightarrow> u32" where
  "first_pos pindex b = nBlockPos pindex + word_of_nat (length (the (Serialize_CBlock False True b)))
     + word_of_nat (GetSizeOfCompactSize (length (vtx b)))"

definition add_block :: "openssl \<Rightarrow> CBlockIndex \<Rightarrow> CBlock \<Rightarrow> txindex_map \<Rightarrow> txindex_map" where
  "add_block E pindex b T = add_txs E pindex (first_pos pindex b) (vtx b) T"

fun chain_index :: "openssl \<Rightarrow> globals \<Rightarrow> chain \<Rightarrow> txindex_map" where
  "chain_index E G [] = Map.empty"
| "chain_index E G [g] = Map.empty"
| "chain_index E G (p # c) =
     (case CBlock_ReadFromDisk E G p of None \<Rightarrow> chain_index E G c | Some b \<Rightarrow> add_block E p b (chain_index E G c))"

lemma connect_txs_add:
  assumes "connect_txs E G db pindex pprev bip30 fStrict txs (np, Q, f, s) c = (c', Ok (np', Q', f', s'))"
    and "index_ok E G (db ++ Q)" and "nFile pindex \<noteq> - 1" and "readable G (nFile pindex) np txs"
  shows "db ++ Q' = add_txs E pindex np txs (db ++ Q)"
  using assms(1,2,4)
proof (induction txs arbitrary: np Q f s c)
  case (Cons tx txs)
  obtain c2 np2 Q2 f2 s2 where tx: "connect_tx E G db pindex pprev bip30 fStrict tx (np, Q, f, s) c = (c2, Ok (np2, Q2, f2, s2))"
    and rec: "connect_txs E G db pindex pprev bip30 fStrict txs (np2, Q2, f2, s2) c2 = (c', Ok (np', Q', f', s'))"
    using Cons.prems(1) by (auto split: prod.splits result.splits)
  note X = connect_tx_Ok [OF tx Cons.prems(2) assms(3) Cons.prems(3)]
  have ok: "index_ok E G (db ++ Q2)" unfolding X(2) by (rule index_ok_add_tx [OF Cons.prems(2) X(3)])
  show ?case using Cons.IH [OF rec ok] readable_Cons(1) [OF Cons.prems(3)] unfolding X(1,2) by simp
qed simp

lemma ConnectBlock_add:
  assumes "ConnectBlock E G c db b pindex pprev = (c', Ok db')" and "index_ok E G (db_tx db)" and "stored G b pindex"
  shows "db_tx db' = add_block E pindex b (db_tx db)"
proof -
  obtain hdr np Q f s where hdr: "Serialize_CBlock False True b = Some hdr"
    and txs: "connect_txs E G (db_tx db) pindex pprev (nBIP30SwitchTime < uint (nTime pindex)) (nBIP16SwitchTime \<le> uint (nTime pindex)) (vtx b)
      (nBlockPos pindex + word_of_nat (length hdr) + word_of_nat (GetSizeOfCompactSize (length (vtx b))), Map.empty, 0, 0) c
      = (c', Ok (np, Q, f, s))"
    and db': "db_tx db' = db_tx db ++ Q"
    using assms(1)
    by (auto simp: ConnectBlock_def Let_def WriteBlockIndex_def split: option.splits verdict.splits prod.splits result.splits if_splits list.splits)
  have ok: "index_ok E G (db_tx db ++ Map.empty)" using assms(2) by simp
  have "nFile pindex \<noteq> - 1" using assms(3) by (simp add: stored_def)
  from connect_txs_add [OF txs ok this stored_readable [OF assms(3) hdr]] show ?thesis
    by (simp add: db' add_block_def first_pos_def hdr)
qed

text \<open>Nodes that read the same blocks.\<close>

definition same_files :: "globals \<Rightarrow> globals \<Rightarrow> bool" where
  "same_files G G' \<longleftrightarrow> blockfile G = blockfile G' \<and> g_fTestNet G = g_fTestNet G' \<and> g_fRegTest G = g_fRegTest G'"

lemma same_files_read: "same_files G G' \<Longrightarrow> CTransaction_ReadFromDisk G p = CTransaction_ReadFromDisk G' p"
  by (simp add: same_files_def CTransaction_ReadFromDisk_def)

lemma same_files_cong:
  assumes "same_files G G'"
  shows "index_ok E G T = index_ok E G' T" "stored G b p = stored G' b p" "CBlock_ReadFromDisk E G p = CBlock_ReadFromDisk E G' p"
proof -
  have eqs: "blockfile G = blockfile G'" "g_fTestNet G = g_fTestNet G'" "g_fRegTest G = g_fRegTest G'"
    using assms by (simp_all add: same_files_def)
  show "index_ok E G T = index_ok E G' T" unfolding index_ok_def same_files_read [OF assms] ..
  show "stored G b p = stored G' b p" unfolding stored_def eqs ..
  show "CBlock_ReadFromDisk E G p = CBlock_ReadFromDisk E G' p"
    unfolding CBlock_ReadFromDisk_def CBlock_ReadFromDisk_at_def eqs ..
qed

text \<open>
  A chain every block of which, but for the genesis block, is stored, after the BIP30 date, was
  accepted by \<open>ConnectBlock\<close> on the index of the chain before it, and has no transaction that is
  in this index already.
\<close>

definition block_ready :: "openssl \<Rightarrow> globals \<Rightarrow> CBlockIndex \<Rightarrow> bool" where
  "block_ready E G p \<longleftrightarrow> nBIP30SwitchTime < uint (nTime p) \<and> (\<forall>b. CBlock_ReadFromDisk E G p = Some b \<longrightarrow> stored G b p)"

inductive valid_chain :: "openssl \<Rightarrow> globals \<Rightarrow> chain \<Rightarrow> bool" for E G where
  Genesis: "valid_chain E G [g]"
| Block: "\<lbrakk>valid_chain E G pprev; CBlock_ReadFromDisk E G p = Some b; block_ready E G p; same_files G G';
     db_tx db = chain_index E G pprev; ConnectBlock E G' c db b p pprev = (c', Ok db');
     \<forall>tx\<in>set (vtx b). chain_index E G pprev (CTransaction_GetHash E tx) = None\<rbrakk>
   \<Longrightarrow> valid_chain E G (p # pprev)"

inductive_cases valid_chain_ConsE: "valid_chain E G (p # q # pprev)"

lemma valid_chain_ne: "valid_chain E G c \<Longrightarrow> c \<noteq> []"
  by (cases rule: valid_chain.cases) auto

lemma chain_index_Cons: "c \<noteq> [] \<Longrightarrow> CBlock_ReadFromDisk E G p = Some b \<Longrightarrow> chain_index E G (p # c) = add_block E p b (chain_index E G c)"
  by (cases c) simp_all

lemma valid_chain_index_ok: "valid_chain E G c \<Longrightarrow> index_ok E G (chain_index E G c)"
proof (induction rule: valid_chain.induct)
  case (Genesis g)
  then show ?case by (simp add: empty_index_ok)
next
  case (Block pprev p b G' db c c' db')
  note cong = same_files_cong [OF Block.hyps(4)]
  have ok: "index_ok E G' (db_tx db)" and st: "stored G' b p" and t: "nBIP30SwitchTime < uint (nTime p)"
    using Block cong by (auto simp: block_ready_def)
  have "db_tx db' = chain_index E G (p # pprev)"
    using ConnectBlock_add [OF Block.hyps(6) ok st] Block.hyps(5) chain_index_Cons [OF valid_chain_ne [OF Block.hyps(1)] Block.hyps(2)] by simp
  moreover obtain F where "connected E G' (db_tx db) (vtx b) F (db_tx db')" using ConnectBlock_Ok [OF Block.hyps(6) ok st t] by blast
  ultimately show ?case using connected_index_ok [OF _ ok] cong(1) by metis
qed


section \<open>Reorganization rebuilds the index\<close>

lemma valid_chain_Cons:
  assumes "valid_chain E G (p # c)" "c \<noteq> []"
  obtains b G' db cc cc' db' where "valid_chain E G c" "CBlock_ReadFromDisk E G p = Some b" "block_ready E G p" "same_files G G'"
    "db_tx db = chain_index E G c" "ConnectBlock E G' cc db b p c = (cc', Ok db')"
    "\<forall>tx\<in>set (vtx b). chain_index E G c (CTransaction_GetHash E tx) = None"
  using assms(1) by (cases rule: valid_chain.cases) (use assms(2) in auto)

lemma valid_chain_suffix: "valid_chain E G (xs @ c) \<Longrightarrow> c \<noteq> [] \<Longrightarrow> valid_chain E G c"
proof (induction xs)
  case (Cons x xs)
  then show ?case by (metis append_Cons append_is_Nil_conv valid_chain_Cons)
qed simp

lemma DisconnectBlock_tip:
  assumes "valid_chain E G (p # c)" "c \<noteq> []" "db_tx db = chain_index E G (p # c)"
  obtains b db' where "CBlock_ReadFromDisk E G p = Some b" "DisconnectBlock E db b p c = Some db'" "db_tx db' = chain_index E G c"
proof -
  obtain b G' d cc cc' d' where V: "valid_chain E G c" "CBlock_ReadFromDisk E G p = Some b" "block_ready E G p" "same_files G G'"
    "db_tx d = chain_index E G c" "ConnectBlock E G' cc d b p c = (cc', Ok d')"
    "\<forall>tx\<in>set (vtx b). chain_index E G c (CTransaction_GetHash E tx) = None"
    using valid_chain_Cons [OF assms(1,2)] by blast
  note cong = same_files_cong [OF V(4)]
  have ok: "index_ok E G' (db_tx d)" using valid_chain_index_ok [OF V(1)] V(5) cong(1) by simp
  have st: "stored G' b p" "nBIP30SwitchTime < uint (nTime p)" using V(2,3) cong(2) by (auto simp: block_ready_def)
  have "db_tx db = db_tx d'"
    using assms(3) ConnectBlock_add [OF V(6) ok st(1)] V(5) chain_index_Cons [OF assms(2) V(2)] by simp
  with ConnectBlock_undo(1) [OF V(6) ok st]
  have "disconnect_txs E (rev (vtx b)) (db_tx db) = Some (chain_index E G c |` (- CTransaction_GetHash E ` set (vtx b)))"
    using V(5) by simp
  moreover have "chain_index E G c |` (- CTransaction_GetHash E ` set (vtx b)) = chain_index E G c"
    using V(7) by (intro ext) (auto simp: restrict_map_def)
  ultimately show ?thesis
    using that [OF V(2)] by (auto simp: DisconnectBlock_def Let_def WriteBlockIndex_def split: list.splits)
qed

lemma disconnect_branch_index:
  assumes "valid_chain E G (xs @ f)" "f \<noteq> []" "db_tx db = chain_index E G (xs @ f)"
  shows "\<exists>db' r'. disconnect_branch E G (branch f (xs @ f)) db r = Some (db', r') \<and> db_tx db' = chain_index E G f"
  using assms(1,3)
proof (induction xs arbitrary: db r)
  case Nil
  then show ?case by (simp add: branch_self)
next
  case (Cons x xs)
  have ne: "xs @ f \<noteq> []" using assms(2) by simp
  obtain b db2 where d: "CBlock_ReadFromDisk E G x = Some b" "DisconnectBlock E db b x (xs @ f) = Some db2" "db_tx db2 = chain_index E G (xs @ f)"
    using DisconnectBlock_tip [of E G x "xs @ f" db] Cons.prems ne by auto
  have v: "valid_chain E G (xs @ f)" using valid_chain_suffix [of E G "[x]" "xs @ f"] Cons.prems(1) ne by simp
  from Cons.IH [OF v d(3)] show ?case
    using d(1,2) by (simp del: branch.simps add: branch_Cons)
qed

lemma connect_branch_append:
  "connect_branch E G (xs @ ys) c db d = (case connect_branch E G xs c db d of
     (c, Rejected n) \<Rightarrow> (c, Rejected n) | (c, Throws) \<Rightarrow> (c, Throws) | (c, Ok (db, d)) \<Rightarrow> connect_branch E G ys c db d)"
  by (induction xs arbitrary: c db d rule: list.induct) (auto split: option.splits prod.splits result.splits)

lemma connect_branch_index:
  assumes "connect_branch E G (rev (branch f (xs @ f))) c db d = (c', Ok (db', d'))" "f \<noteq> []" "index_ok E G (chain_index E G f)"
    "db_tx db = chain_index E G f" "\<forall>p\<in>set xs. block_ready E G p"
  shows "db_tx db' = chain_index E G (xs @ f) \<and> index_ok E G (db_tx db')"
  using assms(1,5)
proof (induction xs arbitrary: c' db' d')
  case Nil
  then show ?case using assms(3,4) by (simp add: branch_self)
next
  case (Cons x xs)
  obtain c2 db2 d2 b where r: "connect_branch E G (rev (branch f (xs @ f))) c db d = (c2, Ok (db2, d2))"
    and rd: "CBlock_ReadFromDisk E G x = Some b" and cb: "ConnectBlock E G c2 db2 b x (xs @ f) = (c', Ok db')"
    using Cons.prems(1) unfolding append_Cons branch_Cons
    by (auto simp: connect_branch_append simp del: branch.simps split: prod.splits result.splits option.splits)
  note ih = Cons.IH [OF r]
  have i: "db_tx db2 = chain_index E G (xs @ f)" "index_ok E G (db_tx db2)" using ih Cons.prems(2) by auto
  have st: "stored G b x" "nBIP30SwitchTime < uint (nTime x)" using Cons.prems(2) rd by (auto simp: block_ready_def)
  have "db_tx db' = chain_index E G (x # xs @ f)"
    using ConnectBlock_add [OF cb i(2) st(1)] i(1) chain_index_Cons [OF _ rd, of "xs @ f"] assms(2) by simp
  moreover obtain F where "connected E G (db_tx db2) (vtx b) F (db_tx db')" using ConnectBlock_Ok [OF cb i(2) st] by blast
  ultimately show ?case using connected_index_ok [OF _ i(2)] by auto
qed

lemma Reorganize_correct:
  assumes "valid_chain E G pindexBest" "wf_chain pindexBest" "wf_chain pindexNew" "pindexNew \<noteq> []" "last pindexBest = last pindexNew"
    and "db_tx db = chain_index E G pindexBest" "\<forall>p\<in>set (butlast pindexNew). block_ready E G p"
    and "Reorganize E G c db pindexBest pindexNew = (c', Ok (db', vResurrect, vDelete))"
  shows "db_tx db' = chain_index E G pindexNew \<and> index_ok E G (db_tx db') \<and> db_hashBestChain db' = phashBlock (hd pindexNew)"
proof -
  have ne: "pindexBest \<noteq> []" by (rule valid_chain_ne [OF assms(1)])
  obtain f where f: "find_fork pindexBest pindexNew = Some f" "common_ancestor f pindexBest pindexNew" "f \<noteq> []"
    using find_fork_correct [OF assms(2,3) ne assms(4,5)] by blast
  obtain xs ys where xs: "pindexBest = xs @ f" and ys: "pindexNew = ys @ f" using f(2) by (auto simp: common_ancestor_def suffix_def)
  obtain d r where D: "disconnect_branch E G (branch f pindexBest) db [] = Some (d, r)" "db_tx d = chain_index E G f"
    using disconnect_branch_index [of E G xs f db "[]"] assms(1,6) f(3) unfolding xs by blast
  obtain d2 dl where C: "connect_branch E G (rev (branch f pindexNew)) c d [] = (c', Ok (d2, dl))"
    and db': "db' = d2\<lparr> db_hashBestChain := phashBlock (hd pindexNew) \<rparr>"
    using assms(8) f(1) D(1) by (auto simp: Reorganize_def Let_def split: prod.splits result.splits)
  have ok: "index_ok E G (chain_index E G f)" using valid_chain_index_ok [OF valid_chain_suffix] assms(1) f(3) xs by blast
  have "\<forall>p\<in>set ys. block_ready E G p" using assms(7) f(3) by (simp add: ys butlast_append)
  from connect_branch_index [OF C [unfolded ys] f(3) ok D(2) this]
  have "db_tx d2 = chain_index E G (ys @ f)" "index_ok E G (db_tx d2)" by blast+
  then show ?thesis unfolding db' ys by (metis CTxDB.select_convs(1,3) CTxDB.update_convs(3) CTxDB.surjective)
qed

section \<open>An example\<close>

text \<open>Two blocks after the same genesis block, each in a file of its own.\<close>

definition fork_globals :: globals where
  "fork_globals = \<lparr> blockfile = (\<lambda>n. Serialize_CBlock False False (example_block n)), mapTx = Map.empty, g_nBestHeight = 1,
     adjustedTime = 1389688315, g_fTestNet = False, g_fRegTest = False \<rparr>"

definition fork_index :: "u32 \<Rightarrow> CBlockIndex" where
  "fork_index n = CBlockIndex_init\<lparr> phashBlock := header_GetHash openssl_ref (example_block n), nFile := n, nHeight := 1,
     nTime := 1389688315, nBits := 0x1e0ffff0 \<rparr>"

lemma fork_globals_sel: "adjustedTime fork_globals = 1389688315" "\<not> g_fTestNet fork_globals" "\<not> g_fRegTest fork_globals"
  by (simp_all add: fork_globals_def)

lemma fork_connect: "db_tx db = Map.empty \<Longrightarrow> \<exists>db'. ConnectBlock openssl_ref fork_globals empty_cache db (example_block n) (fork_index n) [CBlockIndex_init] = (empty_cache, Ok db')"
  by (rule example_connect_at) (simp_all add: fork_globals_sel)

lemma fork_read: "CBlock_ReadFromDisk openssl_ref fork_globals (fork_index n) = Some (example_block n)"
proof -
  let ?b = "example_block n"
  obtain bs where bs: "Serialize_CBlock False False ?b = Some bs"
    using example_not_auxpow by (auto simp: Serialize_CBlock_def block_IsAuxPow_def example_block_def)
  have "block_ok ?b" using example_not_auxpow example_coinbase_ok
    by (simp add: block_ok_def block_IsAuxPow_def example_block_def MAX_SIZE_def)
  from CBlock_codec [OF this bs, of "[]"] have u: "Unserialize_CBlock False False bs = Some (?b, [])" by simp
  have "CheckAuxProofOfWork openssl_ref False False ?b (hdr_nBits ?b)"
    using example_block_accepted [of n] by (auto simp: CheckBlock_def split: if_splits option.splits)
  then show ?thesis
    using bs u by (simp add: CBlock_ReadFromDisk_def CBlock_ReadFromDisk_at_def fork_globals_def fork_index_def CBlockIndex_init_def)
qed

lemma fork_stored: "n \<noteq> - 1 \<Longrightarrow> stored fork_globals (example_block n) (fork_index n)"
  using example_stored_at by (simp add: fork_globals_def fork_index_def CBlockIndex_init_def)

lemma fork_ready: "n \<noteq> - 1 \<Longrightarrow> block_ready openssl_ref fork_globals (fork_index n)"
  using fork_read fork_stored by (simp add: block_ready_def nBIP30SwitchTime_def fork_index_def)

lemma fork_valid: "n \<noteq> - 1 \<Longrightarrow> valid_chain openssl_ref fork_globals [fork_index n, CBlockIndex_init]"
proof -
  assume n: "n \<noteq> - 1"
  obtain db' where "ConnectBlock openssl_ref fork_globals empty_cache empty_db (example_block n) (fork_index n) [CBlockIndex_init] = (empty_cache, Ok db')"
    using fork_connect [of empty_db n] by (auto simp: empty_db_def)
  from valid_chain.Block [OF valid_chain.Genesis fork_read fork_ready [OF n] _ _ this] show ?thesis
    by (simp add: empty_db_def same_files_def)
qed

lemma fork_wf: "wf_chain [fork_index n, CBlockIndex_init]"
  by (auto simp: wf_chain_def fork_index_def CBlockIndex_init_def less_Suc_eq nth_Cons')

lemma fork_reorganize:
  assumes "db_tx db = chain_index openssl_ref fork_globals [fork_index 1, CBlockIndex_init]"
  shows "\<exists>db' r d. Reorganize openssl_ref fork_globals empty_cache db [fork_index 1, CBlockIndex_init] [fork_index 2, CBlockIndex_init]
    = (empty_cache, Ok (db', r, d))"
proof -
  have ne: "fork_index 1 \<noteq> fork_index 2" by (simp add: fork_index_def CBlockIndex_init_def)
  have f: "find_fork [fork_index 1, CBlockIndex_init] [fork_index 2, CBlockIndex_init] = Some [CBlockIndex_init]"
    using ne by (simp add: fork_index_def CBlockIndex_init_def)
  have b: "branch [CBlockIndex_init] [fork_index n, CBlockIndex_init] = [(fork_index n, [CBlockIndex_init])]" for n by simp
  obtain d r where D: "disconnect_branch openssl_ref fork_globals [(fork_index 1, [CBlockIndex_init])] db [] = Some (d, r)" "db_tx d = Map.empty"
    using disconnect_branch_index [of openssl_ref fork_globals "[fork_index 1]" "[CBlockIndex_init]" db "[]"] fork_valid [of 1] assms b by auto
  obtain d2 where "ConnectBlock openssl_ref fork_globals empty_cache d (example_block 2) (fork_index 2) [CBlockIndex_init] = (empty_cache, Ok d2)"
    using fork_connect [OF D(2)] by blast
  then show ?thesis using D(1) f b fork_read [of 2] by (simp add: Reorganize_def)
qed

section \<open>Properties\<close>

text \<open>
  C19. The search for the fork returns: for two chains with the same genesis block \<open>find_fork\<close> finds
  their last common ancestor, whichever of them is longer, and never follows a null pointer.
\<close>

theorem find_fork_last_common:
  assumes "wf_chain pindexBest" and "wf_chain pindexNew" and "pindexBest \<noteq> []" and "pindexNew \<noteq> []" and "last pindexBest = last pindexNew"
  shows "\<exists>f. find_fork pindexBest pindexNew = Some f \<and> suffix f pindexBest \<and> suffix f pindexNew
    \<and> (\<forall>g. suffix g pindexBest \<longrightarrow> suffix g pindexNew \<longrightarrow> suffix g f)"
  using find_fork_correct [OF assms] by (auto simp: common_ancestor_def)

theorem find_fork_last_common_witness:
  "\<exists>f. find_fork [fork_index 1, CBlockIndex_init] [fork_index 2, CBlockIndex_init] = Some f \<and> suffix f [fork_index 1, CBlockIndex_init]"
  using find_fork_last_common [OF fork_wf fork_wf, of 1 2] by (simp del: find_fork.simps) blast

text \<open>
  C17. A reorganization leaves the transaction index that belongs to the new chain: if the index is that of
  the best chain and \<open>Reorganize\<close> succeeds, then afterwards it is exactly the index one gets by connecting
  the blocks of the new chain one after the other from the genesis block, and the database names
  the new tip.
\<close>

theorem Reorganize_index:
  assumes "valid_chain E G pindexBest" and "wf_chain pindexBest" and "wf_chain pindexNew" and "pindexNew \<noteq> []"
    and "last pindexBest = last pindexNew" and "db_tx db = chain_index E G pindexBest"
    and "\<forall>p\<in>set (butlast pindexNew). block_ready E G p"
    and "Reorganize E G c db pindexBest pindexNew = (c', Ok (db', vResurrect, vDelete))"
  shows "db_tx db' = chain_index E G pindexNew \<and> db_hashBestChain db' = phashBlock (hd pindexNew)"
  using Reorganize_correct [OF assms] by blast

theorem Reorganize_index_witness:
  "\<exists>db db' r d. Reorganize openssl_ref fork_globals empty_cache db [fork_index 1, CBlockIndex_init] [fork_index 2, CBlockIndex_init]
      = (empty_cache, Ok (db', r, d))
    \<and> db_tx db = chain_index openssl_ref fork_globals [fork_index 1, CBlockIndex_init]
    \<and> db_tx db' = chain_index openssl_ref fork_globals [fork_index 2, CBlockIndex_init]"
proof -
  let ?db = "empty_db\<lparr> db_tx := chain_index openssl_ref fork_globals [fork_index 1, CBlockIndex_init] \<rparr>"
  have t: "db_tx ?db = chain_index openssl_ref fork_globals [fork_index 1, CBlockIndex_init]" by simp
  obtain db' r d where R: "Reorganize openssl_ref fork_globals empty_cache ?db [fork_index 1, CBlockIndex_init] [fork_index 2, CBlockIndex_init]
    = (empty_cache, Ok (db', r, d))" using fork_reorganize [OF t] by blast
  have v: "valid_chain openssl_ref fork_globals [fork_index 1, CBlockIndex_init]" by (rule fork_valid) simp
  have "db_tx db' = chain_index openssl_ref fork_globals [fork_index 2, CBlockIndex_init]"
    using Reorganize_index [OF v fork_wf fork_wf _ _ t _ R] fork_ready [of 2] by simp
  then show ?thesis using R t by blast
qed

end
