(* ===== verification/Mempool.thy ===== *)
theory Mempool
  imports Connect
begin

text \<open>
  The memory pool (\<open>CTxMemPool\<close> in \<open>main.h\<close> and \<open>main.cpp\<close>): what makes a transaction and its inputs
  standard, \<open>accept\<close>, \<open>addUnchecked\<close>, \<open>remove\<close>, and the invariant that ties \<open>mapNextTx\<close> to \<open>mapTx\<close>, which
  no two transactions with a common input can satisfy.
  \<open>accept\<close> is shown equivalent to the conditions it checks, in terms of the outputs that are unspent in
  the index or in the pool.

  A pointer into \<open>mapTx\<close> is the key it points at. The rate limiter for free transactions keeps its state in
  a \<open>double\<close>; its verdict is an argument of \<open>accept\<close>.
\<close>

section \<open>Standard transactions\<close>

text \<open>\<open>CTransaction::IsStandard\<close>.\<close>

definition tx_IsStandard :: "CTransaction \<Rightarrow> bool" where
  "tx_IsStandard tx \<longleftrightarrow>
     \<not> CURRENT_VERSION <s nVersion tx
     \<and> list_all (\<lambda>txin. length (scriptSig txin) \<le> 500 \<and> IsPushOnly (scriptSig txin)) (vin tx)
     \<and> list_all (\<lambda>txout. IsStandard (scriptPubKey txout)) (vout tx)
     \<and> \<not> 1 < (word_of_nat (length (filter (\<lambda>txout. scriptPubKey txout \<noteq> [] \<and> scriptPubKey txout ! 0 = OP_RETURN) (vout tx))) :: u32)"

text \<open>
  One input of \<open>AreInputsStandard\<close>, which spends \<open>prev\<close>. The evaluation may put signatures into the
  cache.
\<close>

definition input_standard :: "openssl \<Rightarrow> CSignatureCache \<Rightarrow> CTransaction \<Rightarrow> nat \<Rightarrow> CTxIn \<Rightarrow> CTxOut \<Rightarrow> CSignatureCache \<times> bool" where
  "input_standard E c tx i txin prev =
     (case Solver (scriptPubKey prev) of (solved, whichType, vSolutions) \<Rightarrow>
        if \<not> solved then (c, False)
        else let nArgsExpected = ScriptSigArgsExpected whichType vSolutions in
        if nArgsExpected < 0 then (c, False)
        else case EvalScript E c [] (scriptSig txin) tx i 0 of (ok, stk, c) \<Rightarrow>
          if \<not> ok then (c, False)
          else if whichType = TX_SCRIPTHASH then
            (if stk = [] then (c, False)
             else case Solver (hd stk) of (solved, whichType2, vSolutions2) \<Rightarrow>
               if \<not> solved \<or> whichType2 = TX_SCRIPTHASH then (c, False)
               else let tmpExpected = ScriptSigArgsExpected whichType2 vSolutions2 in
               if tmpExpected < 0 then (c, False)
               else (c, int (length stk) = nArgsExpected + tmpExpected))
          else (c, int (length stk) = nArgsExpected))"

text \<open>The loop; \<open>None\<close> is the exception of \<open>GetOutputFor\<close>.\<close>

fun inputs_standard_loop :: "openssl \<Rightarrow> MapPrevTx \<Rightarrow> CTransaction \<Rightarrow> nat \<Rightarrow> CTxIn list \<Rightarrow> CSignatureCache
    \<Rightarrow> CSignatureCache \<times> bool option" where
  "inputs_standard_loop E mapInputs tx i [] c = (c, Some True)"
| "inputs_standard_loop E mapInputs tx i (txin # r) c =
     (case GetOutputFor txin mapInputs of None \<Rightarrow> (c, None)
      | Some prev \<Rightarrow>
          (case input_standard E c tx i txin prev of (c, ok) \<Rightarrow>
             if ok then inputs_standard_loop E mapInputs tx (Suc i) r c else (c, Some False)))"

definition AreInputsStandard :: "openssl \<Rightarrow> CSignatureCache \<Rightarrow> CTransaction \<Rightarrow> MapPrevTx \<Rightarrow> CSignatureCache \<times> bool option" where
  "AreInputsStandard E c tx mapInputs =
     (if IsCoinBase tx then (c, Some True) else inputs_standard_loop E mapInputs tx 0 (vin tx) c)"

section \<open>The pool\<close>

record CInPoint =
  ptx :: u256
  ip_n :: u32

record CTxMemPool =
  pool_mapTx :: "u256 \<rightharpoonup> CTransaction"
  mapNextTx :: "COutPoint \<rightharpoonup> CInPoint"
  nTransactionsUpdated :: u32

fun add_spends :: "u256 \<Rightarrow> u32 \<Rightarrow> CTxIn list \<Rightarrow> (COutPoint \<rightharpoonup> CInPoint) \<Rightarrow> (COutPoint \<rightharpoonup> CInPoint)" where
  "add_spends hash i [] m = m"
| "add_spends hash i (txin # r) m = add_spends hash (i + 1) r (m(prevout txin \<mapsto> \<lparr> ptx = hash, ip_n = i \<rparr>))"

definition addUnchecked :: "CTxMemPool \<Rightarrow> u256 \<Rightarrow> CTransaction \<Rightarrow> CTxMemPool" where
  "addUnchecked pool hash tx =
     pool\<lparr> pool_mapTx := (pool_mapTx pool)(hash \<mapsto> tx), mapNextTx := add_spends hash 0 (vin tx) (mapNextTx pool),
       nTransactionsUpdated := nTransactionsUpdated pool + 1 \<rparr>"

definition pool_remove :: "openssl \<Rightarrow> CTxMemPool \<Rightarrow> CTransaction \<Rightarrow> CTxMemPool" where
  "pool_remove E pool tx =
     (let hash = CTransaction_GetHash E tx in
      if pool_mapTx pool hash \<noteq> None
      then pool\<lparr> mapNextTx := fold (\<lambda>txin m. m(prevout txin := None)) (vin tx) (mapNextTx pool),
             pool_mapTx := (pool_mapTx pool)(hash := None), nTransactionsUpdated := nTransactionsUpdated pool + 1 \<rparr>
      else pool)"

text \<open>
  The result of \<open>accept\<close>: \<open>true\<close>; \<open>false\<close> with the penalty that the checks put into the transaction;
  \<open>false\<close> with \<open>pfMissingInputs\<close> set; an exception.
\<close>

datatype acceptance = Accepted | Refused nat | MissingInputs | Raised

text \<open>
  The checks that need the inputs. \<open>fLimited\<close> is the verdict of the rate limiter. The position of a
  transaction in the pool is (1, 1, 1).
\<close>

definition accept_inputs :: "openssl \<Rightarrow> globals \<Rightarrow> CSignatureCache \<Rightarrow> CTxDB \<Rightarrow> chain \<Rightarrow> bool \<Rightarrow> CTransaction
    \<Rightarrow> CSignatureCache \<times> acceptance" where
  "accept_inputs E G c db pindexBest fLimited tx =
     (case FetchInputs G (db_tx db) tx Map.empty False False of Invalid \<Rightarrow> (c, Refused 100) | Missing \<Rightarrow> (c, MissingInputs)
      | Fetched mapInputs \<Rightarrow>
        (case AreInputsStandard E c tx mapInputs of (c, None) \<Rightarrow> (c, Raised)
         | (c, Some ok) \<Rightarrow>
           if \<not> ok \<and> \<not> g_fTestNet G then (c, Refused 0)
           else case (GetValueIn tx mapInputs, GetValueOut tx) of
             (Some nValueIn, Some nValueOut) \<Rightarrow>
               (let nFees = nValueIn - nValueOut in
                if nFees <s GetMinFee tx 1000 True GMF_RELAY then (c, Refused 0)
                else if nFees <s MIN_RELAY_TX_FEE \<and> fLimited then (c, Refused 0)
                else case ConnectInputs E G c tx mapInputs Map.empty \<lparr> pos_nFile = 1, pos_nBlockPos = 1, pos_nTxPos = 1 \<rparr>
                       pindexBest False False True of
                  (c, Rejected d) \<Rightarrow> (c, Refused d) | (c, Throws) \<Rightarrow> (c, Raised) | (c, Ok _) \<Rightarrow> (c, Accepted))
           | _ \<Rightarrow> (c, Raised)))"

text \<open>
  \<open>accept\<close>. A conflict with a transaction in the pool is always refused: the code returns before the
  replacement that follows, so \<open>ptxOld\<close> stays null.
\<close>

definition accept :: "openssl \<Rightarrow> globals \<Rightarrow> CSignatureCache \<Rightarrow> CTxDB \<Rightarrow> chain \<Rightarrow> CTxMemPool \<Rightarrow> bool \<Rightarrow> CTransaction \<Rightarrow> bool
    \<Rightarrow> CSignatureCache \<times> CTxMemPool \<times> acceptance" where
  "accept E G c db pindexBest pool fLimited tx fCheckInputs =
     (case CheckTransaction tx of Reject d \<Rightarrow> (c, pool, Refused d)
      | Accept \<Rightarrow>
        if IsCoinBase tx then (c, pool, Refused 100)
        else if uint (nLockTime tx) > 2147483647 then (c, pool, Refused 0)
        else if \<not> g_fTestNet G \<and> \<not> tx_IsStandard tx then (c, pool, Refused 0)
        else let hash = CTransaction_GetHash E tx in
        if pool_mapTx pool hash \<noteq> None then (c, pool, Refused 0)
        else if fCheckInputs \<and> db_tx db hash \<noteq> None then (c, pool, Refused 0)
        else if list_ex (\<lambda>txin. mapNextTx pool (prevout txin) \<noteq> None) (vin tx) then (c, pool, Refused 0)
        else case (if fCheckInputs then accept_inputs E (G\<lparr> mapTx := pool_mapTx pool \<rparr>) c db pindexBest fLimited tx else (c, Accepted)) of
          (c, Accepted) \<Rightarrow> (c, addUnchecked pool hash tx, Accepted)
        | (c, r) \<Rightarrow> (c, pool, r))"

section \<open>The invariant\<close>

text \<open>
  Every transaction is filed under its hash and every one of its inputs is recorded as its own; every
  recorded input belongs to a transaction.
\<close>

definition pool_ok :: "openssl \<Rightarrow> CTxMemPool \<Rightarrow> bool" where
  "pool_ok E pool \<longleftrightarrow>
     (\<forall>h tx. pool_mapTx pool h = Some tx \<longrightarrow> CTransaction_GetHash E tx = h \<and> length (vin tx) < 2 ^ 32
        \<and> (\<forall>i<length (vin tx). mapNextTx pool (prevout (vin tx ! i)) = Some \<lparr> ptx = h, ip_n = word_of_nat i \<rparr>))
     \<and> (\<forall>op ip. mapNextTx pool op = Some ip \<longrightarrow>
        (\<exists>tx. pool_mapTx pool (ptx ip) = Some tx \<and> unat (ip_n ip) < length (vin tx) \<and> prevout (vin tx ! unat (ip_n ip)) = op))"

lemma pool_ok_tx:
  assumes "pool_ok E pool" "pool_mapTx pool h = Some tx"
  shows "CTransaction_GetHash E tx = h" "length (vin tx) < 2 ^ 32"
    "i < length (vin tx) \<Longrightarrow> mapNextTx pool (prevout (vin tx ! i)) = Some \<lparr> ptx = h, ip_n = word_of_nat i \<rparr>"
  using assms by (auto simp: pool_ok_def)

lemma pool_ok_op:
  assumes "pool_ok E pool" "mapNextTx pool op = Some ip"
  obtains tx where "pool_mapTx pool (ptx ip) = Some tx" "unat (ip_n ip) < length (vin tx)" "prevout (vin tx ! unat (ip_n ip)) = op"
  using assms unfolding pool_ok_def by blast

lemma pool_okI:
  assumes "\<And>h tx. pool_mapTx pool h = Some tx \<Longrightarrow> CTransaction_GetHash E tx = h \<and> length (vin tx) < 2 ^ 32
      \<and> (\<forall>i<length (vin tx). mapNextTx pool (prevout (vin tx ! i)) = Some \<lparr> ptx = h, ip_n = word_of_nat i \<rparr>)"
    and "\<And>op ip. mapNextTx pool op = Some ip \<Longrightarrow>
      \<exists>tx. pool_mapTx pool (ptx ip) = Some tx \<and> unat (ip_n ip) < length (vin tx) \<and> prevout (vin tx ! unat (ip_n ip)) = op"
  shows "pool_ok E pool"
  unfolding pool_ok_def using assms by blast

lemma add_spends_notin: "op \<notin> prevout ` set ins \<Longrightarrow> add_spends h i ins m op = m op"
  by (induction ins arbitrary: i m) auto

lemma add_spends_nth:
  "distinct (map prevout ins) \<Longrightarrow> k < length ins \<Longrightarrow> add_spends h i ins m (prevout (ins ! k)) = Some \<lparr> ptx = h, ip_n = i + word_of_nat k \<rparr>"
proof (induction ins arbitrary: i m k)
  case (Cons x ins)
  then show ?case
  proof (cases k)
    case 0
    then show ?thesis using Cons.prems by (simp add: add_spends_notin)
  next
    case (Suc j)
    then show ?thesis using Cons by (simp add: algebra_simps)
  qed
qed simp

lemma addUnchecked_ok:
  assumes ok: "pool_ok E pool" and d: "distinct (map prevout (vin tx))" and len: "length (vin tx) < 2 ^ 32"
    and new: "pool_mapTx pool (CTransaction_GetHash E tx) = None" and free: "\<forall>txin\<in>set (vin tx). mapNextTx pool (prevout txin) = None"
  shows "pool_ok E (addUnchecked pool (CTransaction_GetHash E tx) tx)"
proof -
  let ?h = "CTransaction_GetHash E tx" and ?m = "add_spends (CTransaction_GetHash E tx) 0 (vin tx) (mapNextTx pool)"
  have own: "?m (prevout (vin tx ! i)) = Some \<lparr> ptx = ?h, ip_n = word_of_nat i \<rparr>" if "i < length (vin tx)" for i
    using add_spends_nth [OF d that] by simp
  have keep: "?m op = Some ip" if "mapNextTx pool op = Some ip" for op ip
    using that free by (subst add_spends_notin) auto
  have new_op: "\<exists>i<length (vin tx). op = prevout (vin tx ! i) \<and> ip = \<lparr> ptx = ?h, ip_n = word_of_nat i \<rparr>"
    if "?m op = Some ip" "mapNextTx pool op \<noteq> Some ip" for op ip
  proof -
    have "op \<in> prevout ` set (vin tx)" using that by (metis add_spends_notin)
    then obtain i where "i < length (vin tx)" "op = prevout (vin tx ! i)" by (auto simp: in_set_conv_nth)
    then show ?thesis using own that(1) by auto
  qed
  have u: "unat (word_of_nat i :: u32) = i" if "i < length (vin tx)" for i
    using that len by (simp add: unsigned_of_nat take_bit_nat_eq_self)
  have first: "CTransaction_GetHash E t = h \<and> length (vin t) < 2 ^ 32 \<and> (\<forall>i<length (vin t). ?m (prevout (vin t ! i)) = Some \<lparr> ptx = h, ip_n = word_of_nat i \<rparr>)"
    if "((pool_mapTx pool)(?h \<mapsto> tx)) h = Some t" for h t
    using that ok own keep len by (cases "h = ?h") (auto simp: pool_ok_def)
  have second: "\<exists>t. ((pool_mapTx pool)(?h \<mapsto> tx)) (ptx ip) = Some t \<and> unat (ip_n ip) < length (vin t) \<and> prevout (vin t ! unat (ip_n ip)) = op"
    if "?m op = Some ip" for op ip
  proof (cases "mapNextTx pool op = Some ip")
    case True
    then obtain t where "pool_mapTx pool (ptx ip) = Some t" "unat (ip_n ip) < length (vin t)" "prevout (vin t ! unat (ip_n ip)) = op"
      by (rule pool_ok_op [OF ok])
    then show ?thesis using new by auto
  next
    case False
    then show ?thesis using new_op [OF that] u by auto
  qed
  have maps: "pool_mapTx (addUnchecked pool ?h tx) = (pool_mapTx pool)(?h \<mapsto> tx)" "mapNextTx (addUnchecked pool ?h tx) = ?m"
    by (simp_all add: addUnchecked_def)
  show ?thesis by (rule pool_okI, unfold maps) (erule first, erule second)
qed

lemma fold_erase: "fold (\<lambda>txin m. m(prevout txin := None)) ins m = (\<lambda>op. if op \<in> prevout ` set ins then None else m op)"
  by (induction ins arbitrary: m) (auto simp: fun_eq_iff)

lemma pool_remove_ok:
  assumes ok: "pool_ok E pool" and same: "\<forall>t. pool_mapTx pool (CTransaction_GetHash E tx) = Some t \<longrightarrow> t = tx"
  shows "pool_ok E (pool_remove E pool tx)"
proof (cases "pool_mapTx pool (CTransaction_GetHash E tx)")
  case None
  then show ?thesis using ok by (simp add: pool_remove_def)
next
  case (Some t)
  let ?h = "CTransaction_GetHash E tx"
  have t: "pool_mapTx pool ?h = Some tx" using Some same by simp
  have other: "prevout (vin t' ! i) \<notin> prevout ` set (vin tx)" if "pool_mapTx pool h = Some t'" "h \<noteq> ?h" "i < length (vin t')" for h t' i
  proof
    assume "prevout (vin t' ! i) \<in> prevout ` set (vin tx)"
    then obtain j where "j < length (vin tx)" "prevout (vin t' ! i) = prevout (vin tx ! j)" by (auto simp: in_set_conv_nth)
    then show False using pool_ok_tx(3) [OF ok that(1,3)] pool_ok_tx(3) [OF ok t, of j] that(2) by simp
  qed
  have gone: "ptx ip \<noteq> ?h" if "mapNextTx pool op = Some ip" "op \<notin> prevout ` set (vin tx)" for op ip
  proof
    assume "ptx ip = ?h"
    then have "unat (ip_n ip) < length (vin tx)" "prevout (vin tx ! unat (ip_n ip)) = op"
      using pool_ok_op [OF ok that(1)] t by auto
    then show False using that(2) by auto
  qed
  have first: "CTransaction_GetHash E t' = h \<and> length (vin t') < 2 ^ 32 \<and> (\<forall>i<length (vin t'). prevout (vin t' ! i) \<notin> prevout ` set (vin tx)
      \<and> mapNextTx pool (prevout (vin t' ! i)) = Some \<lparr> ptx = h, ip_n = word_of_nat i \<rparr>)"
    if "pool_mapTx pool h = Some t'" "h \<noteq> ?h" for h t'
    using pool_ok_tx [OF ok that(1)] other [OF that] by simp
  have second: "ptx ip \<noteq> ?h \<and> (\<exists>t'. pool_mapTx pool (ptx ip) = Some t' \<and> unat (ip_n ip) < length (vin t') \<and> prevout (vin t' ! unat (ip_n ip)) = op)"
    if "mapNextTx pool op = Some ip" "op \<notin> prevout ` set (vin tx)" for op ip
    using pool_ok_op [OF ok that(1)] gone [OF that] by metis
  have maps: "pool_mapTx (pool_remove E pool tx) = (pool_mapTx pool)(?h := None)"
    "mapNextTx (pool_remove E pool tx) = (\<lambda>op. if op \<in> prevout ` set (vin tx) then None else mapNextTx pool op)"
    using t by (simp_all add: pool_remove_def fold_erase Let_def)
  show ?thesis
  proof (rule pool_okI, unfold maps)
    fix h t' assume "((pool_mapTx pool)(?h := None)) h = Some t'"
    then have "pool_mapTx pool h = Some t'" "h \<noteq> ?h" by (auto split: if_splits)
    from first [OF this] show "CTransaction_GetHash E t' = h \<and> length (vin t') < 2 ^ 32 \<and> (\<forall>i<length (vin t').
      (if prevout (vin t' ! i) \<in> prevout ` set (vin tx) then None else mapNextTx pool (prevout (vin t' ! i))) = Some \<lparr> ptx = h, ip_n = word_of_nat i \<rparr>)"
      by simp
  next
    fix op ip assume "(if op \<in> prevout ` set (vin tx) then None else mapNextTx pool op) = Some ip"
    then have "mapNextTx pool op = Some ip" "op \<notin> prevout ` set (vin tx)" by (auto split: if_splits)
    from second [OF this] show "\<exists>t'. ((pool_mapTx pool)(?h := None)) (ptx ip) = Some t' \<and> unat (ip_n ip) < length (vin t') \<and> prevout (vin t' ! unat (ip_n ip)) = op"
      by auto
  qed
qed

section \<open>What acceptance means\<close>

lemma accept_cases:
  assumes "accept E G c db pindexBest pool fLimited tx fCheckInputs = (c', pool', r)"
  shows "if r = Accepted
    then CheckTransaction tx = Accept \<and> \<not> IsCoinBase tx \<and> (g_fTestNet G \<or> tx_IsStandard tx)
      \<and> pool_mapTx pool (CTransaction_GetHash E tx) = None \<and> (\<forall>txin\<in>set (vin tx). mapNextTx pool (prevout txin) = None)
      \<and> (fCheckInputs \<longrightarrow> db_tx db (CTransaction_GetHash E tx) = None
          \<and> accept_inputs E (G\<lparr> mapTx := pool_mapTx pool \<rparr>) c db pindexBest fLimited tx = (c', Accepted))
      \<and> pool' = addUnchecked pool (CTransaction_GetHash E tx) tx
    else pool' = pool"
  using assms by (auto simp: accept_def Let_def list_ex_iff split: verdict.splits if_splits prod.splits acceptance.splits)

lemma vec_size: "(\<And>x. 1 \<le> sz x) \<Longrightarrow> length v \<le> GetSerializeSize_vec sz v"
proof -
  assume sz: "\<And>x. 1 \<le> sz x"
  have "length v \<le> sum_list (map sz v)"
  proof (induction v)
    case (Cons x v)
    then show ?case using sz [of x] by simp
  qed simp
  then show ?thesis by (simp add: GetSerializeSize_vec_def)
qed

lemma accept_ok:
  assumes "pool_ok E pool" "accept E G c db pindexBest pool fLimited tx fCheckInputs = (c', pool', r)"
  shows "pool_ok E pool'"
proof (cases "r = Accepted")
  case True
  note A = accept_cases [OF assms(2), unfolded if_P [OF True]]
  then have "GetSerializeSize_CTransaction tx \<le> MAX_BLOCK_SIZE" "distinct (map prevout (vin tx))"
    by (auto simp: CheckTransaction_def check_duplicates_iff split: if_splits verdict.splits)
  moreover have "length (vin tx) \<le> GetSerializeSize_CTransaction tx"
    using vec_size [of GetSerializeSize_CTxIn "vin tx"] by (simp add: GetSerializeSize_CTransaction_def GetSerializeSize_CTxIn_def)
  ultimately show ?thesis using A addUnchecked_ok [OF assms(1)] by (simp add: MAX_BLOCK_SIZE_def)
next
  case False
  then show ?thesis using accept_cases [OF assms(2)] assms(1) by simp
qed

section \<open>The outputs a transaction in the pool may spend\<close>

text \<open>The previous transaction as \<open>FetchInputs\<close> finds it, and the output if it is not spent.\<close>

definition prev_tx :: "globals \<Rightarrow> txindex_map \<Rightarrow> u256 \<Rightarrow> (CTxIndex \<times> CTransaction) option" where
  "prev_tx G T h =
     (case T h of None \<Rightarrow> map_option (\<lambda>t. (CTxIndex_new CDiskTxPos_SetNull (length (vout t)), t)) (mapTx G h)
      | Some ti \<Rightarrow> map_option (Pair ti)
          (if ti_pos ti = \<lparr> pos_nFile = 1, pos_nBlockPos = 1, pos_nTxPos = 1 \<rparr> then mapTx G h else CTransaction_ReadFromDisk G (ti_pos ti)))"

definition coin_of :: "(u256 \<Rightarrow> (CTxIndex \<times> CTransaction) option) \<Rightarrow> outpoint \<Rightarrow> CTxOut option" where
  "coin_of m op = (case m (fst op) of None \<Rightarrow> None
     | Some (ti, t) \<Rightarrow>
         if snd op < length (vout t) \<and> snd op < length (vSpent ti) \<and> CDiskTxPos_IsNull (vSpent ti ! snd op) then Some (vout t ! snd op) else None)"

lemma coin_of_cong: "m (fst op) = m' (fst op) \<Longrightarrow> coin_of m op = coin_of m' op"
  by (simp add: coin_of_def)

lemma fetch_loop_pool:
  "fetch_loop G T Q False False ins m =
     (if \<forall>i\<in>set ins. m (op_hash (prevout i)) \<noteq> None \<or> prev_tx G T (op_hash (prevout i)) \<noteq> None
      then Some (\<lambda>h. if m h = None \<and> h \<in> (op_hash \<circ> prevout) ` set ins then prev_tx G T h else m h) else None)"
proof (induction ins arbitrary: m)
  case (Cons i ins)
  let ?h = "op_hash (prevout i)"
  show ?case
  proof (cases "m ?h")
    case None
    show ?thesis
    proof (cases "prev_tx G T ?h")
      case None
      then show ?thesis using \<open>m ?h = None\<close> by (auto simp: Let_def prev_tx_def split: option.splits if_splits)
    next
      case (Some p)
      then have eq: "fetch_loop G T Q False False (i # ins) m = fetch_loop G T Q False False ins (m(?h \<mapsto> p))"
        using None by (auto simp: Let_def prev_tx_def split: option.splits if_splits)
      show ?thesis unfolding eq Cons.IH using Some None by (cases p) (auto simp: fun_eq_iff)
    qed
  next
    case (Some p)
    then have eq: "fetch_loop G T Q False False (i # ins) m = fetch_loop G T Q False False ins m" by simp
    show ?thesis unfolding eq Cons.IH using Some by (cases p) (auto simp: fun_eq_iff)
  qed
qed simp

definition input_fine :: "MapPrevTx \<Rightarrow> chain \<Rightarrow> CTxIn \<Rightarrow> bool" where
  "input_fine m pindexBlock i \<longleftrightarrow> (\<exists>ti t. m (op_hash (prevout i)) = Some (ti, t) \<and> unat (op_n (prevout i)) < length (vout t)
     \<and> unat (op_n (prevout i)) < length (vSpent ti) \<and> MoneyRange (nValue (vout t ! unat (op_n (prevout i))))
     \<and> \<not> (IsCoinBase t \<and> pindexBlock \<noteq> [] \<and> immature (nHeight (hd pindexBlock)) ti pindexBlock))"

definition in_value :: "MapPrevTx \<Rightarrow> CTxIn \<Rightarrow> int" where
  "in_value m i = sint (nValue (the (GetOutputFor i m)))"

lemma input_fine_value: "input_fine m pb i \<Longrightarrow> 0 \<le> in_value m i \<and> in_value m i \<le> sint MAX_MONEY"
  by (auto simp: input_fine_def in_value_def GetOutputFor_def MoneyRange_sint)

lemma check_inputs_iff:
  assumes "MoneyRange v"
  shows "check_inputs m pb ins v = Ok v' \<longleftrightarrow> (\<forall>i\<in>set ins. input_fine m pb i)
    \<and> sint v + (\<Sum>i\<leftarrow>ins. in_value m i) \<le> sint MAX_MONEY \<and> v' = word_of_int (sint v + (\<Sum>i\<leftarrow>ins. in_value m i))"
  using assms
proof (induction ins arbitrary: v)
  case Nil
  then show ?case by (auto simp: MoneyRange_sint)
next
  case (Cons i ins)
  show ?case
  proof (cases "input_fine m pb i")
    case True
    then obtain ti t where m: "m (op_hash (prevout i)) = Some (ti, t)" and n: "unat (op_n (prevout i)) < length (vout t)"
      "unat (op_n (prevout i)) < length (vSpent ti)" and mr: "MoneyRange (nValue (vout t ! unat (op_n (prevout i))))"
      and im: "\<not> (IsCoinBase t \<and> pb \<noteq> [] \<and> immature (nHeight (hd pb)) ti pb)" by (auto simp: input_fine_def)
    let ?x = "nValue (vout t ! unat (op_n (prevout i)))"
    have x: "in_value m i = sint ?x" using m n by (simp add: in_value_def GetOutputFor_def)
    have step: "check_inputs m pb (i # ins) v = (if MoneyRange (v + ?x) then check_inputs m pb ins (v + ?x) else Rejected 100)"
      using m n mr im by (auto simp: Let_def)
    have pos: "0 \<le> (\<Sum>i\<leftarrow>ins. in_value m i)" if "\<forall>i\<in>set ins. input_fine m pb i"
      using that input_fine_value by (intro sum_list_nonneg) auto
    have M: "MoneyRange (v + ?x) \<longleftrightarrow> sint v + sint ?x \<le> sint MAX_MONEY"
      using MoneyRange_step(1) [OF Cons.prems, of ?x] mr by (auto simp: MoneyRange_sint)
    have s: "sint (v + ?x) = sint v + sint ?x" if "sint v + sint ?x \<le> sint MAX_MONEY"
      using MoneyRange_step(2) [OF Cons.prems _ that] mr by (simp add: MoneyRange_sint)
    show ?thesis
    proof (cases "sint v + sint ?x \<le> sint MAX_MONEY")
      case le: True
      then have "MoneyRange (v + ?x)" using M by blast
      from Cons.IH [OF this] show ?thesis using True step s [OF le] M le by (simp add: x add.assoc)
    next
      case False
      then show ?thesis using step M pos x by auto
    qed
  next
    case False
    then have "check_inputs m pb (i # ins) v \<noteq> Ok v'"
      by (cases "m (op_hash (prevout i))") (auto simp: input_fine_def Let_def split: if_splits)
    then show ?thesis using False by (simp del: check_inputs.simps)
  qed
qed

lemma value_in_loop_fine:
  assumes "MoneyRange v" "\<forall>i\<in>set ins. input_fine m pb i"
  shows "value_in_loop m ins v = Some (v + word_of_int (\<Sum>i\<leftarrow>ins. in_value m i))"
  using assms(2)
proof (induction ins arbitrary: v)
  case (Cons i ins)
  then obtain out where "GetOutputFor i m = Some out" by (auto simp: input_fine_def GetOutputFor_def)
  then show ?case using Cons by (simp add: in_value_def)
qed simp


section \<open>Spending\<close>

text \<open>Whether the signature of an input is valid for a previous transaction; the cache does not matter.\<close>

definition input_signed :: "openssl \<Rightarrow> CTransaction \<Rightarrow> CTransaction \<Rightarrow> nat \<Rightarrow> bool" where
  "input_signed E txPrev tx i \<longleftrightarrow>
     (let p = prevout (vin tx ! i) in unat (op_n p) < length (vout txPrev) \<and> op_hash p = CTransaction_GetHash E txPrev
      \<and> fst (VerifyScript E empty_cache (scriptSig (vin tx ! i)) (scriptPubKey (vout txPrev ! unat (op_n p))) tx i True 0))"

lemma VerifySignature_cache:
  assumes "cache_ok E c" "i < length (vin tx)"
  shows "\<exists>c'. VerifySignature E c txPrev tx i True 0 = Some (input_signed E txPrev tx i, c') \<and> cache_ok E c'"
proof -
  let ?v = "\<lambda>c. VerifyScript E c (scriptSig (vin tx ! i)) (scriptPubKey (vout txPrev ! unat (op_n (prevout (vin tx ! i))))) tx i True 0"
  have v: "fst (?v c) = fst (?v empty_cache)" "cache_ok E (snd (?v c))" using VerifyScript_same [OF assms(1) cache_ok_empty] by blast+
  show ?thesis
  proof (cases "unat (op_n (prevout (vin tx ! i))) < length (vout txPrev) \<and> op_hash (prevout (vin tx ! i)) = CTransaction_GetHash E txPrev")
    case True
    then have "VerifySignature E c txPrev tx i True 0 = Some (?v c)" "input_signed E txPrev tx i = fst (?v c)"
      using assms(2) v(1) by (simp_all add: VerifySignature_def input_signed_def Let_def)
    then show ?thesis using v(2) by (metis prod.collapse)
  next
    case False
    then have "VerifySignature E c txPrev tx i True 0 = Some (False, c)" "\<not> input_signed E txPrev tx i"
      using assms(2) by (auto simp: VerifySignature_def input_signed_def Let_def)
    then show ?thesis using assms(1) by simp
  qed
qed

lemma check_signature_cache:
  assumes "cache_ok E c" "i < length (vin tx)"
  shows "\<exists>c' d. cache_ok E c' \<and> check_signature E c txPrev tx i True = (c', if input_signed E txPrev tx i then Ok () else Rejected d)"
proof -
  obtain c1 where c1: "VerifySignature E c txPrev tx i True 0 = Some (input_signed E txPrev tx i, c1)" "cache_ok E c1"
    using VerifySignature_cache [OF assms] by blast
  show ?thesis
  proof (cases "input_signed E txPrev tx i")
    case True
    then show ?thesis using c1 by (simp add: check_signature_def)
  next
    case False
    let ?v = "VerifyScript E c1 (scriptSig (vin tx ! i)) (scriptPubKey (vout txPrev ! unat (op_n (prevout (vin tx ! i))))) tx i False 0"
    have "cache_ok E (snd ?v)" using VerifyScript_same [OF c1(2) c1(2)] by blast
    moreover have "VerifySignature E c1 txPrev tx i False 0 = Some (False, c1) \<or> VerifySignature E c1 txPrev tx i False 0 = Some ?v"
      using assms(2) by (simp add: VerifySignature_def Let_def)
    ultimately obtain ok c2 where "VerifySignature E c1 txPrev tx i False 0 = Some (ok, c2)" "cache_ok E c2"
      using c1(2) by (metis prod.collapse)
    then show ?thesis using c1 False by (simp add: check_signature_def)
  qed
qed

text \<open>The second loop, without changes to the index: every output is unspent and every signature is valid.\<close>

definition spends_ok :: "openssl \<Rightarrow> CTransaction \<Rightarrow> MapPrevTx \<Rightarrow> nat \<Rightarrow> CTxIn \<Rightarrow> bool" where
  "spends_ok E tx m k i \<longleftrightarrow> (\<exists>ti t. m (op_hash (prevout i)) = Some (ti, t) \<and> CDiskTxPos_IsNull (vSpent ti ! unat (op_n (prevout i)))
     \<and> input_signed E t tx k)"

lemma spends_ok_mark:
  assumes "m (op_hash (prevout i)) = Some (ti, t)" "spent_point i \<noteq> spent_point j"
  shows "spends_ok E tx (m(op_hash (prevout i) \<mapsto> (ti\<lparr> vSpent := (vSpent ti)[unat (op_n (prevout i)) := p] \<rparr>, t))) k j = spends_ok E tx m k j"
  using assms by (auto simp: spends_ok_def spent_point_def)

lemma spend_loop_pool:
  assumes "distinct (map spent_point ins)" "\<forall>i\<in>set ins. m (op_hash (prevout i)) \<noteq> None" "k + length ins \<le> length (vin tx)" "cache_ok E c"
  shows "(\<exists>c'. spend_loop E False tx p False False True k ins m Q c = (c', Ok Q)) \<longleftrightarrow> (\<forall>j<length ins. spends_ok E tx m (k + j) (ins ! j))"
    and "spend_loop E False tx p False False True k ins m Q c = (c', r) \<Longrightarrow> r \<noteq> Throws \<and> (r = Ok Q' \<longrightarrow> Q' = Q)"
proof -
  have "\<exists>c' r. spend_loop E False tx p False False True k ins m Q c = (c', r) \<and>
      (if \<forall>j<length ins. spends_ok E tx m (k + j) (ins ! j) then r = Ok Q else (\<exists>d. r = Rejected d))"
    using assms
  proof (induction ins arbitrary: k m c)
    case (Cons i ins)
    obtain ti t where m: "m (op_hash (prevout i)) = Some (ti, t)" using Cons.prems(2) by auto
    let ?m = "m(op_hash (prevout i) \<mapsto> (ti\<lparr> vSpent := (vSpent ti)[unat (op_n (prevout i)) := p] \<rparr>, t))"
    have k: "k < length (vin tx)" "Suc k + length ins \<le> length (vin tx)" using Cons.prems(3) by simp_all
    obtain c1 d where c1: "cache_ok E c1" "check_signature E c t tx k True = (c1, if input_signed E t tx k then Ok () else Rejected d)"
      using check_signature_cache [OF Cons.prems(4) k(1)] by blast
    have i: "spends_ok E tx m k i \<longleftrightarrow> CDiskTxPos_IsNull (vSpent ti ! unat (op_n (prevout i))) \<and> input_signed E t tx k"
      using m by (auto simp: spends_ok_def)
    have all: "(\<forall>j<length (i # ins). spends_ok E tx m (k + j) ((i # ins) ! j)) \<longleftrightarrow>
        spends_ok E tx m k i \<and> (\<forall>j<length ins. spends_ok E tx ?m (Suc k + j) (ins ! j))"
    proof -
      have "spends_ok E tx ?m (Suc k + j) (ins ! j) = spends_ok E tx m (Suc k + j) (ins ! j)" if "j < length ins" for j
        using Cons.prems(1) that by (intro spends_ok_mark [where m = m, OF m]) auto
      then show ?thesis by (auto simp: All_less_Suc2)
    qed
    show ?case
    proof (cases "spends_ok E tx m k i")
      case True
      have eq: "spend_loop E False tx p False False True k (i # ins) m Q c = spend_loop E False tx p False False True (Suc k) ins ?m Q c1"
        using m c1(2) True i by simp
      have d: "distinct (map spent_point ins)" and n: "\<forall>j\<in>set ins. ?m (op_hash (prevout j)) \<noteq> None" using Cons.prems(1,2) by auto
      have "(spends_ok E tx m k i \<and> X) = X" for X using True by simp
      then show ?thesis unfolding eq all using Cons.IH [OF d n k(2) c1(1)] by (simp only:)
    next
      case False
      then have "\<exists>c' d. spend_loop E False tx p False False True k (i # ins) m Q c = (c', Rejected d)"
        using m c1(2) i by (cases "CDiskTxPos_IsNull (vSpent ti ! unat (op_n (prevout i)))") (simp_all add: Let_def)
      then show ?thesis unfolding all using False by auto
    qed
  qed simp
  then show "(\<exists>c'. spend_loop E False tx p False False True k ins m Q c = (c', Ok Q)) \<longleftrightarrow> (\<forall>j<length ins. spends_ok E tx m (k + j) (ins ! j))"
    and "spend_loop E False tx p False False True k ins m Q c = (c', r) \<Longrightarrow> r \<noteq> Throws \<and> (r = Ok Q' \<longrightarrow> Q' = Q)"
    by (auto split: if_splits)
qed

lemma GetValueOut_total:
  assumes "values_ok 0 (vout tx)"
  shows "GetValueOut tx = Some (word_of_int (out_total tx))" "0 \<le> out_total tx" "out_total tx \<le> sint MAX_MONEY"
proof -
  have mr: "MoneyRange 0" by (simp add: MoneyRange_sint)
  show pos: "0 \<le> out_total tx" "out_total tx \<le> sint MAX_MONEY"
    using assms by (auto simp: values_ok_def out_total_def list_all_iff intro!: sum_list_nonneg)
  have "sint (word_of_int (out_total tx) :: i64) = out_total tx"
    using pos by (intro sint_of_int_small) auto
  then show "GetValueOut tx = Some (word_of_int (out_total tx))"
    using assms by (simp add: GetValueOut_def value_out_loop_iff [OF mr] out_total_def)
qed

lemma spent_point_inj: "spent_point i = spent_point j \<longleftrightarrow> prevout i = prevout j"
  by (cases "prevout i"; cases "prevout j") (auto simp: spent_point_def dest: unsigned_word_eqI)

lemma distinct_spent_point: "distinct (map prevout ins) \<Longrightarrow> distinct (map spent_point ins)"
  by (auto simp: distinct_map inj_on_def spent_point_inj)

definition value_in :: "MapPrevTx \<Rightarrow> CTransaction \<Rightarrow> int" where
  "value_in m tx = (\<Sum>i\<leftarrow>vin tx. in_value m i)"

text \<open>Every input spends an unspent, mature output with a valid signature, and they pay for the outputs.\<close>

definition payable :: "openssl \<Rightarrow> MapPrevTx \<Rightarrow> chain \<Rightarrow> CTransaction \<Rightarrow> bool" where
  "payable E m pindexBlock tx \<longleftrightarrow> (\<forall>i\<in>set (vin tx). input_fine m pindexBlock i) \<and> (\<forall>j<length (vin tx). spends_ok E tx m j (vin tx ! j))
     \<and> out_total tx \<le> value_in m tx \<and> value_in m tx \<le> sint MAX_MONEY"

lemma ConnectInputs_pool:
  assumes "\<not> IsCoinBase tx" "distinct (map prevout (vin tx))" "values_ok 0 (vout tx)" "cache_ok E c"
  shows "(\<exists>c' Q. ConnectInputs E G c tx m Map.empty p pb False False True = (c', Ok Q)) \<longleftrightarrow> payable E m pb tx"
proof -
  have mr: "MoneyRange 0" by (simp add: MoneyRange_sint)
  note V = GetValueOut_total [OF assms(3)]
  note ci = check_inputs_iff [OF mr, of m pb "vin tx", folded value_in_def, simplified]
  show ?thesis
  proof (cases "(\<forall>i\<in>set (vin tx). input_fine m pb i) \<and> value_in m tx \<le> sint MAX_MONEY")
    case False
    then have "check_inputs m pb (vin tx) 0 \<noteq> Ok v" for v using ci by auto
    then have "ConnectInputs E G c tx m Map.empty p pb False False True \<noteq> (c', Ok Q)" for c' Q
      using assms(1) by (auto simp: ConnectInputs_def split: result.splits)
    then show ?thesis using False by (auto simp: payable_def)
  next
    case True
    then have ok: "check_inputs m pb (vin tx) 0 = Ok (word_of_int (value_in m tx))" using ci by simp
    have pos: "0 \<le> value_in m tx" using True input_fine_value unfolding value_in_def by (intro sum_list_nonneg) auto
    have b: "- (2 ^ 63) \<le> value_in m tx - out_total tx" "value_in m tx - out_total tx < 2 ^ 63" "value_in m tx < 2 ^ 63" "out_total tx < 2 ^ 63"
      using pos True V by simp_all
    have s: "sint (word_of_int (value_in m tx) :: i64) = value_in m tx" "sint (word_of_int (out_total tx) :: i64) = out_total tx"
      "sint (word_of_int (value_in m tx) - word_of_int (out_total tx) :: i64) = value_in m tx - out_total tx"
      using pos V(2) b sint_of_int_small [OF b(1,2)] by (simp_all add: sint_of_int_small)
    have "m (op_hash (prevout i)) \<noteq> None" if "i \<in> set (vin tx)" for i using True that by (auto simp: input_fine_def)
    note sl = spend_loop_pool [OF distinct_spent_point [OF assms(2)], of m 0 tx E c p Map.empty] this assms(4)
    obtain c1 r where r: "spend_loop E False tx p False False True 0 (vin tx) m Map.empty c = (c1, r)" by fastforce
    show ?thesis
    proof (cases "\<forall>j<length (vin tx). spends_ok E tx m j (vin tx ! j)")
      case t: True
      then have "r = Ok Map.empty" using sl r by auto
      then show ?thesis using assms(1) ok r V(1,2) s True t
        by (simp add: ConnectInputs_def payable_def word_sless_alt MoneyRange_sint)
    next
      case False
      then have "r \<noteq> Ok Q" for Q using sl r by fastforce
      then show ?thesis using False assms(1) ok r
        by (auto simp: ConnectInputs_def payable_def split: result.splits)
    qed
  qed
qed

text \<open>That the inputs are standard does not depend on the cache.\<close>

definition inputs_standard :: "openssl \<Rightarrow> CTransaction \<Rightarrow> MapPrevTx \<Rightarrow> bool" where
  "inputs_standard E tx m \<longleftrightarrow> snd (AreInputsStandard E empty_cache tx m) = Some True"

lemma input_standard_cache:
  assumes "cache_ok E c" "cache_ok E d"
  shows "snd (input_standard E c tx i txin prev) = snd (input_standard E d tx i txin prev)
    \<and> cache_ok E (fst (input_standard E c tx i txin prev)) \<and> cache_ok E (fst (input_standard E d tx i txin prev))"
proof -
  obtain a s c1 where c1: "EvalScript E c [] (scriptSig txin) tx i 0 = (a, s, c1)" by (metis prod_cases3)
  obtain b s2 d1 where d1: "EvalScript E d [] (scriptSig txin) tx i 0 = (b, s2, d1)" by (metis prod_cases3)
  from EvalScript_same [OF assms c1 d1] have same: "b = a" "s2 = s" "cache_ok E c1" "cache_ok E d1" by auto
  obtain ok t sols where sp: "Solver (scriptPubKey prev) = (ok, t, sols)" by (metis prod_cases3)
  obtain ok2 t2 sols2 where s2: "Solver (hd s) = (ok2, t2, sols2)" by (metis prod_cases3)
  show ?thesis unfolding input_standard_def sp c1 d1 same(1,2) s2 prod.case Let_def using assms same(3,4) by auto
qed

lemma inputs_standard_loop_cache:
  assumes "cache_ok E c" "cache_ok E d"
  shows "snd (inputs_standard_loop E m tx i ins c) = snd (inputs_standard_loop E m tx i ins d)
    \<and> cache_ok E (fst (inputs_standard_loop E m tx i ins c))"
  using assms
proof (induction ins arbitrary: i c d)
  case (Cons x ins)
  show ?case
  proof (cases "GetOutputFor x m")
    case None
    then show ?thesis using Cons.prems by simp
  next
    case (Some prev)
    obtain c1 ok where c1: "input_standard E c tx i x prev = (c1, ok)" by fastforce
    obtain d1 where d1: "input_standard E d tx i x prev = (d1, ok)" "cache_ok E c1" "cache_ok E d1"
      using input_standard_cache [OF Cons.prems, of tx i x prev] c1 by (cases "input_standard E d tx i x prev") auto
    show ?thesis using Some c1 d1 Cons.IH [OF d1(2,3)] by simp
  qed
qed simp

lemma AreInputsStandard_cache:
  assumes "cache_ok E c"
  shows "\<exists>c' r. AreInputsStandard E c tx m = (c', r) \<and> cache_ok E c' \<and> (r = Some True \<longleftrightarrow> inputs_standard E tx m)"
  using inputs_standard_loop_cache [OF assms cache_ok_empty, of m tx 0 "vin tx"] assms
  by (cases "inputs_standard_loop E m tx 0 (vin tx) c") (auto simp: AreInputsStandard_def inputs_standard_def)

text \<open>No exception where the inputs are fine.\<close>

lemma inputs_standard_loop_fine:
  "\<forall>i\<in>set ins. input_fine m pb i \<Longrightarrow> snd (inputs_standard_loop E m tx k ins c) \<noteq> None"
proof (induction ins arbitrary: k c)
  case (Cons i ins)
  then obtain out where "GetOutputFor i m = Some out" by (auto simp: input_fine_def GetOutputFor_def)
  then show ?case using Cons by (auto split: prod.splits)
qed simp

lemma FetchInputs_pool:
  assumes "\<not> IsCoinBase tx"
  shows "FetchInputs G T tx Q False False =
    (if \<forall>i\<in>set (vin tx). prev_tx G T (op_hash (prevout i)) \<noteq> None
     then if \<forall>i\<in>set (vin tx). prevout_in_range (prev_tx G T) i
          then Fetched (prev_tx G T |` ((op_hash \<circ> prevout) ` set (vin tx))) else Invalid
     else Missing)"
proof -
  let ?m = "\<lambda>h. if (Map.empty :: MapPrevTx) h = None \<and> h \<in> (op_hash \<circ> prevout) ` set (vin tx) then prev_tx G T h else Map.empty h"
  have m: "?m = prev_tx G T |` ((op_hash \<circ> prevout) ` set (vin tx))" by (auto simp: restrict_map_def)
  have "prevout_in_range ?m i = prevout_in_range (prev_tx G T) i" if "i \<in> set (vin tx)" for i
    using that by (auto simp: prevout_in_range_def)
  then have "list_all (prevout_in_range ?m) (vin tx) \<longleftrightarrow> (\<forall>i\<in>set (vin tx). prevout_in_range (prev_tx G T) i)"
    by (auto simp: list_all_iff)
  then show ?thesis using assms unfolding FetchInputs_def fetch_loop_pool m by (simp only: if_False) simp
qed

text \<open>The checks of \<open>accept\<close> that need the inputs, and \<open>accept\<close> itself.\<close>

lemma payable_cong:
  assumes "\<And>h. h \<in> (op_hash \<circ> prevout) ` set (vin tx) \<Longrightarrow> m h = m' h"
  shows "payable E m pb tx = payable E m' pb tx" "value_in m tx = value_in m' tx" "inputs_standard E tx m = inputs_standard E tx m'"
proof -
  have g: "GetOutputFor i m = GetOutputFor i m'" if "i \<in> set (vin tx)" for i using assms that by (simp add: GetOutputFor_def)
  then show v: "value_in m tx = value_in m' tx" by (auto simp: value_in_def in_value_def intro!: arg_cong [where f = sum_list] map_cong)
  have "input_fine m pb i = input_fine m' pb i" "spends_ok E tx m k i = spends_ok E tx m' k i" if "i \<in> set (vin tx)" for i k
    using assms that by (simp_all add: input_fine_def spends_ok_def)
  then show "payable E m pb tx = payable E m' pb tx" unfolding payable_def v by simp
  have "inputs_standard_loop E m tx k ins c = inputs_standard_loop E m' tx k ins c" if "set ins \<subseteq> set (vin tx)" for k ins c
    using that by (induction ins arbitrary: k c) (auto simp: g split: option.splits prod.splits)
  then show "inputs_standard E tx m = inputs_standard E tx m'" by (simp add: inputs_standard_def AreInputsStandard_def)
qed

lemma accept_inputs_iff:
  assumes "CheckTransaction tx = Accept" "\<not> IsCoinBase tx" "cache_ok E c"
  shows "(\<exists>c'. accept_inputs E G c db pb fLimited tx = (c', Accepted)) \<longleftrightarrow>
    payable E (prev_tx G (db_tx db)) pb tx \<and> (g_fTestNet G \<or> inputs_standard E tx (prev_tx G (db_tx db)))
    \<and> sint (GetMinFee tx 1000 True GMF_RELAY) \<le> value_in (prev_tx G (db_tx db)) tx - out_total tx
    \<and> (fLimited \<longrightarrow> sint MIN_RELAY_TX_FEE \<le> value_in (prev_tx G (db_tx db)) tx - out_total tx)"
proof -
  let ?p = "prev_tx G (db_tx db)"
  let ?m = "?p |` ((op_hash \<circ> prevout) ` set (vin tx))"
  have d: "distinct (map prevout (vin tx))" using assms(1) by (auto simp: CheckTransaction_def check_duplicates_iff split: if_splits verdict.splits)
  note V = GetValueOut_total [OF CheckTransaction_values [OF assms(1)]]
  note cong = payable_cong [of tx ?m ?p]
  have eqs: "payable E ?m pb tx = payable E ?p pb tx" "value_in ?m tx = value_in ?p tx" "inputs_standard E tx ?m = inputs_standard E tx ?p"
    by (rule cong, simp)+
  obtain c1 r where c1: "AreInputsStandard E c tx ?m = (c1, r)" "cache_ok E c1" "r = Some True \<longleftrightarrow> inputs_standard E tx ?p"
    using AreInputsStandard_cache [OF assms(3), of tx ?m] eqs(3) by auto
  note C = ConnectInputs_pool [OF assms(2) d CheckTransaction_values [OF assms(1)] c1(2), of G ?m "\<lparr> pos_nFile = 1, pos_nBlockPos = 1, pos_nTxPos = 1 \<rparr>" pb, unfolded eqs(1)]
  show ?thesis
  proof (cases "payable E ?p pb tx")
    case False
    then have "ConnectInputs E G c1 tx ?m Map.empty \<lparr> pos_nFile = 1, pos_nBlockPos = 1, pos_nTxPos = 1 \<rparr> pb False False True \<noteq> (c', Ok Q)" for c' Q
      using C by auto
    then have "accept_inputs E G c db pb fLimited tx \<noteq> (c', Accepted)" for c'
      unfolding accept_inputs_def FetchInputs_pool [OF assms(2)] using c1(1)
      by (auto simp: Let_def split: if_splits option.splits result.splits prod.splits)
    then show ?thesis using False by blast
  next
    case True
    then have fine: "\<forall>i\<in>set (vin tx). input_fine ?p pb i" by (simp add: payable_def)
    then have prev: "\<forall>i\<in>set (vin tx). ?p (op_hash (prevout i)) \<noteq> None" "\<forall>i\<in>set (vin tx). prevout_in_range ?p i"
      by (auto simp: input_fine_def prevout_in_range_def)
    have fine': "\<forall>i\<in>set (vin tx). input_fine ?m pb i" using fine by (auto simp: input_fine_def)
    have r: "r \<noteq> None" using inputs_standard_loop_fine [OF fine', of E tx 0 c] c1(1) assms(2) by (simp add: AreInputsStandard_def)
    have pos: "0 \<le> value_in ?p tx" using fine input_fine_value unfolding value_in_def by (intro sum_list_nonneg) auto
    have "MoneyRange 0" by (simp add: MoneyRange_sint)
    then have gv: "GetValueIn tx ?m = Some (word_of_int (value_in ?p tx))"
      using value_in_loop_fine [OF _ fine', of 0] assms(2) eqs(2) by (simp add: GetValueIn_def value_in_def)
    have b: "- (2 ^ 63) \<le> value_in ?p tx - out_total tx" "value_in ?p tx - out_total tx < 2 ^ 63"
      using pos True V by (simp_all add: payable_def)
    have fee: "sint (word_of_int (value_in ?p tx) - word_of_int (out_total tx) :: i64) = value_in ?p tx - out_total tx"
      using sint_of_int_small [OF b] by simp
    obtain c2 Q where conn: "ConnectInputs E G c1 tx ?m Map.empty \<lparr> pos_nFile = 1, pos_nBlockPos = 1, pos_nTxPos = 1 \<rparr> pb False False True = (c2, Ok Q)"
      using C True by blast
    obtain ok where ok: "r = Some ok" using r by blast
    show ?thesis
      unfolding accept_inputs_def FetchInputs_pool [OF assms(2)] if_P [OF prev(1)] if_P [OF prev(2)] fetched.case c1(1) ok
        prod.case option.case gv V(1) Let_def conn result.case word_sless_alt fee
      using c1(3) ok True by auto
  qed
qed

lemma accept_step:
  assumes "CheckTransaction tx = Accept" "\<not> IsCoinBase tx"
  shows "(\<exists>c'. accept E G c db pb pool fLimited tx True = (c', addUnchecked pool (CTransaction_GetHash E tx) tx, Accepted)) \<longleftrightarrow>
    uint (nLockTime tx) \<le> 2147483647 \<and> (g_fTestNet G \<or> tx_IsStandard tx)
    \<and> pool_mapTx pool (CTransaction_GetHash E tx) = None \<and> db_tx db (CTransaction_GetHash E tx) = None
    \<and> (\<forall>txin\<in>set (vin tx). mapNextTx pool (prevout txin) = None)
    \<and> (\<exists>c'. accept_inputs E (G\<lparr> mapTx := pool_mapTx pool \<rparr>) c db pb fLimited tx = (c', Accepted))"
proof -
  obtain c1 r where r: "accept_inputs E (G\<lparr> mapTx := pool_mapTx pool \<rparr>) c db pb fLimited tx = (c1, r)" by fastforce
  show ?thesis using assms r
    by (cases r) (auto simp: accept_def Let_def list_ex_iff)
qed

section \<open>Reachable pools\<close>

definition empty_pool :: CTxMemPool where
  "empty_pool = \<lparr> pool_mapTx = Map.empty, mapNextTx = Map.empty, nTransactionsUpdated = 0 \<rparr>"

text \<open>The pools that \<open>accept\<close> and \<open>remove\<close> lead to, in any state of the node, with the transactions \<open>T\<close>.\<close>

inductive pool_reachable :: "openssl \<Rightarrow> CTransaction set \<Rightarrow> CTxMemPool \<Rightarrow> bool" for E T where
  Start: "pool_reachable E T empty_pool"
| Accept: "\<lbrakk>pool_reachable E T pool; tx \<in> T; accept E G c db pb pool fLimited tx fCheckInputs = (c', pool', r)\<rbrakk> \<Longrightarrow> pool_reachable E T pool'"
| Remove: "\<lbrakk>pool_reachable E T pool; tx \<in> T\<rbrakk> \<Longrightarrow> pool_reachable E T (pool_remove E pool tx)"

lemma accept_mapTx: "accept E G c db pb pool fLimited tx fCheckInputs = (c', pool', r) \<Longrightarrow> pool_mapTx pool' h = Some t \<Longrightarrow> t = tx \<or> pool_mapTx pool h = Some t"
  using accept_cases [of E G c db pb pool fLimited tx fCheckInputs c' pool' r] by (auto simp: addUnchecked_def split: if_splits)

lemma remove_mapTx: "pool_mapTx (pool_remove E pool tx) h = Some t \<Longrightarrow> pool_mapTx pool h = Some t"
  by (auto simp: pool_remove_def Let_def split: if_splits)

lemma pool_reachable_ok:
  assumes "pool_reachable E T pool" "inj_on (CTransaction_GetHash E) T"
  shows "pool_ok E pool \<and> (\<forall>h t. pool_mapTx pool h = Some t \<longrightarrow> t \<in> T)"
  using assms(1)
proof (induction rule: pool_reachable.induct)
  case Start
  then show ?case by (simp add: empty_pool_def pool_ok_def)
next
  case (Accept pool tx G c db pb fLimited fCheckInputs c' pool' r)
  then show ?case using accept_ok [OF _ Accept.hyps(3)] accept_mapTx [OF Accept.hyps(3)] by blast
next
  case (Remove pool tx)
  have "t = tx" if "pool_mapTx pool (CTransaction_GetHash E tx) = Some t" for t
    using that Remove pool_ok_tx(1) [of E pool "CTransaction_GetHash E tx" t] inj_onD [OF assms(2)] by blast
  then show ?case using pool_remove_ok [of E pool tx] Remove remove_mapTx [of E pool tx] by blast
qed

lemma pool_ok_conflict:
  assumes "pool_ok E pool" "pool_mapTx pool h = Some t" "pool_mapTx pool h' = Some t'" "i \<in> set (vin t)" "i' \<in> set (vin t')" "prevout i = prevout i'"
  shows "h = h'"
proof -
  obtain k k' where "k < length (vin t)" "i = vin t ! k" "k' < length (vin t')" "i' = vin t' ! k'" using assms(4,5) by (auto simp: in_set_conv_nth)
  then show ?thesis using pool_ok_tx(3) [OF assms(1,2), of k] pool_ok_tx(3) [OF assms(1,3), of k'] assms(6) by simp
qed

lemma example_accepted:
  "accept openssl_ref (example_globals\<lparr> g_fTestNet := True \<rparr>) empty_cache empty_db [] empty_pool False example_tx False
    = (empty_cache, addUnchecked empty_pool (CTransaction_GetHash openssl_ref example_tx) example_tx, Accepted)"
proof -
  have nc: "\<not> IsCoinBase example_tx" by (simp add: IsCoinBase_def COutPoint_IsNull_def example_tx_def)
  have "GetSerializeSize_CTransaction example_tx \<le> MAX_BLOCK_SIZE"
    by (simp add: example_tx_def GetSerializeSize_CTransaction_def GetSerializeSize_vec_def GetSerializeSize_CTxIn_def
        GetSerializeSize_CTxOut_def GetSerializeSize_bytes_def GetSizeOfCompactSize_def MAX_BLOCK_SIZE_def)
  moreover have "check_outputs 0 (vout example_tx) = Accept"
    by (subst check_outputs_eq) (simp_all add: MoneyRange_sint values_ok_def out_values_def example_tx_def)
  ultimately have "CheckTransaction example_tx = Accept"
    using nc by (simp add: CheckTransaction_def) (simp add: example_tx_def COutPoint_IsNull_def)
  with nc show ?thesis by (simp add: accept_def empty_pool_def list_ex_iff) (simp add: example_tx_def)
qed

section \<open>Properties\<close>

text \<open>
  C15. The memory pool accepts exactly the transactions that could be mined. With inputs checked, \<open>accept\<close>
  adds a transaction just when it is well-formed, not a coinbase, not locked beyond 2038,
  standard with standard inputs (on the main network), new to the pool and to the index, in
  conflict with no transaction of the pool, and every input spends, with a valid signature, an
  unspent and mature output of the index or of the pool, with a fee that reaches \<open>GetMinFee\<close>
  and, when the rate limiter is closed, \<open>MIN_RELAY_TX_FEE\<close>. The signature cache makes no difference.
\<close>

theorem accept_iff:
  assumes "cache_ok E c" and "M = prev_tx (G\<lparr> mapTx := pool_mapTx pool \<rparr>) (db_tx db)" and "h = CTransaction_GetHash E tx"
  shows "(\<exists>c'. accept E G c db pb pool fLimited tx True = (c', addUnchecked pool h tx, Accepted)) \<longleftrightarrow>
    CheckTransaction tx = Accept \<and> \<not> IsCoinBase tx \<and> uint (nLockTime tx) \<le> 2147483647
    \<and> (g_fTestNet G \<or> tx_IsStandard tx \<and> inputs_standard E tx M)
    \<and> pool_mapTx pool h = None \<and> db_tx db h = None \<and> (\<forall>txin\<in>set (vin tx). mapNextTx pool (prevout txin) = None)
    \<and> payable E M pb tx
    \<and> sint (GetMinFee tx 1000 True GMF_RELAY) \<le> value_in M tx - out_total tx
    \<and> (fLimited \<longrightarrow> sint MIN_RELAY_TX_FEE \<le> value_in M tx - out_total tx)"
proof (cases "CheckTransaction tx = Accept \<and> \<not> IsCoinBase tx")
  case True
  then have t: "CheckTransaction tx = Accept" "\<not> IsCoinBase tx" by blast+
  show ?thesis unfolding assms(2,3) accept_step [OF t] accept_inputs_iff [OF t assms(1)] using t by auto
next
  case False
  then show ?thesis using accept_cases by (metis (full_types))
qed

theorem accept_iff_witness:
  "\<not> (\<exists>c'. accept openssl_ref example_globals empty_cache empty_db [] empty_pool False example_coinbase True
     = (c', addUnchecked empty_pool (CTransaction_GetHash openssl_ref example_coinbase) example_coinbase, Accepted))"
  using accept_iff [OF cache_ok_empty refl refl, of openssl_ref example_globals empty_db "[]" empty_pool False example_coinbase] example_is_coinbase by blast

text \<open>
  C16. No double spends in the pool. In every pool that \<open>accept\<close> and \<open>remove\<close> lead to, in any order and
  with or without the check of the inputs, two transactions with a common input are the same, and
  \<open>mapNextTx\<close> has exactly the outputs that the transactions in the pool spend; the hypothesis is
  that no two of the transactions handed to the pool have the same hash.
\<close>

theorem pool_no_double_spend:
  assumes "pool_reachable E T pool" and "inj_on (CTransaction_GetHash E) T"
  shows "(\<forall>h t h' t' i i'. pool_mapTx pool h = Some t \<and> pool_mapTx pool h' = Some t' \<and> i \<in> set (vin t) \<and> i' \<in> set (vin t')
      \<and> prevout i = prevout i' \<longrightarrow> h = h')
    \<and> (\<forall>op. mapNextTx pool op \<noteq> None \<longleftrightarrow> (\<exists>h t. pool_mapTx pool h = Some t \<and> op \<in> prevout ` set (vin t)))"
proof -
  have ok: "pool_ok E pool" using pool_reachable_ok [OF assms] by blast
  have "mapNextTx pool op \<noteq> None \<longleftrightarrow> (\<exists>h t. pool_mapTx pool h = Some t \<and> op \<in> prevout ` set (vin t))" for op
  proof
    assume "mapNextTx pool op \<noteq> None"
    then obtain ip where "mapNextTx pool op = Some ip" by blast
    from pool_ok_op [OF ok this] show "\<exists>h t. pool_mapTx pool h = Some t \<and> op \<in> prevout ` set (vin t)" by (metis imageI nth_mem)
  next
    assume "\<exists>h t. pool_mapTx pool h = Some t \<and> op \<in> prevout ` set (vin t)"
    then show "mapNextTx pool op \<noteq> None" using pool_ok_tx(3) [OF ok] by (auto simp: in_set_conv_nth)
  qed
  then show ?thesis using pool_ok_conflict [OF ok] by blast
qed

theorem pool_no_double_spend_witness:
  "\<exists>pool. pool_reachable openssl_ref {example_tx} pool \<and> pool_mapTx pool (CTransaction_GetHash openssl_ref example_tx) = Some example_tx
    \<and> mapNextTx pool (prevout (hd (vin example_tx))) \<noteq> None"
proof -
  let ?pool = "addUnchecked empty_pool (CTransaction_GetHash openssl_ref example_tx) example_tx"
  have r: "pool_reachable openssl_ref {example_tx} ?pool"
    by (rule pool_reachable.Accept [OF pool_reachable.Start _ example_accepted]) simp
  have m: "pool_mapTx ?pool (CTransaction_GetHash openssl_ref example_tx) = Some example_tx" by (simp add: addUnchecked_def)
  have i: "hd (vin example_tx) \<in> set (vin example_tx)" by (simp add: example_tx_def)
  have "mapNextTx ?pool (prevout (hd (vin example_tx))) \<noteq> None"
    using pool_no_double_spend [OF r] m i by blast
  then show ?thesis using r m by blast
qed

end
