(* ===== verification/Relay.thy ===== *)
theory Relay
  imports Web_Send Mempool
begin

text \<open>
  The two halves together: the transaction that the browser wallet builds (\<open>tx.js\<close>) is one that the
  daemon's memory pool accepts (\<open>CTxMemPool::accept\<close>), when the coins that the explorer reported are on the
  daemon's chain.
\<close>

section \<open>Coins on the chain\<close>

text \<open>
  The daemon's ledger has the coin, with its value and the script of its owner, and a coinbase is
  mature.
\<close>

definition on_chain :: "openssl \<Rightarrow> globals \<Rightarrow> txindex_map \<Rightarrow> chain \<Rightarrow> coin \<Rightarrow> bool" where
  "on_chain E G T pindexBest u \<longleftrightarrow>
     (let p = outpoint_of u in
      coins_of G T (op_hash p, unat (op_n p)) = Some \<lparr> nValue = word_of_int (coin_value u), scriptPubKey = spk_of E (coin_owner u) \<rparr>
      \<and> (\<forall>ti t. T (op_hash p) = Some ti \<longrightarrow> CTransaction_ReadFromDisk G (ti_pos ti) = Some t \<longrightarrow>
           \<not> (IsCoinBase t \<and> pindexBest \<noteq> [] \<and> immature (nHeight (hd pindexBest)) ti pindexBest)))"

lemma ReadFromDisk_mapTx [simp]: "CTransaction_ReadFromDisk (G\<lparr> mapTx := x \<rparr>) p = CTransaction_ReadFromDisk G p"
  by (simp add: CTransaction_ReadFromDisk_def)

lemma read_tx_outputs: "CTransaction_ReadFromDisk G p = Some t \<Longrightarrow> length (vout t) < 2 ^ 32 - 1"
proof -
  assume "CTransaction_ReadFromDisk G p = Some t"
  then obtain f r where "Unserialize_CTransaction f = Some (t, r)" by (auto simp: CTransaction_ReadFromDisk_def split: option.splits)
  from tx.unser_ok [OF this] show ?thesis by (simp add: tx_ok_def MAX_SIZE_def)
qed

lemma on_chain_prev:
  assumes "index_ok E G T" "on_chain E G T pb u"
  shows "\<exists>ti t. prev_tx (G\<lparr> mapTx := x \<rparr>) T (op_hash (outpoint_of u)) = Some (ti, t) \<and> CTransaction_GetHash E t = op_hash (outpoint_of u)
    \<and> unat (op_n (outpoint_of u)) < length (vout t) \<and> unat (op_n (outpoint_of u)) < length (vSpent ti)
    \<and> CDiskTxPos_IsNull (vSpent ti ! unat (op_n (outpoint_of u))) \<and> length (vout t) < 2 ^ 32 - 1
    \<and> vout t ! unat (op_n (outpoint_of u)) = \<lparr> nValue = word_of_int (coin_value u), scriptPubKey = spk_of E (coin_owner u) \<rparr>
    \<and> \<not> (IsCoinBase t \<and> pb \<noteq> [] \<and> immature (nHeight (hd pb)) ti pb)"
proof -
  let ?p = "outpoint_of u"
  have c: "coins_of G T (op_hash ?p, unat (op_n ?p)) = Some \<lparr> nValue = word_of_int (coin_value u), scriptPubKey = spk_of E (coin_owner u) \<rparr>"
    using assms(2) by (simp add: on_chain_def Let_def)
  then have u: "unspent T (op_hash ?p, unat (op_n ?p))"
    and o: "output_at G T (op_hash ?p, unat (op_n ?p)) = \<lparr> nValue = word_of_int (coin_value u), scriptPubKey = spk_of E (coin_owner u) \<rparr>"
    by (auto simp: coins_of_def split: if_splits)
  obtain ti where ti: "T (op_hash ?p) = Some ti" "unat (op_n ?p) < length (vSpent ti)" "CDiskTxPos_IsNull (vSpent ti ! unat (op_n ?p))"
    using u by (auto simp: unspent_def split: option.splits)
  obtain t where t: "ti_pos ti \<noteq> \<lparr> pos_nFile = 1, pos_nBlockPos = 1, pos_nTxPos = 1 \<rparr>" "CTransaction_ReadFromDisk G (ti_pos ti) = Some t"
    "CTransaction_GetHash E t = op_hash ?p" "length (vout t) = length (vSpent ti)" using assms(1) ti(1) by (auto simp: index_ok_def)
  have "prev_tx (G\<lparr> mapTx := x \<rparr>) T (op_hash ?p) = Some (ti, t)" using ti(1) t(1,2) by (simp add: prev_tx_def)
  moreover have "\<not> (IsCoinBase t \<and> pb \<noteq> [] \<and> immature (nHeight (hd pb)) ti pb)"
    using assms(2) ti(1) t(2) unfolding on_chain_def Let_def by blast
  ultimately show ?thesis using ti t o read_tx_outputs [OF t(2)] by (auto simp: output_at_def)
qed

lemma on_chain_not_null:
  assumes "index_ok E G T" "on_chain E G T pb u"
  shows "\<not> COutPoint_IsNull (outpoint_of u)"
proof -
  obtain t :: CTransaction where "unat (op_n (outpoint_of u)) < length (vout t)" "length (vout t) < 2 ^ 32 - 1"
    using on_chain_prev [OF assms] by blast
  moreover have "unat (- 1 :: u32) = 2 ^ 32 - 1" by (simp add: unsigned_minus_1_eq_mask mask_eq_exp_minus_1)
  ultimately have "op_n (outpoint_of u) \<noteq> - 1" by auto
  then show ?thesis by (simp add: COutPoint_IsNull_def)
qed

section \<open>The transaction of the wallet\<close>

lemma built_prevout:
  assumes "built E W accounts toAddr sats net changeAddr r picked tx" "j < length (vin (CTransaction_of tx))"
  shows "j < length picked" "prevout (vin (CTransaction_of tx) ! j) = outpoint_of (picked ! j)"
proof -
  have m: "map prevout (vin (CTransaction_of tx)) = map outpoint_of picked" using assms(1) by (simp add: built_def)
  then have "length (vin (CTransaction_of tx)) = length picked" by (metis length_map)
  then show "j < length picked" using assms(2) by simp
  then show "prevout (vin (CTransaction_of tx) ! j) = outpoint_of (picked ! j)" using m assms(2) by (metis nth_map)
qed

lemma built_all:
  assumes "built E W accounts toAddr sats net changeAddr r picked tx" "\<forall>u\<in>set picked. P (outpoint_of u)"
  shows "\<forall>i\<in>set (vin (CTransaction_of tx)). P (prevout i)"
proof
  fix i assume "i \<in> set (vin (CTransaction_of tx))"
  then obtain j where "j < length (vin (CTransaction_of tx))" "i = vin (CTransaction_of tx) ! j" by (auto simp: in_set_conv_nth)
  then show "P (prevout i)" using assms(2) built_prevout [OF assms(1)] by simp
qed

lemma built_header:
  assumes "built E W accounts toAddr sats net changeAddr r picked tx"
  shows "nVersion (CTransaction_of tx) = 1" "nLockTime (CTransaction_of tx) = 0"
proof -
  have "tx_version tx = 1" "tx_locktime tx = 0" using assms by (auto simp: built_def)
  then show "nVersion (CTransaction_of tx) = 1" "nLockTime (CTransaction_of tx) = 0" by (simp_all add: CTransaction_of_def ToUint32_def)
qed

lemma built_out_total:
  assumes b: "built E W accounts toAddr sats net changeAddr r picked tx" and wd: "web_digest W" and v: "coins_value picked \<le> sint MAX_MONEY"
  shows "values_ok 0 (vout (CTransaction_of tx))" "out_total (CTransaction_of tx) + res_fee r \<le> coins_value picked"
proof -
  obtain h hc where vo: "vout (CTransaction_of tx) = \<lparr> nValue = word_of_int sats, scriptPubKey = SetDestination (KeyID (le_word h)) \<rparr> #
        (if DUST \<le> res_change r then [\<lparr> nValue = word_of_int (res_change r), scriptPubKey = SetDestination (KeyID (le_word hc)) \<rparr>] else [])"
    using built_vout [OF b wd] by blast
  have n: "0 < sats" "0 \<le> res_change r" "MIN_TX_FEE_js \<le> res_fee r" "coins_value picked = sats + res_fee r + res_change r"
    using b by (auto simp: built_def)
  have fee: "0 \<le> res_fee r" using n(3) by (simp add: MIN_TX_FEE_js_def COIN_js_def)
  have s: "sint (word_of_int sats :: i64) = sats" "sint (word_of_int (res_change r) :: i64) = res_change r"
    using n fee v by (auto intro!: sint_of_int_range)
  show "values_ok 0 (vout (CTransaction_of tx))" "out_total (CTransaction_of tx) + res_fee r \<le> coins_value picked"
    unfolding values_ok_def out_total_def vo using n fee v s by (simp_all add: out_values_def)
qed

lemma built_checked:
  assumes b: "built E W accounts toAddr sats net changeAddr r picked tx" and wd: "web_digest W" and v: "coins_value picked \<le> sint MAX_MONEY"
    and n: "length picked < 253" and d: "distinct (map outpoint_of picked)" and nn: "\<forall>u\<in>set picked. \<not> COutPoint_IsNull (outpoint_of u)"
  shows "CheckTransaction (CTransaction_of tx) = Accept" "\<not> IsCoinBase (CTransaction_of tx)"
proof -
  let ?t = "CTransaction_of tx"
  have m: "map prevout (vin ?t) = map outpoint_of picked" using b by (simp add: built_def)
  have "picked \<noteq> []" using b by (auto simp: built_def MIN_TX_FEE_js_def COIN_js_def)
  then have ne: "vin ?t \<noteq> []" using m by auto
  have nn': "\<forall>i\<in>set (vin ?t). \<not> COutPoint_IsNull (prevout i)"  by (rule built_all [OF b nn])
  then show nc: "\<not> IsCoinBase ?t" by (cases "vin ?t") (auto simp: IsCoinBase_def)
  have "estimate (length picked) (res_change r) \<le> 10 + 252 * 148 + 2 * 34" using n by (auto simp: estimate_def)
  then have size: "GetSerializeSize_CTransaction ?t \<le> MAX_BLOCK_SIZE" using built_size [OF b n] by (simp add: MAX_BLOCK_SIZE_def)
  have "check_outputs 0 (vout ?t) = Accept" using built_out_total(1) [OF b wd v] by (subst check_outputs_eq) (simp_all add: MoneyRange_sint)
  moreover have "vout ?t \<noteq> []" using built_vout [OF b wd] by auto
  ultimately show "CheckTransaction ?t = Accept" using ne nn' nc size d m
    by (simp add: CheckTransaction_def check_duplicates_iff not_less list_ex_iff)
qed

lemma built_standard:
  assumes b: "built E W accounts toAddr sats net changeAddr r picked tx" and wd: "web_digest W"
  shows "tx_IsStandard (CTransaction_of tx)"
proof -
  let ?t = "CTransaction_of tx"
  have std: "IsStandard (SetDestination (KeyID k))" for k
    unfolding IsStandard_def Solver_P2PKH by simp
  have first: "SetDestination (KeyID k) ! 0 \<noteq> OP_RETURN" for k by simp
  obtain h hc where "vout ?t = \<lparr> nValue = word_of_int sats, scriptPubKey = SetDestination (KeyID (le_word h)) \<rparr> #
        (if DUST \<le> res_change r then [\<lparr> nValue = word_of_int (res_change r), scriptPubKey = SetDestination (KeyID (le_word hc)) \<rparr>] else [])"
    using built_vout [OF b wd] by blast
  then have outs: "\<forall>out\<in>set (vout ?t). IsStandard (scriptPubKey out) \<and> scriptPubKey out ! 0 \<noteq> OP_RETURN"
    using std first by (simp del: SetDestination.simps)
  have ins: "length (scriptSig (vin ?t ! i)) \<le> 500 \<and> IsPushOnly (scriptSig (vin ?t ! i))" if "i < length (vin ?t)" for i
  proof -
    have "signed_input E (coin_owner (picked ! i)) ?t i (scriptSig (vin ?t ! i))" using b built_prevout(1) [OF b that] by (simp add: built_def)
    then obtain der where der: "scriptSig (vin ?t ! i) = concat (map push_data [der @ [1], acc_pubKey (coin_owner (picked ! i))])"
      "length (acc_pubKey (coin_owner (picked ! i))) = 33" "length der \<le> 71" by (auto simp: signed_input_def)
    then have "length (scriptSig (vin ?t ! i)) \<le> 500" by (simp add: push_data_def)
    then show ?thesis using IsPushOnly_pushes [of "[der @ [1], acc_pubKey (coin_owner (picked ! i))]"] der(1) by simp
  qed
  have "nVersion ?t = 1" using built_header [OF b] by simp
  then show ?thesis unfolding tx_IsStandard_def using outs ins
    by (auto simp: CURRENT_VERSION_def list_all_iff in_set_conv_nth filter_False)
qed

lemma input_standard_signed:
  assumes "signed_input E a t i (scriptSig txin)" "scriptPubKey prev = spk_of E a"
  shows "input_standard E c t i txin prev = (c, True)"
proof -
  obtain der where der: "scriptSig txin = concat (map push_data [der @ [1], acc_pubKey a])" "length (acc_pubKey a) = 33" "length der \<le> 71"
    using assms(1) by (auto simp: signed_input_def)
  have "EvalScript E c [] (scriptSig txin) t i 0 = (True, rev [der @ [1], acc_pubKey a] @ [], c)"
    unfolding der(1) by (rule EvalScript_pushes) (use der(2,3) in \<open>simp_all add: push_data_def\<close>)
  then show ?thesis unfolding input_standard_def assms(2) spk_of_def Solver_P2PKH by (simp add: ScriptSigArgsExpected_def)
qed

lemma inputs_standard_loop_True:
  assumes "\<And>j c. j < length ins \<Longrightarrow> \<exists>prev. GetOutputFor (ins ! j) m = Some prev \<and> input_standard E c tx (k + j) (ins ! j) prev = (c, True)"
  shows "inputs_standard_loop E m tx k ins c = (c, Some True)"
  using assms
proof (induction ins arbitrary: k)
  case (Cons i ins)
  obtain prev where p: "GetOutputFor i m = Some prev" "input_standard E c tx k i prev = (c, True)"
    using Cons.prems [of 0 c] by auto
  have "inputs_standard_loop E m tx (Suc k) ins c = (c, Some True)"
  proof (rule Cons.IH)
    fix j c assume "j < length ins"
    then show "\<exists>prev. GetOutputFor (ins ! j) m = Some prev \<and> input_standard E c tx (Suc k + j) (ins ! j) prev = (c, True)"
      using Cons.prems [of "Suc j" c] by simp
  qed
  then show ?case using p by simp
qed simp

text \<open>What the daemon finds for the inputs, when the coins are on the chain.\<close>

lemma built_input:
  fixes x :: "u256 \<rightharpoonup> CTransaction"
  assumes b: "built E W accounts toAddr sats net changeAddr r picked tx" and j: "j < length (vin (CTransaction_of tx))"
    and ok: "index_ok E G T" and c: "\<forall>u\<in>set picked. on_chain E G T pb u" and v: "\<forall>u\<in>set picked. 0 \<le> coin_value u \<and> coin_value u \<le> sint MAX_MONEY"
  defines "M \<equiv> prev_tx (G\<lparr> mapTx := x \<rparr>) T" and "i \<equiv> vin (CTransaction_of tx) ! j"
  shows "input_fine M pb i" "spends_ok E (CTransaction_of tx) M j i" "in_value M i = coin_value (picked ! j)"
    "\<exists>prev. GetOutputFor i M = Some prev \<and> input_standard E c (CTransaction_of tx) j i prev = (c, True)"
proof -
  let ?t = "CTransaction_of tx" and ?u = "picked ! j"
  have p: "j < length picked" "prevout i = outpoint_of ?u" using built_prevout [OF b j] by (simp_all add: i_def)
  then have u: "?u \<in> set picked" by simp
  obtain ti t where prev: "M (op_hash (prevout i)) = Some (ti, t)" "CTransaction_GetHash E t = op_hash (prevout i)"
    "unat (op_n (prevout i)) < length (vout t)" "unat (op_n (prevout i)) < length (vSpent ti)" "CDiskTxPos_IsNull (vSpent ti ! unat (op_n (prevout i)))"
    "vout t ! unat (op_n (prevout i)) = \<lparr> nValue = word_of_int (coin_value ?u), scriptPubKey = spk_of E (coin_owner ?u) \<rparr>"
    "\<not> (IsCoinBase t \<and> pb \<noteq> [] \<and> immature (nHeight (hd pb)) ti pb)"
    using on_chain_prev [OF ok bspec [OF c u], of x] unfolding p(2) M_def by blast
  have s: "sint (word_of_int (coin_value ?u) :: i64) = coin_value ?u" using bspec [OF v u] by (intro sint_of_int_range) simp_all
  show "input_fine M pb i" using prev s bspec [OF v u] by (simp add: input_fine_def MoneyRange_sint)
  have si: "signed_input E (coin_owner ?u) ?t j (scriptSig i)" using b p(1) by (simp add: built_def i_def)
  have out: "GetOutputFor i M = Some \<lparr> nValue = word_of_int (coin_value ?u), scriptPubKey = spk_of E (coin_owner ?u) \<rparr>"
    using prev by (simp add: GetOutputFor_def)
  then show "in_value M i = coin_value ?u" by (simp add: in_value_def s)
  have "input_signed E t ?t j"
    using prev signed_input_verifies [OF si cache_ok_empty, of True] by (simp add: input_signed_def Let_def flip: i_def)
  then show "spends_ok E ?t M j i" using prev by (simp add: spends_ok_def)
  show "\<exists>prev. GetOutputFor i M = Some prev \<and> input_standard E c ?t j i prev = (c, True)"
    using out input_standard_signed [OF si] by auto
qed

lemma sum_list_nth_eq:
  "length xs = length ys \<Longrightarrow> (\<And>j. j < length xs \<Longrightarrow> f (xs ! j) = g (ys ! j)) \<Longrightarrow> sum_list (map f xs) = sum_list (map g ys)"
  by (rule arg_cong [where f = sum_list]) (auto intro: nth_equalityI)

lemma built_payable:
  fixes x :: "u256 \<rightharpoonup> CTransaction"
  assumes b: "built E W accounts toAddr sats net changeAddr r picked tx" and wd: "web_digest W"
    and ok: "index_ok E G T" and c: "\<forall>u\<in>set picked. on_chain E G T pb u" and v: "\<forall>u\<in>set picked. 0 \<le> coin_value u"
    and s: "coins_value picked \<le> sint MAX_MONEY"
  defines "M \<equiv> prev_tx (G\<lparr> mapTx := x \<rparr>) T"
  shows "payable E M pb (CTransaction_of tx)" "value_in M (CTransaction_of tx) = coins_value picked" "inputs_standard E (CTransaction_of tx) M"
proof -
  let ?t = "CTransaction_of tx"
  have len: "length (vin ?t) = length picked" using b by (metis built_def length_map)
  have v': "\<forall>u\<in>set picked. 0 \<le> coin_value u \<and> coin_value u \<le> sint MAX_MONEY"
  proof
    fix u assume "u \<in> set picked"
    then have "coin_value u \<le> coins_value picked" using coins_value_subset [of "[u]" picked] v by simp
    then show "0 \<le> coin_value u \<and> coin_value u \<le> sint MAX_MONEY" using v s \<open>u \<in> set picked\<close> by auto
  qed
  note I = built_input [OF b _ ok c v', of _ x, folded M_def]
  show vi: "value_in M ?t = coins_value picked" unfolding value_in_def coins_value_def by (rule sum_list_nth_eq [OF len]) (rule I(3))
  have "0 \<le> res_fee r" using b by (auto simp: built_def MIN_TX_FEE_js_def COIN_js_def)
  then have "out_total ?t \<le> value_in M ?t" using built_out_total(2) [OF b wd s] vi by simp
  then show "payable E M pb ?t" using I(1,2) s vi by (auto simp: payable_def in_set_conv_nth)
  have "\<not> IsCoinBase ?t \<Longrightarrow> inputs_standard_loop E M ?t 0 (vin ?t) empty_cache = (empty_cache, Some True)"
    by (rule inputs_standard_loop_True) (use I(4) in simp)
  then show "inputs_standard E ?t M" by (cases "IsCoinBase ?t") (simp_all add: inputs_standard_def AreInputsStandard_def)
qed

lemma distinct_submset: "mset ys \<subseteq># mset xs \<Longrightarrow> distinct xs \<Longrightarrow> distinct ys"
proof -
  assume m: "mset ys \<subseteq># mset xs" and "distinct xs"
  then have "count (mset xs) a \<le> 1" for a by (simp add: distinct_count_atmost_1)
  then have le: "count (mset ys) a \<le> 1" for a using mset_subset_eq_count [OF m, of a] le_trans by blast
  show ?thesis unfolding distinct_count_atmost_1
  proof
    fix a show "count (mset ys) a = (if a \<in> set ys then 1 else 0)"
    proof (cases "a \<in> set ys")
      case True
      then have "0 < count (mset ys) a" by simp
      then have "count (mset ys) a = 1" using le [of a] by linarith
      then show ?thesis using True by simp
    qed (simp add: count_eq_zero_iff)
  qed
qed

lemma picked_facts:
  assumes b: "built E W accounts toAddr sats net changeAddr r picked tx" and a: "accounts_ok W accounts"
  shows "set picked \<subseteq> set (spendable_of accounts)" "\<forall>u\<in>set picked. 0 \<le> coin_value u"
    "coins_value picked \<le> coins_value (spendable_of accounts)"
    "distinct (map outpoint_of (spendable_of accounts)) \<Longrightarrow> distinct (map outpoint_of picked)"
proof -
  have m: "mset picked \<subseteq># mset (spendable_of accounts)" using b by (simp add: built_def)
  then show sub: "set picked \<subseteq> set (spendable_of accounts)" using set_mset_mono by fastforce
  then show "\<forall>u\<in>set picked. 0 \<le> coin_value u" using a by (auto simp: accounts_ok_def)
  show "coins_value picked \<le> coins_value (spendable_of accounts)" using m a by (intro coins_value_subset) (auto simp: accounts_ok_def)
  assume "distinct (map outpoint_of (spendable_of accounts))"
  moreover have "mset (map outpoint_of picked) \<subseteq># mset (map outpoint_of (spendable_of accounts))" using m by (simp add: image_mset_subseteq_mono)
  ultimately show "distinct (map outpoint_of picked)" by (rule distinct_submset [rotated])
qed

lemma accept_known:
  assumes "CheckTransaction tx = Accept" "\<not> IsCoinBase tx" "uint (nLockTime tx) \<le> 2147483647" "tx_IsStandard tx"
    "\<not> (pool_mapTx pool (CTransaction_GetHash E tx) = None \<and> db_tx db (CTransaction_GetHash E tx) = None)"
  shows "accept E G c db pb pool fLimited tx True = (c, pool, Refused 0)"
  using assms by (auto simp: accept_def Let_def)

section \<open>An example\<close>

text \<open>One account whose only coin, of 10 CORG, is the output of a transaction in the daemon's first block file.\<close>

definition relay_prev :: CTransaction where
  "relay_prev = example_tx\<lparr> vout := [\<lparr> nValue = 1000000000, scriptPubKey = spk_of openssl_ref example_account \<rparr>] \<rparr>"

definition relay_account :: funded_account where
  "relay_account = example_account\<lparr> acc_utxos := Some
     [\<lparr> utxo_txid = toHex (rev (word_le 32 (CTransaction_GetHash openssl_ref relay_prev))), utxo_vout = 0, utxo_value = 1000000000 \<rparr>] \<rparr>"

definition relay_globals :: globals where
  "relay_globals = example_globals\<lparr> blockfile := (\<lambda>_. Some (Serialize_CTransaction relay_prev)) \<rparr>"

definition relay_db :: CTxDB where
  "relay_db = empty_db\<lparr> db_tx := [CTransaction_GetHash openssl_ref relay_prev \<mapsto> CTxIndex_new \<lparr> pos_nFile = 0, pos_nBlockPos = 0, pos_nTxPos = 0 \<rparr> 1] \<rparr>"

lemma hash_of_txid_toHex: "hash_of_txid (toHex (rev (word_le 32 h))) = h"
proof -
  have "txid_ok (toHex (rev (word_le 32 h)))" by (simp add: txid_ok_def)
  then obtain b where b: "fromHex (toHex (rev (word_le 32 h))) = Inr b" "rev b = word_le 32 (hash_of_txid (toHex (rev (word_le 32 h))))"
    using fromHex_txid by blast
  have "rev (word_le 32 h) \<noteq> []" by (metis length_word_le length_rev list.size(3) zero_neq_numeral)
  then have "b = rev (word_le 32 h)" using b(1) fromHex_toHex by fastforce
  then have "word_le 32 h = word_le 32 (hash_of_txid (toHex (rev (word_le 32 h))))" using b(2) by simp
  then have "(le_word (word_le 32 h) :: u256) = le_word (word_le 32 (hash_of_txid (toHex (rev (word_le 32 h)))))" by (rule arg_cong)
  then show ?thesis by (simp add: le_word_word_le)
qed

lemma relay_spendable:
  "spendable_of [relay_account] = [\<lparr> coin_txid = toHex (rev (word_le 32 (CTransaction_GetHash openssl_ref relay_prev))), coin_vout = 0,
     coin_value = 1000000000, coin_owner = relay_account \<rparr>]"
  by (simp add: spendable_of_def relay_account_def)

lemma relay_outpoint: "map outpoint_of (spendable_of [relay_account]) = [\<lparr> op_hash = CTransaction_GetHash openssl_ref relay_prev, op_n = 0 \<rparr>]"
  by (simp add: relay_spendable outpoint_of_def hash_of_txid_toHex ToUint32_def)

lemma relay_accounts: "accounts_ok web_ref [relay_account]"
  unfolding accounts_ok_def relay_spendable
  by (simp add: txid_ok_def account_ok_def relay_account_def example_account_def web_ref_key)

lemma relay_value: "coins_value (spendable_of [relay_account]) = 1000000000"
  by (simp add: relay_spendable)

lemma relay_returns: "\<exists>r. buildAndSign web_ref [relay_account] example_address 500000000 ''main'' example_address = Inr r"
  by (rule ref_signer.buildAndSign_Inr [OF relay_accounts example_facts(2) _ example_facts(3) refl])
    (simp_all add: relay_spendable fee_for_def estimate_def MIN_TX_FEE_js_def COIN_js_def DUST_def)

lemma relay_read: "CTransaction_ReadFromDisk relay_globals \<lparr> pos_nFile = 0, pos_nBlockPos = 0, pos_nTxPos = 0 \<rparr> = Some relay_prev"
proof -
  have "tx_ok relay_prev" using example_tx_ok by (simp add: tx_ok_def relay_prev_def txout_ok_def spk_of_def push_uint160_def MAX_SIZE_def)
  from tx.unser_ser [OF this, of "[]"] show ?thesis by (simp add: CTransaction_ReadFromDisk_def relay_globals_def)
qed

lemma relay_index: "index_ok openssl_ref relay_globals (db_tx relay_db)"
  using relay_read canonical_new [of Map.empty] by (simp add: index_ok_def relay_db_def canonical_def CTxIndex_new_def relay_prev_def)

lemma relay_on_chain: "\<forall>u\<in>set (spendable_of [relay_account]). on_chain openssl_ref relay_globals (db_tx relay_db) [] u"
  using relay_read relay_outpoint
  by (simp add: relay_spendable on_chain_def coins_of_def unspent_def output_at_def relay_db_def CTxIndex_new_def)
    (simp add: relay_prev_def relay_account_def spk_of_def)

section \<open>Properties\<close>

text \<open>
  C1. The daemon relays what the wallet sends. When \<open>buildAndSign\<close> returns, and the coins it was given
  are distinct, worth at most \<open>MAX_MONEY\<close> together, unspent and mature on the daemon's chain with
  the values and owners that the explorer reported, and not spent in the daemon's memory pool,
  then the text it returns is a transaction that the pool accepts, whatever the signature
  cache and the rate limiter say; if the daemon has it already it is refused without a penalty.
\<close>

theorem buildAndSign_relayed:
  assumes "signer E W" and "accounts_ok W accounts" and "address_text W changeAddr"
    and "buildAndSign W accounts toAddr sats net changeAddr = Inr r"
    and "res_inputs r < 253" and "coins_value (spendable_of accounts) \<le> sint MAX_MONEY" and "distinct (map outpoint_of (spendable_of accounts))"
    and "\<forall>u\<in>set (spendable_of accounts). on_chain E G (db_tx db) pindexBest u \<and> mapNextTx pool (outpoint_of u) = None"
    and "index_ok E G (db_tx db)" and "cache_ok E c"
  shows "\<exists>t h c'. res_hex r = toHex (Serialize_CTransaction t) \<and> h = CTransaction_GetHash E t \<and>
    accept E G c db pindexBest pool fLimited t True =
      (if pool_mapTx pool h = None \<and> db_tx db h = None then (c', addUnchecked pool h t, Accepted) else (c', pool, Refused 0))"
proof -
  obtain picked tx where b: "built E W accounts toAddr sats net changeAddr r picked tx"
    using signer.buildAndSign_built [OF assms(1-4)] by blast
  let ?t = "CTransaction_of tx"
  have wd: "web_digest W" by (rule signer.wallet_digest [OF assms(1)])
  note p = picked_facts [OF b assms(2)]
  have s: "coins_value picked \<le> sint MAX_MONEY" using p(3) assms(6) by simp
  have n: "length picked < 253" using b assms(5) by (simp add: built_def)
  have c: "\<forall>u\<in>set picked. on_chain E G (db_tx db) pindexBest u" using p(1) assms(8) by blast
  have free: "\<forall>txin\<in>set (vin ?t). mapNextTx pool (prevout txin) = None"
    using p(1) assms(8) by (intro built_all [OF b]) blast
  have "\<not> COutPoint_IsNull (outpoint_of u)" if "u \<in> set picked" for u
    by (rule on_chain_not_null [OF assms(9) bspec [OF c that]])
  then have chk: "CheckTransaction ?t = Accept" "\<not> IsCoinBase ?t"
    using built_checked [OF b wd s n p(4) [OF assms(7)]] by blast+
  note pay = built_payable [OF b wd assms(9) c p(2) s, of "pool_mapTx pool"]
  have fee: "res_fee r \<le> coins_value picked - out_total ?t" using built_out_total(2) [OF b wd s] by simp
  moreover have "sint (GetMinFee ?t 1000 True GMF_RELAY) \<le> res_fee r" using s by (intro built_fee [OF b n]) simp_all
  moreover have "sint MIN_RELAY_TX_FEE \<le> res_fee r" using b by (simp add: built_def MIN_TX_FEE_js_def COIN_js_def MIN_RELAY_TX_FEE_def MIN_TX_FEE_def)
  ultimately have "\<exists>c'. accept_inputs E (G\<lparr> mapTx := pool_mapTx pool \<rparr>) c db pindexBest fLimited ?t = (c', Accepted)"
    unfolding accept_inputs_iff [OF chk assms(10)] using pay by simp
  note ok = this built_standard [OF b wd] built_header [OF b] free
  have hex: "res_hex r = toHex (Serialize_CTransaction ?t)" using b by (simp add: built_def)
  show ?thesis
  proof (cases "pool_mapTx pool (CTransaction_GetHash E ?t) = None \<and> db_tx db (CTransaction_GetHash E ?t) = None")
    case True
    then show ?thesis using accept_step [OF chk, of E G c db pindexBest pool fLimited] ok hex by auto
  next
    case False
    then show ?thesis using accept_known [OF chk _ _ False, of G c pindexBest fLimited] ok hex by auto
  qed
qed

theorem buildAndSign_relayed_witness:
  "\<exists>r t h c'. buildAndSign web_ref [relay_account] example_address 500000000 ''main'' example_address = Inr r
    \<and> res_hex r = toHex (Serialize_CTransaction t) \<and> h = CTransaction_GetHash openssl_ref t
    \<and> accept openssl_ref relay_globals empty_cache relay_db [] empty_pool False t True =
      (if pool_mapTx empty_pool h = None \<and> db_tx relay_db h = None then (c', addUnchecked empty_pool h t, Accepted) else (c', empty_pool, Refused 0))"
proof -
  obtain r where r: "buildAndSign web_ref [relay_account] example_address 500000000 ''main'' example_address = Inr r" using relay_returns by blast
  obtain picked tx where "built openssl_ref web_ref [relay_account] example_address 500000000 ''main'' example_address r picked tx"
    using ref_signer.buildAndSign_built [OF relay_accounts example_facts(2) r] by blast
  then have "res_inputs r = length picked" "mset picked \<subseteq># mset (spendable_of [relay_account])" by (simp_all add: built_def)
  then have n: "res_inputs r < 253" using size_mset_mono [of "mset picked"] by (fastforce simp: relay_spendable)
  have "\<forall>u\<in>set (spendable_of [relay_account]). on_chain openssl_ref relay_globals (db_tx relay_db) [] u \<and> mapNextTx empty_pool (outpoint_of u) = None"
    using relay_on_chain by (simp add: empty_pool_def)
  from buildAndSign_relayed [OF ref_signer.signer_axioms relay_accounts example_facts(2) r n _ _ this relay_index cache_ok_empty, of False]
  show ?thesis using r relay_outpoint relay_value by simp
qed

end
