(* ===== verification/Orphans.thy ===== *)
theory Orphans
  imports Block "HOL-Library.Multiset"
begin

text \<open>
  The pools of orphans (\<open>main.cpp\<close>): blocks whose parent is not known yet, with the count of their
  bytes, and transactions whose inputs are not known yet, each with an index by what it waits for.

  A \<open>std::map\<close> is the list of its entries in the order of the keys, a \<open>std::multimap\<close> likewise, with equal
  keys in the order of insertion. A \<open>shared_ptr\<close> is the address and the object. The random hashes
  are the argument \<open>GetRandHash\<close>, a function of the number of the call.
\<close>

section \<open>Ordered maps\<close>

text \<open>\<open>insert\<close> (which keeps an entry that is there), \<open>erase\<close> and \<open>lower_bound\<close>.\<close>

definition map_insert :: "u256 \<Rightarrow> 'a \<Rightarrow> (u256 \<times> 'a) list \<Rightarrow> (u256 \<times> 'a) list" where
  "map_insert k v m = (if k \<in> fst ` set m then m else takeWhile (\<lambda>e. fst e < k) m @ (k, v) # dropWhile (\<lambda>e. fst e < k) m)"

definition map_erase :: "u256 \<Rightarrow> (u256 \<times> 'a) list \<Rightarrow> (u256 \<times> 'a) list" where
  "map_erase k m = filter (\<lambda>e. fst e \<noteq> k) m"

definition multimap_insert :: "u256 \<Rightarrow> 'a \<Rightarrow> (u256 \<times> 'a) list \<Rightarrow> (u256 \<times> 'a) list" where
  "multimap_insert k v m = takeWhile (\<lambda>e. fst e \<le> k) m @ (k, v) # dropWhile (\<lambda>e. fst e \<le> k) m"

text \<open>The entry at \<open>lower_bound\<close>, or at \<open>begin\<close> when that is the end; the map is not empty.\<close>

definition pick_entry :: "u256 \<Rightarrow> (u256 \<times> 'a) list \<Rightarrow> u256 \<times> 'a" where
  "pick_entry h m = (case List.find (\<lambda>e. h \<le> fst e) m of Some e \<Rightarrow> e | None \<Rightarrow> hd m)"

section \<open>Orphan blocks\<close>

record block_ptr =
  addr :: nat
  blk :: CBlock

record orphan_blocks =
  mapOrphanBlocks :: "(u256 \<times> block_ptr) list"
  mapOrphanBlocksByPrev :: "(u256 \<times> block_ptr) list"
  nOrphanBlockBytes :: u64

text \<open>A null merged-mining proof, which the caller's \<open>CheckBlock\<close> has excluded, counts as no bytes.\<close>

definition OrphanBlockSize :: "CBlock \<Rightarrow> u32" where
  "OrphanBlockSize block = (case GetSerializeSize_CBlock block of None \<Rightarrow> 0 | Some n \<Rightarrow> word_of_nat n)"

definition AddOrphanBlock :: "openssl \<Rightarrow> orphan_blocks \<Rightarrow> block_ptr \<Rightarrow> orphan_blocks" where
  "AddOrphanBlock E s pblock =
     (let hash = header_GetHash E (blk pblock) in
      if hash \<in> fst ` set (mapOrphanBlocks s) then s
      else s\<lparr> mapOrphanBlocks := map_insert hash pblock (mapOrphanBlocks s),
             mapOrphanBlocksByPrev := multimap_insert (hashPrevBlock (blk pblock)) pblock (mapOrphanBlocksByPrev s),
             nOrphanBlockBytes := nOrphanBlockBytes s + ucast (OrphanBlockSize (blk pblock)) \<rparr>)"

definition GetOrphanBlockBytes :: "orphan_blocks \<Rightarrow> u64" where
  "GetOrphanBlockBytes s = nOrphanBlockBytes s"

text \<open>The loop over the range, and \<open>TakeOrphanBlocksByPrev\<close>.\<close>

fun take_loop :: "openssl \<Rightarrow> (u256 \<times> block_ptr) list \<Rightarrow> (u256 \<times> block_ptr) list \<Rightarrow> u64 \<Rightarrow> block_ptr list
    \<Rightarrow> (u256 \<times> block_ptr) list \<times> u64 \<times> block_ptr list" where
  "take_loop E [] m n vTaken = (m, n, vTaken)"
| "take_loop E ((_, p) # r) m n vTaken =
     (let hash = header_GetHash E (blk p) in
      if hash \<in> fst ` set m then take_loop E r (map_erase hash m) (n - ucast (OrphanBlockSize (blk p))) (vTaken @ [p])
      else take_loop E r m n (vTaken @ [p]))"

definition TakeOrphanBlocksByPrev :: "openssl \<Rightarrow> orphan_blocks \<Rightarrow> u256 \<Rightarrow> orphan_blocks \<times> block_ptr list" where
  "TakeOrphanBlocksByPrev E s hashPrev =
     (case take_loop E (filter (\<lambda>e. fst e = hashPrev) (mapOrphanBlocksByPrev s)) (mapOrphanBlocks s) (nOrphanBlockBytes s) [] of
        (m, n, vTaken) \<Rightarrow>
          (\<lparr> mapOrphanBlocks = m, mapOrphanBlocksByPrev = filter (\<lambda>e. fst e \<noteq> hashPrev) (mapOrphanBlocksByPrev s), nOrphanBlockBytes = n \<rparr>, vTaken))"

text \<open>The inner loop of \<open>LimitOrphanBlocks\<close>: the first entry of the range that is the same pointer goes.\<close>

fun erase_ptr :: "u256 \<Rightarrow> block_ptr \<Rightarrow> (u256 \<times> block_ptr) list \<Rightarrow> (u256 \<times> block_ptr) list" where
  "erase_ptr k p [] = []"
| "erase_ptr k p (e # r) = (if fst e = k \<and> addr (snd e) = addr p then r else e # erase_ptr k p r)"

definition evict_block :: "u256 \<Rightarrow> orphan_blocks \<Rightarrow> orphan_blocks" where
  "evict_block rnd s =
     (let e = pick_entry rnd (mapOrphanBlocks s); pblock = snd e in
      s\<lparr> mapOrphanBlocksByPrev := erase_ptr (hashPrevBlock (blk pblock)) pblock (mapOrphanBlocksByPrev s),
         nOrphanBlockBytes := nOrphanBlockBytes s - ucast (OrphanBlockSize (blk pblock)),
         mapOrphanBlocks := map_erase (fst e) (mapOrphanBlocks s) \<rparr>)"

lemma pick_entry_in: "m \<noteq> [] \<Longrightarrow> pick_entry h m \<in> set m"
  by (auto simp: pick_entry_def find_Some_iff split: option.splits)

lemma map_erase_less: "e \<in> set m \<Longrightarrow> length (map_erase (fst e) m) < length m"
  unfolding map_erase_def by (rule length_filter_less) simp_all

function LimitOrphanBlocks :: "(nat \<Rightarrow> u256) \<Rightarrow> u32 \<Rightarrow> u32 \<Rightarrow> orphan_blocks \<Rightarrow> u32 \<Rightarrow> orphan_blocks \<times> u32" where
  "LimitOrphanBlocks GetRandHash nMaxBlocks nMaxBytes s nEvicted =
     (if mapOrphanBlocks s \<noteq> [] \<and> (unat nMaxBlocks < length (mapOrphanBlocks s) \<or> ucast nMaxBytes < nOrphanBlockBytes s)
      then LimitOrphanBlocks (GetRandHash \<circ> Suc) nMaxBlocks nMaxBytes (evict_block (GetRandHash 0) s) (nEvicted + 1)
      else (s, nEvicted))"
  by pat_completeness auto
termination
  by (relation "measure (\<lambda>(_, _, _, s, _). length (mapOrphanBlocks s))")
    (auto simp: evict_block_def Let_def intro: map_erase_less pick_entry_in)

declare LimitOrphanBlocks.simps [simp del]

section \<open>The invariant of the blocks\<close>

text \<open>
  Every block is filed under its hash, the index by parent has exactly the blocks of the pool, with
  the same pointers, pointers with the same address are the same, and the count of bytes is
  the sum of the sizes.
\<close>

definition by_prev :: "(u256 \<times> block_ptr) list \<Rightarrow> (u256 \<times> block_ptr) multiset" where
  "by_prev m = image_mset (\<lambda>e. (hashPrevBlock (blk (snd e)), snd e)) (mset m)"

definition block_bytes :: "(u256 \<times> block_ptr) list \<Rightarrow> int" where
  "block_bytes m = (\<Sum>e\<leftarrow>m. uint (OrphanBlockSize (blk (snd e))))"

definition orphans_ok :: "openssl \<Rightarrow> orphan_blocks \<Rightarrow> bool" where
  "orphans_ok E s \<longleftrightarrow> distinct (map fst (mapOrphanBlocks s)) \<and> sorted (map fst (mapOrphanBlocks s))
     \<and> (\<forall>e\<in>set (mapOrphanBlocks s). fst e = header_GetHash E (blk (snd e)))
     \<and> mset (mapOrphanBlocksByPrev s) = by_prev (mapOrphanBlocks s)
     \<and> inj_on (addr \<circ> snd) (set (mapOrphanBlocks s))
     \<and> nOrphanBlockBytes s = word_of_int (block_bytes (mapOrphanBlocks s))"

lemma mset_split: "mset (takeWhile P m) + mset (dropWhile P m) = mset m"
  by (metis mset_append takeWhile_dropWhile_id)

lemma mset_map_insert: "k \<notin> fst ` set m \<Longrightarrow> mset (map_insert k v m) = add_mset (k, v) (mset m)"
  by (simp add: map_insert_def mset_split)

lemma mset_multimap_insert: "mset (multimap_insert k v m) = add_mset (k, v) (mset m)"
  by (simp add: multimap_insert_def mset_split)

lemma sorted_map_insert: "sorted (map fst m) \<Longrightarrow> sorted (map fst (map_insert k v m))"
proof -
  assume s: "sorted (map fst m)"
  have "sorted (map fst (takeWhile (\<lambda>e. fst e < k) m))" "sorted (map fst (dropWhile (\<lambda>e. fst e < k) m))"
    using s by (metis takeWhile_dropWhile_id map_append sorted_append)+
  moreover have "fst x < k" if "x \<in> set (takeWhile (\<lambda>e. fst e < k) m)" for x using set_takeWhileD [OF that] by simp
  moreover have "k \<le> fst x" if "x \<in> set (dropWhile (\<lambda>e. fst e < k) m)" for x
    using s that
  proof (induction m)
    case (Cons a m)
    then show ?case by (cases "fst a < k") auto
  qed simp
  ultimately show ?thesis using s by (force simp: map_insert_def sorted_append)
qed

lemma mset_map_erase:
  assumes "distinct (map fst m)" "e \<in> set m"
  shows "mset m = add_mset e (mset (map_erase (fst e) m))"
proof -
  obtain xs ys where m: "m = xs @ e # ys" using assms(2) by (meson split_list)
  have "fst e \<notin> fst ` set xs" "fst e \<notin> fst ` set ys" using assms(1) by (auto simp: m)
  then have "filter (\<lambda>x. fst x \<noteq> fst e) xs = xs" "filter (\<lambda>x. fst x \<noteq> fst e) ys = ys" by (auto simp: filter_id_conv image_iff)
  then show ?thesis by (simp add: m map_erase_def)
qed

lemma mset_erase_ptr:
  assumes "(k, p) \<in> set m" "\<And>q. (k, q) \<in> set m \<Longrightarrow> addr q = addr p \<Longrightarrow> q = p"
  shows "mset m = add_mset (k, p) (mset (erase_ptr k p m))"
  using assms
proof (induction m)
  case (Cons e m)
  show ?case
  proof (cases "fst e = k \<and> addr (snd e) = addr p")
    case True
    then have "e = (k, p)" using Cons.prems(2) [of "snd e"] by (cases e) auto
    then show ?thesis by simp
  next
    case False
    then have "(k, p) \<in> set m" using Cons.prems(1) by auto
    then have "mset m = add_mset (k, p) (mset (erase_ptr k p m))" using Cons.IH Cons.prems(2) by auto
    then show ?thesis using False by auto
  qed
qed simp

lemma by_prev_add: "mset m = add_mset e (mset m') \<Longrightarrow> by_prev m = add_mset (hashPrevBlock (blk (snd e)), snd e) (by_prev m')"
  by (simp add: by_prev_def)

lemma block_bytes_add:
  assumes "mset m = add_mset e (mset m')"
  shows "block_bytes m = uint (OrphanBlockSize (blk (snd e))) + block_bytes m'"
proof -
  have "block_bytes m = sum_mset (image_mset (\<lambda>e. uint (OrphanBlockSize (blk (snd e)))) (mset m))" for m
    unfolding block_bytes_def by (simp flip: sum_mset_sum_list)
  then show ?thesis using assms by simp
qed

lemma block_bytes_filter: "block_bytes m = block_bytes (filter P m) + block_bytes (filter (\<lambda>e. \<not> P e) m)"
  by (induction m) (auto simp: block_bytes_def)

lemma ucast_size: "(ucast (w :: u32) :: u64) = word_of_int (uint w)"
  by (rule ucast_eq)

lemma orphans_okD:
  assumes "orphans_ok E s"
  shows "distinct (map fst (mapOrphanBlocks s))" "sorted (map fst (mapOrphanBlocks s))"
    "e \<in> set (mapOrphanBlocks s) \<Longrightarrow> fst e = header_GetHash E (blk (snd e))"
    "mset (mapOrphanBlocksByPrev s) = by_prev (mapOrphanBlocks s)" "inj_on (addr \<circ> snd) (set (mapOrphanBlocks s))"
    "nOrphanBlockBytes s = word_of_int (block_bytes (mapOrphanBlocks s))"
  using assms by (auto simp: orphans_ok_def)

lemma AddOrphanBlock_ok:
  assumes "orphans_ok E s" and new: "\<forall>e\<in>set (mapOrphanBlocks s). addr (snd e) = addr p \<longrightarrow> snd e = p"
  shows "orphans_ok E (AddOrphanBlock E s p)"
proof (cases "header_GetHash E (blk p) \<in> fst ` set (mapOrphanBlocks s)")
  case True
  then show ?thesis using assms(1) by (simp add: AddOrphanBlock_def Let_def)
next
  case False
  let ?h = "header_GetHash E (blk p)"
  let ?m = "map_insert ?h p (mapOrphanBlocks s)"
  note D = orphans_okD [OF assms(1)]
  have m: "mset ?m = add_mset (?h, p) (mset (mapOrphanBlocks s))" by (rule mset_map_insert [OF False])
  then have set: "set ?m = insert (?h, p) (set (mapOrphanBlocks s))" by (metis set_mset_add_mset_insert set_mset_mset)
  have "mset (map fst ?m) = mset (map fst ((?h, p) # mapOrphanBlocks s))" using m by (metis mset_map mset.simps(2))
  then have "distinct (map fst ?m)" using False D(1) by (metis distinct.simps(2) list.set_map list.simps(9) fst_conv mset_eq_imp_distinct_iff)
  moreover have "inj_on (addr \<circ> snd) (set ?m)"
  proof -
    have "addr (snd e) \<noteq> addr p" if "e \<in> set (mapOrphanBlocks s)" for e
      using that new False D(3) [OF that] by (metis image_eqI)
    then show ?thesis unfolding set using D(5) by (force simp: inj_on_def)
  qed
  moreover have "sorted (map fst ?m)" by (rule sorted_map_insert [OF D(2)])
  moreover have "\<forall>e\<in>set ?m. fst e = header_GetHash E (blk (snd e))" unfolding set using D(3) by simp
  moreover have sel: "mapOrphanBlocks (AddOrphanBlock E s p) = ?m"
    "mapOrphanBlocksByPrev (AddOrphanBlock E s p) = multimap_insert (hashPrevBlock (blk p)) p (mapOrphanBlocksByPrev s)"
    "nOrphanBlockBytes (AddOrphanBlock E s p) = nOrphanBlockBytes s + ucast (OrphanBlockSize (blk p))"
    using False by (simp_all add: AddOrphanBlock_def Let_def)
  moreover have "mset (mapOrphanBlocksByPrev (AddOrphanBlock E s p)) = by_prev ?m"
    unfolding sel mset_multimap_insert by_prev_add [OF m] D(4) by simp
  moreover have "nOrphanBlockBytes (AddOrphanBlock E s p) = word_of_int (block_bytes ?m)"
    unfolding sel block_bytes_add [OF m] D(6) ucast_size by simp
  ultimately show ?thesis unfolding orphans_ok_def sel(1) by blast
qed

lemma evict_block_ok:
  assumes "orphans_ok E s" "mapOrphanBlocks s \<noteq> []"
  shows "orphans_ok E (evict_block rnd s)" "length (mapOrphanBlocks (evict_block rnd s)) = length (mapOrphanBlocks s) - 1"
    "set (mapOrphanBlocks (evict_block rnd s)) \<subseteq> set (mapOrphanBlocks s)"
proof -
  define e where "e = pick_entry rnd (mapOrphanBlocks s)"
  note D = orphans_okD [OF assms(1)]
  let ?m = "map_erase (fst e) (mapOrphanBlocks s)" and ?k = "hashPrevBlock (blk (snd e))"
  have e: "e \<in> set (mapOrphanBlocks s)" unfolding e_def by (rule pick_entry_in [OF assms(2)])
  have m: "mset (mapOrphanBlocks s) = add_mset e (mset ?m)" by (rule mset_map_erase [OF D(1) e])
  have mem: "q \<in> snd ` set (mapOrphanBlocks s)" if "(k, q) \<in> set (mapOrphanBlocksByPrev s)" for k q
  proof -
    have "(k, q) \<in># by_prev (mapOrphanBlocks s)" using that D(4) by (metis set_mset_mset)
    then show ?thesis by (auto simp: by_prev_def)
  qed
  have "(?k, snd e) \<in># by_prev (mapOrphanBlocks s)" by (simp add: by_prev_add [OF m])
  then have "(?k, snd e) \<in> set (mapOrphanBlocksByPrev s)" using D(4) by (metis set_mset_mset)
  moreover have "q = snd e" if "(?k, q) \<in> set (mapOrphanBlocksByPrev s)" "addr q = addr (snd e)" for q
    using mem [OF that(1)] that(2) e D(5) by (auto simp: inj_on_def)
  ultimately have "mset (mapOrphanBlocksByPrev s) = add_mset (?k, snd e) (mset (erase_ptr ?k (snd e) (mapOrphanBlocksByPrev s)))"
    by (rule mset_erase_ptr)
  then have p: "mset (erase_ptr ?k (snd e) (mapOrphanBlocksByPrev s)) = by_prev ?m" using D(4) by_prev_add [OF m] by simp
  have sub: "set ?m \<subseteq> set (mapOrphanBlocks s)" by (auto simp: map_erase_def)
  have ev: "evict_block rnd s = \<lparr> mapOrphanBlocks = ?m, mapOrphanBlocksByPrev = erase_ptr ?k (snd e) (mapOrphanBlocksByPrev s),
      nOrphanBlockBytes = nOrphanBlockBytes s - ucast (OrphanBlockSize (blk (snd e))) \<rparr>"
    by (cases s) (simp add: evict_block_def Let_def e_def)
  have "distinct (map fst ?m)" "sorted (map fst ?m)"
    using D(1,2) by (auto simp: map_erase_def distinct_map_filter sorted_filter)
  moreover have "inj_on (addr \<circ> snd) (set ?m)" by (rule inj_on_subset [OF D(5) sub])
  moreover have "nOrphanBlockBytes s - ucast (OrphanBlockSize (blk (snd e))) = word_of_int (block_bytes ?m)"
    unfolding D(6) block_bytes_add [OF m] ucast_size by simp
  ultimately show "orphans_ok E (evict_block rnd s)" unfolding ev orphans_ok_def using p D(3) sub by auto
  show "set (mapOrphanBlocks (evict_block rnd s)) \<subseteq> set (mapOrphanBlocks s)" using sub by (simp add: ev)
  have "length (mapOrphanBlocks s) = Suc (length ?m)" using m by (metis size_add_mset size_mset)
  then show "length (mapOrphanBlocks (evict_block rnd s)) = length (mapOrphanBlocks s) - 1" by (simp add: ev)
qed

lemma LimitOrphanBlocks_ok:
  assumes "orphans_ok E s" "LimitOrphanBlocks rnd nMaxBlocks nMaxBytes s n = (s', n')"
  shows "orphans_ok E s' \<and> length (mapOrphanBlocks s') \<le> unat nMaxBlocks \<and> nOrphanBlockBytes s' \<le> ucast nMaxBytes
    \<and> set (mapOrphanBlocks s') \<subseteq> set (mapOrphanBlocks s) \<and> length (mapOrphanBlocks s') \<le> length (mapOrphanBlocks s)
    \<and> n' = n + word_of_nat (length (mapOrphanBlocks s) - length (mapOrphanBlocks s'))"
  using assms
proof (induction rnd nMaxBlocks nMaxBytes s n rule: LimitOrphanBlocks.induct)
  case (1 rnd nMaxBlocks nMaxBytes s n)
  show ?case
  proof (cases "mapOrphanBlocks s \<noteq> [] \<and> (unat nMaxBlocks < length (mapOrphanBlocks s) \<or> ucast nMaxBytes < nOrphanBlockBytes s)")
    case True
    then have ne: "mapOrphanBlocks s \<noteq> []" by blast
    note ev = evict_block_ok [OF "1.prems"(1) ne, of "rnd 0"]
    have "LimitOrphanBlocks (rnd \<circ> Suc) nMaxBlocks nMaxBytes (evict_block (rnd 0) s) (n + 1) = (s', n')"
      using "1.prems"(2) True by (subst (asm) LimitOrphanBlocks.simps) simp
    note ih = "1.IH" [OF True ev(1) this]
    have "length (mapOrphanBlocks s) - length (mapOrphanBlocks s') = Suc (length (mapOrphanBlocks s) - 1 - length (mapOrphanBlocks s'))"
      using ih ev(2) ne by (cases "mapOrphanBlocks s") auto
    then have "n' = n + word_of_nat (length (mapOrphanBlocks s) - length (mapOrphanBlocks s'))" using ih ev(2) by simp
    then show ?thesis using ih ev(2,3) by auto
  next
    case False
    then have "s' = s" "n' = n" using "1.prems"(2) by (subst (asm) LimitOrphanBlocks.simps, auto)+
    moreover have "nOrphanBlockBytes s = 0" if "mapOrphanBlocks s = []"
      using orphans_okD(6) [OF "1.prems"(1)] that by (simp add: block_bytes_def)
    ultimately show ?thesis using False "1.prems"(1) by (cases "mapOrphanBlocks s = []") auto
  qed
qed

lemma take_loop_eq:
  assumes "distinct (map fst m)" "\<forall>e\<in>set r. header_GetHash E (blk (snd e)) \<in> fst ` set m" "distinct (map (header_GetHash E \<circ> blk \<circ> snd) r)"
  shows "take_loop E r m n v = (filter (\<lambda>e. fst e \<notin> (header_GetHash E \<circ> blk \<circ> snd) ` set r) m,
    n - word_of_int (\<Sum>e\<leftarrow>r. uint (OrphanBlockSize (blk (snd e)))), v @ map snd r)"
  using assms
proof (induction r arbitrary: m n v)
  case (Cons e r)
  obtain k p where e: "e = (k, p)" by fastforce
  let ?h = "header_GetHash E (blk p)"
  have "?h \<in> fst ` set m" using Cons.prems(2) e by simp
  then have step: "take_loop E (e # r) m n v = take_loop E r (map_erase ?h m) (n - ucast (OrphanBlockSize (blk p))) (v @ [p])"
    by (simp add: e Let_def)
  have d: "distinct (map fst (map_erase ?h m))" using Cons.prems(1) by (simp add: map_erase_def distinct_map_filter)
  have mem: "\<forall>e\<in>set r. header_GetHash E (blk (snd e)) \<in> fst ` set (map_erase ?h m)"
  proof
    fix x assume x: "x \<in> set r"
    then have "header_GetHash E (blk (snd x)) \<noteq> ?h" using Cons.prems(3) e by (auto simp: image_iff)
    moreover obtain y where "y \<in> set m" "header_GetHash E (blk (snd x)) = fst y" using Cons.prems(2) x by auto
    ultimately show "header_GetHash E (blk (snd x)) \<in> fst ` set (map_erase ?h m)" by (simp add: map_erase_def)
  qed
  have "distinct (map (header_GetHash E \<circ> blk \<circ> snd) r)" using Cons.prems(3) by (simp add: comp_def)
  note ih = Cons.IH [OF d mem this]
  have f: "filter (\<lambda>x. fst x \<notin> (header_GetHash E \<circ> blk \<circ> snd) ` set r) (map_erase ?h m)
      = filter (\<lambda>x. fst x \<notin> (header_GetHash E \<circ> blk \<circ> snd) ` set (e # r)) m"
    unfolding map_erase_def filter_filter by (rule filter_cong [OF refl]) (auto simp: e)
  have n: "n - ucast (OrphanBlockSize (blk p)) - word_of_int x = n - word_of_int (uint (OrphanBlockSize (blk p)) + x)" for x
    unfolding ucast_size by simp
  show ?case unfolding step ih f n by (simp add: e)
qed simp

lemma TakeOrphanBlocksByPrev_ok:
  assumes "orphans_ok E s" "TakeOrphanBlocksByPrev E s hashPrev = (s', vTaken)"
  shows "orphans_ok E s'" "mapOrphanBlocks s' = filter (\<lambda>e. hashPrevBlock (blk (snd e)) \<noteq> hashPrev) (mapOrphanBlocks s)"
    "mset vTaken = image_mset snd (filter_mset (\<lambda>e. hashPrevBlock (blk (snd e)) = hashPrev) (mset (mapOrphanBlocks s)))"
proof -
  note D = orphans_okD [OF assms(1)]
  let ?m = "mapOrphanBlocks s" and ?b = "mapOrphanBlocksByPrev s" and ?H = "header_GetHash E \<circ> blk \<circ> snd"
  let ?r = "filter (\<lambda>e. fst e = hashPrev) ?b" and ?m' = "filter (\<lambda>e. hashPrevBlock (blk (snd e)) \<noteq> hashPrev) ?m"
  have H: "?H e = fst e" if "e \<in> set ?m" for e using D(3) [OF that] by simp
  have "mset (map ?H ?b) = image_mset ?H (by_prev ?m)" using D(4) by simp
  also have "\<dots> = image_mset fst (mset ?m)"
    unfolding by_prev_def multiset.map_comp using H by (intro image_mset_cong) (simp add: comp_def)
  finally have "mset (map ?H ?b) = mset (map fst ?m)" by simp
  then have "distinct (map ?H ?b)" using D(1) mset_eq_imp_distinct_iff by blast
  then have dr: "distinct (map ?H ?r)" by (rule distinct_map_filter)
  have r: "mset ?r = image_mset (\<lambda>e. (hashPrevBlock (blk (snd e)), snd e)) (filter_mset (\<lambda>e. hashPrevBlock (blk (snd e)) = hashPrev) (mset ?m))"
    unfolding mset_filter D(4) by_prev_def filter_mset_image_mset by simp
  have rset: "set ?r = (\<lambda>e. (hashPrevBlock (blk (snd e)), snd e)) ` {e \<in> set ?m. hashPrevBlock (blk (snd e)) = hashPrev}"
    using arg_cong [OF r, of set_mset] by simp
  have hr: "?H ` set ?r = fst ` {e \<in> set ?m. hashPrevBlock (blk (snd e)) = hashPrev}" unfolding rset using D(3) by (force simp: image_iff)
  have f: "filter (\<lambda>e. fst e \<notin> ?H ` set ?r) ?m = ?m'"
  proof (rule filter_cong [OF refl])
    fix e assume e: "e \<in> set ?m"
    have "fst e \<in> ?H ` set ?r \<longleftrightarrow> hashPrevBlock (blk (snd e)) = hashPrev"
      unfolding hr using inj_on_image_mem_iff [of fst "set ?m" e "{e \<in> set ?m. hashPrevBlock (blk (snd e)) = hashPrev}"] e D(1)
      by (simp add: distinct_map subset_iff)
    then show "(fst e \<notin> ?H ` set ?r) = (hashPrevBlock (blk (snd e)) \<noteq> hashPrev)" by simp
  qed
  have mem: "\<forall>e\<in>set ?r. header_GetHash E (blk (snd e)) \<in> fst ` set ?m" unfolding rset using D(3) by force
  have res: "mapOrphanBlocks s' = ?m'" "mapOrphanBlocksByPrev s' = filter (\<lambda>e. fst e \<noteq> hashPrev) ?b"
    "nOrphanBlockBytes s' = nOrphanBlockBytes s - word_of_int (\<Sum>e\<leftarrow>?r. uint (OrphanBlockSize (blk (snd e))))" "vTaken = map snd ?r"
    using assms(2) unfolding TakeOrphanBlocksByPrev_def take_loop_eq [OF D(1) mem dr] f by auto
  show "mapOrphanBlocks s' = ?m'" by (rule res)
  show "mset vTaken = image_mset snd (filter_mset (\<lambda>e. hashPrevBlock (blk (snd e)) = hashPrev) (mset ?m))"
    unfolding res mset_map r by (simp add: multiset.map_comp comp_def)
  have sz: "(\<Sum>e\<leftarrow>?r. uint (OrphanBlockSize (blk (snd e)))) = block_bytes (filter (\<lambda>e. hashPrevBlock (blk (snd e)) = hashPrev) ?m)"
    unfolding block_bytes_def sum_mset_sum_list [symmetric] mset_map r by (simp add: multiset.map_comp comp_def)
  have split: "block_bytes ?m = block_bytes (filter (\<lambda>e. hashPrevBlock (blk (snd e)) = hashPrev) ?m) + block_bytes ?m'"
    by (rule block_bytes_filter)
  have "nOrphanBlockBytes s' = word_of_int (block_bytes ?m')" unfolding res(3) sz D(6) split by simp
  moreover have "mset (mapOrphanBlocksByPrev s') = by_prev ?m'" unfolding res(2) mset_filter D(4) by_prev_def filter_mset_image_mset by simp
  moreover have "distinct (map fst ?m')" "sorted (map fst ?m')" using D(1,2) by (auto simp: distinct_map_filter sorted_filter)
  moreover have "inj_on (addr \<circ> snd) (set ?m')" by (rule inj_on_subset [OF D(5)]) auto
  ultimately show "orphans_ok E s'" unfolding orphans_ok_def res(1) using D(3) by simp
qed

section \<open>Reachable pools of blocks\<close>

definition MAX_ORPHAN_BLOCKS :: u32 where "MAX_ORPHAN_BLOCKS = 750"
definition MAX_ORPHAN_BLOCKS_BYTES :: u32 where "MAX_ORPHAN_BLOCKS_BYTES = 32 * word_of_nat MAX_BLOCK_SIZE"

definition no_orphans :: orphan_blocks where
  "no_orphans = \<lparr> mapOrphanBlocks = [], mapOrphanBlocksByPrev = [], nOrphanBlockBytes = 0 \<rparr>"

text \<open>
  What \<open>ProcessBlock\<close> does with the pool: a new copy of a block whose parent is missing is added and the
  limits enforced; the blocks that wait for an accepted block are taken out.
\<close>

inductive orphans_reachable :: "openssl \<Rightarrow> orphan_blocks \<Rightarrow> bool" for E where
  Start: "orphans_reachable E no_orphans"
| Orphan: "\<lbrakk>orphans_reachable E s; addr p \<notin> (addr \<circ> snd) ` set (mapOrphanBlocks s);
     LimitOrphanBlocks GetRandHash MAX_ORPHAN_BLOCKS MAX_ORPHAN_BLOCKS_BYTES (AddOrphanBlock E s p) 0 = (s', nEvicted)\<rbrakk> \<Longrightarrow> orphans_reachable E s'"
| Parent: "\<lbrakk>orphans_reachable E s; TakeOrphanBlocksByPrev E s hashPrev = (s', vTaken)\<rbrakk> \<Longrightarrow> orphans_reachable E s'"

lemma block_bytes_nonneg: "0 \<le> block_bytes m" "block_bytes m \<le> int (length m) * (2 ^ 32 - 1)"
proof -
  show "0 \<le> block_bytes m" by (auto simp: block_bytes_def intro!: sum_list_nonneg)
  show "block_bytes m \<le> int (length m) * (2 ^ 32 - 1)"
  proof (induction m)
    case (Cons e m)
    have "uint (OrphanBlockSize (blk (snd e))) \<le> 2 ^ 32 - 1" using uint_lt2p [of "OrphanBlockSize (blk (snd e))"] by simp
    then show ?case using Cons by (simp add: block_bytes_def algebra_simps)
  qed (simp add: block_bytes_def)
qed

lemma orphan_bytes_eq:
  assumes "orphans_ok E s" "length (mapOrphanBlocks s) \<le> 750"
  shows "uint (nOrphanBlockBytes s) = block_bytes (mapOrphanBlocks s)"
proof -
  have "block_bytes (mapOrphanBlocks s) \<le> 750 * (2 ^ 32 - 1)"
    using block_bytes_nonneg(2) [of "mapOrphanBlocks s"] assms(2) by simp
  then show ?thesis unfolding orphans_okD(6) [OF assms(1)]
    using block_bytes_nonneg(1) [of "mapOrphanBlocks s"] by (simp add: unsigned_of_int take_bit_int_eq_self)
qed

lemma orphans_reachable_ok:
  assumes "orphans_reachable E s"
  shows "orphans_ok E s \<and> length (mapOrphanBlocks s) \<le> 750 \<and> block_bytes (mapOrphanBlocks s) \<le> 32000000"
  using assms
proof (induction rule: orphans_reachable.induct)
  case Start
  then show ?case by (simp add: no_orphans_def orphans_ok_def by_prev_def block_bytes_def)
next
  case (Orphan s p GetRandHash s' nEvicted)
  have "\<forall>e\<in>set (mapOrphanBlocks s). addr (snd e) = addr p \<longrightarrow> snd e = p" using Orphan.hyps(2) by force
  then have "orphans_ok E (AddOrphanBlock E s p)" using AddOrphanBlock_ok Orphan.IH by blast
  from LimitOrphanBlocks_ok [OF this Orphan.hyps(3)]
  have l: "orphans_ok E s'" "length (mapOrphanBlocks s') \<le> 750" "nOrphanBlockBytes s' \<le> 32000000"
    by (simp_all add: MAX_ORPHAN_BLOCKS_def MAX_ORPHAN_BLOCKS_BYTES_def MAX_BLOCK_SIZE_def)
  have "unat (nOrphanBlockBytes s') \<le> 32000000" using l(3) by (simp add: word_le_nat_alt)
  then have "uint (nOrphanBlockBytes s') \<le> 32000000" using uint_nat [of "nOrphanBlockBytes s'"] by linarith
  then show ?case using orphan_bytes_eq [OF l(1,2)] l(1,2) by simp
next
  case (Parent s hashPrev s' vTaken)
  have ok: "orphans_ok E s" using Parent by blast
  note T = TakeOrphanBlocksByPrev_ok [OF ok Parent.hyps(2)]
  have "length (mapOrphanBlocks s') \<le> length (mapOrphanBlocks s)" unfolding T(2) by (rule length_filter_le)
  moreover have "block_bytes (mapOrphanBlocks s') \<le> block_bytes (mapOrphanBlocks s)"
    unfolding T(2) using block_bytes_filter [of "mapOrphanBlocks s" "\<lambda>e. hashPrevBlock (blk (snd e)) \<noteq> hashPrev"] block_bytes_nonneg(1) by simp
  ultimately show ?case using T(1) Parent.IH by linarith
qed

section \<open>Properties of the pool of blocks\<close>

text \<open>
  C18. The pool of orphan blocks stays within its limits. However the blocks arrive, and whatever the
  random numbers, after every step the pool has at most 750 blocks whose sizes add up to at most 32
  million bytes; the counter is exactly this sum, each block is filed under its own hash, and the
  index by parent has exactly the blocks of the pool. The eviction loop ends.
\<close>

theorem orphans_bounded:
  assumes "orphans_reachable E s"
  shows "length (mapOrphanBlocks s) \<le> 750
    \<and> (\<Sum>e\<leftarrow>mapOrphanBlocks s. uint (OrphanBlockSize (blk (snd e)))) \<le> 32000000
    \<and> uint (GetOrphanBlockBytes s) = (\<Sum>e\<leftarrow>mapOrphanBlocks s. uint (OrphanBlockSize (blk (snd e))))
    \<and> (\<forall>e\<in>set (mapOrphanBlocks s). fst e = header_GetHash E (blk (snd e)))
    \<and> mset (mapOrphanBlocksByPrev s) = mset (map (\<lambda>e. (hashPrevBlock (blk (snd e)), snd e)) (mapOrphanBlocks s))"
proof -
  have ok: "orphans_ok E s" "length (mapOrphanBlocks s) \<le> 750" "block_bytes (mapOrphanBlocks s) \<le> 32000000"
    using orphans_reachable_ok [OF assms] by blast+
  then show ?thesis using orphan_bytes_eq [OF ok(1,2)] orphans_okD(3,4) [OF ok(1)]
    by (simp add: GetOrphanBlockBytes_def block_bytes_def by_prev_def)
qed

theorem orphans_bounded_witness:
  "\<exists>s n. LimitOrphanBlocks (\<lambda>_. 0) MAX_ORPHAN_BLOCKS MAX_ORPHAN_BLOCKS_BYTES
      (AddOrphanBlock openssl_ref no_orphans \<lparr> addr = 1, blk = example_block 1 \<rparr>) 0 = (s, n)
    \<and> length (mapOrphanBlocks s) \<le> 750"
proof -
  obtain s n where r: "LimitOrphanBlocks (\<lambda>_. 0) MAX_ORPHAN_BLOCKS MAX_ORPHAN_BLOCKS_BYTES
      (AddOrphanBlock openssl_ref no_orphans \<lparr> addr = 1, blk = example_block 1 \<rparr>) 0 = (s, n)" by fastforce
  have "orphans_reachable openssl_ref s"
    by (rule orphans_reachable.Orphan [OF orphans_reachable.Start _ r]) (simp add: no_orphans_def)
  from orphans_bounded [OF this] r show ?thesis by blast
qed

text \<open>
  When a block arrives, \<open>TakeOrphanBlocksByPrev\<close> gives back exactly the orphans that wait for it, each once,
  and leaves exactly the others.
\<close>

theorem TakeOrphanBlocksByPrev_waiting:
  assumes "orphans_reachable E s" and "TakeOrphanBlocksByPrev E s hashPrev = (s', vTaken)"
  shows "mset vTaken = mset (filter (\<lambda>p. hashPrevBlock (blk p) = hashPrev) (map snd (mapOrphanBlocks s)))
    \<and> mapOrphanBlocks s' = filter (\<lambda>e. hashPrevBlock (blk (snd e)) \<noteq> hashPrev) (mapOrphanBlocks s)"
  using TakeOrphanBlocksByPrev_ok [OF _ assms(2)] orphans_reachable_ok [OF assms(1)] by (simp add: filter_map comp_def)

theorem TakeOrphanBlocksByPrev_waiting_witness:
  "\<exists>s' v. TakeOrphanBlocksByPrev openssl_ref no_orphans 0 = (s', v) \<and> mset v = {#}"
proof -
  obtain s' v where r: "TakeOrphanBlocksByPrev openssl_ref no_orphans 0 = (s', v)" by fastforce
  from TakeOrphanBlocksByPrev_waiting [OF orphans_reachable.Start r] show ?thesis using r by (simp add: no_orphans_def)
qed

section \<open>Orphan transactions\<close>

text \<open>The messages by the hash of their transaction, and for every hash the messages that wait for it.\<close>

record orphan_txs =
  mapOrphanTransactions :: "(u256 \<times> bytes) list"
  mapOrphanTransactionsByPrev :: "u256 \<rightharpoonup> (u256 \<times> bytes) list"

definition DEFAULT_MAX_MESSAGE_SIZE :: nat where "DEFAULT_MAX_MESSAGE_SIZE = 5000"

text \<open>What \<open>operator[]\<close> finds, or creates empty.\<close>

definition waiting :: "(u256 \<rightharpoonup> (u256 \<times> bytes) list) \<Rightarrow> u256 \<Rightarrow> (u256 \<times> bytes) list" where
  "waiting B h = (case B h of None \<Rightarrow> [] | Some l \<Rightarrow> l)"

definition add_waiting :: "u256 \<Rightarrow> bytes \<Rightarrow> CTxIn \<Rightarrow> (u256 \<rightharpoonup> (u256 \<times> bytes) list) \<Rightarrow> (u256 \<rightharpoonup> (u256 \<times> bytes) list)" where
  "add_waiting hash vMsg txin B = B(op_hash (prevout txin) \<mapsto> map_insert hash vMsg (waiting B (op_hash (prevout txin))))"

text \<open>\<open>None\<close> is the exception of the deserialization.\<close>

definition AddOrphanTx :: "openssl \<Rightarrow> orphan_txs \<Rightarrow> bytes \<Rightarrow> (orphan_txs \<times> bool) option" where
  "AddOrphanTx E s vMsg =
     (case Unserialize_CTransaction vMsg of None \<Rightarrow> None
      | Some (tx, _) \<Rightarrow>
          (let hash = CTransaction_GetHash E tx in
           if hash \<in> fst ` set (mapOrphanTransactions s) then Some (s, False)
           else if length vMsg > DEFAULT_MAX_MESSAGE_SIZE then Some (s, False)
           else Some (s\<lparr> mapOrphanTransactions := map_insert hash vMsg (mapOrphanTransactions s),
                    mapOrphanTransactionsByPrev := fold (add_waiting hash vMsg) (vin tx) (mapOrphanTransactionsByPrev s) \<rparr>, True)))"

definition erase_waiting :: "u256 \<Rightarrow> CTxIn \<Rightarrow> (u256 \<rightharpoonup> (u256 \<times> bytes) list) \<Rightarrow> (u256 \<rightharpoonup> (u256 \<times> bytes) list)" where
  "erase_waiting hash txin B =
     (let h = op_hash (prevout txin); l = map_erase hash (waiting B h) in
      if l = [] then B(h := None) else B(h \<mapsto> l))"

definition EraseOrphanTx :: "orphan_txs \<Rightarrow> u256 \<Rightarrow> orphan_txs option" where
  "EraseOrphanTx s hash =
     (case map_of (mapOrphanTransactions s) hash of None \<Rightarrow> Some s
      | Some pvMsg \<Rightarrow>
          (case Unserialize_CTransaction pvMsg of None \<Rightarrow> None
           | Some (tx, _) \<Rightarrow>
               Some (s\<lparr> mapOrphanTransactionsByPrev := fold (erase_waiting hash) (vin tx) (mapOrphanTransactionsByPrev s),
                 mapOrphanTransactions := map_erase hash (mapOrphanTransactions s) \<rparr>)))"

lemma EraseOrphanTx_less:
  assumes "EraseOrphanTx s (fst e) = Some s'" "e \<in> set (mapOrphanTransactions s)"
  shows "length (mapOrphanTransactions s') < length (mapOrphanTransactions s)"
proof -
  obtain m where "map_of (mapOrphanTransactions s) (fst e) = Some m" using assms(2) by (metis map_of_eq_None_iff imageI not_None_eq)
  then have "mapOrphanTransactions s' = map_erase (fst e) (mapOrphanTransactions s)"
    using assms(1) by (auto simp: EraseOrphanTx_def split: option.splits)
  then show ?thesis using map_erase_less [OF assms(2)] by simp
qed

function LimitOrphanTxSize :: "(nat \<Rightarrow> u256) \<Rightarrow> u32 \<Rightarrow> orphan_txs \<Rightarrow> u32 \<Rightarrow> (orphan_txs \<times> u32) option" where
  "LimitOrphanTxSize GetRandHash nMaxOrphans s nEvicted =
     (if unat nMaxOrphans < length (mapOrphanTransactions s)
      then case EraseOrphanTx s (fst (pick_entry (GetRandHash 0) (mapOrphanTransactions s))) of None \<Rightarrow> None
        | Some s' \<Rightarrow> LimitOrphanTxSize (GetRandHash \<circ> Suc) nMaxOrphans s' (nEvicted + 1)
      else Some (s, nEvicted))"
  by pat_completeness auto
termination
proof (relation "measure (\<lambda>(_, _, s, _). length (mapOrphanTransactions s))", simp)
  fix rnd :: "nat \<Rightarrow> u256" and nMaxOrphans n :: u32 and s s' :: orphan_txs
  assume a: "unat nMaxOrphans < length (mapOrphanTransactions s)"
    and e: "EraseOrphanTx s (fst (pick_entry (rnd 0) (mapOrphanTransactions s))) = Some s'"
  have "pick_entry (rnd 0) (mapOrphanTransactions s) \<in> set (mapOrphanTransactions s)" using a by (intro pick_entry_in) auto
  from EraseOrphanTx_less [OF e this]
  show "((rnd \<circ> Suc, nMaxOrphans, s', n + 1), rnd, nMaxOrphans, s, n) \<in> measure (\<lambda>(_, _, s, _). length (mapOrphanTransactions s))" by simp
qed

declare LimitOrphanTxSize.simps [simp del]

text \<open>
  Every message is small, can be read, and is filed under the hash of its transaction; a message
  waits for exactly the hashes its inputs name; no list of waiting messages is empty.
\<close>

definition names :: "bytes \<Rightarrow> u256 set" where
  "names vMsg = (case Unserialize_CTransaction vMsg of None \<Rightarrow> {} | Some (tx, _) \<Rightarrow> (op_hash \<circ> prevout) ` set (vin tx))"

definition orphan_txs_ok :: "openssl \<Rightarrow> orphan_txs \<Rightarrow> bool" where
  "orphan_txs_ok E s \<longleftrightarrow> distinct (map fst (mapOrphanTransactions s))
     \<and> (\<forall>(h, m)\<in>set (mapOrphanTransactions s). length m \<le> 5000 \<and> (\<exists>tx r. Unserialize_CTransaction m = Some (tx, r) \<and> CTransaction_GetHash E tx = h))
     \<and> (\<forall>p. set (waiting (mapOrphanTransactionsByPrev s) p) = {(h, m) \<in> set (mapOrphanTransactions s). p \<in> names m}
         \<and> mapOrphanTransactionsByPrev s p \<noteq> Some [])"

lemma set_map_insert: "set (map_insert k v m) = (if k \<in> fst ` set m then set m else insert (k, v) (set m))"
  using mset_map_insert [of k m v] by (auto simp: map_insert_def simp flip: set_mset_mset)

lemma add_waiting_fold:
  assumes "\<forall>p e. e \<in> set (waiting B p) \<longrightarrow> fst e = hash \<longrightarrow> e = (hash, vMsg)" "\<forall>p. B p \<noteq> Some []"
  shows "(\<forall>p. set (waiting (fold (add_waiting hash vMsg) ins B) p) = set (waiting B p) \<union> (if p \<in> (op_hash \<circ> prevout) ` set ins then {(hash, vMsg)} else {}))
    \<and> (\<forall>p. fold (add_waiting hash vMsg) ins B p \<noteq> Some [])"
  using assms
proof (induction ins arbitrary: B)
  case (Cons i ins)
  let ?h = "op_hash (prevout i)"
  have new: "set (map_insert hash vMsg (waiting B ?h)) = insert (hash, vMsg) (set (waiting B ?h))"
    using Cons.prems(1) by (auto simp: set_map_insert)
  then have w: "set (waiting (add_waiting hash vMsg i B) p) = set (waiting B p) \<union> (if p = ?h then {(hash, vMsg)} else {})" for p
    by (auto simp: add_waiting_def waiting_def)
  have ne: "add_waiting hash vMsg i B p \<noteq> Some []" for p using Cons.prems(2) new by (auto simp: add_waiting_def)
  have "\<forall>p e. e \<in> set (waiting (add_waiting hash vMsg i B) p) \<longrightarrow> fst e = hash \<longrightarrow> e = (hash, vMsg)"
    using Cons.prems(1) by (auto simp: w split: if_splits)
  from Cons.IH [OF this] ne show ?case by (auto simp: w)
qed simp

lemma erase_waiting_fold:
  "(\<forall>p. B p \<noteq> Some []) \<Longrightarrow>
   (\<forall>p. set (waiting (fold (erase_waiting hash) ins B) p) = (if p \<in> (op_hash \<circ> prevout) ` set ins then {e \<in> set (waiting B p). fst e \<noteq> hash} else set (waiting B p)))
   \<and> (\<forall>p. fold (erase_waiting hash) ins B p \<noteq> Some [])"
proof (induction ins arbitrary: B)
  case (Cons i ins)
  let ?h = "op_hash (prevout i)"
  have w: "set (waiting (erase_waiting hash i B) p) = (if p = ?h then {e \<in> set (waiting B p). fst e \<noteq> hash} else set (waiting B p))" for p
  proof (cases "p = ?h")
    case True
    then show ?thesis by (auto simp: erase_waiting_def Let_def waiting_def map_erase_def filter_empty_conv split: option.splits)
  qed (auto simp: erase_waiting_def Let_def waiting_def)
  have ne: "\<forall>p. erase_waiting hash i B p \<noteq> Some []" using Cons.prems by (auto simp: erase_waiting_def Let_def)
  from Cons.IH [OF ne] show ?case by (auto simp: w)
qed simp

lemma orphan_txs_okD:
  assumes "orphan_txs_ok E s"
  shows "distinct (map fst (mapOrphanTransactions s))"
    "(h, m) \<in> set (mapOrphanTransactions s) \<Longrightarrow> length m \<le> 5000 \<and> (\<exists>tx r. Unserialize_CTransaction m = Some (tx, r) \<and> CTransaction_GetHash E tx = h)"
    "set (waiting (mapOrphanTransactionsByPrev s) p) = {(h, m) \<in> set (mapOrphanTransactions s). p \<in> names m}"
    "\<forall>p. mapOrphanTransactionsByPrev s p \<noteq> Some []"
  using assms unfolding orphan_txs_ok_def by blast+

lemma AddOrphanTx_ok:
  assumes "orphan_txs_ok E s" "AddOrphanTx E s vMsg = Some (s', b)"
  shows "orphan_txs_ok E s'"
proof -
  note D = orphan_txs_okD [OF assms(1)]
  obtain tx r where tx: "Unserialize_CTransaction vMsg = Some (tx, r)" using assms(2) by (auto simp: AddOrphanTx_def split: option.splits)
  let ?h = "CTransaction_GetHash E tx" and ?M = "mapOrphanTransactions s"
  show ?thesis
  proof (cases "?h \<in> fst ` set ?M \<or> length vMsg > DEFAULT_MAX_MESSAGE_SIZE")
    case True
    then have "s' = s" using assms(2) tx by (auto simp: AddOrphanTx_def Let_def split: if_splits)
    then show ?thesis using assms(1) by simp
  next
    case False
    then have new: "?h \<notin> fst ` set ?M" by blast
    have s': "mapOrphanTransactions s' = map_insert ?h vMsg ?M"
      "mapOrphanTransactionsByPrev s' = fold (add_waiting ?h vMsg) (vin tx) (mapOrphanTransactionsByPrev s)"
      using assms(2) tx False by (auto simp: AddOrphanTx_def Let_def split: if_splits)
    have set: "set (mapOrphanTransactions s') = insert (?h, vMsg) (set ?M)" unfolding s' by (simp add: set_map_insert new)
    have "\<forall>p e. e \<in> set (waiting (mapOrphanTransactionsByPrev s) p) \<longrightarrow> fst e = ?h \<longrightarrow> e = (?h, vMsg)"
      using new by (auto simp: D(3) image_iff)
    note A = add_waiting_fold [OF this D(4), of "vin tx", folded s'(2)]
    have n: "names vMsg = (op_hash \<circ> prevout) ` set (vin tx)" by (simp add: names_def tx)
    have w: "set (waiting (mapOrphanTransactionsByPrev s') p) = {(h, m) \<in> set (mapOrphanTransactions s'). p \<in> names m}" for p
      using A n unfolding set by (auto simp: D(3))
    have "mset (map fst (mapOrphanTransactions s')) = mset (map fst ((?h, vMsg) # ?M))"
      unfolding s' mset_map mset_map_insert [OF new] by simp
    then have "distinct (map fst (mapOrphanTransactions s'))"
      using new D(1) mset_eq_imp_distinct_iff [of "map fst (mapOrphanTransactions s')" "map fst ((?h, vMsg) # ?M)"] by simp
    moreover have "length vMsg \<le> 5000" using False by (simp add: DEFAULT_MAX_MESSAGE_SIZE_def)
    then have "\<forall>(h, m)\<in>set (mapOrphanTransactions s'). length m \<le> 5000 \<and> (\<exists>tx r. Unserialize_CTransaction m = Some (tx, r) \<and> CTransaction_GetHash E tx = h)"
      unfolding set using D(2) tx by auto
    moreover have "mapOrphanTransactionsByPrev s' p \<noteq> Some []" for p using A by blast
    ultimately show ?thesis unfolding orphan_txs_ok_def using w by simp
  qed
qed

lemma EraseOrphanTx_ok:
  assumes "orphan_txs_ok E s"
  shows "\<exists>s'. EraseOrphanTx s hash = Some s' \<and> orphan_txs_ok E s' \<and> mapOrphanTransactions s' = map_erase hash (mapOrphanTransactions s)"
proof (cases "map_of (mapOrphanTransactions s) hash")
  case None
  then have "map_erase hash (mapOrphanTransactions s) = mapOrphanTransactions s"
    unfolding map_erase_def by (auto simp: map_of_eq_None_iff filter_id_conv image_iff)
  then show ?thesis using None assms by (simp add: EraseOrphanTx_def)
next
  case (Some m)
  note D = orphan_txs_okD [OF assms]
  let ?M = "mapOrphanTransactions s"
  have m: "(hash, m) \<in> set ?M" using Some by (rule map_of_SomeD)
  then obtain tx r where tx: "Unserialize_CTransaction m = Some (tx, r)" using D(2) by blast
  let ?B = "fold (erase_waiting hash) (vin tx) (mapOrphanTransactionsByPrev s)"
  let ?s = "\<lparr> mapOrphanTransactions = map_erase hash ?M, mapOrphanTransactionsByPrev = ?B \<rparr>"
  have e: "EraseOrphanTx s hash = Some ?s" using Some tx by (cases s) (simp add: EraseOrphanTx_def)
  have set: "set (map_erase hash ?M) = {x \<in> set ?M. fst x \<noteq> hash}" by (simp add: map_erase_def)
  note A = erase_waiting_fold [OF D(4), of hash "vin tx"]
  have only: "m' = m" if "(hash, m') \<in> set ?M" for m' using that m D(1) by (metis map_of_is_SomeI option.inject)
  have n: "names m = (op_hash \<circ> prevout) ` set (vin tx)" by (simp add: names_def tx)
  have w: "set (waiting ?B p) = {(h, m) \<in> set (map_erase hash ?M). p \<in> names m}" for p
    using A n only unfolding set by (auto simp: D(3))
  have "distinct (map fst (map_erase hash ?M))" using D(1) by (simp add: map_erase_def distinct_map_filter)
  then have "orphan_txs_ok E ?s" unfolding orphan_txs_ok_def using w A D(2) set by auto
  then show ?thesis using e by auto
qed

lemma LimitOrphanTxSize_ok:
  assumes "orphan_txs_ok E s"
  shows "\<exists>s' n'. LimitOrphanTxSize rnd nMaxOrphans s n = Some (s', n') \<and> orphan_txs_ok E s' \<and> length (mapOrphanTransactions s') \<le> unat nMaxOrphans"
  using assms
proof (induction rnd nMaxOrphans s n rule: LimitOrphanTxSize.induct)
  case (1 rnd nMaxOrphans s n)
  show ?case
  proof (cases "unat nMaxOrphans < length (mapOrphanTransactions s)")
    case True
    obtain s1 where s1: "EraseOrphanTx s (fst (pick_entry (rnd 0) (mapOrphanTransactions s))) = Some s1" "orphan_txs_ok E s1"
      using EraseOrphanTx_ok [OF "1.prems"] by blast
    from "1.IH" [OF True s1] show ?thesis using True s1(1) by (subst LimitOrphanTxSize.simps) (simp add: comp_def)
  next
    case False
    then show ?thesis using "1.prems" by (subst LimitOrphanTxSize.simps) simp
  qed
qed

text \<open>The steps of the message handler.\<close>

definition no_orphan_txs :: orphan_txs where
  "no_orphan_txs = \<lparr> mapOrphanTransactions = [], mapOrphanTransactionsByPrev = Map.empty \<rparr>"

inductive orphan_txs_reachable :: "openssl \<Rightarrow> orphan_txs \<Rightarrow> bool" for E where
  Start: "orphan_txs_reachable E no_orphan_txs"
| Missing: "\<lbrakk>orphan_txs_reachable E s; AddOrphanTx E s vMsg = Some (s1, added);
     LimitOrphanTxSize GetRandHash (word_of_nat MAX_ORPHAN_TRANSACTIONS) s1 0 = Some (s', nEvicted)\<rbrakk> \<Longrightarrow> orphan_txs_reachable E s'"
| Erase: "\<lbrakk>orphan_txs_reachable E s; EraseOrphanTx s hash = Some s'\<rbrakk> \<Longrightarrow> orphan_txs_reachable E s'"

lemma orphan_txs_reachable_ok:
  assumes "orphan_txs_reachable E s"
  shows "orphan_txs_ok E s \<and> length (mapOrphanTransactions s) \<le> 10000"
  using assms
proof (induction rule: orphan_txs_reachable.induct)
  case Start
  then show ?case by (simp add: no_orphan_txs_def orphan_txs_ok_def waiting_def)
next
  case (Missing s vMsg s1 added GetRandHash s' nEvicted)
  have "orphan_txs_ok E s1" using AddOrphanTx_ok [OF _ Missing.hyps(2)] Missing.IH by blast
  from LimitOrphanTxSize_ok [OF this, of GetRandHash "word_of_nat MAX_ORPHAN_TRANSACTIONS" 0] show ?case
    using Missing.hyps(3) by (auto simp: MAX_ORPHAN_TRANSACTIONS_def MAX_BLOCK_SIZE_def)
next
  case (Erase s hash s')
  have "length (map_erase hash (mapOrphanTransactions s)) \<le> length (mapOrphanTransactions s)" unfolding map_erase_def by (rule length_filter_le)
  then show ?case using EraseOrphanTx_ok [of E s hash] Erase by auto
qed

text \<open>
  The pool of orphan transactions stays within its limits: at most 10000 messages of at most
  5000 bytes each; every one waits for exactly the hashes that its inputs name. The eviction
  returns for any limit and any random numbers, and reading the stored messages again never fails.
\<close>

theorem orphan_txs_bounded:
  assumes "orphan_txs_reachable E s"
  shows "length (mapOrphanTransactions s) \<le> 10000 \<and> (\<Sum>e\<leftarrow>mapOrphanTransactions s. length (snd e)) \<le> 50000000
    \<and> (\<forall>p. set (waiting (mapOrphanTransactionsByPrev s) p) = {e \<in> set (mapOrphanTransactions s). p \<in> names (snd e)})
    \<and> (\<forall>rnd nMaxOrphans. LimitOrphanTxSize rnd nMaxOrphans s 0 \<noteq> None)"
proof -
  have ok: "orphan_txs_ok E s" and l: "length (mapOrphanTransactions s) \<le> 10000" using orphan_txs_reachable_ok [OF assms] by blast+
  have "(\<Sum>e\<leftarrow>mapOrphanTransactions s. length (snd e)) \<le> (\<Sum>e\<leftarrow>mapOrphanTransactions s. 5000)"
    using orphan_txs_okD(2) [OF ok] by (intro sum_list_mono) force
  then have "(\<Sum>e\<leftarrow>mapOrphanTransactions s. length (snd e)) \<le> 50000000" using l by (simp add: sum_list_triv)
  moreover have "{(h, m) \<in> set (mapOrphanTransactions s). p \<in> names m} = {e \<in> set (mapOrphanTransactions s). p \<in> names (snd e)}" for p by auto
  moreover have "LimitOrphanTxSize rnd nMaxOrphans s 0 \<noteq> None" for rnd nMaxOrphans using LimitOrphanTxSize_ok [OF ok, of rnd nMaxOrphans 0] by auto
  ultimately show ?thesis using l orphan_txs_okD(3) [OF ok] by simp
qed

theorem orphan_txs_bounded_witness:
  "LimitOrphanTxSize (\<lambda>_. 0) 5 no_orphan_txs 0 \<noteq> None"
  using orphan_txs_bounded [OF orphan_txs_reachable.Start] by blast

end
