(* ===== verification/Spec2Isabelle.thy ===== *)
theory Spec2Isabelle
  imports Bignum Uint256 Serialize Tx Script Sighash Interp Interp_Facts Scrypt Web_Send Web_Ui Base58 Hd
    Web_Hd Mnemonic Bech32_Address Pow Merkle Block Subsidy Connect Chain
    Mempool Relay Orphans
begin

text \<open>
  CorgiCoin: the browser wallet (\<open>src/contrib/webwallet\<close>, JavaScript), the part of the daemon
  (\<open>src/src\<close>, C++) that it has to agree with, and the daemon's consensus rules.

  \<^bold>\<open>The program.\<close> The wallet derives keys from a recovery phrase, shows addresses, and builds and
  signs legacy transactions in the page; the daemon checks and relays them. The two share no
  code: the wallet re-implements the daemon's HD derivation, address text, transaction format,
  signature hash and fee rule. The development models both sides from their own sources and
  proves that they agree, and proves the daemon's side correct on its own: what a block has to be,
  what difficulty and reward it must have, what connecting and disconnecting it does to the
  transaction index, and what a reorganization leaves of it.

  \<^bold>\<open>The wallet.\<close>
  \<^item> \<open>Web_Base\<close>: the JavaScript the wallet uses (strings, \<open>BigInt\<close>, exceptions as a sum type),
    the byte helpers, hashes and base58check of \<open>wallet.js\<close>.
  \<^item> \<open>Wordlist\<close>, \<open>Web_Wallet\<close>: the word list; phrases, BIP32 nodes, accounts and the self test of
    \<open>wallet.js\<close>.
  \<^item> \<open>Web_Tx\<close>: all of \<open>tx.js\<close>; \<open>Web_Ui\<close>: the amount field of \<open>index.html\<close>.
  \<^item> \<open>Coin_Selection\<close>: largest-first selection reaches the target whenever the coins do, with the
    fewest coins.
  \<^item> \<open>Web_Facts\<close>, \<open>Web_Send\<close>: \<open>serialize\<close> is the daemon's serialization under the abstraction
    \<open>CTransaction_of\<close>; the preimage that is signed is the one the daemon hashes; what
    \<open>buildAndSign\<close> returns passes the daemon's script verification, conserves value, pays the
    daemon's minimum fee, when it returns and when it refuses.
  \<^item> \<open>Web_Hd\<close>, \<open>Mnemonic\<close>: the same phrase gives the same keys and addresses on both sides; a
    generated phrase is the daemon's for the same entropy and passes its checksum test.

  \<^bold>\<open>The daemon.\<close>
  \<^item> \<open>Bignum\<close> (\<open>bignum.h\<close>): conversions and the compact form of targets; \<open>Uint256\<close>
    (\<open>uint256.h\<close>): the limb loops implement arithmetic modulo a power of two.
  \<^item> \<open>Serialize\<close> (\<open>serialize.h\<close>): compact sizes, byte vectors and object vectors, with round trips
    through the locales \<open>codec\<close> and \<open>codec_ok\<close>; \<open>Tx\<close> (\<open>main.h\<close>, \<open>main.cpp\<close>): transactions,
    their context-free rules, fees and replacement.
  \<^item> \<open>Script\<close>, \<open>Sighash\<close>, \<open>Interp\<close>, \<open>Interp_Facts\<close> (\<open>script.h\<close>, \<open>script.cpp\<close>): scripts and their
    standard forms, signature hashes and the signature cache, the interpreter, what it takes to
    spend the standard forms. Two spends have the same signature hash exactly when they agree on what
    the hash type covers. The states that the interpreter reaches between instructions are an
    inductive relation (\<open>eval_reach\<close>); in each of them the limits on stacks and operations hold.
  \<^item> \<open>Scrypt\<close> (\<open>scrypt.c\<close>): the proof-of-work hash computes scrypt(1024, 1, 1).
  \<^item> \<open>Base58\<close> (\<open>base58.h\<close>): base58 text, addresses and secret keys; \<open>Hd\<close> (\<open>bip32.cpp\<close>,
    \<open>bip39.cpp\<close>, \<open>key.cpp\<close>, \<open>wallet.cpp\<close>): extended keys, mnemonics, the wallet's path.

  \<^item> \<open>Bech32\<close> (\<open>bech32.cpp\<close>), \<open>Bech32_Address\<close> (\<open>base58.h\<close>): the checksum is linear over the
    field with two elements and finds every short burst of errors; \<open>Decode\<close> accepts exactly what
    \<open>Encode\<close> makes; an address is read back from both of its texts.

  \<^bold>\<open>Blocks and the chain.\<close>
  \<^item> \<open>Pow\<close> (\<open>main.cpp\<close>, \<open>main.h\<close>): the block index, targets, the interval rule and LWMA, the minimum
    work after a checkpoint. A pointer to a block index entry is the list of the entry and its
    ancestors, newest first (\<open>chain\<close>). The required target is defined for every chain, is bounded
    by the window's average, and is accepted by the proof-of-work check.
  \<^item> \<open>Merkle\<close> (\<open>main.h\<close>): the array \<open>BuildMerkleTree\<close> fills is the rows of the recursive tree, and a branch proves
    exactly the leaf at its position.
  \<^item> \<open>Block\<close> (\<open>auxpow.h\<close>, \<open>main.h\<close>, \<open>main.cpp\<close>): headers, blocks with merged-mining proofs and their
    wire form, \<open>CAuxPow::Check\<close>, \<open>CheckBlock\<close>. An accepted block is bound by its merkle root, and a
    parent coinbase proves work for one block only; without the merged-mining magic, two roots that
    overlap are the exception.
  \<^item> \<open>Subsidy\<close> (\<open>main.cpp\<close>, \<open>util.cpp\<close>): the block reward, with the Mersenne twister and the
    hexadecimal seed it uses; bounds of the reward.
  \<^item> \<open>Connect\<close> (\<open>main.cpp\<close>, \<open>db.cpp\<close>, \<open>checkpoints.cpp\<close>): the transaction index, \<open>FetchInputs\<close>,
    \<open>ConnectInputs\<close>, \<open>ConnectBlock\<close>, \<open>DisconnectBlock\<close>. The abstract side is a ledger, a map from
    outpoints to unspent outputs; connecting a block refines the ledger's steps, disconnecting
    undoes it, and the supply grows by at most the reward.
  \<^item> \<open>Chain\<close> (\<open>main.cpp\<close>): reading blocks, the search for the fork, \<open>Reorganize\<close>. The fork is the last
    common ancestor, and the index afterwards is the one of the new chain.
  \<^item> \<open>Mempool\<close> (\<open>main.cpp\<close>, \<open>main.h\<close>): standard transactions, \<open>CTxMemPool\<close>. \<open>accept\<close> is equivalent to the conditions
    it checks; in every reachable pool no output is spent twice.
  \<^item> \<open>Orphans\<close> (\<open>main.cpp\<close>): the pools of orphan blocks and transactions. They stay within their limits for
    every order of arrival and all random numbers, and their counters and indexes are exact.
  \<^item> \<open>Relay\<close>: wallet and daemon together. What \<open>buildAndSign\<close> returns, from coins that the daemon has on
    its chain, the daemon's memory pool accepts.

  \<^bold>\<open>Shared.\<close> \<open>Prelude\<close> has byte strings and words; \<open>Positional\<close> positional numerals (locales
  \<open>radix\<close>, \<open>alphabet\<close>) and base58 as a bijection, used by both sides.

  \<^bold>\<open>Code that is not in the repository.\<close> OpenSSL is the records \<open>openssl\<close> (\<open>Externals\<close>) and
  \<open>openssl_hd\<close>; SubtleCrypto, Unicode normalization and the vendored noble libraries are the record
  \<open>webcrypto\<close>. What the code relies on of them is a locale each: digest and MAC lengths
  (\<open>openssl_digest\<close>, \<open>web_digest\<close>, \<open>web_hmac\<close>), the MPI number format (\<open>openssl_mpi\<close>,
  \<open>openssl_bn\<close>), that both sides compute the same standard functions (\<open>same_crypto\<close>,
  \<open>same_hd\<close>), and that the daemon verifies what the wallet signs (\<open>signer\<close>). Every locale is
  interpreted on concrete functions.

  \<^bold>\<open>Hypotheses on the chain.\<close> That a hash binds its input is \<open>no_collision\<close> or \<open>inj_on\<close>, for the
  inputs that the theorem names and no others. Connecting relies on the block being in its file where its index entry
  says (\<open>stored\<close>), on every entry of the index locating a transaction with its hash (\<open>index_ok\<close>, which
  every step keeps), and on the date from which BIP30 is enforced; the bound on the supply on
  eighty billion coins at most being in circulation, below which the fees of a block do not overflow. Writes to
  the database do not fail.

  \<^bold>\<open>Loops.\<close> Every loop is a total function. The fee loop of \<open>buildAndSign\<close> has the bound of four
  passes that the code has; \<open>buildAndSign_returns\<close> shows when four are enough and
  \<open>buildAndSign_gives_up\<close> wallets for which they are not.

  \<^bold>\<open>Simplifications.\<close> JavaScript strings are lists of 8-bit characters and \<open>Number\<close>s are integers;
  amounts that are not integers do not occur after \<open>BigInt\<close>. An \<open>async\<close> function is the function of
  its awaited result. C++ allocation failures and OpenSSL's internal errors are not modelled.

  \<^bold>\<open>Not modelled.\<close> What follows the commit of a reorganization in \<open>SetBestChain\<close> (the links to the
  next block, the update of the memory pool) and message handling; the floating-point
  state of the rate limiter for free transactions, whose verdict is an argument of \<open>accept\<close>; the Qt interface, the RPC server,
  networking, the wallet database and encryption, which are I/O around the modelled parts; the
  page's DOM code and the explorer.
\<close>

end
